(* ===== verification/Logger_Prelude.thy ===== *)
theory Logger_Prelude
  imports Main "HOL-Library.Word"
begin

text \<open>
  The vocabulary every component shares: bytes and byte strings, the width of
  \<open>std::size_t\<close>, exceptions as values, the little-endian 32-bit codec that the
  code writes out in three places, and the list lemmas about memory regions.
\<close>

unbundle bit_operations_syntax

section \<open>Types\<close>

type_synonym byte = "8 word"
type_synonym bytes = "8 word list"
type_synonym u32 = "32 word"

text \<open>
  \<open>std::runtime_error\<close> and \<open>std::system_error\<close> with their message; a function of the
  code that may throw returns \<open>exn + 'a\<close>.
\<close>

datatype exn = RuntimeError string | SystemError nat string

type_synonym 'a res = "exn + 'a"

text \<open>\<open>std::size_t\<close> is 64 bits wide: sums that the code lets wrap are written with \<open>add64\<close>.\<close>

definition size_bound :: nat where
  "size_bound = 2 ^ 64"

definition add64 :: "nat \<Rightarrow> nat \<Rightarrow> nat" where
  "add64 a b = (a + b) mod 2 ^ 64"

lemma add64_small: "a + b < 2 ^ 64 \<Longrightarrow> add64 a b = a + b"
  by (simp add: add64_def)

named_theorems region_simps "how reads and writes of a memory region compose"

section \<open>The little-endian 32-bit codec\<close>

definition encode_le32 :: "u32 \<Rightarrow> bytes" where
  "encode_le32 v =
     [ucast (v AND 255), ucast (drop_bit 8 v AND 255),
      ucast (drop_bit 16 v AND 255), ucast (drop_bit 24 v AND 255)]"

definition decode_le32 :: "bytes \<Rightarrow> u32" where
  "decode_le32 p =
     ucast (p ! 0) OR push_bit 8 (ucast (p ! 1)) OR
     push_bit 16 (ucast (p ! 2)) OR push_bit 24 (ucast (p ! 3))"

lemma length_encode_le32 [simp]: "length (encode_le32 v) = 4"
  by (simp add: encode_le32_def)

lemma encode_le32_neq_Nil [simp]: "encode_le32 v \<noteq> []"
  by (simp add: encode_le32_def)

lemma low_byte: "(v :: u32) AND 255 = take_bit 8 v"
  by (simp add: take_bit_eq_mask mask_numeral)

lemma decode_encode_le32 [simp]: "decode_le32 (encode_le32 v) = v"
proof (rule bit_word_eqI)
  fix n assume "n < LENGTH(32)"
  then have n: "n < 32" by simp
  consider "n < 8" | "8 \<le> n" "n < 16" | "16 \<le> n" "n < 24" | "24 \<le> n" by linarith
  then show "bit (decode_le32 (encode_le32 v)) n \<longleftrightarrow> bit v n"
    unfolding decode_le32_def encode_le32_def low_byte
    using n
    by cases (simp_all add: bit_or_iff bit_take_bit_iff
        bit_push_bit_iff bit_ucast_iff bit_drop_bit_eq, auto)
qed

lemma decode_le32_append [simp]: "decode_le32 (encode_le32 v @ xs) = v"
proof -
  have "decode_le32 (encode_le32 v @ xs) = decode_le32 (encode_le32 v)"
    by (simp add: decode_le32_def encode_le32_def)
  then show ?thesis by simp
qed

lemma encode_decode_le32:
  assumes "length p = 4"
  shows "encode_le32 (decode_le32 p) = p"
proof -
  obtain a b c d where p: "p = [a, b, c, d]"
    using assms by (auto simp: numeral_eq_Suc length_Suc_conv)
  have low: "(ucast (v AND 255) :: byte) = ucast v" for v :: u32
    unfolding low_byte by (rule bit_word_eqI) (simp add: bit_ucast_iff bit_take_bit_iff)
  have at: "(ucast (drop_bit k (decode_le32 p)) :: byte) = p ! (k div 8)" if "k \<in> {0, 8, 16, 24}" for k
  proof (rule bit_word_eqI)
    fix n assume "n < LENGTH(8)"
    then have n: "n < 8" by simp
    have big: "\<not> bit (x :: byte) m" if "8 \<le> m" for x m
      using that bit_imp_le_length [of x m] by auto
    show "bit (ucast (drop_bit k (decode_le32 p)) :: byte) n = bit (p ! (k div 8)) n"
      using that n
      by (auto simp: decode_le32_def p bit_ucast_iff bit_drop_bit_eq bit_or_iff bit_push_bit_iff big)
  qed
  from at [of 0] at [of 8] at [of 16] at [of 24] show ?thesis
    by (simp add: encode_le32_def low) (simp add: p)
qed

lemma decode_le32_take [simp]: "decode_le32 (take 4 bs) = decode_le32 bs"
  by (simp add: decode_le32_def)

lemma decode_le32_zeros: "decode_le32 (replicate (Suc (Suc (Suc (Suc n)))) 0) = 0"
  by (simp add: decode_le32_def)

lemma unat_of_nat32: "n < 2 ^ 32 \<Longrightarrow> unat (of_nat n :: u32) = n"
  by (simp add: unat_of_nat take_bit_nat_eq_self)

section \<open>Memory regions\<close>

text \<open>
  A mapped region is the list of its bytes. \<open>mem_write\<close> is \<open>memcpy\<close> into it and
  \<open>mem_read\<close> reads a block; both are only used inside the region's bounds.
\<close>

definition mem_write :: "bytes \<Rightarrow> nat \<Rightarrow> bytes \<Rightarrow> bytes" where
  "mem_write mem off bs = take off mem @ bs @ drop (off + length bs) mem"

definition mem_read :: "bytes \<Rightarrow> nat \<Rightarrow> nat \<Rightarrow> bytes" where
  "mem_read mem off n = take n (drop off mem)"

lemma length_mem_write [simp]:
  "off + length bs \<le> length mem \<Longrightarrow> length (mem_write mem off bs) = length mem"
  by (simp add: mem_write_def)

lemma mem_write_Nil [simp]: "mem_write mem off [] = mem"
  by (simp add: mem_write_def)

lemma mem_write_at [region_simps]:
  "length xs = off \<Longrightarrow> length ys = length bs \<Longrightarrow>
     mem_write (xs @ ys @ zs) off bs = xs @ bs @ zs"
  by (simp add: mem_write_def)

lemma mem_read_at [region_simps]:
  "length xs = off \<Longrightarrow> length ys = n \<Longrightarrow> mem_read (xs @ ys @ zs) off n = ys"
  by (simp add: mem_read_def)

lemma mem_write_zeros [region_simps]:
  assumes "length xs = off" and "length bs \<le> n"
  shows "mem_write (xs @ replicate n 0) off bs = xs @ bs @ replicate (n - length bs) 0"
  using assms by (simp add: mem_write_def)

section \<open>Decimal output\<close>

text \<open>
  \<open>std::to_string\<close> on an integer, and fmt's \<open>{:0wd}\<close>, which pads with zeros after
  the sign up to a total width \<open>w\<close>.
\<close>

definition digit_char :: "nat \<Rightarrow> char" where
  "digit_char d = char_of (48 + d mod 10)"

fun dec_digits :: "nat \<Rightarrow> string" where
  "dec_digits n = (if n < 10 then [digit_char n] else dec_digits (n div 10) @ [digit_char n])"

declare dec_digits.simps [simp del]

definition dec_int :: "int \<Rightarrow> string" where
  "dec_int i = (if i < 0 then CHR ''-'' # dec_digits (nat (- i)) else dec_digits (nat i))"

definition pad_dec :: "nat \<Rightarrow> int \<Rightarrow> string" where
  "pad_dec w i =
     (let ds = dec_digits (nat \<bar>i\<bar>); sg = (if i < 0 then ''-'' else [])
      in sg @ replicate (w - length sg - length ds) (CHR ''0'') @ ds)"

lemma dec_digits_neq_Nil [simp]: "dec_digits n \<noteq> []"
  by (subst dec_digits.simps) simp

text \<open>The last \<open>w\<close> digits of \<open>n\<close>, with leading zeros: what \<open>pad_dec\<close> prints when \<open>n\<close> fits.\<close>

fun fixed_digits :: "nat \<Rightarrow> nat \<Rightarrow> string" where
  "fixed_digits 0 n = []"
| "fixed_digits (Suc w) n = fixed_digits w (n div 10) @ [digit_char n]"

lemma length_fixed_digits [simp]: "length (fixed_digits w n) = w"
  by (induction w arbitrary: n) auto

lemma fixed_digits_0: "fixed_digits w 0 = replicate w (CHR ''0'')"
proof (induction w)
  case (Suc w)
  have "digit_char 0 = CHR ''0''" by code_simp
  with Suc show ?case by (simp add: replicate_append_same)
qed simp

lemma fixed_digits_dec:
  "n < 10 ^ w \<Longrightarrow> 0 < w \<Longrightarrow>
     fixed_digits w n = replicate (w - length (dec_digits n)) (CHR ''0'') @ dec_digits n
     \<and> length (dec_digits n) \<le> w"
proof (induction w arbitrary: n)
  case (Suc w)
  show ?case
  proof (cases "n < 10")
    case True
    then show ?thesis
      by (simp add: dec_digits.simps [of n] fixed_digits_0)
  next
    case False
    with Suc.prems(1) have w: "0 < w" by (cases w) auto
    from Suc.prems(1) have "n div 10 < 10 ^ w" by (simp add: less_mult_imp_div_less mult.commute)
    from Suc.IH [OF this w] False show ?thesis
      by (simp add: dec_digits.simps [of n] Suc_diff_le)
  qed
qed simp

lemma pad_dec_fixed:
  "n < 10 ^ w \<Longrightarrow> 0 < w \<Longrightarrow> pad_dec w (int n) = fixed_digits w n"
  by (simp add: pad_dec_def fixed_digits_dec Let_def)

text \<open>Reading a decimal back: two numbers that print alike are equal.\<close>

definition dec_value :: "string \<Rightarrow> nat" where
  "dec_value cs = foldl (\<lambda>a c. 10 * a + (of_char c - 48)) 0 cs"

lemma dec_value_snoc: "dec_value (cs @ [c]) = 10 * dec_value cs + (of_char c - 48)"
  by (simp add: dec_value_def)

lemma of_digit_char: "of_char (digit_char n) = (48 + n mod 10 :: nat)"
proof -
  have "n mod 10 < 10" by simp
  then have "(48 + n mod 10) mod 256 = 48 + n mod 10" by (intro mod_less) simp
  then show ?thesis by (simp add: digit_char_def)
qed

text \<open>Only the characters from 0 to 9 occur.\<close>

lemma digit_codes: "c \<in> set (dec_digits n) \<Longrightarrow> 48 \<le> (of_char c :: nat) \<and> of_char c < (58 :: nat)"
proof (induction n rule: dec_digits.induct)
  case (1 n)
  then show ?case by (subst (asm) (2) dec_digits.simps) (auto simp: of_digit_char split: if_splits)
qed

lemma dec_value_digits [simp]: "dec_value (dec_digits n) = n"
proof (induction n rule: dec_digits.induct)
  case (1 n)
  show ?case
  proof (cases "n < 10")
    case True
    then show ?thesis
      using dec_value_snoc [of "[]" "digit_char n"]
      by (simp add: dec_digits.simps [of n] of_digit_char dec_value_def)
  next
    case False
    then show ?thesis
      using 1 by (simp add: dec_digits.simps [of n] of_digit_char dec_value_snoc)
  qed
qed

lemma dec_value_zeros: "dec_value (replicate k (CHR ''0'') @ cs) = dec_value cs"
proof -
  have "foldl (\<lambda>a c. 10 * a + (of_char c - 48)) 0 (replicate k (CHR ''0'')) = (0 :: nat)"
    by (induction k) simp_all
  then show ?thesis by (simp add: dec_value_def)
qed

lemma dec_value_pad [simp]: "dec_value (pad_dec w (int n)) = n"
  by (simp add: pad_dec_def Let_def dec_value_zeros)

lemma pad_dec_inj: "pad_dec w (int m) = pad_dec w (int n) \<longleftrightarrow> m = n"
  by (metis dec_value_pad)

section \<open>Paths\<close>

text \<open>\<open>dir / name\<close> for a relative \<open>name\<close>, and the guard the code puts in front of it.\<close>

definition path_join :: "string \<Rightarrow> string \<Rightarrow> string" where
  "path_join dir name =
     (if dir = [] then name else if last dir = CHR ''/'' then dir @ name else dir @ ''/'' @ name)"

lemma path_join_inj: "path_join dir a = path_join dir b \<longleftrightarrow> a = b"
  by (simp add: path_join_def)

section \<open>Transition systems and their invariants\<close>

text \<open>
  The interface of every interleaving model of the development: an initial-state predicate, a
  step relation over atomic steps, and the invariant that the component promises. A
  component discharges the two laws once; what it exports is the invariant of every state
  a run reaches.
\<close>

locale invariant_system =
  fixes start :: "'s \<Rightarrow> bool"
    and step :: "'s \<Rightarrow> 's \<Rightarrow> bool"
    and inv :: "'s \<Rightarrow> bool"
  assumes start_inv: "start s \<Longrightarrow> inv s"
    and step_inv: "step s t \<Longrightarrow> inv s \<Longrightarrow> inv t"
begin

lemma steps_inv: "step\<^sup>*\<^sup>* s t \<Longrightarrow> inv s \<Longrightarrow> inv t"
  by (induction rule: rtranclp_induct) (auto intro: step_inv)

lemma reachable_inv: "start s \<Longrightarrow> step\<^sup>*\<^sup>* s t \<Longrightarrow> inv t"
  by (blast intro: start_inv steps_inv)

end

text \<open>
  A labelled step function gives executable runs: \<open>run_acts\<close> performs a schedule (a list of
  actions), \<open>None\<close> when an action is not enabled.
\<close>

fun run_acts :: "('a \<Rightarrow> 's \<Rightarrow> 's option) \<Rightarrow> 'a list \<Rightarrow> 's \<Rightarrow> 's option" where
  "run_acts ex [] s = Some s"
| "run_acts ex (a # as) s = (case ex a s of None \<Rightarrow> None | Some t \<Rightarrow> run_acts ex as t)"

definition acts_step :: "('a \<Rightarrow> 's \<Rightarrow> 's option) \<Rightarrow> 's \<Rightarrow> 's \<Rightarrow> bool" where
  "acts_step ex s t \<longleftrightarrow> (\<exists>a. ex a s = Some t)"

lemma run_acts_steps:
  "run_acts ex as s = Some t \<Longrightarrow> (acts_step ex)\<^sup>*\<^sup>* s t"
proof (induction as arbitrary: s)
  case (Cons a as)
  then obtain u where "ex a s = Some u" and u: "run_acts ex as u = Some t"
    by (auto split: option.splits)
  then have "acts_step ex s u" by (auto simp: acts_step_def)
  with Cons.IH [OF u] show ?case by (rule converse_rtranclp_into_rtranclp [rotated])
qed simp

lemma run_acts_append:
  "run_acts ex (as @ bs) s = Option.bind (run_acts ex as s) (run_acts ex bs)"
  by (induction as arbitrary: s) (auto split: option.splits)

end
