(* ===== verification/Mmap_Region.thy ===== *)
theory Mmap_Region
  imports Logger_Prelude
begin

text \<open>
  \<open>mmap/mmap_region.cpp\<close> (POSIX branch): the RAII wrapper of one mapped file. The operating
  system is explicit: \<open>os\<close> lists the descriptors and mappings the process holds, and the
  outcome of every system call is an argument (\<open>replies\<close>), so that each failure path of
  \<open>Create\<close> is a branch. What the theory shows: page rounding and its bounds, the block that
  \<open>Sync\<close> hands to \<open>msync\<close>, and that no path of \<open>Create\<close>, \<open>Close\<close> and the moves loses or
  duplicates a descriptor or a mapping.
\<close>

section \<open>Page arithmetic\<close>

definition RoundUpToPage :: "nat \<Rightarrow> nat \<Rightarrow> nat" where
  "RoundUpToPage page n =
     (if page = 0 then n else (n + page - 1) mod 2 ^ 64 div page * page)"

lemma round_up_bounds:
  assumes "0 < page" and "n + page \<le> 2 ^ 64"
  shows "page dvd RoundUpToPage page n" and "n \<le> RoundUpToPage page n"
    and "RoundUpToPage page n < n + page"
proof -
  have eq: "RoundUpToPage page n = (n + page - 1) div page * page"
    using assms by (simp add: RoundUpToPage_def)
  show "page dvd RoundUpToPage page n" by (simp add: eq)
  have "(n + page - 1) div page * page + (n + page - 1) mod page = n + page - 1"
    by (rule div_mult_mod_eq)
  moreover have "(n + page - 1) mod page < page" using assms(1) by simp
  ultimately show "n \<le> RoundUpToPage page n" and "RoundUpToPage page n < n + page"
    using assms(1) unfolding eq by linarith+
qed

text \<open>
  The sum \<open>n + page - 1\<close> wraps for the last page of the address range: the region is then
  asked for with size 0.
\<close>

lemma round_up_wraps:
  "0 < page \<Longrightarrow> page \<le> 2 ^ 63 \<Longrightarrow> 2 ^ 64 - page < n \<Longrightarrow> n < 2 ^ 64 \<Longrightarrow> RoundUpToPage page n = 0"
proof -
  assume a: "0 < page" "page \<le> 2 ^ 63" "2 ^ 64 - page < n" "n < 2 ^ 64"
  define k where "k = n + page - 1 - 2 ^ 64"
  have nk: "n + page - 1 = 2 ^ 64 + k" and k: "k < page"
    using a unfolding k_def by linarith+
  have "k < 2 ^ 64" using k a(2) by simp
  then have "(n + page - 1) mod 2 ^ 64 = k" unfolding nk by simp
  with k a(1) show ?thesis by (simp add: RoundUpToPage_def)
qed

section \<open>The process's descriptors and mappings\<close>

record os =
  os_fds :: "int list"
  os_maps :: "(nat \<times> nat) list"

text \<open>
  What the system calls of one \<open>Create\<close> answer: the descriptor of \<open>open\<close> (negative on
  failure), the status of \<open>ftruncate\<close>, the address of \<open>mmap\<close> (\<open>None\<close> is \<open>MAP_FAILED\<close>) and
  \<open>errno\<close> after a failure.
\<close>

record replies =
  rp_open :: int
  rp_ftruncate :: int
  rp_mmap :: "nat option"
  rp_errno :: nat

definition os_close :: "int \<Rightarrow> os \<Rightarrow> os" where
  "os_close fd w = w\<lparr>os_fds := remove1 fd (os_fds w)\<rparr>"

definition os_munmap :: "nat \<Rightarrow> nat \<Rightarrow> os \<Rightarrow> os" where
  "os_munmap addr len w = w\<lparr>os_maps := remove1 (addr, len) (os_maps w)\<rparr>"

section \<open>The region\<close>

record region =
  rg_path :: string
  rg_data :: "nat option"
  rg_size :: nat
  rg_fd :: int

definition empty_region :: region where
  "empty_region = \<lparr>rg_path = [], rg_data = None, rg_size = 0, rg_fd = -1\<rparr>"

definition einval :: nat where
  "einval = 22"

text \<open>
  \<open>create_directories\<close> runs before \<open>open\<close> and its error is ignored by the code; it touches
  neither descriptors nor mappings.
\<close>

definition Create :: "nat \<Rightarrow> string \<Rightarrow> nat \<Rightarrow> replies \<Rightarrow> os \<Rightarrow> region res \<times> os" where
  "Create page path size_bytes rp w =
     (if size_bytes = 0
      then (Inl (SystemError einval ''MmapRegion::Create: size_bytes == 0''), w)
      else
        let mapped = RoundUpToPage page size_bytes;
            r = empty_region\<lparr>rg_path := path, rg_size := mapped\<rparr>;
            fd = rp_open rp
        in if fd < 0 then (Inl (SystemError (rp_errno rp) ''open''), w)
           else
             let w1 = w\<lparr>os_fds := fd # os_fds w\<rparr>
             in if rp_ftruncate rp \<noteq> 0
                then (Inl (SystemError (rp_errno rp) ''ftruncate''), os_close fd w1)
                else (case rp_mmap rp of
                        None \<Rightarrow> (Inl (SystemError (rp_errno rp) ''mmap''), os_close fd w1)
                      | Some addr \<Rightarrow>
                          (Inr (r\<lparr>rg_fd := fd, rg_data := Some addr\<rparr>),
                           w1\<lparr>os_maps := (addr, mapped) # os_maps w1\<rparr>)))"

definition Close :: "region \<Rightarrow> os \<Rightarrow> region \<times> os" where
  "Close r w =
     (let (r1, w1) = (case rg_data r of
                        Some addr \<Rightarrow> (r\<lparr>rg_data := None\<rparr>, os_munmap addr (rg_size r) w)
                      | None \<Rightarrow> (r, w));
          (r2, w2) = (if 0 \<le> rg_fd r1 then (r1\<lparr>rg_fd := -1\<rparr>, os_close (rg_fd r1) w1)
                      else (r1, w1))
      in (r2\<lparr>rg_size := 0\<rparr>, w2))"

text \<open>The moved-from path is left empty, as \<open>std::filesystem::path\<close>'s move does in practice.\<close>

definition MoveConstruct :: "region \<Rightarrow> region \<times> region" where
  "MoveConstruct other =
     (\<lparr>rg_path = rg_path other, rg_data = rg_data other, rg_size = rg_size other, rg_fd = rg_fd other\<rparr>,
      other\<lparr>rg_path := [], rg_data := None, rg_size := 0, rg_fd := -1\<rparr>)"

definition MoveAssign :: "bool \<Rightarrow> region \<Rightarrow> region \<Rightarrow> os \<Rightarrow> region \<times> region \<times> os" where
  "MoveAssign same this other w =
     (if same then (this, this, w)
      else
        let (this1, w1) = Close this w
        in (this1\<lparr>rg_path := rg_path other, rg_data := rg_data other, rg_size := rg_size other,
                  rg_fd := rg_fd other\<rparr>,
            other\<lparr>rg_path := [], rg_fd := -1, rg_data := None, rg_size := 0\<rparr>, w1))"

text \<open>What \<open>Sync\<close> does: the \<open>msync\<close> calls it makes, as offset and length, and its outcome.\<close>

definition Sync :: "nat \<Rightarrow> region \<Rightarrow> nat \<Rightarrow> nat \<Rightarrow> int \<Rightarrow> nat \<Rightarrow> (nat \<times> nat) list \<times> unit res" where
  "Sync page r off len rc err =
     (if rg_data r = None \<or> len = 0 then ([], Inr ())
      else if rg_size r \<le> off then ([], Inr ())
      else
        let len1 = (if rg_size r < add64 off len then rg_size r - off else len);
            aligned_off = (if page \<noteq> 0 then off div page * page else off);
            pad = off - aligned_off
        in ([(aligned_off, len1 + pad)],
            if rc \<noteq> 0 then Inl (SystemError err ''msync'') else Inr ()))"

section \<open>Ownership\<close>

text \<open>What a region object owns: the descriptors and the mappings its \<open>Close\<close> releases.\<close>

definition owned_fds :: "region \<Rightarrow> int list" where
  "owned_fds r = (if 0 \<le> rg_fd r then [rg_fd r] else [])"

definition owned_maps :: "region \<Rightarrow> (nat \<times> nat) list" where
  "owned_maps r = (case rg_data r of Some addr \<Rightarrow> [(addr, rg_size r)] | None \<Rightarrow> [])"

lemmas os_simps = os_close_def os_munmap_def owned_fds_def owned_maps_def

lemma Create_error_os:
  "Create page path n rp w = (Inl e, w') \<Longrightarrow> w' = w"
  by (auto simp: Create_def Let_def os_close_def split: if_splits option.splits)

lemma Create_ok:
  assumes "Create page path n rp w = (Inr r, w')"
  shows "os_fds w' = owned_fds r @ os_fds w" and "os_maps w' = owned_maps r @ os_maps w"
    and "rg_size r = RoundUpToPage page n" and "n \<noteq> 0" and "rg_path r = path"
    and "rg_data r \<noteq> None" and "0 \<le> rg_fd r"
  using assms
  by (auto simp: Create_def Let_def os_simps empty_region_def split: if_splits option.splits)

lemma Close_releases:
  assumes "Close r w = (r', w')"
  shows "os_fds w' = fold remove1 (owned_fds r) (os_fds w)"
    and "os_maps w' = fold remove1 (owned_maps r) (os_maps w)"
    and "owned_fds r' = []" and "owned_maps r' = []" and "rg_size r' = 0"
  using assms
  by (auto simp: Close_def Let_def os_simps split: if_splits option.splits)

lemma Close_idem:
  assumes "Close r w = (r', w')"
  shows "Close r' w' = (r', w')"
  using assms
  by (auto simp: Close_def Let_def os_simps split: if_splits option.splits)

lemma create_close:
  assumes "Create page path n rp w = (Inr r, w1)" and "Close r w1 = (r', w2)"
  shows "w2 = w"
proof -
  have "os_fds w2 = os_fds w" and "os_maps w2 = os_maps w"
    using Close_releases(1,2) [OF assms(2)] Create_ok(1,2,6,7) [OF assms(1)]
    by (auto simp: owned_fds_def owned_maps_def)
  then show ?thesis by simp
qed

lemma MoveConstruct_owner:
  assumes "MoveConstruct other = (r, other')"
  shows "owned_fds r = owned_fds other" and "owned_maps r = owned_maps other"
    and "owned_fds other' = []" and "owned_maps other' = []"
  using assms by (auto simp: MoveConstruct_def os_simps split: option.split)

lemma MoveAssign_owner:
  assumes "MoveAssign False this other w = (this', other', w')"
  shows "owned_fds this' = owned_fds other" and "owned_maps this' = owned_maps other"
    and "owned_fds other' = []" and "owned_maps other' = []"
    and "w' = snd (Close this w)"
  using assms
  by (auto simp: MoveAssign_def os_simps case_prod_beta Let_def split: option.split)

section \<open>Sync\<close>

lemma Sync_call:
  assumes "rg_data r = Some a" and "0 < page" and "0 < len" and "off < rg_size r"
    and "off + len < 2 ^ 64"
  obtains o' l' where "fst (Sync page r off len rc err) = [(o', l')]"
    and "page dvd o'" and "o' \<le> off" and "off < o' + page" and "o' + l' = min (off + len) (rg_size r)"
proof
  define o' where "o' = off div page * page"
  define l' where "l' = min (off + len) (rg_size r) - o'"
  have le: "o' \<le> off" by (simp add: o'_def)
  show "page dvd o'" by (simp add: o'_def)
  show "o' \<le> off" by (rule le)
  have "off = o' + off mod page" by (simp add: o'_def)
  moreover have "off mod page < page" using assms(2) by simp
  ultimately show "off < o' + page" by linarith
  show "o' + l' = min (off + len) (rg_size r)"
    using le assms(4) by (simp add: l'_def)
  show "fst (Sync page r off len rc err) = [(o', l')]"
    using assms le by (simp add: Sync_def Let_def add64_small l'_def o'_def add.commute)
qed

section \<open>Properties\<close>

text \<open>
  C32. Whatever the system calls answer, \<open>Create\<close> either throws and leaves the process's
  descriptors and mappings exactly as they were, or returns a region that owns one descriptor
  and one mapping of the rounded size; after a move the source owns nothing (closing it is a
  no-op), and closing the new owner gives back everything \<open>Create\<close> took.
\<close>

theorem region_lifecycle:
  "case Create page path n rp w of
     (Inl e, w1) \<Rightarrow> w1 = w
   | (Inr r, w1) \<Rightarrow>
       length (owned_fds r) = 1 \<and> owned_maps r = [(the (rg_data r), RoundUpToPage page n)]
       \<and> snd (Close (snd (MoveConstruct r)) w1) = w1
       \<and> snd (Close (fst (MoveConstruct r)) w1) = w"
proof (cases "Create page path n rp w")
  case (Pair res w1)
  show ?thesis
  proof (cases res)
    case (Inl e)
    with Pair show ?thesis by (simp add: Create_error_os)
  next
    case (Inr r)
    note c = Pair [unfolded Inr]
    have "fst (MoveConstruct r) = r" by (simp add: MoveConstruct_def)
    then have "snd (Close (fst (MoveConstruct r)) w1) = w"
      using create_close [OF c] by (metis prod.collapse)
    moreover have "snd (Close (snd (MoveConstruct r)) w1) = w1"
      by (simp add: MoveConstruct_def Close_def)
    ultimately show ?thesis
      using Pair Inr Create_ok(3,6,7) [OF c] by (auto simp: owned_fds_def owned_maps_def)
  qed
qed

text \<open>
  \<open>Sync\<close> on a mapped region asks \<open>msync\<close> for exactly one block: it starts on a page
  boundary at most one page before the requested offset, covers the request, is cut off at
  the end of the mapping and never reaches past it.
\<close>

theorem sync_block:
  assumes "rg_data r = Some a" and "0 < page" and "0 < len" and "off < rg_size r"
    and "off + len < 2 ^ 64"
  shows "\<exists>o' l'. fst (Sync page r off len rc err) = [(o', l')] \<and> page dvd o' \<and> o' \<le> off
           \<and> off < o' + page \<and> o' + l' = min (off + len) (rg_size r)"
  by (rule Sync_call [OF assms, of rc err]) blast

theorem sync_block_witness:
  "\<exists>o' l'. fst (Sync 4096 \<lparr>rg_path = ''b'', rg_data = Some 7, rg_size = 8192, rg_fd = 3\<rparr> 5000 9000 0 0)
       = [(o', l')] \<and> 4096 dvd o' \<and> o' \<le> 5000 \<and> 5000 < o' + 4096 \<and> o' + l' = min (5000 + 9000) 8192"
  using sync_block [where r = "\<lparr>rg_path = ''b'', rg_data = Some 7, rg_size = 8192, rg_fd = 3\<rparr>"
      and page = 4096 and off = 5000 and len = 9000 and rc = 0 and err = 0] by simp

end
