(* ===== verification/Mmap_Buffer.thy ===== *)
theory Mmap_Buffer
  imports Mmap_Region
begin

text \<open>
  \<open>mmap/mmap_buffer.h\<close> and \<open>.cpp\<close>, one call at a time: the framed append buffer on a mapped
  region. \<open>Write\<close>, \<open>Seal\<close>, \<open>ForEachFrame\<close>, \<open>ResetForReuse\<close>, \<open>Sync\<close> and \<open>Used\<close> on the region's
  bytes and the three atomics; the abstraction of a buffer to the list of its frames and the
  refinement of each operation; the contract (\<open>frame_buffer\<close>) that the store relies on.
  The interleaving of concurrent writers is in \<open>Mmap_Buffer_Conc\<close>.

  \<open>offset_\<close> is a \<open>size_t\<close>; it is a natural number here, because \<open>Mmap_Buffer_Conc\<close> bounds it:
  to overflow 64 bits more than \<open>2 ^ 31\<close> writers would have to overrun one buffer before it
  is drained. A region's size and every write's length do not overflow either.
\<close>

section \<open>State\<close>

record buffer =
  mem :: bytes
  offset :: nat
  writers :: nat
  sealed :: bool

text \<open>\<open>region_.size()\<close> is the number of mapped bytes.\<close>

definition Capacity :: "('a) buffer_scheme \<Rightarrow> nat" where
  "Capacity b = length (mem b)"

text \<open>
  A new buffer over a region of \<open>cap\<close> bytes (the requested capacity rounded up to a page, see
  \<open>Create\<close>): the region's bytes are those of the file. \<open>Create\<close> opens it without truncating,
  so a file that exists keeps its bytes; one that is extended is filled with zeros.
\<close>

definition MmapBuffer :: "nat \<Rightarrow> bytes \<Rightarrow> buffer" where
  "MmapBuffer cap disk =
     \<lparr>mem = take cap (disk @ replicate (cap - length disk) 0), offset = 0, writers = 0, sealed = False\<rparr>"

section \<open>Operations\<close>

definition WriteU32LE :: "u32 \<Rightarrow> bytes" where
  "WriteU32LE v = [ucast (v AND 255), ucast (drop_bit 8 v AND 255),
                   ucast (drop_bit 16 v AND 255), ucast (drop_bit 24 v AND 255)]"

definition Write :: "bytes \<Rightarrow> buffer \<Rightarrow> bool \<times> buffer" where
  "Write data b =
     (let len = length data in
      if len = 0 \<or> 0xFFFFFFFF < len then (False, b)
      else
        let b = b\<lparr>writers := writers b + 1\<rparr>
        in if sealed b then (False, b\<lparr>writers := writers b - 1\<rparr>)
           else
             let need = 4 + len; cap = Capacity b; old = offset b;
                 b = b\<lparr>offset := old + need\<rparr>
             in if cap < old + need then (False, b\<lparr>writers := writers b - 1\<rparr>)
                else
                  let b = b\<lparr>mem := mem_write (mem b) old (WriteU32LE (of_nat len))\<rparr>;
                      b = b\<lparr>mem := mem_write (mem b) (old + 4) data\<rparr>
                  in (True, b\<lparr>writers := writers b - 1\<rparr>))"

text \<open>\<open>Seal\<close> also waits for the writers that are still inside; here there are none.\<close>

definition Seal :: "buffer \<Rightarrow> buffer" where
  "Seal b = b\<lparr>sealed := True\<rparr>"

text \<open>
  The walk of \<open>ForEachFrame\<close> from position \<open>pos\<close>; the result lists the blocks handed to the
  callback, in order. The length is read with \<open>memcpy\<close>, in the host's byte order: the model is
  of a little-endian host.
\<close>

function walk :: "bytes \<Rightarrow> nat \<Rightarrow> nat \<Rightarrow> bytes list" where
  "walk m fin pos =
     (if pos + 4 \<le> fin then
        (let len = unat (decode_le32 (mem_read m pos 4))
         in if len = 0 \<or> fin < pos + 4 + len then []
            else mem_read m (pos + 4) len # walk m fin (pos + 4 + len))
      else [])"
  by pat_completeness auto
termination
  by (relation "measure (\<lambda>(m, fin, pos). fin - pos)") auto

declare walk.simps [simp del]

definition ForEachFrame :: "('a) buffer_scheme \<Rightarrow> bytes list" where
  "ForEachFrame b = walk (mem b) (min (offset b) (Capacity b)) 0"

definition ResetForReuse :: "buffer \<Rightarrow> buffer" where
  "ResetForReuse b =
     (let prev_used = min (offset b) (Capacity b);
          b = b\<lparr>offset := 0\<rparr>;
          b = b\<lparr>sealed := False\<rparr>
      in if 0 < prev_used then b\<lparr>mem := mem_write (mem b) 0 (replicate prev_used 0)\<rparr> else b)"

definition Used :: "('a) buffer_scheme \<Rightarrow> nat" where
  "Used b = min (offset b) (Capacity b)"

text \<open>\<open>MmapBuffer::Sync\<close>: the \<open>msync\<close> calls it makes through its region.\<close>

definition BufferSync :: "nat \<Rightarrow> region \<Rightarrow> buffer \<Rightarrow> int \<Rightarrow> nat \<Rightarrow> (nat \<times> nat) list \<times> unit res" where
  "BufferSync page r b rc err =
     (let used = min (offset b) (Capacity b)
      in if 0 < used then Sync page r 0 used rc err else ([], Inr ()))"

section \<open>Frames\<close>

text \<open>A frame is the length, little-endian, and the payload.\<close>

definition frame :: "bytes \<Rightarrow> bytes" where
  "frame d = encode_le32 (of_nat (length d)) @ d"

definition frame_ok :: "bytes \<Rightarrow> bool" where
  "frame_ok d \<longleftrightarrow> d \<noteq> [] \<and> length d < 2 ^ 32"

definition layout :: "bytes list \<Rightarrow> bytes" where
  "layout ds = concat (map frame ds)"

definition frames_size :: "bytes list \<Rightarrow> nat" where
  "frames_size ds = (\<Sum>d\<leftarrow>ds. 4 + length d)"

lemma WriteU32LE_eq: "WriteU32LE v = encode_le32 v"
  by (simp add: WriteU32LE_def encode_le32_def)

lemma length_frame [simp]: "length (frame d) = 4 + length d"
  by (simp add: frame_def)

lemma layout_simps [simp]:
  "layout [] = []" "layout (d # ds) = frame d @ layout ds" "layout (ds @ es) = layout ds @ layout es"
  by (simp_all add: layout_def)

lemma length_layout [simp]: "length (layout ds) = frames_size ds"
  by (induction ds) (simp_all add: frames_size_def)

lemma frames_size_simps [simp]:
  "frames_size [] = 0" "frames_size (d # ds) = 4 + length d + frames_size ds"
  "frames_size (ds @ es) = frames_size ds + frames_size es"
  by (simp_all add: frames_size_def)
lemma walk_stop:
  "fin < pos + 4 \<Longrightarrow> walk m fin pos = []"
  by (subst walk.simps) simp

lemma walk_zero:
  assumes "decode_le32 (mem_read m pos 4) = 0"
  shows "walk m fin pos = []"
  using assms by (subst walk.simps) simp

lemma mem_read_append:
  "mem_read (pre @ xs) (length pre) n = take n xs"
  by (simp add: mem_read_def)

lemma walk_frame:
  assumes d: "frame_ok d" and fin: "length pre + 4 + length d \<le> fin"
  shows "walk (pre @ frame d @ rest) fin (length pre) =
           d # walk ((pre @ frame d) @ rest) fin (length (pre @ frame d))"
proof -
  let ?m = "pre @ frame d @ rest"
  have len: "unat (decode_le32 (mem_read ?m (length pre) 4)) = length d"
    using d by (simp add: mem_read_append frame_def frame_ok_def unat_of_nat32)
  have body: "mem_read ?m (length pre + 4) (length d) = d"
    by (simp add: mem_read_def frame_def)
  have ne: "length d \<noteq> 0" using d by (simp add: frame_ok_def)
  have "walk ?m fin (length pre) = d # walk ?m fin (length pre + 4 + length d)"
    by (subst walk.simps) (use fin len body ne in \<open>simp add: Let_def\<close>)
  then show ?thesis by (simp add: add.assoc)
qed

lemma walk_zeros:
  assumes "fin \<le> length pre + k"
  shows "walk (pre @ replicate k 0) fin (length pre) = []"
proof (cases "4 \<le> k")
  case True
  then have "k = Suc (Suc (Suc (Suc (k - 4))))" by simp
  then have "decode_le32 (replicate k 0) = 0" by (metis decode_le32_zeros)
  with True show ?thesis by (intro walk_zero) (simp add: mem_read_append flip: take_replicate)
next
  case False
  with assms show ?thesis by (intro walk_stop) simp
qed

lemma walk_layout:
  assumes "list_all frame_ok ds" and "length pre + frames_size ds \<le> fin"
    and "fin \<le> length pre + frames_size ds + k"
  shows "walk (pre @ layout ds @ replicate k 0) fin (length pre) = ds"
  using assms
proof (induction ds arbitrary: pre)
  case Nil
  then show ?case by (simp add: walk_zeros)
next
  case (Cons d ds)
  have "walk ((pre @ frame d) @ layout ds @ replicate k 0) fin (length (pre @ frame d)) = ds"
    using Cons.prems by (intro Cons.IH) auto
  with Cons.prems show ?case
    using walk_frame [of d pre fin "layout ds @ replicate k 0"] by simp
qed

section \<open>The abstraction of a buffer\<close>

text \<open>
  \<open>holds b ds\<close>: the bytes of \<open>b\<close> are the frames \<open>ds\<close> followed by zeros, and \<open>offset_\<close> is
  either where the next frame goes or past the capacity, when a write has overrun.
\<close>

definition holds :: "('a) buffer_scheme \<Rightarrow> bytes list \<Rightarrow> bool" where
  "holds b ds \<longleftrightarrow>
     list_all frame_ok ds \<and> frames_size ds \<le> Capacity b
     \<and> mem b = layout ds @ replicate (Capacity b - frames_size ds) 0
     \<and> (offset b = frames_size ds \<or> Capacity b < offset b)"

lemma holds_walk: "holds b ds \<Longrightarrow> ForEachFrame b = ds"
  using walk_layout [of ds "[]" "min (offset b) (Capacity b)" "Capacity b - frames_size ds"]
  by (auto simp: holds_def ForEachFrame_def)

lemma holds_unique: "holds b ds \<Longrightarrow> holds b es \<Longrightarrow> ds = es"
  using holds_walk by blast

lemma holds_new: "list_all (\<lambda>x. x = 0) disk \<Longrightarrow> holds (MmapBuffer cap disk) []"
proof -
  assume "list_all (\<lambda>x. x = 0) disk"
  then have "disk = replicate (length disk) 0"
    by (simp add: list_all_iff replicate_length_same)
  then obtain n where n: "disk = replicate n 0" by blast
  have "take cap (disk @ replicate (cap - length disk) 0) = replicate cap 0"
    unfolding n by (simp add: min_def flip: replicate_add)
  then show ?thesis by (simp add: holds_def MmapBuffer_def Capacity_def)
qed

lemma Write_ok:
  assumes h: "holds b ds" and d: "frame_ok d" and s: "\<not> sealed b"
    and room: "offset b + 4 + length d \<le> Capacity b"
  shows "fst (Write d b) = True" and "holds (snd (Write d b)) (ds @ [d])"
proof -
  let ?c = "Capacity b" and ?o = "frames_size ds"
  have off: "offset b = ?o" using h room by (auto simp: holds_def)
  define m1 where "m1 = mem_write (mem b) ?o (encode_le32 (of_nat (length d)))"
  define m2 where "m2 = mem_write m1 (?o + 4) d"
  have mem: "mem b = layout ds @ replicate (?c - ?o) 0" using h by (simp add: holds_def)
  have "m1 = layout ds @ encode_le32 (of_nat (length d)) @ replicate (?c - ?o - 4) 0"
    unfolding m1_def mem using room off by (subst mem_write_zeros) simp_all
  then have "m2 = (layout ds @ encode_le32 (of_nat (length d))) @ d @ replicate (?c - ?o - 4 - length d) 0"
    unfolding m2_def using room off
    by (simp only: append_assoc [symmetric]) (subst mem_write_zeros; simp)
  then have m2: "m2 = layout (ds @ [d]) @ replicate (?c - frames_size (ds @ [d])) 0"
    by (simp add: frame_def)
  have cap: "frames_size (ds @ [d]) \<le> ?c" using room off by simp
  then have "length m2 = ?c" unfolding m2 by simp
  then have w: "Write d b = (True, b\<lparr>offset := ?o + (4 + length d), mem := m2\<rparr>)"
    using d s room off
    by (auto simp: Write_def Let_def frame_ok_def WriteU32LE_eq m2_def m1_def Capacity_def)
  then show "fst (Write d b) = True" by simp
  show "holds (snd (Write d b)) (ds @ [d])"
    unfolding w using h d m2 cap \<open>length m2 = ?c\<close>
    by (simp add: holds_def Capacity_def)
qed

lemma Write_invalid: "\<not> frame_ok d \<Longrightarrow> Write d b = (False, b)"
  by (auto simp: Write_def frame_ok_def Let_def)

lemma Write_sealed: "sealed b \<Longrightarrow> Write d b = (False, b)"
  by (auto simp: Write_def Let_def)

lemma Write_overrun:
  assumes "frame_ok d" and "\<not> sealed b" and "Capacity b < offset b + 4 + length d"
  shows "Write d b = (False, b\<lparr>offset := offset b + (4 + length d)\<rparr>)"
  using assms by (auto simp: Write_def frame_ok_def Let_def Capacity_def)

lemma holds_overrun:
  "holds b ds \<Longrightarrow> Capacity b < n \<Longrightarrow> holds (b\<lparr>offset := n\<rparr>) ds"
  by (simp add: holds_def Capacity_def)

text \<open>Every branch of \<open>Write\<close> on a buffer that holds \<open>ds\<close>.\<close>

lemma Write_cases:
  assumes "holds b ds"
  shows "fst (Write d b) \<longleftrightarrow> frame_ok d \<and> \<not> sealed b \<and> offset b + 4 + length d \<le> Capacity b"
    and "holds (snd (Write d b)) (if fst (Write d b) then ds @ [d] else ds)"
proof -
  consider "\<not> frame_ok d" | "frame_ok d" "sealed b"
    | "frame_ok d" "\<not> sealed b" "Capacity b < offset b + 4 + length d"
    | "frame_ok d" "\<not> sealed b" "offset b + 4 + length d \<le> Capacity b"
    by linarith
  then have "(fst (Write d b) \<longleftrightarrow> frame_ok d \<and> \<not> sealed b \<and> offset b + 4 + length d \<le> Capacity b)
      \<and> holds (snd (Write d b)) (if fst (Write d b) then ds @ [d] else ds)"
  proof cases
    case 1
    then show ?thesis using assms by (simp add: Write_invalid)
  next
    case 2
    then show ?thesis using assms by (simp add: Write_sealed)
  next
    case 3
    then show ?thesis using assms by (simp add: Write_overrun holds_overrun add.assoc)
  next
    case 4
    then show ?thesis using Write_ok [OF assms] by simp
  qed
  then show "fst (Write d b) \<longleftrightarrow> frame_ok d \<and> \<not> sealed b \<and> offset b + 4 + length d \<le> Capacity b"
    and "holds (snd (Write d b)) (if fst (Write d b) then ds @ [d] else ds)" by blast+
qed

lemma Seal_holds: "holds b ds \<Longrightarrow> holds (Seal b) ds"
  by (simp add: holds_def Seal_def Capacity_def)

lemma Write_Seal: "Write d (Seal b) = (False, Seal b)"
  by (rule Write_sealed) (simp add: Seal_def)

lemma Reset_mem:
  assumes "holds b ds"
  shows "mem (ResetForReuse b) = replicate (Capacity b) 0"
proof -
  define u where "u = min (offset b) (Capacity b)"
  have u: "frames_size ds \<le> u" "u \<le> Capacity b"
    using assms by (auto simp: holds_def u_def)
  have "mem b = layout ds @ replicate (Capacity b - frames_size ds) 0"
    using assms by (simp add: holds_def)
  then have "drop u (mem b) = replicate (Capacity b - u) 0"
    using u by simp
  then have "mem_write (mem b) 0 (replicate u 0) = replicate (Capacity b) 0"
    using u by (simp add: mem_write_def flip: replicate_add)
  then show ?thesis
    using u by (auto simp: ResetForReuse_def Let_def u_def)
qed

lemma Reset_holds:
  assumes "holds b ds"
  shows "holds (ResetForReuse b) []" and "\<not> sealed (ResetForReuse b)"
    and "offset (ResetForReuse b) = 0" and "Capacity (ResetForReuse b) = Capacity b"
proof -
  show "\<not> sealed (ResetForReuse b)" and off: "offset (ResetForReuse b) = 0"
    by (simp_all add: ResetForReuse_def Let_def)
  show cap: "Capacity (ResetForReuse b) = Capacity b"
    using Reset_mem [OF assms] by (simp add: Capacity_def)
  show "holds (ResetForReuse b) []"
    using Reset_mem [OF assms] off cap by (simp add: holds_def)
qed

section \<open>The contract the store relies on\<close>

text \<open>
  A frame buffer keeps the payloads it accepted, in order; a sealed one accepts nothing;
  clearing it empties it.
\<close>

fun put_all :: "('d \<Rightarrow> 'b \<Rightarrow> bool \<times> 'b) \<Rightarrow> 'd list \<Rightarrow> 'b \<Rightarrow> 'd list \<times> 'b" where
  "put_all put [] b = ([], b)"
| "put_all put (d # ds) b =
     (let (ok, b1) = put d b; (acc, b2) = put_all put ds b1
      in (if ok then d # acc else acc, b2))"

locale frame_buffer =
  fixes valid :: "'b \<Rightarrow> bool"
    and contents :: "'b \<Rightarrow> 'd list"
    and put :: "'d \<Rightarrow> 'b \<Rightarrow> bool \<times> 'b"
    and shut :: "'b \<Rightarrow> 'b"
    and clear :: "'b \<Rightarrow> 'b"
  assumes put_valid: "valid b \<Longrightarrow> valid (snd (put d b))"
    and put_contents: "valid b \<Longrightarrow>
      contents (snd (put d b)) = contents b @ (if fst (put d b) then [d] else [])"
    and shut_valid: "valid b \<Longrightarrow> valid (shut b)"
    and shut_contents: "valid b \<Longrightarrow> contents (shut b) = contents b"
    and shut_put: "put d (shut b) = (False, shut b)"
    and clear_valid: "valid b \<Longrightarrow> valid (clear b)"
    and clear_contents: "valid b \<Longrightarrow> contents (clear b) = []"
begin

lemma put_all_contents:
  assumes "valid b" and "put_all put ds b = (acc, b')"
  shows "valid b' \<and> contents b' = contents b @ acc"
  using assms
proof (induction ds arbitrary: b acc)
  case (Cons d ds)
  obtain ok b1 where p: "put d b = (ok, b1)" by fastforce
  from Cons.prems(2) p obtain acc1 where q: "put_all put ds b1 = (acc1, b')"
    by (auto split: prod.splits)
  have v: "valid b1" and c: "contents b1 = contents b @ (if ok then [d] else [])"
    using put_valid [OF Cons.prems(1), of d] put_contents [OF Cons.prems(1), of d] p by simp_all
  from Cons.IH [OF v q] Cons.prems(2) p q c show ?case by (auto split: if_splits)
qed simp

lemma shut_put_all: "put_all put ds (shut b) = ([], shut b)"
  by (induction ds) (simp_all add: shut_put)

lemma drain_cycle:
  assumes "valid b" and "put_all put ds b = (acc, b')"
  shows "contents (shut b') = contents b @ acc" and "contents (clear (shut b')) = []"
    and "valid (clear (shut b'))"
  using put_all_contents [OF assms]
  by (simp_all add: shut_contents clear_contents shut_valid clear_valid)

end

definition buffer_valid :: "('a) buffer_scheme \<Rightarrow> bool" where
  "buffer_valid b \<longleftrightarrow> holds b (ForEachFrame b)"

lemma buffer_validI: "holds b ds \<Longrightarrow> buffer_valid b"
  by (simp add: buffer_valid_def holds_walk)

interpretation mb: frame_buffer buffer_valid ForEachFrame Write Seal ResetForReuse
proof
  fix b :: buffer and d
  assume "buffer_valid b"
  then have h: "holds b (ForEachFrame b)" by (simp add: buffer_valid_def)
  note w = Write_cases(2) [OF h, of d]
  show "buffer_valid (snd (Write d b))" using w by (rule buffer_validI)
  show "ForEachFrame (snd (Write d b)) = ForEachFrame b @ (if fst (Write d b) then [d] else [])"
    using holds_walk [OF w] by simp
  show "buffer_valid (Seal b)" using Seal_holds [OF h] by (rule buffer_validI)
  show "ForEachFrame (Seal b) = ForEachFrame b" using Seal_holds [OF h] by (rule holds_walk)
  show "buffer_valid (ResetForReuse b)" using Reset_holds(1) [OF h] by (rule buffer_validI)
  show "ForEachFrame (ResetForReuse b) = []" using Reset_holds(1) [OF h] by (rule holds_walk)
qed (rule Write_Seal)

section \<open>What a sequence of writes accepts\<close>

text \<open>
  The specification of one fill of a buffer with \<open>u\<close> bytes used: invalid payloads are refused
  one by one, valid ones are accepted until the first that does not fit; from then on the
  buffer is full, also for payloads that would fit in what is left.
\<close>

fun accepted :: "nat \<Rightarrow> nat \<Rightarrow> bytes list \<Rightarrow> bytes list" where
  "accepted cap u [] = []"
| "accepted cap u (d # ds) =
     (if \<not> frame_ok d then accepted cap u ds
      else if u + 4 + length d \<le> cap then d # accepted cap (u + 4 + length d) ds
      else [])"

lemma put_all_full:
  assumes "holds b fs" and "Capacity b < offset b"
  shows "fst (put_all Write ds b) = []"
  using assms
proof (induction ds arbitrary: b)
  case (Cons d ds)
  have f: "\<not> fst (Write d b)" using Write_cases(1) [OF Cons.prems(1), of d] Cons.prems(2) by simp
  have h: "holds (snd (Write d b)) fs" using Write_cases(2) [OF Cons.prems(1), of d] f by simp
  have o: "Capacity (snd (Write d b)) < offset (snd (Write d b))"
    using Cons.prems(2)
    by (cases "frame_ok d"; cases "sealed b")
      (auto simp: Write_invalid Write_sealed Write_overrun Capacity_def)
  from Cons.IH [OF h o] f show ?case by (auto simp: case_prod_beta Let_def)
qed simp

lemma put_all_accepted:
  assumes "holds b fs" and "\<not> sealed b" and "offset b = frames_size fs"
  shows "fst (put_all Write ds b) = accepted (Capacity b) (offset b) ds"
  using assms
proof (induction ds arbitrary: b fs)
  case (Cons d ds)
  note w = Write_cases [OF Cons.prems(1), of d]
  consider "\<not> frame_ok d" | "frame_ok d" "Capacity b < offset b + 4 + length d"
    | "frame_ok d" "offset b + 4 + length d \<le> Capacity b" by linarith
  then show ?case
  proof cases
    case 1
    then show ?thesis using Cons by (simp add: Write_invalid case_prod_beta Let_def)
  next
    case 2
    then show ?thesis
      using put_all_full [OF holds_overrun [OF Cons.prems(1)], of "offset b + (4 + length d)"]
        Cons.prems(2)
      by (simp add: Write_overrun case_prod_beta Let_def Capacity_def add.assoc)
  next
    case 3
    then have f: "fst (Write d b)" using w(1) Cons.prems(2) by simp
    have h: "holds (snd (Write d b)) (fs @ [d])" using w(2) f by simp
    have b': "\<not> sealed (snd (Write d b))" "offset (snd (Write d b)) = offset b + 4 + length d"
      "Capacity (snd (Write d b)) = Capacity b"
      using 3 Cons.prems(2) \<open>frame_ok d\<close> holds_def [of b fs]  Cons.prems(1)
      by (auto simp: Write_def Let_def frame_ok_def Capacity_def WriteU32LE_eq)
    have "fst (put_all Write ds (snd (Write d b))) =
        accepted (Capacity (snd (Write d b))) (offset (snd (Write d b))) ds"
      using Cons.prems(3) b' by (intro Cons.IH [OF h]) simp_all
    then show ?thesis using f b' 3 by (simp add: case_prod_beta Let_def)
  qed
qed simp

lemma Write_capacity [simp]: "Capacity (snd (Write d b)) = Capacity b"
  by (simp add: Write_def Let_def Capacity_def WriteU32LE_eq)

lemma put_all_capacity: "Capacity (snd (put_all Write ds b)) = Capacity b"
  by (induction ds arbitrary: b) (simp_all add: case_prod_beta Let_def)

section \<open>Properties\<close>



text \<open>
  A buffer file left over from an earlier process is not cleared when it is opened again.
  When the file still holds frames \<open>old # olds\<close>, one accepted write of the same length as
  \<open>old\<close> followed by one that overruns makes the walk deliver the stale frames \<open>olds\<close> as if
  they had been written.
\<close>

theorem stale_file_frames:
  assumes "list_all frame_ok (old # olds)" and "frames_size (old # olds) \<le> cap"
    and "frame_ok d" and "length d = length old" and "frame_ok big"
    and "cap < 4 + length d + 4 + length big"
  shows "fst (put_all Write [d, big] (MmapBuffer cap (layout (old # olds)))) = [d]
    \<and> ForEachFrame (Seal (snd (put_all Write [d, big] (MmapBuffer cap (layout (old # olds)))))) = d # olds"
proof -
  let ?z = "replicate (cap - frames_size (old # olds)) (0 :: byte)"
  define b0 where "b0 = MmapBuffer cap (layout (old # olds))"
  have m0: "mem b0 = frame old @ layout olds @ ?z"
    using assms(2) by (simp add: b0_def MmapBuffer_def)
  have c0: "Capacity b0 = cap" "offset b0 = 0" "\<not> sealed b0"
    using assms(2) by (simp_all add: b0_def MmapBuffer_def Capacity_def)
  define b1 where "b1 = b0\<lparr>offset := 4 + length d, mem := frame d @ layout olds @ ?z\<rparr>"
  have w1: "Write d b0 = (True, b1)"
    using assms(3,4,2) c0 m0
    by (auto simp add: Write_def Let_def frame_ok_def b1_def Capacity_def WriteU32LE_eq mem_write_def
        frame_def)
  have c1: "Capacity b1 = cap" "offset b1 = 4 + length d" "\<not> sealed b1"
    using c0 assms(2,4) by (simp_all add: b1_def Capacity_def)
  have w2: "Write big b1 = (False, b1\<lparr>offset := offset b1 + (4 + length big)\<rparr>)"
    using assms(5,6) c1 by (intro Write_overrun) simp_all
  define b where "b = b1\<lparr>offset := offset b1 + (4 + length big)\<rparr>"
  have all: "put_all Write [d, big] (MmapBuffer cap (layout (old # olds))) = ([d], b)"
    using w1 w2 unfolding b0_def [symmetric] by (simp add: b_def)
  have "walk ([] @ layout (d # olds) @ ?z) cap (length ([] :: bytes)) = d # olds"
    using assms(1,2,3,4) by (intro walk_layout) auto
  then have "ForEachFrame (Seal b) = d # olds"
    using c1 assms(6) by (simp add: b_def ForEachFrame_def Seal_def Capacity_def b1_def)
  with all show ?thesis by simp
qed

theorem stale_file_frames_witness:
  "fst (put_all Write [[9, 9], replicate 20 1] (MmapBuffer 24 (layout [[1, 1], [2, 2]]))) = [[9, 9]]
   \<and> ForEachFrame (Seal (snd (put_all Write [[9, 9], replicate 20 1]
         (MmapBuffer 24 (layout [[1, 1], [2, 2]]))))) = [[9, 9], [2, 2]]"
  by (rule stale_file_frames) (simp_all add: frame_ok_def)

end
