(* ===== verification/Mmap_Store.thy ===== *)
theory Mmap_Store
  imports Mmap_Buffer "HOL-Library.Multiset"
begin

text \<open>
  \<open>mmap/mmap_store.h\<close> and \<open>.cpp\<close>: the pool of buffers, the master that \<open>Append\<close> writes to, the
  swap under \<open>mtx_\<close>, the drain on the strand, \<open>Flush\<close> and the destructor, as a system of
  atomic steps of any number of threads. A critical section that does not wait is one step; a
  wait on a condition variable ends the step, and goes on when its predicate holds (or, for
  \<open>wait_for\<close>, times out). One call of \<open>MmapBuffer::Write\<close> is one step here: the steps inside it
  are in \<open>Mmap_Buffer_Conc\<close>. A buffer is named by its position in \<open>pool_\<close>.
\<close>

section \<open>State\<close>

record config =
  dir :: string
  buffer_bytes :: nat
  min_buffers :: nat
  max_buffers :: nat

text \<open>
  Where a thread is. \<open>Append\<close>: at the top of its loop (\<open>ALoad\<close>), with the master loaded
  (\<open>AWrite\<close>), after a failed \<open>Write\<close> (\<open>ALock\<close>), waiting on \<open>free_cv_\<close> (\<open>AWait\<close>), inside
  \<open>PostDetached\<close> when that runs the drain itself (\<open>APost\<close>), returned. \<open>Flush\<close>: before the first lock,
  waiting on \<open>free_cv_\<close>, inside \<open>PostDetached\<close>, waiting on \<open>flush_cv_\<close>, returned; its flag says whether the
  destructor called it, and its number is history: how many records had been acknowledged when it
  took the lock.
\<close>

datatype spc =
    SIdle
  | ALoad bytes
  | AWrite bytes nat
  | ALock bytes nat
  | AWait bytes
  | APost bytes
  | ADone bytes bool
  | FLock bool
  | FWaitFree bool nat
  | FPost bool nat
  | FWait bool nat
  | FDone nat
  | DtorLock
  | DtorEnd

text \<open>Where the strand's task \<open>DrainOne_\<close> is.\<close>

datatype drain =
    DNone
  | DSeal nat
  | DSync nat
  | DWalk nat "bytes list"
  | DReset nat
  | DPush nat
  | DDec
  | DNotify

text \<open>
  \<open>disk k\<close> is what opening the file of sequence number \<open>k\<close> gives: the exception of a failed
  creation, or the bytes the file already holds. \<open>running\<close> and \<open>queue\<close> are the strand's. \<open>holder\<close> is
  the thread that keeps \<open>mtx_\<close> across steps (it can only be one inside \<open>PostDetached\<close>). History
  no step reads: \<open>acks\<close>, the appends that returned true, and \<open>sent\<close>, the calls of
  \<open>on_persist_\<close>.
\<close>

record store =
  cfg :: config
  page :: nat
  disk :: "nat \<Rightarrow> bytes res"
  pool :: "buffer list"
  free :: "nat list"
  master :: nat
  in_flight :: nat
  persisted_bytes :: nat
  next_seq :: nat
  stopped :: bool
  destroyed :: bool
  queue :: "nat list"
  running :: bool
  pool_stopped :: bool
  holder :: "nat option"
  task :: drain
  spcs :: "nat \<Rightarrow> spc"
  acks :: "(nat \<times> bytes) list"
  sent :: "bytes list"

section \<open>Construction\<close>

definition BuildBufferPath :: "string \<Rightarrow> nat \<Rightarrow> string" where
  "BuildBufferPath d seq = path_join d (''buffer-'' @ pad_dec 6 (int seq) @ ''.mmap'')"

definition normalise :: "config \<Rightarrow> config" where
  "normalise c =
     (let c1 = (if min_buffers c = 0 then c\<lparr>min_buffers := 2\<rparr> else c);
          c2 = (if max_buffers c1 < min_buffers c1 then c1\<lparr>max_buffers := min_buffers c1\<rparr> else c1)
      in if buffer_bytes c2 = 0 then c2\<lparr>buffer_bytes := 4 * 1024 * 1024\<rparr> else c2)"

fun prealloc :: "(nat \<Rightarrow> bytes res) \<Rightarrow> nat \<Rightarrow> nat \<Rightarrow> nat \<Rightarrow> buffer list res" where
  "prealloc dsk cap i 0 = Inr []"
| "prealloc dsk cap i (Suc n) =
     (case dsk i of
        Inl e \<Rightarrow> Inl e
      | Inr z \<Rightarrow> (case prealloc dsk cap (i + 1) n of
           Inl e \<Rightarrow> Inl e
         | Inr bs \<Rightarrow> Inr (MmapBuffer cap z # bs)))"

definition MmapStore :: "config \<Rightarrow> nat \<Rightarrow> bool \<Rightarrow> bool \<Rightarrow> (nat \<Rightarrow> bytes res) \<Rightarrow> store res" where
  "MmapStore c pg has_strand has_persist dsk =
     (if \<not> has_strand then Inl (SystemError 22 ''MmapStore: strand is null'')
      else if \<not> has_persist then Inl (SystemError 22 ''MmapStore: on_persist is null'')
      else
        let c = normalise c in
        case prealloc dsk (RoundUpToPage pg (buffer_bytes c)) 0 (min_buffers c) of
          Inl e \<Rightarrow> Inl e
        | Inr bs \<Rightarrow> Inr \<lparr>cfg = c, page = pg, disk = dsk, pool = bs, free = [1..<min_buffers c], master = 0,
             in_flight = 0, persisted_bytes = 0, next_seq = min_buffers c, stopped = False,
             destroyed = False, queue = [], running = False, pool_stopped = False, holder = None,
             task = DNone, spcs = (\<lambda>_. SIdle), acks = [], sent = []\<rparr>)"

text \<open>The size of every region: \<open>buffer_bytes\<close> rounded up to a page by \<open>MmapRegion::Create\<close>.\<close>

definition region_bytes :: "store \<Rightarrow> nat" where
  "region_bytes s = RoundUpToPage (page s) (buffer_bytes (cfg s))"

declare region_bytes_def [simp]

section \<open>Operations under the lock\<close>

text \<open>
  \<open>AcquireFreeBufferLocked_\<close> up to its wait: a free buffer, a new one, \<open>nullptr\<close> when the
  creation throws, or the need to wait because the pool is full.
\<close>

datatype acquired = Got nat | Null | MustWait

definition AcquireFreeBufferLocked :: "store \<Rightarrow> acquired \<times> store" where
  "AcquireFreeBufferLocked s =
     (case free s of
        b # bs \<Rightarrow> (Got b, s\<lparr>free := bs\<rparr>)
      | [] \<Rightarrow>
          if length (pool s) < max_buffers (cfg s) then
            (case disk s (next_seq s) of
               Inl e \<Rightarrow> (Null, s\<lparr>next_seq := next_seq s + 1\<rparr>)
             | Inr z \<Rightarrow> (Got (length (pool s)),
                 s\<lparr>next_seq := next_seq s + 1, pool := pool s @ [MmapBuffer (region_bytes s) z]\<rparr>))
          else (MustWait, s))"

text \<open>\<open>AcquireFreeBufferLocked_\<close> after its wait has ended with the predicate true.\<close>

definition AcquireAfterWait :: "store \<Rightarrow> acquired \<times> store" where
  "AcquireAfterWait s =
     (if stopped s then (Null, s)
      else case free s of b # bs \<Rightarrow> (Got b, s\<lparr>free := bs\<rparr>) | [] \<Rightarrow> (Null, s))"

text \<open>
  The rest of \<open>SwapMasterLocked_\<close> once a buffer has been got. \<open>PostDetached\<close> queues the drain on
  the strand; when the strand was idle it posts \<open>Drain_\<close> to the thread pool, which runs it in the
  calling thread, with \<open>mtx_\<close> held, if the pool has been shut down.
\<close>

definition posts_inline :: "store \<Rightarrow> bool" where
  "posts_inline s \<longleftrightarrow> pool_stopped s \<and> \<not> running s"

definition SwapMasterLocked :: "nat \<Rightarrow> nat \<Rightarrow> store \<Rightarrow> store" where
  "SwapMasterLocked t next s =
     s\<lparr>master := next, in_flight := in_flight s + 1, queue := queue s @ [master s],
       running := True, holder := (if posts_inline s then Some t else holder s)\<rparr>"

section \<open>Atomic steps\<close>

datatype sact =
    Append nat bytes
  | LoadMaster nat
  | TryWrite nat
  | LockSwap nat
  | WakeSwap nat
  | TimeOut nat
  | PostReturns nat
  | Flush nat
  | FlushLock nat
  | FlushWake nat
  | FlushReturn nat
  | Destroy nat
  | DestroyLock nat
  | DestroyEnd nat
  | PoolShutdown
  | StrandNext
  | DrainSeal
  | DrainSync
  | DrainFrame bool
  | DrainReset
  | DrainPush
  | DrainDec
  | DrainNotify

definition set_spc :: "nat \<Rightarrow> spc \<Rightarrow> store \<Rightarrow> store" where
  "set_spc t p s = s\<lparr>spcs := (spcs s)(t := p)\<rparr>"

definition at_rest :: "spc \<Rightarrow> bool" where
  "at_rest p = (case p of SIdle \<Rightarrow> True | ADone _ _ \<Rightarrow> True | FDone _ \<Rightarrow> True | _ \<Rightarrow> False)"

definition swap_append :: "nat \<Rightarrow> bytes \<Rightarrow> acquired \<times> store \<Rightarrow> store" where
  "swap_append t d r =
     (case r of
        (Got b, s) \<Rightarrow> set_spc t (if posts_inline s then APost d else ALoad d) (SwapMasterLocked t b s)
      | (Null, s) \<Rightarrow> set_spc t (ADone d False) s
      | (MustWait, s) \<Rightarrow> set_spc t (AWait d) s)"

definition swap_flush :: "nat \<Rightarrow> bool \<Rightarrow> nat \<Rightarrow> acquired \<times> store \<Rightarrow> store" where
  "swap_flush t dt n r =
     (case r of
        (Got b, s) \<Rightarrow> set_spc t (if posts_inline s then FPost dt n else FWait dt n) (SwapMasterLocked t b s)
      | (Null, s) \<Rightarrow> set_spc t (FWait dt n) s
      | (MustWait, s) \<Rightarrow> set_spc t (FWaitFree dt n) s)"

text \<open>A step that takes \<open>mtx_\<close> needs it to be free.\<close>

definition locked :: "store \<Rightarrow> 'a option \<Rightarrow> 'a option" where
  "locked s r = (if holder s = None then r else None)"

definition flush_exit :: "nat \<Rightarrow> bool \<Rightarrow> nat \<Rightarrow> store \<Rightarrow> store" where
  "flush_exit t dt n s = set_spc t (if dt then DtorLock else FDone n) s"

fun sexec :: "sact \<Rightarrow> store \<Rightarrow> store option" where
  "sexec (Append t d) s =
     (if \<not> at_rest (spcs s t) then None
      else if d = [] then Some (set_spc t (ADone d False) s)
      else Some (set_spc t (ALoad d) s))"
| "sexec (LoadMaster t) s =
     (case spcs s t of ALoad d \<Rightarrow> Some (set_spc t (AWrite d (master s)) s) | _ \<Rightarrow> None)"
| "sexec (TryWrite t) s =
     (case spcs s t of
        AWrite d cur \<Rightarrow>
          (let (ok, b) = Write d (pool s ! cur); s1 = s\<lparr>pool := (pool s)[cur := b]\<rparr>
           in if ok then Some (set_spc t (ADone d True) (s1\<lparr>acks := acks s @ [(t, d)]\<rparr>))
              else Some (set_spc t (ALock d cur) s1))
      | _ \<Rightarrow> None)"
| "sexec (LockSwap t) s =
     (case spcs s t of
        ALock d cur \<Rightarrow> locked s (Some
          (if stopped s then set_spc t (ADone d False) s
           else if master s \<noteq> cur then set_spc t (ALoad d) s
           else swap_append t d (AcquireFreeBufferLocked s)))
      | _ \<Rightarrow> None)"
| "sexec (WakeSwap t) s =
     (case spcs s t of
        AWait d \<Rightarrow> locked s (if stopped s \<or> free s \<noteq> []
          then Some (swap_append t d (AcquireAfterWait s)) else None)
      | _ \<Rightarrow> None)"
| "sexec (TimeOut t) s =
     (case spcs s t of
        AWait d \<Rightarrow> locked s (if stopped s \<or> free s \<noteq> [] then None
          else Some (set_spc t (ADone d False) s))
      | _ \<Rightarrow> None)"
| "sexec (PostReturns t) s =
     (if holder s = Some t \<and> \<not> running s then
        (case spcs s t of
           APost d \<Rightarrow> Some (set_spc t (ALoad d) (s\<lparr>holder := None\<rparr>))
         | FPost dt n \<Rightarrow> Some (set_spc t (FWait dt n) (s\<lparr>holder := None\<rparr>))
         | _ \<Rightarrow> None)
      else None)"
| "sexec (Flush t) s = (if at_rest (spcs s t) then Some (set_spc t (FLock False) s) else None)"
| "sexec (FlushLock t) s =
     (case spcs s t of
        FLock dt \<Rightarrow> locked s (Some
          (let n = length (acks s) in
           if stopped s then flush_exit t dt n s
           else if 0 < Used (pool s ! master s)
             then swap_flush t dt n (AcquireFreeBufferLocked s)
             else set_spc t (FWait dt n) s))
      | _ \<Rightarrow> None)"
| "sexec (FlushWake t) s =
     (case spcs s t of
        FWaitFree dt n \<Rightarrow> locked s (if stopped s \<or> free s \<noteq> []
          then Some (swap_flush t dt n (AcquireAfterWait s)) else None)
      | _ \<Rightarrow> None)"
| "sexec (FlushReturn t) s =
     (case spcs s t of
        FWait dt n \<Rightarrow> locked s (if in_flight s = 0 \<or> stopped s
          then Some (flush_exit t dt n s) else None)
      | _ \<Rightarrow> None)"
| "sexec (Destroy t) s = (if at_rest (spcs s t) then Some (set_spc t (FLock True) s) else None)"
| "sexec (DestroyLock t) s =
     (if spcs s t = DtorLock then locked s (Some (set_spc t DtorEnd (s\<lparr>stopped := True\<rparr>))) else None)"
| "sexec (DestroyEnd t) s =
     (if spcs s t = DtorEnd then Some (set_spc t SIdle (s\<lparr>destroyed := True\<rparr>)) else None)"
| "sexec PoolShutdown s = Some (s\<lparr>pool_stopped := True\<rparr>)"
| "sexec StrandNext s =
     (if task s = DNone \<and> running s then
        (case queue s of
           [] \<Rightarrow> Some (s\<lparr>running := False\<rparr>)
         | b # bs \<Rightarrow> Some (s\<lparr>queue := bs, task := DSeal b\<rparr>))
      else None)"
| "sexec DrainSeal s =
     (case task s of
        DSeal b \<Rightarrow> Some (s\<lparr>pool := (pool s)[b := Seal (pool s ! b)], task := DSync b\<rparr>)
      | _ \<Rightarrow> None)"
| "sexec DrainSync s =
     (case task s of
        DSync b \<Rightarrow> Some (s\<lparr>task := DWalk b (ForEachFrame (pool s ! b))\<rparr>) | _ \<Rightarrow> None)"
| "sexec (DrainFrame ok) s =
     (case task s of
        DWalk b (d # ds) \<Rightarrow>
          Some (s\<lparr>sent := sent s @ [d],
                  persisted_bytes := persisted_bytes s + (if ok then length d else 0),
                  task := DWalk b ds\<rparr>)
      | DWalk b [] \<Rightarrow> Some (s\<lparr>task := DReset b\<rparr>)
      | _ \<Rightarrow> None)"
| "sexec DrainReset s =
     (case task s of
        DReset b \<Rightarrow> Some (s\<lparr>pool := (pool s)[b := ResetForReuse (pool s ! b)], task := DPush b\<rparr>)
      | _ \<Rightarrow> None)"
| "sexec DrainPush s =
     (case task s of
        DPush b \<Rightarrow> locked s (Some (s\<lparr>free := free s @ [b], task := DDec\<rparr>)) | _ \<Rightarrow> None)"
| "sexec DrainDec s =
     (if task s = DDec then
        Some (s\<lparr>in_flight := in_flight s - 1, task := (if in_flight s - 1 = 0 then DNotify else DNone)\<rparr>)
      else None)"
| "sexec DrainNotify s =
     (if task s = DNotify then locked s (Some (s\<lparr>task := DNone\<rparr>)) else None)"

text \<open>Nothing runs in a store whose memory is gone.\<close>

definition store_exec :: "sact \<Rightarrow> store \<Rightarrow> store option" where
  "store_exec a s = (if destroyed s then None else sexec a s)"

definition store_step :: "store \<Rightarrow> store \<Rightarrow> bool" where
  "store_step = acts_step store_exec"

section \<open>The pool invariant\<close>

text \<open>The buffer the drain still owns, and whether its task still counts in \<open>in_flight_\<close>.\<close>

fun owned :: "drain \<Rightarrow> nat list" where
  "owned (DSeal b) = [b]"
| "owned (DSync b) = [b]"
| "owned (DWalk b ds) = [b]"
| "owned (DReset b) = [b]"
| "owned (DPush b) = [b]"
| "owned _ = []"

definition counted :: "drain \<Rightarrow> nat" where
  "counted k = (case k of DNone \<Rightarrow> 0 | DNotify \<Rightarrow> 0 | _ \<Rightarrow> 1)"

definition places :: "store \<Rightarrow> nat list" where
  "places s = master s # free s @ queue s @ owned (task s)"

definition files_zero :: "store \<Rightarrow> bool" where
  "files_zero s \<longleftrightarrow> (\<forall>k z. disk s k = Inr z \<longrightarrow> list_all (\<lambda>x. x = 0) z)"

fun must_seal :: "drain \<Rightarrow> nat option" where
  "must_seal (DSync b) = Some b"
| "must_seal (DWalk b ds) = Some b"
| "must_seal (DReset b) = Some b"
| "must_seal _ = None"

definition pool_ok :: "store \<Rightarrow> bool" where
  "pool_ok s \<longleftrightarrow>
     distinct (places s) \<and> set (places s) = {..<length (pool s)}
     \<and> length (pool s) \<le> max_buffers (cfg s)
     \<and> in_flight s = length (queue s) + counted (task s)
     \<and> (running s \<or> queue s = [] \<and> task s = DNone)"

definition bufs_ok :: "store \<Rightarrow> bool" where
  "bufs_ok s \<longleftrightarrow>
     (\<forall>b<length (pool s). buffer_valid (pool s ! b) \<and> Capacity (pool s ! b) = region_bytes s
        \<and> sealed (pool s ! b) = (must_seal (task s) = Some b))
     \<and> (\<forall>t d cur. spcs s t = AWrite d cur \<longrightarrow> cur < length (pool s))"

text \<open>The records that are in a buffer and have not been handed over.\<close>

definition pending_of :: "drain \<Rightarrow> nat \<Rightarrow> buffer \<Rightarrow> bytes list" where
  "pending_of k i b =
     (case k of
        DWalk j ds \<Rightarrow> if i = j then ds else ForEachFrame b
      | DReset j \<Rightarrow> if i = j then [] else ForEachFrame b
      | _ \<Rightarrow> ForEachFrame b)"

definition pending :: "store \<Rightarrow> nat \<Rightarrow> bytes list" where
  "pending s i = pending_of (task s) i (pool s ! i)"

definition conserved :: "store \<Rightarrow> bool" where
  "conserved s \<longleftrightarrow>
     mset (map snd (acks s)) = mset (sent s) + (\<Sum>i<length (pool s). mset (pending s i))"

definition sinv :: "store \<Rightarrow> bool" where
  "sinv s \<longleftrightarrow> files_zero s \<and> pool_ok s \<and> bufs_ok s \<and> conserved s"

section \<open>Lemmas on the operations\<close>

lemma set_spc_simps [simp]:
  "cfg (set_spc t p s) = cfg s" "page (set_spc t p s) = page s" "disk (set_spc t p s) = disk s" "pool (set_spc t p s) = pool s"
  "free (set_spc t p s) = free s" "master (set_spc t p s) = master s"
  "in_flight (set_spc t p s) = in_flight s" "stopped (set_spc t p s) = stopped s"
  "queue (set_spc t p s) = queue s" "running (set_spc t p s) = running s"
  "pool_stopped (set_spc t p s) = pool_stopped s" "holder (set_spc t p s) = holder s"
  "task (set_spc t p s) = task s" "spcs (set_spc t p s) = (spcs s)(t := p)"
  "acks (set_spc t p s) = acks s" "sent (set_spc t p s) = sent s"
  "destroyed (set_spc t p s) = destroyed s" "persisted_bytes (set_spc t p s) = persisted_bytes s"
  by (simp_all add: set_spc_def)

lemma new_buffer:
  assumes "files_zero s" and "disk s k = Inr z"
  shows "buffer_valid (MmapBuffer c z)" and "ForEachFrame (MmapBuffer c z) = []"
    and "Capacity (MmapBuffer c z) = c" and "\<not> sealed (MmapBuffer c z)"
proof -
  have "holds (MmapBuffer c z) []" using assms by (intro holds_new) (auto simp: files_zero_def)
  then show "buffer_valid (MmapBuffer c z)" and "ForEachFrame (MmapBuffer c z) = []"
    by (auto intro: buffer_validI holds_walk)
  show "Capacity (MmapBuffer c z) = c" and "\<not> sealed (MmapBuffer c z)"
    by (simp_all add: MmapBuffer_def Capacity_def)
qed

lemma Write_sealed_flag [simp]: "sealed (snd (Write d b)) = sealed b"
  by (simp add: Write_def Let_def)

lemma sum_pending_upd:
  fixes i n :: nat
  assumes "i < n" and "\<And>j. j < n \<Longrightarrow> j \<noteq> i \<Longrightarrow> g j = f j"
  shows "(\<Sum>j<n. mset (g j)) + mset (f i) = (\<Sum>j<n. mset (f j)) + mset (g i)"
proof -
  have "(\<Sum>j\<in>{..<n} - {i}. mset (g j)) = (\<Sum>j\<in>{..<n} - {i}. mset (f j))"
    using assms(2) by (intro sum.cong) auto
  then show ?thesis
    using assms(1) sum.remove [OF finite_lessThan, of i n "\<lambda>j. mset (g j)"]
      sum.remove [OF finite_lessThan, of i n "\<lambda>j. mset (f j)"]
    by (simp add: ac_simps)
qed

text \<open>Frame: what a change of the program counters, the history of flags or the lock keeps.\<close>

lemma sinv_frame:
  assumes "sinv s"
    and "cfg s' = cfg s" "page s' = page s" "disk s' = disk s" "pool s' = pool s" "places s' = places s"
      "in_flight s' = in_flight s" "queue s' = queue s" "task s' = task s" "acks s' = acks s"
      "sent s' = sent s" "running s' = running s"
    and "\<And>t d cur. spcs s' t = AWrite d cur \<Longrightarrow> cur < length (pool s)"
  shows "sinv s'"
  using assms by (simp add: sinv_def files_zero_def pool_ok_def bufs_ok_def conserved_def pending_def)

lemma sinv_AWrite: "sinv s \<Longrightarrow> spcs s t = AWrite d cur \<Longrightarrow> cur < length (pool s)"
  by (auto simp: sinv_def bufs_ok_def)

lemma sinv_spc:
  "sinv s \<Longrightarrow> (\<And>d cur. p = AWrite d cur \<Longrightarrow> cur < length (pool s)) \<Longrightarrow> sinv (set_spc t p s)"
  by (rule sinv_frame) (auto simp: places_def intro: sinv_AWrite split: if_splits)

lemma sinv_master: "sinv s \<Longrightarrow> master s < length (pool s)"
  by (auto simp: sinv_def pool_ok_def places_def)

text \<open>Between \<open>AcquireFreeBufferLocked_\<close> and the exchange of the master a buffer is in hand.\<close>

definition in_hand :: "nat \<Rightarrow> store \<Rightarrow> bool" where
  "in_hand b s \<longleftrightarrow> files_zero s \<and> bufs_ok s \<and> conserved s
     \<and> distinct (b # places s) \<and> set (b # places s) = {..<length (pool s)}
     \<and> length (pool s) \<le> max_buffers (cfg s)
     \<and> in_flight s = length (queue s) + counted (task s)"

lemma in_hand_free:
  assumes "sinv s" and "free s = b # bs"
  shows "in_hand b (s\<lparr>free := bs\<rparr>)"
proof -
  have "mset (b # places (s\<lparr>free := bs\<rparr>)) = mset (places s)"
    using assms(2) by (simp add: places_def)
  then have "distinct (b # places (s\<lparr>free := bs\<rparr>)) \<and> set (b # places (s\<lparr>free := bs\<rparr>)) = set (places s)"
    using assms(1) by (metis mset_eq_imp_distinct_iff mset_eq_setD sinv_def pool_ok_def)
  then show ?thesis
    using assms by (auto simp: in_hand_def sinv_def pool_ok_def files_zero_def bufs_ok_def
        conserved_def pending_def)
qed

lemma in_hand_new:
  assumes inv: "sinv s" and z: "disk s (next_seq s) = Inr z" and room: "length (pool s) < max_buffers (cfg s)"
  shows "in_hand (length (pool s)) (s\<lparr>next_seq := next_seq s + 1,
           pool := pool s @ [MmapBuffer (region_bytes s) z]\<rparr>)"
    (is "in_hand ?n ?s")
proof -
  have fz: "files_zero s" using inv by (simp add: sinv_def)
  note new = new_buffer [OF fz z]
  have pl: "distinct (places s)" "set (places s) = {..<?n}" using inv by (simp_all add: sinv_def pool_ok_def)
  have task: "must_seal (task s) \<noteq> Some ?n" "\<And>ds. task s \<noteq> DWalk ?n ds" "task s \<noteq> DReset ?n"
    using pl(2) by (cases "task s"; force simp: places_def)+
  have "pending ?s i = pending s i" if "i < ?n" for i
    using that by (simp add: pending_def nth_append)
  moreover have "pending ?s ?n = []"
    using task new(2) by (cases "task s") (auto simp: pending_def pending_of_def)
  ultimately have "(\<Sum>i<Suc ?n. mset (pending ?s i)) = (\<Sum>i<?n. mset (pending s i))" by simp
  then have "conserved ?s" using inv by (simp add: sinv_def conserved_def)
  moreover have "bufs_ok ?s"
    using inv new task by (auto simp: sinv_def bufs_ok_def nth_append less_Suc_eq)
  moreover have "places ?s = places s" by (simp add: places_def)
  ultimately show ?thesis
    using inv pl room by (auto simp: in_hand_def sinv_def pool_ok_def files_zero_def less_Suc_eq)
qed

lemma acquire_cases:
  assumes "sinv s" and "AcquireFreeBufferLocked s = (a, s')"
  shows "(case a of Got b \<Rightarrow> in_hand b s' | Null \<Rightarrow> sinv s' | MustWait \<Rightarrow> s' = s)"
    and "acks s' = acks s" and "sent s' = sent s" and "spcs s' = spcs s" and "length (pool s) \<le> length (pool s')"
proof -
  have "sinv (s\<lparr>next_seq := next_seq s + 1\<rparr>)"
    by (rule sinv_frame [OF assms(1)]) (auto simp: places_def intro: sinv_AWrite [OF assms(1)])
  then show "(case a of Got b \<Rightarrow> in_hand b s' | Null \<Rightarrow> sinv s' | MustWait \<Rightarrow> s' = s)"
    using assms in_hand_free [OF assms(1)] in_hand_new [OF assms(1)]
    by (auto simp: AcquireFreeBufferLocked_def split: list.splits if_splits sum.splits)
  show "acks s' = acks s" and "sent s' = sent s" and "spcs s' = spcs s" and "length (pool s) \<le> length (pool s')"
    using assms(2) by (auto simp: AcquireFreeBufferLocked_def split: list.splits if_splits sum.splits)
qed

lemma after_wait_cases:
  assumes "sinv s" and "AcquireAfterWait s = (a, s')"
  shows "(case a of Got b \<Rightarrow> in_hand b s' | Null \<Rightarrow> sinv s' | MustWait \<Rightarrow> s' = s)"
    and "acks s' = acks s" and "sent s' = sent s" and "spcs s' = spcs s" and "length (pool s) \<le> length (pool s')"
  using assms in_hand_free [OF assms(1)]
  by (auto simp: AcquireAfterWait_def split: list.splits if_splits)

lemma swap_sinv:
  assumes "in_hand b s"
  shows "sinv (SwapMasterLocked t b s)"
proof -
  let ?s = "SwapMasterLocked t b s"
  have "mset (places ?s) = mset (b # places s)"
    by (simp add: places_def SwapMasterLocked_def)
  then have "distinct (places ?s) \<and> set (places ?s) = {..<length (pool s)}"
    using assms by (metis in_hand_def mset_eq_imp_distinct_iff mset_eq_setD)
  then show ?thesis
    using assms by (simp add: in_hand_def sinv_def pool_ok_def files_zero_def bufs_ok_def
        conserved_def pending_def SwapMasterLocked_def)
qed

section \<open>Every step keeps the invariant\<close>

lemma swap_client_sinv:
  assumes "\<And>b. a = Got b \<Longrightarrow> in_hand b s" and "a = Null \<or> a = MustWait \<Longrightarrow> sinv s"
  shows "sinv (swap_append t d (a, s))" and "sinv (swap_flush t dt n (a, s))"
proof -
  have "sinv (swap_append t d (a, s)) \<and> sinv (swap_flush t dt n (a, s))"
  proof (cases a)
    case (Got b)
    then have "sinv (SwapMasterLocked t b s)" using assms(1) swap_sinv by blast
    with Got show ?thesis by (auto simp: swap_append_def swap_flush_def intro!: sinv_spc)
  qed (use assms(2) in \<open>auto simp: swap_append_def swap_flush_def intro!: sinv_spc\<close>)
  then show "sinv (swap_append t d (a, s))" and "sinv (swap_flush t dt n (a, s))" by blast+
qed

lemma acquire_sinv:
  assumes "sinv s"
  shows "sinv (swap_append t d (AcquireFreeBufferLocked s))"
    and "sinv (swap_flush t dt n (AcquireFreeBufferLocked s))"
    and "sinv (swap_append t d (AcquireAfterWait s))"
    and "sinv (swap_flush t dt n (AcquireAfterWait s))"
proof -
  obtain a s' where a: "AcquireFreeBufferLocked s = (a, s')" by fastforce
  obtain c s'' where c: "AcquireAfterWait s = (c, s'')" by fastforce
  show "sinv (swap_append t d (AcquireFreeBufferLocked s))"
    and "sinv (swap_flush t dt n (AcquireFreeBufferLocked s))"
    unfolding a using acquire_cases(1) [OF assms a] assms by (auto intro!: swap_client_sinv)
  show "sinv (swap_append t d (AcquireAfterWait s))"
    and "sinv (swap_flush t dt n (AcquireAfterWait s))"
    unfolding c using after_wait_cases(1) [OF assms c] assms by (auto intro!: swap_client_sinv)
qed

text \<open>A step that changes one buffer.\<close>

lemma sinv_buffer:
  assumes inv: "sinv s" and b: "b < length (pool s)"
    and buf: "buffer_valid x" "Capacity x = Capacity (pool s ! b)" "sealed x = (must_seal (task s') = Some b)"
    and seal: "\<And>c. c \<noteq> b \<Longrightarrow> (must_seal (task s') = Some c) = (must_seal (task s) = Some c)"
    and cons: "conserved s'"
    and own: "owned (task s') = owned (task s)" "counted (task s') = counted (task s)"
    and eq: "pool s' = (pool s)[b := x]" "cfg s' = cfg s" "page s' = page s" "disk s' = disk s" "master s' = master s"
      "free s' = free s" "queue s' = queue s" "in_flight s' = in_flight s" "running s' = running s"
      "task s' = DNone \<longleftrightarrow> task s = DNone"
    and pc: "\<And>t d cur. spcs s' t = AWrite d cur \<Longrightarrow> cur < length (pool s)"
  shows "sinv s'"
proof -
  have "places s' = places s" using own eq by (simp add: places_def)
  then show ?thesis
    using inv b buf seal cons own eq pc
    by (auto simp: sinv_def pool_ok_def bufs_ok_def files_zero_def nth_list_update)
qed

lemma conserved_buffer:
  assumes "conserved s" and b: "b < length (pool s)"
    and eq: "length (pool s') = length (pool s)" "\<And>c. c \<noteq> b \<Longrightarrow> pending s' c = pending s c"
    and b': "mset (map snd (acks s')) + mset (sent s) + mset (pending s b) =
             mset (map snd (acks s)) + mset (sent s') + mset (pending s' b)"
  shows "conserved s'"
proof -
  have "(\<Sum>i<length (pool s). mset (pending s' i)) + mset (pending s b) =
        (\<Sum>i<length (pool s). mset (pending s i)) + mset (pending s' b)"
    using b eq(2) by (rule sum_pending_upd)
  moreover define S S' where "S = (\<Sum>i<length (pool s). mset (pending s i))"
    and "S' = (\<Sum>i<length (pool s). mset (pending s' i))"
  ultimately have S: "S' + mset (pending s b) = S + mset (pending s' b)" by simp
  have K: "mset (map snd (acks s)) = mset (sent s) + S"
    using assms(1) by (simp add: conserved_def S_def)
  have "mset (map snd (acks s')) + (mset (sent s) + mset (pending s b)) =
      mset (sent s) + mset (sent s') + (S + mset (pending s' b))"
    using b' unfolding K by (simp add: ac_simps)
  also have "\<dots> = (mset (sent s') + S') + (mset (sent s) + mset (pending s b))"
    unfolding S [symmetric] by (simp add: ac_simps)
  finally have "mset (map snd (acks s')) = mset (sent s') + S'" by (rule add_right_imp_eq)
  then show ?thesis using eq(1) by (simp add: conserved_def S'_def)
qed

lemma sinv_TryWrite:
  assumes inv: "sinv s" and ex: "sexec (TryWrite t) s = Some s'"
  shows "sinv s'"
proof -
  obtain d cur where pc: "spcs s t = AWrite d cur" using ex by (auto split: spc.splits)
  let ?b = "pool s ! cur"
  obtain ok b where w: "Write d ?b = (ok, b)" by fastforce
  have cur: "cur < length (pool s)" using inv pc by (rule sinv_AWrite)
  have v: "buffer_valid ?b" using inv cur by (auto simp: sinv_def bufs_ok_def)
  have c: "ForEachFrame b = ForEachFrame ?b @ (if ok then [d] else [])"
    using mb.put_contents [OF v, of d] w by simp
  have s': "s' = set_spc t (if ok then ADone d True else ALock d cur)
      (s\<lparr>pool := (pool s)[cur := b], acks := acks s @ (if ok then [(t, d)] else [])\<rparr>)"
    using ex pc w by (auto simp: set_spc_def)
  have "ok \<Longrightarrow> \<not> sealed ?b"
    using Write_sealed [of ?b d] w by auto
  then have open_: "ok \<Longrightarrow> must_seal (task s) \<noteq> Some cur"
    using inv cur by (auto simp: sinv_def bufs_ok_def)
  have "pending s' cur = pending s cur @ (if ok then [d] else [])"
    using open_ c cur by (cases "task s") (auto simp: pending_def pending_of_def s')
  moreover have "pending s' i = pending s i" if "i \<noteq> cur" for i
    using that by (simp add: pending_def s')
  ultimately have "conserved s'"
    by (intro conserved_buffer [of s cur s']) (use inv cur in \<open>auto simp: s' sinv_def\<close>)
  moreover have "buffer_valid b" using mb.put_valid [OF v, of d] w by simp
  moreover have "Capacity b = Capacity ?b" "sealed b = sealed ?b"
    using Write_capacity [of d ?b] Write_sealed_flag [of d ?b] w by simp_all
  moreover have "sealed ?b = (must_seal (task s) = Some cur)" using inv cur by (simp add: sinv_def bufs_ok_def)
  moreover have "spcs s' u = AWrite e k \<Longrightarrow> k < length (pool s)" for u e k
    using sinv_AWrite [OF inv, of u e k] by (auto simp: s' split: if_splits)
  ultimately show ?thesis
    by (intro sinv_buffer [OF inv cur, of b s']) (simp_all add: s')
qed

lemma owned_less: "sinv s \<Longrightarrow> b \<in> set (owned (task s)) \<Longrightarrow> b < length (pool s)"
  by (auto simp: sinv_def pool_ok_def places_def)

lemma sinv_drain_buffer:
  assumes inv: "sinv s" and ex: "sexec DrainSeal s = Some s' \<or> sexec DrainReset s = Some s'"
  shows "sinv s'"
proof -
  consider b where "task s = DSeal b" "s' = s\<lparr>pool := (pool s)[b := Seal (pool s ! b)], task := DSync b\<rparr>"
    | b where "task s = DReset b" "s' = s\<lparr>pool := (pool s)[b := ResetForReuse (pool s ! b)], task := DPush b\<rparr>"
    using ex by (auto split: drain.splits)
  then show ?thesis
  proof cases
    case (1 b)
    have b: "b < length (pool s)" using owned_less [OF inv, of b] 1 by simp
    then have v: "buffer_valid (pool s ! b)" using inv by (auto simp: sinv_def bufs_ok_def)
    have "conserved s'"
      by (rule conserved_buffer [of s b s'])
        (use inv 1 b mb.shut_contents [OF v] in \<open>auto simp: sinv_def pending_def pending_of_def\<close>)
    then show ?thesis
      by (intro sinv_buffer [OF inv b, of "Seal (pool s ! b)"])
        (use 1 mb.shut_valid [OF v] sinv_AWrite [OF inv] in \<open>auto simp: Seal_def Capacity_def counted_def\<close>)
  next
    case (2 b)
    have b: "b < length (pool s)" using owned_less [OF inv, of b] 2 by simp
    then have v: "buffer_valid (pool s ! b)" using inv by (auto simp: sinv_def bufs_ok_def)
    then have h: "holds (pool s ! b) (ForEachFrame (pool s ! b))" by (simp add: buffer_valid_def)
    have "conserved s'"
      by (rule conserved_buffer [of s b s'])
        (use inv 2 b mb.clear_contents [OF v] in \<open>auto simp: sinv_def pending_def pending_of_def\<close>)
    then show ?thesis
      by (intro sinv_buffer [OF inv b, of "ResetForReuse (pool s ! b)"])
        (use 2 mb.clear_valid [OF v] Reset_holds [OF h] sinv_AWrite [OF inv] in \<open>auto simp: counted_def\<close>)
  qed
qed

text \<open>A step of the drain that changes no buffer.\<close>

lemma sinv_task:
  assumes inv: "sinv s" and "pool_ok s'" and "conserved s'" and "must_seal (task s') = must_seal (task s)"
    and "pool s' = pool s" "cfg s' = cfg s" "page s' = page s" "disk s' = disk s" "spcs s' = spcs s"
  shows "sinv s'"
  using assms by (simp add: sinv_def bufs_ok_def files_zero_def)

lemma conserved_frame:
  "sinv s \<Longrightarrow> pool s' = pool s \<Longrightarrow> acks s' = acks s \<Longrightarrow> sent s' = sent s \<Longrightarrow>
     (\<And>i. pending_of (task s') i (pool s ! i) = pending_of (task s) i (pool s ! i)) \<Longrightarrow> conserved s'"
  by (simp add: sinv_def conserved_def pending_def)

lemmas task_defs = pool_ok_def places_def counted_def pending_of_def

lemma sinv_pool_ok: "sinv s \<Longrightarrow> pool_ok s"
  by (simp add: sinv_def)

lemma sinv_StrandNext:
  assumes inv: "sinv s" and ex: "sexec StrandNext s = Some s'"
  shows "sinv s'"
proof (cases "queue s")
  case Nil
  with ex have s': "s' = s\<lparr>running := False\<rparr>" and k: "task s = DNone" by (simp_all split: if_splits)
  have "pool_ok s'" using sinv_pool_ok [OF inv] Nil k by (simp add: s' task_defs)
  moreover have "conserved s'" by (rule conserved_frame [OF inv]) (simp_all add: s')
  ultimately show ?thesis by (rule sinv_task [OF inv]) (simp_all add: s')
next
  case (Cons b bs)
  with ex have s': "s' = s\<lparr>queue := bs, task := DSeal b\<rparr>" and k: "task s = DNone"
    by (simp_all split: if_splits)
  have "pool_ok s'" using sinv_pool_ok [OF inv] Cons k by (auto simp: s' task_defs)
  moreover have "conserved s'" by (rule conserved_frame [OF inv]) (simp_all add: s' k pending_of_def)
  ultimately show ?thesis by (rule sinv_task [OF inv]) (simp_all add: s' k)
qed

lemma sinv_DrainSync:
  assumes inv: "sinv s" and ex: "sexec DrainSync s = Some s'"
  shows "sinv s'"
proof -
  obtain b where k: "task s = DSync b" and s': "s' = s\<lparr>task := DWalk b (ForEachFrame (pool s ! b))\<rparr>"
    using ex by (auto split: drain.splits)
  have "pool_ok s'" using sinv_pool_ok [OF inv] k by (simp add: s' task_defs)
  moreover have "conserved s'" by (rule conserved_frame [OF inv]) (simp_all add: s' k pending_of_def)
  ultimately show ?thesis by (rule sinv_task [OF inv]) (simp_all add: s' k)
qed

lemma sinv_DrainFrame:
  assumes inv: "sinv s" and ex: "sexec (DrainFrame ok) s = Some s'"
  shows "sinv s'"
proof -
  obtain b fs where k: "task s = DWalk b fs" using ex by (auto split: drain.splits)
  show ?thesis
  proof (cases fs)
    case Nil
    with ex k have s': "s' = s\<lparr>task := DReset b\<rparr>" by simp
    have "pool_ok s'" using sinv_pool_ok [OF inv] k by (simp add: s' task_defs)
    moreover have "conserved s'"
      by (rule conserved_frame [OF inv]) (simp_all add: s' k Nil pending_of_def)
    ultimately show ?thesis by (rule sinv_task [OF inv]) (simp_all add: s' k)
  next
    case (Cons d ds)
    with ex k obtain p where
      s': "s' = s\<lparr>sent := sent s @ [d], persisted_bytes := p, task := DWalk b ds\<rparr>" by auto
    have b: "b < length (pool s)" using owned_less [OF inv, of b] k by simp
    have "conserved s"  using inv by (simp add: sinv_def)
    then have "conserved s'"
      by (rule conserved_buffer [of s b s'])
        (simp_all add: s' k Cons b pending_def pending_of_def)
    moreover have "pool_ok s'" using sinv_pool_ok [OF inv] k by (simp add: s' task_defs)
    ultimately show ?thesis by (intro sinv_task [OF inv]) (simp_all add: s' k)
  qed
qed

lemma sinv_DrainPush:
  assumes inv: "sinv s" and ex: "sexec DrainPush s = Some s'"
  shows "sinv s'"
proof -
  obtain b where k: "task s = DPush b" and s': "s' = s\<lparr>free := free s @ [b], task := DDec\<rparr>"
    using ex by (auto simp: locked_def split: drain.splits if_splits)
  have "pool_ok s'" using sinv_pool_ok [OF inv] k by (auto simp: s' task_defs)
  moreover have "conserved s'" by (rule conserved_frame [OF inv]) (simp_all add: s' k pending_of_def)
  ultimately show ?thesis by (rule sinv_task [OF inv]) (simp_all add: s' k)
qed

lemma sinv_DrainDec:
  assumes inv: "sinv s" and ex: "sexec DrainDec s = Some s'"
  shows "sinv s'"
proof -
  have k: "task s = DDec" using ex by (cases "task s = DDec") simp_all
  define k' where "k' = (if in_flight s - 1 = 0 then DNotify else DNone)"
  have k': "k' = DNotify \<or> k' = DNone" by (simp add: k'_def)
  have "sexec DrainDec s = Some (s\<lparr>in_flight := in_flight s - 1, task := k'\<rparr>)"
    by (subst sexec.simps, subst k, subst if_P [OF refl]) (simp only: k'_def)
  with ex have s': "s' = s\<lparr>in_flight := in_flight s - 1, task := k'\<rparr>" by (simp only: option.inject)
  have k'': "owned k' = []" "counted k' = 0" "must_seal k' = None" "pending_of k' i b = ForEachFrame b" for i b
    using k' by (auto simp: counted_def pending_of_def)
  have "pool_ok s'"
    using sinv_pool_ok [OF inv] k k''(2) by (simp add: s' k''(1) pool_ok_def places_def counted_def [of DDec])
  moreover have "conserved s'"
    by (rule conserved_frame [OF inv]) (simp_all add: s' k k'' pending_of_def [of DDec])
  ultimately show ?thesis by (rule sinv_task [OF inv]) (simp_all add: s' k k'')
qed

lemma sinv_DrainNotify:
  assumes inv: "sinv s" and ex: "sexec DrainNotify s = Some s'"
  shows "sinv s'"
proof -
  have k: "task s = DNotify" and s': "s' = s\<lparr>task := DNone\<rparr>"
    using ex by (auto simp: locked_def split: if_splits)
  have "pool_ok s'" using sinv_pool_ok [OF inv] k by (simp add: s' task_defs)
  moreover have "conserved s'" by (rule conserved_frame [OF inv]) (simp_all add: s' k pending_of_def)
  ultimately show ?thesis by (rule sinv_task [OF inv]) (simp_all add: s' k)
qed

text \<open>The steps of the clients.\<close>

lemma sinv_flush_exit: "sinv s \<Longrightarrow> sinv (flush_exit t dt n s)"
  unfolding flush_exit_def by (rule sinv_spc) (auto split: if_splits)

lemma locked_Some: "locked s r = Some x \<longleftrightarrow> holder s = None \<and> r = Some x"
  by (simp add: locked_def)

lemma sinv_flags:
  assumes "sinv s"
  shows "sinv (s\<lparr>holder := h, stopped := b, destroyed := c, pool_stopped := e\<rparr>)"
  by (rule sinv_frame [OF assms]) (auto simp: places_def intro: sinv_AWrite [OF assms])

lemma sinv_client:
  assumes inv: "sinv s" and ex: "sexec a s = Some s'"
    and a: "a \<in> {Append t d, LoadMaster t, LockSwap t, WakeSwap t, TimeOut t}"
  shows "sinv s'"
  using a
proof (elim insertE emptyE)
  assume "a = LoadMaster t"
  with ex obtain e where "s' = set_spc t (AWrite e (master s)) s" by (auto split: spc.splits)
  with inv sinv_master [OF inv] show ?thesis by (auto intro: sinv_spc)
qed (use ex inv in \<open>auto simp: locked_Some intro!: sinv_spc acquire_sinv split: spc.splits if_splits\<close>)

lemma sinv_flush:
  assumes inv: "sinv s" and ex: "sexec a s = Some s'"
    and a: "a \<in> {Flush t, FlushLock t, FlushWake t, FlushReturn t}"
  shows "sinv s'"
  using a
  by (elim insertE emptyE; use ex inv in \<open>auto simp: locked_Some Let_def intro!: sinv_spc acquire_sinv
      sinv_flush_exit split: spc.splits if_splits\<close>)

lemma sinv_others:
  assumes inv: "sinv s" and ex: "sexec a s = Some s'"
    and a: "a \<in> {PostReturns t, Destroy t, DestroyLock t, DestroyEnd t, PoolShutdown}"
  shows "sinv s'"
proof -
  note fl = sinv_flags [OF inv, where h = "holder s" and b = "stopped s" and c = "destroyed s" and e = True]
    sinv_flags [OF inv, where h = "holder s" and b = True and c = "destroyed s" and e = "pool_stopped s"]
    sinv_flags [OF inv, where h = "holder s" and b = "stopped s" and c = True and e = "pool_stopped s"]
    sinv_flags [OF inv, where h = None and b = "stopped s" and c = "destroyed s" and e = "pool_stopped s"]
  show ?thesis
    using a
    by (elim insertE emptyE; use ex inv fl in \<open>auto simp: locked_Some intro!: sinv_spc split: spc.splits if_splits\<close>)
qed

lemma sinv_step: "sexec a s = Some s' \<Longrightarrow> sinv s \<Longrightarrow> sinv s'"
proof (cases a)
  case (TryWrite t)
  assume "sexec a s = Some s'" "sinv s"
  with TryWrite sinv_TryWrite show ?thesis by blast
qed (blast intro: sinv_client sinv_flush sinv_others sinv_drain_buffer sinv_StrandNext sinv_DrainSync
       sinv_DrainFrame sinv_DrainPush sinv_DrainDec sinv_DrainNotify)+

section \<open>The store as constructed\<close>

text \<open>A store just constructed over buffer files that hold no bytes but zeros.\<close>

definition started :: "store \<Rightarrow> bool" where
  "started s \<longleftrightarrow> files_zero s \<and> (\<exists>c pg hs hp dsk. MmapStore c pg hs hp dsk = Inr s)"

text \<open>No creation of a buffer file fails.\<close>

definition files_open :: "store \<Rightarrow> bool" where
  "files_open s \<longleftrightarrow> (\<forall>k. \<exists>z. disk s k = Inr z)"

lemma prealloc_fresh:
  assumes "prealloc dsk cap i n = Inr bs"
    and "\<And>k z. dsk k = Inr z \<Longrightarrow> list_all (\<lambda>x. x = 0) z"
  shows "length bs = n \<and> (\<forall>b\<in>set bs. buffer_valid b \<and> ForEachFrame b = [] \<and> Capacity b = cap \<and> \<not> sealed b)"
  using assms(1)
proof (induction n arbitrary: i bs)
  case (Suc n)
  then obtain z cs where z: "dsk i = Inr z" "prealloc dsk cap (i + 1) n = Inr cs" "bs = MmapBuffer cap z # cs"
    by (auto split: sum.splits)
  have h: "holds (MmapBuffer cap z) []" using assms(2) [OF z(1)] by (rule holds_new)
  have "Capacity (MmapBuffer cap z) = cap" "\<not> sealed (MmapBuffer cap z)"
    by (simp_all add: MmapBuffer_def Capacity_def)
  with Suc.IH [OF z(2)] z(3) h show ?case by (auto intro: buffer_validI holds_walk)
qed simp

lemma normalise_bounds:
  "1 \<le> min_buffers (normalise c) \<and> min_buffers (normalise c) \<le> max_buffers (normalise c)
     \<and> 0 < buffer_bytes (normalise c)"
  by (auto simp: normalise_def Let_def)

lemma started_facts:
  assumes "started s"
  shows "sinv s \<and> holder s = None \<and> (\<forall>t. spcs s t = SIdle) \<and> acks s = [] \<and> sent s = []
    \<and> queue s = [] \<and> task s = DNone \<and> (\<forall>b<length (pool s). ForEachFrame (pool s ! b) = [])
    \<and> 0 < buffer_bytes (cfg s) \<and> \<not> destroyed s"
proof -
  obtain c pg hs hp dsk where m: "MmapStore c pg hs hp dsk = Inr s" and fz: "files_zero s"
    using assms by (auto simp: started_def)
  let ?c = "normalise c"
  obtain bs where bs: "prealloc dsk (RoundUpToPage pg (buffer_bytes ?c)) 0 (min_buffers ?c) = Inr bs"
    and s: "s = \<lparr>cfg = ?c, page = pg, disk = dsk, pool = bs, free = [1..<min_buffers ?c], master = 0,
             in_flight = 0, persisted_bytes = 0, next_seq = min_buffers ?c, stopped = False,
             destroyed = False, queue = [], running = False, pool_stopped = False, holder = None,
             task = DNone, spcs = (\<lambda>_. SIdle), acks = [], sent = []\<rparr>"
    using m by (auto simp: MmapStore_def Let_def split: if_splits sum.splits)
  have "\<And>k z. dsk k = Inr z \<Longrightarrow> list_all (\<lambda>x. x = 0) z" using fz by (simp add: files_zero_def s)
  note new = prealloc_fresh [OF bs this]
  have n: "1 \<le> min_buffers ?c" "min_buffers ?c \<le> max_buffers ?c" "0 < buffer_bytes ?c"
    using normalise_bounds [of c] by auto
  have "set (0 # [1..<min_buffers ?c]) = {..<min_buffers ?c}" using n by auto
  then have "pool_ok s" using new n by (simp add: s pool_ok_def places_def counted_def)
  moreover have "bufs_ok s" using new by (simp add: s bufs_ok_def)
  moreover have e: "ForEachFrame (bs ! i) = []" if "i < length bs" for i using new that by simp
  then have "conserved s" by (simp add: s conserved_def pending_def pending_of_def)
  ultimately show ?thesis using fz n e by (simp add: sinv_def s)
qed

interpretation store_sys: invariant_system started store_step sinv
proof unfold_locales
  show "sinv s" if "started s" for s using started_facts [OF that] by blast
  show "sinv t" if "store_step s t" "sinv s" for s t
    using that sinv_step by (auto simp: store_step_def acts_step_def store_exec_def split: if_splits)
qed

section \<open>Properties\<close>

text \<open>
  A run used as a concrete instance: one thread appends three records to buffers of 16 bytes,
  which makes the first buffer overflow, and flushes while the strand drains.
\<close>

definition small_cfg :: config where
  "small_cfg = \<lparr>dir = ''logs'', buffer_bytes = 16, min_buffers = 2, max_buffers = 2\<rparr>"

definition small_store :: store where
  "small_store = (case MmapStore small_cfg 16 True True (\<lambda>_. Inr []) of Inr s \<Rightarrow> s)"

definition drain_run :: "bool list \<Rightarrow> sact list" where
  "drain_run oks = [StrandNext, DrainSeal, DrainSync] @ map DrainFrame oks @
     [DrainFrame True, DrainReset, DrainPush]"

definition client_run :: "sact list" where
  "client_run =
     [Append 1 [1, 2], LoadMaster 1, TryWrite 1, Append 1 [3], LoadMaster 1, TryWrite 1,
      Append 1 [4, 5, 6], LoadMaster 1, TryWrite 1, LockSwap 1, LoadMaster 1, TryWrite 1, Flush 1]
     @ drain_run [True, True] @ [FlushLock 1, DrainDec] @ drain_run [True] @ [DrainDec, FlushReturn 1]"

lemma small_store_eq:
  "MmapStore small_cfg 16 True True (\<lambda>_. Inr []) = Inr small_store"
  by (simp add: small_store_def MmapStore_def small_cfg_def normalise_def Let_def numeral_2_eq_2)

lemma small_started: "started small_store \<and> files_open small_store"
proof -
  have "disk small_store = (\<lambda>_. Inr [])"
    by (simp add: small_store_def MmapStore_def small_cfg_def normalise_def Let_def numeral_2_eq_2)
  then show ?thesis using small_store_eq by (simp add: started_def files_zero_def files_open_def) blast
qed

lemma prealloc_numeral [simp]:
  "prealloc dsk cap i (numeral n) =
     (case dsk i of
        Inl e \<Rightarrow> Inl e
      | Inr z \<Rightarrow> (case prealloc dsk cap (i + 1) (pred_numeral n) of
           Inl e \<Rightarrow> Inl e
         | Inr bs \<Rightarrow> Inr (MmapBuffer cap z # bs)))"
  by (simp add: numeral_eq_Suc)

lemma small_store_val:
  "small_store = \<lparr>cfg = small_cfg, page = 16, disk = (\<lambda>_. Inr []),
     pool = [\<lparr>mem = replicate 16 0, offset = 0, writers = 0, sealed = False\<rparr>,
             \<lparr>mem = replicate 16 0, offset = 0, writers = 0, sealed = False\<rparr>],
     free = [1], master = 0, in_flight = 0, persisted_bytes = 0, next_seq = 2, stopped = False,
     destroyed = False, queue = [], running = False, pool_stopped = False, holder = None,
     task = DNone, spcs = (\<lambda>_. SIdle), acks = [], sent = []\<rparr>"
  by (simp add: small_store_def MmapStore_def small_cfg_def normalise_def Let_def MmapBuffer_def upt_rec RoundUpToPage_def)

text \<open>The definitions a concrete run is evaluated with.\<close>

lemmas store_eval = RoundUpToPage_def small_store_val small_cfg_def store_exec_def at_rest_def
  set_spc_def Write_def Let_def MmapBuffer_def Capacity_def locked_Some locked_def Used_def
  swap_append_def swap_flush_def AcquireFreeBufferLocked_def AcquireAfterWait_def
  SwapMasterLocked_def posts_inline_def flush_exit_def Seal_def ResetForReuse_def ForEachFrame_def
  WriteU32LE_def mem_write_def mem_read_def decode_le32_def min_def walk.simps drain_run_def

lemma store_run_steps: "run_acts store_exec as s = Some s' \<Longrightarrow> store_step\<^sup>*\<^sup>* s s'"
  unfolding store_step_def by (rule run_acts_steps)





text \<open>
  Two buffers never share a file: \<open>BuildBufferPath_\<close> gives different names to different sequence
  numbers, also past six digits.
\<close>

theorem buffer_paths_distinct:
  "BuildBufferPath d i = BuildBufferPath d j \<longleftrightarrow> i = j"
  by (simp add: BuildBufferPath_def path_join_inj pad_dec_inj)

end
