(* ===== verification/Mmap_Store_Flush.thy ===== *)
theory Mmap_Store_Flush
  imports Mmap_Store
begin

text \<open>
  What \<open>MmapStore::Flush\<close> promises: the acknowledged records are handed over in order, and a flush
  that returns has waited for every record acknowledged before it. It holds for the runs
  without stale writes (\<open>fresh_step\<close>), among them every run of a single client thread.
\<close>

section \<open>Order, and what Flush waits for\<close>

definition contents :: "store \<Rightarrow> nat \<Rightarrow> bytes list" where
  "contents s i = ForEachFrame (pool s ! i)"

definition moving :: "store \<Rightarrow> bytes list" where
  "moving s = (case task s of
      DSeal b \<Rightarrow> contents s b
    | DSync b \<Rightarrow> contents s b
    | DWalk b ds \<Rightarrow> ds
    | _ \<Rightarrow> [])"

definition inflight :: "store \<Rightarrow> bytes list" where
  "inflight s = moving s @ concat (map (contents s) (queue s))"

definition mark_ok :: "store \<Rightarrow> spc \<Rightarrow> bool" where
  "mark_ok s p = (case p of
      FWait dt n \<Rightarrow> stopped s \<or> n \<le> length (sent s @ inflight s)
    | FPost dt n \<Rightarrow> stopped s \<or> n \<le> length (sent s @ inflight s)
    | FWaitFree dt n \<Rightarrow> n \<le> length (acks s)
    | FDone n \<Rightarrow> stopped s \<or> n \<le> length (sent s)
    | _ \<Rightarrow> True)"

definition fifo :: "store \<Rightarrow> bool" where
  "fifo s \<longleftrightarrow>
     map snd (acks s) = sent s @ inflight s @ contents s (master s)
     \<and> (\<forall>b\<in>set (free s). contents s b = [])
     \<and> (\<forall>b. task s = DPush b \<longrightarrow> contents s b = [])
     \<and> (\<forall>t. mark_ok s (spcs s t))"

text \<open>A stale write: one that succeeds on a buffer that is no longer the master.\<close>

definition stale :: "sact \<Rightarrow> store \<Rightarrow> bool" where
  "stale a s = (case a of
      TryWrite t \<Rightarrow> (case spcs s t of
          AWrite d cur \<Rightarrow> cur \<noteq> master s \<and> fst (Write d (pool s ! cur))
        | _ \<Rightarrow> False)
    | _ \<Rightarrow> False)"

definition fresh_exec :: "sact \<Rightarrow> store \<Rightarrow> store option" where
  "fresh_exec a s = (if stale a s then None else store_exec a s)"

definition fresh_step :: "store \<Rightarrow> store \<Rightarrow> bool" where
  "fresh_step = acts_step fresh_exec"

lemma contents_cong: "pool s' = pool s \<Longrightarrow> contents s' = contents s"
  by (simp add: contents_def fun_eq_iff)

lemma moving_cong: "pool s' = pool s \<Longrightarrow> task s' = task s \<Longrightarrow> moving s' = moving s"
  by (simp add: moving_def contents_def cong: drain.case_cong)

lemma contents_set_spc [simp]:
  "contents (set_spc t p s) = contents s" "moving (set_spc t p s) = moving s"
  by (rule contents_cong moving_cong; simp)+

lemma inflight_set_spc [simp]: "inflight (set_spc t p s) = inflight s"
  by (simp add: inflight_def)

lemma mark_mono:
  assumes "mark_ok s p"
    and "length (sent s @ inflight s) \<le> length (sent s' @ inflight s')"
    and "length (sent s) \<le> length (sent s')" and "length (acks s) \<le> length (acks s')"
    and "stopped s \<Longrightarrow> stopped s'"
  shows "mark_ok s' p"
  using assms by (cases p) (auto simp: mark_ok_def)

lemma fifo_upd:
  assumes "fifo s"
    and eq: "acks s' = acks s @ new"
      "sent s' @ inflight s' @ contents s' (master s') = sent s @ inflight s @ contents s (master s) @ map snd new"
    and idle: "\<And>b. b \<in> set (free s') \<Longrightarrow> contents s' b = []"
      "\<And>b. task s' = DPush b \<Longrightarrow> contents s' b = []"
    and mono: "length (sent s @ inflight s) \<le> length (sent s' @ inflight s')"
      "length (sent s) \<le> length (sent s')" "stopped s \<Longrightarrow> stopped s'"
    and pcs: "spcs s' = (spcs s)(t := p)" "mark_ok s' p"
  shows "fifo s'"
proof -
  have "mark_ok s' (spcs s u)" for u
  proof (rule mark_mono [OF _ mono(1,2) _ mono(3)])
    show "mark_ok s (spcs s u)" using assms(1) by (simp add: fifo_def)
  qed (simp_all add: eq(1))
  then have m: "mark_ok s' (spcs s' u)" for u using pcs by simp
  have "map snd (acks s) @ map snd new = sent s' @ inflight s' @ contents s' (master s')"
    using assms(1) eq(2) by (simp add: fifo_def)
  then show ?thesis
    unfolding fifo_def using eq(1) idle m by auto
qed

lemma fifo_same:
  assumes "fifo s"
    and eq: "acks s' = acks s" "spcs s' = spcs s"
      "sent s' @ inflight s' @ contents s' (master s') = sent s @ inflight s @ contents s (master s)"
    and idle: "\<And>b. b \<in> set (free s') \<Longrightarrow> contents s' b = []"
      "\<And>b. task s' = DPush b \<Longrightarrow> contents s' b = []"
    and mono: "length (sent s @ inflight s) \<le> length (sent s' @ inflight s')"
      "length (sent s) \<le> length (sent s')" "stopped s \<Longrightarrow> stopped s'"
  shows "fifo s'"
proof -
  have "mark_ok s' (spcs s u)" for u
  proof (rule mark_mono [OF _ mono(1,2) _ mono(3)])
    show "mark_ok s (spcs s u)" using assms(1) by (simp add: fifo_def)
  qed (simp_all add: eq(1))
  then have m: "mark_ok s' (spcs s' u)" for u using eq(2) by simp
  have "map snd (acks s) = sent s' @ inflight s' @ contents s' (master s')"
    using assms(1) eq(3) by (simp add: fifo_def)
  then show ?thesis
    unfolding fifo_def using eq(1) idle m by auto
qed

lemma fifo_spc: "fifo s \<Longrightarrow> mark_ok s p \<Longrightarrow> fifo (set_spc t p s)"
  by (rule fifo_upd [of s _ "[]" t p]) (auto simp: fifo_def mark_ok_def split: spc.splits)

lemma mark_set_spc [simp]: "mark_ok (set_spc t p s) q = mark_ok s q"
  by (cases q) (simp_all add: mark_ok_def)

text \<open>A buffer in hand is empty, and nothing else has changed.\<close>

definition hand_fifo :: "nat \<Rightarrow> store \<Rightarrow> store \<Rightarrow> bool" where
  "hand_fifo b s s' \<longleftrightarrow> fifo s' \<and> contents s' b = [] \<and> spcs s' = spcs s \<and> acks s' = acks s"

lemma hand_free:
  assumes "fifo s" and "free s = b # bs"
  shows "hand_fifo b s (s\<lparr>free := bs\<rparr>)"
proof -
  have "contents (s\<lparr>free := bs\<rparr>) = contents s" "moving (s\<lparr>free := bs\<rparr>) = moving s"
    by (rule contents_cong moving_cong; simp)+
  with assms show ?thesis by (auto simp: hand_fifo_def fifo_def mark_ok_def inflight_def split: spc.splits)
qed

lemma hand_new:
  assumes inv: "sinv s" and f: "fifo s" and z: "disk s (next_seq s) = Inr z"
  shows "hand_fifo (length (pool s)) s (s\<lparr>next_seq := next_seq s + 1,
           pool := pool s @ [MmapBuffer (region_bytes s) z]\<rparr>)" (is "hand_fifo ?n s ?s")
proof -
  have "files_zero s" using inv by (simp add: sinv_def)
  note new = new_buffer [OF this z]
  have c: "i < ?n \<Longrightarrow> contents ?s i = contents s i" for i
    by (simp add: contents_def nth_append)
  have pl: "set (places s) = {..<?n}" using inv by (simp add: sinv_def pool_ok_def)
  then have in_pool: "i < ?n" if "i \<in> set (places s)" for i
    using that by simp
  have "moving ?s = moving s"
    using in_pool c by (cases "task s") (auto simp: moving_def places_def)
  moreover have "map (contents ?s) (queue s) = map (contents s) (queue s)"
    using in_pool c by (auto simp: places_def)
  ultimately have i: "inflight ?s = inflight s" by (simp add: inflight_def cong: map_cong)
  have "fifo ?s"
  proof (rule fifo_same [OF f])
    show "contents ?s b = []" if "b \<in> set (free ?s)" for b
      using that f in_pool c by (auto simp: fifo_def places_def)
    show "contents ?s b = []" if "task ?s = DPush b" for b
      using that f in_pool c by (auto simp: fifo_def places_def)
  qed (use i c sinv_master [OF inv] in simp_all)
  moreover have "contents ?s ?n = []" using new(2) by (simp add: contents_def)
  ultimately show ?thesis by (simp add: hand_fifo_def)
qed

lemma swap_fifo:
  assumes h: "hand_fifo b s s'"
  shows "fifo (SwapMasterLocked t b s')"
    and "length (sent (SwapMasterLocked t b s') @ inflight (SwapMasterLocked t b s')) = length (acks s')"
proof -
  let ?s = "SwapMasterLocked t b s'"
  have f: "fifo s'" and e: "contents s' b = []" using h by (simp_all add: hand_fifo_def)
  have c: "contents ?s = contents s'" and m: "moving ?s = moving s'"
    by (rule contents_cong moving_cong; simp add: SwapMasterLocked_def)+
  then have i: "inflight ?s = inflight s' @ contents s' (master s')"
    by (simp add: inflight_def) (simp add: SwapMasterLocked_def)
  show "fifo ?s"
    by (rule fifo_same [OF f]) (use f c e i in \<open>auto simp: SwapMasterLocked_def fifo_def\<close>)
  have "length (acks s') = length (map snd (acks s'))" by simp
  also have "\<dots> = length (sent ?s @ inflight ?s)"
    using f i by (simp add: fifo_def SwapMasterLocked_def)
  finally show "length (sent ?s @ inflight ?s) = length (acks s')" by simp
qed

definition grab_ok :: "store \<Rightarrow> acquired \<times> store \<Rightarrow> bool" where
  "grab_ok s r = (case r of
      (Got b, s') \<Rightarrow> hand_fifo b s s'
    | (Null, s') \<Rightarrow> stopped s' \<and> fifo s' \<and> acks s' = acks s
    | (MustWait, s') \<Rightarrow> s' = s)"

lemma grab_acquire:
  assumes inv: "sinv s" and f: "fifo s" and o1: "files_open s"
  shows "grab_ok s (AcquireFreeBufferLocked s)"
proof (cases "free s")
  case (Cons b bs)
  with hand_free [OF f Cons] show ?thesis by (simp add: AcquireFreeBufferLocked_def grab_ok_def)
next
  case Nil
  obtain z where z: "disk s (next_seq s) = Inr z" using o1 by (auto simp: files_open_def)
  with Nil hand_new [OF inv f z] show ?thesis
    by (simp add: AcquireFreeBufferLocked_def grab_ok_def)
qed

lemma grab_after_wait:
  assumes f: "fifo s" and p: "stopped s \<or> free s \<noteq> []"
  shows "grab_ok s (AcquireAfterWait s)"
proof (cases "stopped s \<or> free s = []")
  case True
  with f p show ?thesis by (auto simp: AcquireAfterWait_def grab_ok_def)
next
  case False
  then obtain b bs where b: "free s = b # bs" by (cases "free s") auto
  from hand_free [OF f b] False b show ?thesis by (simp add: AcquireAfterWait_def grab_ok_def)
qed

lemma fifo_swap_append:
  assumes "grab_ok s r" and f: "fifo s"
  shows "fifo (swap_append t d r)"
proof -
  obtain a s' where r: "r = (a, s')" by fastforce
  show ?thesis
  proof (cases a)
    case (Got b)
    with assms r have "fifo (SwapMasterLocked t b s')" by (intro swap_fifo(1)) (simp add: grab_ok_def)
    with Got r show ?thesis by (auto simp: swap_append_def mark_ok_def intro!: fifo_spc)
  qed (use assms r in \<open>auto simp: grab_ok_def swap_append_def mark_ok_def intro!: fifo_spc\<close>)
qed

lemma fifo_swap_flush:
  assumes "grab_ok s r" and f: "fifo s" and n: "n \<le> length (acks s)"
  shows "fifo (swap_flush t dt n r)"
proof -
  obtain a s' where r: "r = (a, s')" by fastforce
  show ?thesis
  proof (cases a)
    case (Got b)
    with assms r have h: "hand_fifo b s s'" by (simp add: grab_ok_def)
    then have "n \<le> length (acks s')" using n by (simp add: hand_fifo_def)
    with swap_fifo(2) [OF h] have "mark_ok (SwapMasterLocked t b s') (FWait dt n)"
      "mark_ok (SwapMasterLocked t b s') (FPost dt n)"
      by (simp_all add: mark_ok_def)
    with swap_fifo(1) [OF h] Got r show ?thesis by (auto simp: swap_flush_def intro!: fifo_spc)
  qed (use assms r in \<open>auto simp: grab_ok_def swap_flush_def mark_ok_def intro!: fifo_spc\<close>)
qed

lemma fifo_cases:
  assumes "fifo s"
  shows "map snd (acks s) = sent s @ inflight s @ contents s (master s)"
    and "b \<in> set (free s) \<Longrightarrow> contents s b = []" and "task s = DPush b \<Longrightarrow> contents s b = []"
    and "mark_ok s (spcs s t)"
  using assms by (simp_all add: fifo_def)

text \<open>A step that leaves every buffer, the queue and the drain alone.\<close>

lemma fifo_flags:
  assumes "fifo s"
    and "pool s' = pool s" "task s' = task s" "queue s' = queue s" "master s' = master s" "free s' = free s"
      "acks s' = acks s" "sent s' = sent s" "spcs s' = spcs s" "stopped s \<Longrightarrow> stopped s'"
  shows "fifo s'"
proof -
  have c: "contents s' = contents s" "moving s' = moving s"
    by (rule contents_cong moving_cong; fact assms)+
  then have "inflight s' = inflight s" using assms(4) by (simp add: inflight_def)
  then show ?thesis
    using assms c by (intro fifo_same [OF assms(1)]) (auto simp: fifo_def)
qed

lemma fifo_TryWrite:
  assumes inv: "sinv s" and f: "fifo s" and ex: "sexec (TryWrite t) s = Some s'"
    and fr: "\<not> stale (TryWrite t) s"
  shows "fifo s'"
proof -
  obtain d cur where pc: "spcs s t = AWrite d cur" using ex by (auto split: spc.splits)
  obtain ok b where w: "Write d (pool s ! cur) = (ok, b)" by fastforce
  have cur: "cur < length (pool s)" using inv pc by (rule sinv_AWrite)
  have v: "buffer_valid (pool s ! cur)" using inv cur by (auto simp: sinv_def bufs_ok_def)
  have cb: "ForEachFrame b = contents s cur @ (if ok then [d] else [])"
    using mb.put_contents [OF v, of d] w by (simp add: contents_def)
  have s': "s' = set_spc t (if ok then ADone d True else ALock d cur)
      (s\<lparr>pool := (pool s)[cur := b], acks := acks s @ (if ok then [(t, d)] else [])\<rparr>)"
    using ex pc w by (auto simp: set_spc_def)
  have m: "ok \<Longrightarrow> cur = master s" using fr pc w by (auto simp: stale_def)
  have c: "contents s' i = (if i = cur then contents s i @ (if ok then [d] else []) else contents s i)" for i
    using cur cb by (simp add: s' contents_def)
  have "distinct (places s)" using inv by (simp add: sinv_def pool_ok_def)
  then have nm: "i \<noteq> master s" if "i \<in> set (free s @ queue s @ owned (task s))" for i
    using that by (auto simp: places_def)
  have same: "contents s' i = contents s i" if "i \<in> set (free s @ queue s @ owned (task s))" for i
    using nm [OF that] m by (auto simp: c)
  have "moving s' = moving s"
    using same by (cases "task s") (auto simp: moving_def s')
  moreover have "map (contents s') (queue s) = map (contents s) (queue s)" using same by simp
  ultimately have i: "inflight s' = inflight s" by (simp add: inflight_def s' cong: map_cong)
  show ?thesis
  proof (rule fifo_upd [OF f, of s' "if ok then [(t, d)] else []" t "if ok then ADone d True else ALock d cur"])
    show "sent s' @ inflight s' @ contents s' (master s') =
        sent s @ inflight s @ contents s (master s) @ map snd (if ok then [(t, d)] else [])"
      using i m c by (auto simp: s')
    show "contents s' b = []" if "b \<in> set (free s')" for b
      using that same [of b] fifo_cases(2) [OF f, of b] by (simp add: s')
    show "contents s' b = []" if "task s' = DPush b" for b
      using that same [of b] fifo_cases(3) [OF f, of b] by (simp add: s')
    show "mark_ok s' (if ok then ADone d True else ALock d cur)" by (simp add: mark_ok_def)
  qed (use i in \<open>simp_all add: s'\<close>)
qed

lemma fifo_drain:
  assumes inv: "sinv s" and f: "fifo s" and ex: "sexec a s = Some s'"
    and a: "a \<in> {DrainSeal, DrainSync, DrainFrame ok, DrainReset}"
  shows "fifo s'"
proof -
  have dist: "distinct (places s)" using inv by (simp add: sinv_def pool_ok_def)
  note f1 = fifo_cases [OF f]
  have q: "map (contents s') (queue s) = map (contents s) (queue s)"
    if "\<And>i. i \<in> set (queue s) \<Longrightarrow> contents s' i = contents s i" using that by simp
  show ?thesis
    using a
  proof (elim insertE emptyE)
    assume "a = DrainSeal"
    with ex obtain b where k: "task s = DSeal b"
      and s': "s' = s\<lparr>pool := (pool s)[b := Seal (pool s ! b)], task := DSync b\<rparr>"
      by (auto split: drain.splits)
    have b: "b < length (pool s)" using owned_less [OF inv, of b] k by simp
    then have v: "buffer_valid (pool s ! b)" using inv by (auto simp: sinv_def bufs_ok_def)
    have c: "contents s' = contents s"
      using b mb.shut_contents [OF v] by (auto simp: contents_def fun_eq_iff s' nth_list_update)
    then have i: "inflight s' = inflight s" using k by (simp add: inflight_def moving_def s')
    show ?thesis by (rule fifo_same [OF f]) (use c i f1 in \<open>auto simp: s'\<close>)
  next
    assume "a = DrainSync"
    with ex obtain b where k: "task s = DSync b" and s': "s' = s\<lparr>task := DWalk b (ForEachFrame (pool s ! b))\<rparr>"
      by (auto split: drain.splits)
    have c: "contents s' = contents s" by (rule contents_cong) (simp add: s')
    then have i: "inflight s' = inflight s" using k by (simp add: inflight_def moving_def s' contents_def)
    show ?thesis by (rule fifo_same [OF f]) (use c i f1 in \<open>auto simp: s'\<close>)
  next
    assume "a = DrainFrame ok"
    with ex obtain b fs where k: "task s = DWalk b fs" by (auto split: drain.splits)
    show ?thesis
    proof (cases fs)
      case Nil
      with ex k \<open>a = DrainFrame ok\<close> have s': "s' = s\<lparr>task := DReset b\<rparr>" by simp
      have c: "contents s' = contents s" by (rule contents_cong) (simp add: s')
      then have i: "inflight s' = inflight s" using k Nil by (simp add: inflight_def moving_def s')
      show ?thesis by (rule fifo_same [OF f]) (use c i f1 in \<open>auto simp: s'\<close>)
    next
      case (Cons d ds)
      with ex k \<open>a = DrainFrame ok\<close> obtain p where
        s': "s' = s\<lparr>sent := sent s @ [d], persisted_bytes := p, task := DWalk b ds\<rparr>" by auto
      have c: "contents s' = contents s" by (rule contents_cong) (simp add: s')
      then have i: "inflight s = d # inflight s'" using k Cons by (simp add: inflight_def moving_def s')
      show ?thesis by (rule fifo_same [OF f]) (use c i f1 in \<open>auto simp: s'\<close>)
    qed
  next
    assume "a = DrainReset"
    with ex obtain b where k: "task s = DReset b"
      and s': "s' = s\<lparr>pool := (pool s)[b := ResetForReuse (pool s ! b)], task := DPush b\<rparr>"
      by (auto split: drain.splits)
    have b: "b < length (pool s)" using owned_less [OF inv, of b] k by simp
    then have v: "buffer_valid (pool s ! b)" using inv by (auto simp: sinv_def bufs_ok_def)
    have c: "i \<noteq> b \<Longrightarrow> contents s' i = contents s i" "contents s' b = []" for i
      using b mb.clear_contents [OF v] by (simp_all add: contents_def s')
    have nb: "b \<notin> set (master s # free s @ queue s)" using dist k by (auto simp: places_def)
    then have "map (contents s') (queue s) = map (contents s) (queue s)" by (intro q c(1)) auto
    then have i: "inflight s' = inflight s" using k by (simp add: inflight_def moving_def s' cong: map_cong)
    show ?thesis
    proof (rule fifo_same [OF f])
      show "sent s' @ inflight s' @ contents s' (master s') = sent s @ inflight s @ contents s (master s)"
        using i nb c(1) [of "master s"] by (simp add: s')
      show "contents s' j = []" if "j \<in> set (free s')" for j
        using that nb c(1) [of j] f1(2) [of j] by (auto simp: s')
      show "contents s' j = []" if "task s' = DPush j" for j
        using that c(2) by (simp add: s')
    qed (use i in \<open>simp_all add: s'\<close>)
  qed
qed

lemma fifo_strand:
  assumes inv: "sinv s" and f: "fifo s" and ex: "sexec a s = Some s'"
    and a: "a \<in> {StrandNext, DrainPush, DrainDec, DrainNotify}"
  shows "fifo s'"
proof -
  note f1 = fifo_cases [OF f]
  show ?thesis
    using a
  proof (elim insertE emptyE)
    assume a: "a = StrandNext"
    show ?thesis
    proof (cases "queue s")
      case Nil
      with ex a have s': "s' = s\<lparr>running := False\<rparr>" by (simp split: if_splits)
      show ?thesis by (rule fifo_flags [OF f]) (simp_all add: s')
    next
      case (Cons b bs)
      with ex a have k: "task s = DNone" and s': "s' = s\<lparr>queue := bs, task := DSeal b\<rparr>"
        by (simp_all split: if_splits)
      have c: "contents s' = contents s" by (rule contents_cong) (simp add: s')
      then have i: "inflight s' = inflight s" using k Cons by (simp add: inflight_def moving_def s')
      show ?thesis by (rule fifo_same [OF f]) (use c i f1 in \<open>auto simp: s'\<close>)
    qed
  next
    assume "a = DrainPush"
    with ex obtain b where k: "task s = DPush b" and s': "s' = s\<lparr>free := free s @ [b], task := DDec\<rparr>"
      by (auto simp: locked_Some split: drain.splits)
    have c: "contents s' = contents s" by (rule contents_cong) (simp add: s')
    then have i: "inflight s' = inflight s" using k by (simp add: inflight_def moving_def s')
    show ?thesis by (rule fifo_same [OF f]) (use c i f1 k in \<open>auto simp: s'\<close>)
  next
    assume a: "a = DrainDec"
    then have k: "task s = DDec" using ex by (cases "task s = DDec") simp_all
    define k' where "k' = (if in_flight s - 1 = 0 then DNotify else DNone)"
    have s': "s' = s\<lparr>in_flight := in_flight s - 1, task := k'\<rparr>"
      using ex a k by (simp add: k'_def)
    have k': "k' = DNotify \<or> k' = DNone" by (simp add: k'_def)
    have c: "contents s' = contents s" by (rule contents_cong) (simp add: s')
    then have i: "inflight s' = inflight s" using k k' by (auto simp: inflight_def moving_def s')
    show ?thesis by (rule fifo_same [OF f]) (use c i f1 k' in \<open>auto simp: s'\<close>)
  next
    assume "a = DrainNotify"
    with ex have k: "task s = DNotify" and s': "s' = s\<lparr>task := DNone\<rparr>"
      by (auto simp: locked_Some split: if_splits)
    have c: "contents s' = contents s" by (rule contents_cong) (simp add: s')
    then have i: "inflight s' = inflight s" using k by (simp add: inflight_def moving_def s')
    show ?thesis by (rule fifo_same [OF f]) (use c i f1 in \<open>auto simp: s'\<close>)
  qed
qed

lemma drained:
  assumes "sinv s" and "in_flight s = 0"
  shows "inflight s = []"
proof -
  have "queue s = []" "counted (task s) = 0" using assms by (auto simp: sinv_def pool_ok_def)
  then show ?thesis by (cases "task s") (simp_all add: inflight_def moving_def counted_def)
qed

lemma unused_empty:
  assumes "sinv s" and "Used (pool s ! master s) = 0"
  shows "contents s (master s) = []"
proof -
  have "holds (pool s ! master s) (contents s (master s))"
    using assms(1) sinv_master [OF assms(1)] by (simp add: sinv_def bufs_ok_def buffer_valid_def contents_def)
  then have "frames_size (contents s (master s)) = 0"
    using assms(2) by (auto simp: holds_def Used_def min_def split: if_splits)
  then show ?thesis by (cases "contents s (master s)") simp_all
qed

lemma mark_rest:
  "mark_ok s SIdle" "mark_ok s (ALoad d)" "mark_ok s (AWrite d k)" "mark_ok s (ALock d k)"
  "mark_ok s (AWait d)" "mark_ok s (APost d)" "mark_ok s (ADone d r)" "mark_ok s (FLock dt)"
  "mark_ok s DtorLock" "mark_ok s DtorEnd"
  by (simp_all add: mark_ok_def)

lemma fifo_client:
  assumes inv: "sinv s" and f: "fifo s" and o1: "files_open s" and ex: "sexec a s = Some s'"
    and a: "a \<in> {Append t d, LoadMaster t, LockSwap t, WakeSwap t, TimeOut t, Flush t, Destroy t}"
  shows "fifo s'"
  using a
  by (elim insertE emptyE; use ex f inv o1 in \<open>auto simp: locked_Some mark_rest intro!: fifo_spc
      fifo_swap_append grab_acquire grab_after_wait split: spc.splits if_splits\<close>)

lemma fifo_flush:
  assumes inv: "sinv s" and f: "fifo s" and o1: "files_open s" and ex: "sexec a s = Some s'"
    and a: "a \<in> {FlushLock t, FlushWake t, FlushReturn t}"
  shows "fifo s'"
proof -
  have len: "length (acks s) = length (sent s @ inflight s @ contents s (master s))"
    using fifo_cases(1) [OF f] by (metis length_map)
  show ?thesis
    using a
  proof (elim insertE emptyE)
    assume a: "a = FlushLock t"
    then obtain dt where pc: "spcs s t = FLock dt" using ex by (auto split: spc.splits)
    show ?thesis
    proof (cases "stopped s \<or> Used (pool s ! master s) = 0")
      case True
      have "stopped s \<or> contents s (master s) = []" using True unused_empty [OF inv] by blast
      then have "mark_ok s (FWait dt (length (acks s)))" using len by (auto simp: mark_ok_def)
      moreover have "stopped s \<Longrightarrow> mark_ok s (FDone n)" for n by (simp add: mark_ok_def)
      ultimately show ?thesis
        using ex a pc f True
        by (auto simp: locked_Some Let_def flush_exit_def mark_rest intro!: fifo_spc split: if_splits)
    next
      case False
      then have "s' = swap_flush t dt (length (acks s)) (AcquireFreeBufferLocked s)"
        using ex a pc by (simp add: locked_Some Let_def)
      then show ?thesis using fifo_swap_flush [OF grab_acquire [OF inv f o1] f] by simp
    qed
  next
    assume a: "a = FlushWake t"
    then obtain dt n where pc: "spcs s t = FWaitFree dt n" using ex by (auto split: spc.splits)
    then have "n \<le> length (acks s)" using fifo_cases(4) [OF f, of t] by (simp add: mark_ok_def)
    then show ?thesis
      using ex a pc fifo_swap_flush [OF grab_after_wait [OF f] f, of n]
      by (auto simp: locked_Some split: if_splits)
  next
    assume a: "a = FlushReturn t"
    then obtain dt n where pc: "spcs s t = FWait dt n" using ex by (auto split: spc.splits)
    then have s': "s' = flush_exit t dt n s" and w: "in_flight s = 0 \<or> stopped s"
      using ex a by (auto simp: locked_Some split: if_splits)
    have "mark_ok s (FDone n)"
      using fifo_cases(4) [OF f, of t] pc w drained [OF inv] by (auto simp: mark_ok_def)
    then show ?thesis using f by (simp add: s' flush_exit_def fifo_spc mark_rest)
  qed
qed

lemma fifo_others:
  assumes f: "fifo s" and ex: "sexec a s = Some s'"
    and a: "a \<in> {PostReturns t, DestroyLock t, DestroyEnd t, PoolShutdown}"
  shows "fifo s'"
  using a
proof (elim insertE emptyE)
  assume a: "a = PostReturns t"
  have g: "fifo (s\<lparr>holder := None\<rparr>)" by (rule fifo_flags [OF f]) simp_all
  have m: "mark_ok (s\<lparr>holder := None\<rparr>) (spcs s t)" using fifo_cases(4) [OF g, of t] by simp
  consider d where "spcs s t = APost d" "s' = set_spc t (ALoad d) (s\<lparr>holder := None\<rparr>)"
    | dt n where "spcs s t = FPost dt n" "s' = set_spc t (FWait dt n) (s\<lparr>holder := None\<rparr>)"
    using ex a by (auto split: spc.splits if_splits)
  then show ?thesis
  proof cases
    case 2
    with m have "mark_ok (s\<lparr>holder := None\<rparr>) (FWait dt n)" by (simp add: mark_ok_def)
    with 2 g show ?thesis by (simp add: fifo_spc)
  qed (use g in \<open>simp add: fifo_spc mark_rest\<close>)
next
  assume a: "a = DestroyLock t"
  have "fifo (s\<lparr>stopped := True\<rparr>)" by (rule fifo_flags [OF f]) simp_all
  then show ?thesis using ex a by (auto simp: locked_Some intro: fifo_spc mark_rest split: if_splits)
next
  assume a: "a = DestroyEnd t"
  have "fifo (s\<lparr>destroyed := True\<rparr>)" by (rule fifo_flags [OF f]) simp_all
  then show ?thesis using ex a by (auto intro: fifo_spc mark_rest split: if_splits)
next
  assume a: "a = PoolShutdown"
  have "fifo (s\<lparr>pool_stopped := True\<rparr>)" by (rule fifo_flags [OF f]) simp_all
  then show ?thesis using ex a by simp
qed

lemma fifo_step:
  assumes "sexec a s = Some s'" and "\<not> stale a s" and "sinv s" and "fifo s" and "files_open s"
  shows "fifo s'"
proof (cases a)
  case (TryWrite t)
  with assms fifo_TryWrite show ?thesis by blast
qed (use assms in \<open>blast intro: fifo_client fifo_flush fifo_others fifo_drain fifo_strand\<close>)+

lemma acquire_disk: "disk (snd (AcquireFreeBufferLocked s)) = disk s" "disk (snd (AcquireAfterWait s)) = disk s"
  by (simp_all add: AcquireFreeBufferLocked_def AcquireAfterWait_def split: list.split sum.split)

lemma swap_disk: "disk (swap_append t d r) = disk (snd r)" "disk (swap_flush t dt n r) = disk (snd r)"
  by (cases r; cases "fst r"; simp add: swap_append_def swap_flush_def SwapMasterLocked_def)+

lemma disk_step: "sexec a s = Some s' \<Longrightarrow> disk s' = disk s"
  by (cases a) (auto simp: locked_Some Let_def swap_disk acquire_disk flush_exit_def
      split: spc.splits if_splits drain.splits list.splits prod.splits)

lemma started_fifo: "started s \<Longrightarrow> fifo s"
proof -
  assume st: "started s"
  note f = started_facts [OF st]
  then have m: "master s < length (pool s)" "set (free s) \<subseteq> {..<length (pool s)}"
    using sinv_master [of s] by (auto simp: sinv_def pool_ok_def places_def)
  then have "contents s (master s) = []" "\<forall>b\<in>set (free s). contents s b = []"
    using f by (auto simp: contents_def)
  then show ?thesis using f by (simp add: fifo_def inflight_def moving_def mark_ok_def)
qed

interpretation fresh_sys: invariant_system "\<lambda>s. started s \<and> files_open s" fresh_step
  "\<lambda>s. sinv s \<and> fifo s \<and> files_open s"
proof unfold_locales
  show "sinv s \<and> fifo s \<and> files_open s" if "started s \<and> files_open s" for s
    using that started_facts started_fifo by blast
  show "sinv t \<and> fifo t \<and> files_open t" if st: "fresh_step s t" and i: "sinv s \<and> fifo s \<and> files_open s" for s t
  proof -
    obtain a where a: "sexec a s = Some t" "\<not> stale a s"
      using st by (auto simp: fresh_step_def acts_step_def fresh_exec_def store_exec_def split: if_splits)
    then show ?thesis
      using i sinv_step [OF a(1)] fifo_step [OF a] disk_step [OF a(1)] by (simp add: files_open_def)
  qed
qed
lemma fresh_run_steps: "run_acts fresh_exec as s = Some s' \<Longrightarrow> fresh_step\<^sup>*\<^sup>* s s'"
  unfolding fresh_step_def by (rule run_acts_steps)



section \<open>One client\<close>

text \<open>The client thread an action belongs to; the strand and the pool have none.\<close>

fun actor :: "sact \<Rightarrow> nat option" where
  "actor (Append t d) = Some t"
| "actor (LoadMaster t) = Some t"
| "actor (TryWrite t) = Some t"
| "actor (LockSwap t) = Some t"
| "actor (WakeSwap t) = Some t"
| "actor (TimeOut t) = Some t"
| "actor (PostReturns t) = Some t"
| "actor (Flush t) = Some t"
| "actor (FlushLock t) = Some t"
| "actor (FlushWake t) = Some t"
| "actor (FlushReturn t) = Some t"
| "actor (Destroy t) = Some t"
| "actor (DestroyLock t) = Some t"
| "actor (DestroyEnd t) = Some t"
| "actor _ = None"

definition alone :: "nat \<Rightarrow> store \<Rightarrow> bool" where
  "alone t s \<longleftrightarrow> (\<forall>u. u \<noteq> t \<longrightarrow> spcs s u = SIdle) \<and> (\<forall>d cur. spcs s t = AWrite d cur \<longrightarrow> cur = master s)"

lemma acquire_spcs: "spcs (snd (AcquireFreeBufferLocked s)) = spcs s" "spcs (snd (AcquireAfterWait s)) = spcs s"
  by (simp_all add: AcquireFreeBufferLocked_def AcquireAfterWait_def split: list.split sum.split)

lemma swap_spcs:
  "\<exists>p \<in> {APost d, ALoad d, ADone d False, AWait d}. spcs (swap_append t d r) = (spcs (snd r))(t := p)"
  "\<exists>p \<in> {FPost dt n, FWait dt n, FWaitFree dt n}. spcs (swap_flush t dt n r) = (spcs (snd r))(t := p)"
  by (cases r; cases "fst r"; simp add: swap_append_def swap_flush_def SwapMasterLocked_def set_spc_def)+

lemma alone_upd:
  "alone t s \<Longrightarrow> spcs s' = (spcs s)(t := p) \<Longrightarrow> (\<And>d k. p \<noteq> AWrite d k) \<Longrightarrow> alone t s'"
  by (simp add: alone_def)

lemma alone_swap:
  assumes "alone t s"
  shows "alone t (swap_append t d (AcquireFreeBufferLocked s))" "alone t (swap_append t d (AcquireAfterWait s))"
    "alone t (swap_flush t dt n (AcquireFreeBufferLocked s))" "alone t (swap_flush t dt n (AcquireAfterWait s))"
  using swap_spcs(1) [of d t "AcquireFreeBufferLocked s"] swap_spcs(1) [of d t "AcquireAfterWait s"]
    swap_spcs(2) [of dt n t "AcquireFreeBufferLocked s"] swap_spcs(2) [of dt n t "AcquireAfterWait s"]
  by (auto simp: acquire_spcs intro: alone_upd [OF assms])

lemma alone_set: "alone t s \<Longrightarrow> (\<And>d k. p = AWrite d k \<Longrightarrow> k = master s) \<Longrightarrow> alone t (set_spc t p s)"
  by (auto simp: alone_def)

lemma alone_rest:
  "alone t s \<Longrightarrow> spcs s' = spcs s \<Longrightarrow> master s' = master s \<Longrightarrow> alone t s'"
  by (simp add: alone_def)

lemma alone_step:
  assumes al: "alone t s" and ex: "sexec a s = Some s'" and act: "actor a = None \<or> actor a = Some t"
  shows "alone t s'" and "\<not> stale a s"
proof -
  show "\<not> stale a s" using al act by (cases a) (auto simp: stale_def alone_def split: spc.splits)
  have fl: "alone t (s\<lparr>holder := None\<rparr>)" "alone t (s\<lparr>stopped := True\<rparr>)" "alone t (s\<lparr>destroyed := True\<rparr>)"
    "alone t (s\<lparr>pool := q, acks := k\<rparr>)" "alone t (s\<lparr>pool := q\<rparr>)" for q k
    by (rule alone_rest [OF al]; simp)+
  show "alone t s'"
  proof (cases "actor a")
    case None
    have "spcs s' = spcs s \<and> master s' = master s"
      using None ex by (cases a) (auto simp: locked_Some split: drain.splits list.splits if_splits)
    then show ?thesis using alone_rest [OF al] by blast
  next
    case (Some u)
    with act have "actor a = Some t" by simp
    then show ?thesis
      using ex al fl
      by (cases a) (auto simp: locked_Some Let_def flush_exit_def intro!: alone_set alone_swap
          split: spc.splits if_splits prod.splits)
  qed
qed

text \<open>
  A single client never makes a stale write: every run in which one thread makes all the
  calls, while the strand drains in any interleaving with it, is a run without stale writes,
  so what \<open>Flush\<close> promises holds for it.
\<close>

theorem single_client_is_fresh:
  assumes "started s0" and "\<forall>a\<in>set as. actor a = None \<or> actor a = Some t"
    and "run_acts store_exec as s0 = Some s"
  shows "run_acts fresh_exec as s0 = Some s"
proof -
  have "alone t s0" using started_facts [OF assms(1)] by (simp add: alone_def)
  then show ?thesis
    using assms(2,3)
  proof (induction as arbitrary: s0)
    case (Cons a as)
    then obtain s1 where s1: "store_exec a s0 = Some s1" "run_acts store_exec as s1 = Some s"
      by (auto split: option.splits)
    then have "sexec a s0 = Some s1" by (simp add: store_exec_def split: if_splits)
    from alone_step [OF Cons.prems(1) this] Cons.prems(2) s1 Cons.IH [of s1]
    show ?case by (simp add: fresh_exec_def)
  qed simp
qed

theorem single_client_is_fresh_witness:
  "run_acts fresh_exec client_run small_store = run_acts store_exec client_run small_store
     \<and> run_acts fresh_exec client_run small_store \<noteq> None"
proof -
  define r where "r = run_acts store_exec client_run small_store"
  have "r \<noteq> None" unfolding r_def by (simp add: store_eval client_run_def)
  then obtain s where s: "r = Some s" by blast
  have "\<forall>a\<in>set client_run. actor a = None \<or> actor a = Some 1" by (simp add: client_run_def drain_run_def)
  with single_client_is_fresh [of small_store client_run 1 s] small_started s
  show ?thesis by (simp add: r_def)
qed

section \<open>The strand catches up\<close>

definition stage_work :: "drain \<Rightarrow> nat" where
  "stage_work k = (case k of DNone \<Rightarrow> 0 | DNotify \<Rightarrow> 1 | DDec \<Rightarrow> 2 | DPush _ \<Rightarrow> 3 | DReset _ \<Rightarrow> 4
     | DWalk _ _ \<Rightarrow> 5 | DSync _ \<Rightarrow> 6 | DSeal _ \<Rightarrow> 7)"

text \<open>An upper bound on the steps the strand still has to make.\<close>

definition work :: "store \<Rightarrow> nat" where
  "work s = 8 * length (queue s) + stage_work (task s) + length (inflight s)"

definition calm :: "store \<Rightarrow> store \<Rightarrow> bool" where
  "calm s s' \<longleftrightarrow> sinv s' \<and> holder s' = None \<and> \<not> destroyed s' \<and> spcs s' = spcs s"

lemma inflight_task:
  "pool s' = pool s \<Longrightarrow> queue s' = queue s \<Longrightarrow> inflight s' = moving s' @ concat (map (contents s) (queue s))"
  using contents_cong [of s' s] by (simp add: inflight_def)

text \<open>A step of the strand in which nothing goes wrong: not the end of the pool, and \<open>on_persist\<close> does not throw.\<close>

definition quiet :: "sact \<Rightarrow> bool" where
  "quiet a \<longleftrightarrow> actor a = None \<and> a \<noteq> PoolShutdown \<and> a \<noteq> DrainFrame False"

lemma quiet_acts [simp]:
  "quiet StrandNext" "quiet DrainSeal" "quiet DrainSync" "quiet (DrainFrame True)" "quiet DrainReset" "quiet DrainPush"
  "quiet DrainDec" "quiet DrainNotify"
  by (simp_all add: quiet_def)

lemma strand_progress:
  assumes c: "calm s0 s" and w: "0 < work s"
  shows "\<exists>a s'. quiet a \<and> store_exec a s = Some s' \<and> calm s0 s' \<and> work s' < work s"
proof -
  have inv: "sinv s" and h: "holder s = None" "\<not> destroyed s" "spcs s = spcs s0"
    using c by (simp_all add: calm_def)
  have run: "running s \<or> queue s = [] \<and> task s = DNone"
    using inv by (simp add: sinv_def pool_ok_def)
  have go: ?thesis if "quiet a" "sexec a s = Some s'" "holder s' = None" "destroyed s' = destroyed s"
      "spcs s' = spcs s" "work s' < work s" for a s'
    using that h sinv_step [OF that(2) inv] by (auto simp: calm_def store_exec_def)
  show ?thesis
  proof (cases "task s")
    case DNone
    then have q: "queue s \<noteq> []" "running s"
      using w run by (auto simp: work_def stage_work_def inflight_def moving_def)
    then obtain b bs where b: "queue s = b # bs" by (cases "queue s") auto
    define s' where "s' = s\<lparr>queue := bs, task := DSeal b\<rparr>"
    have "contents s' = contents s" by (rule contents_cong) (simp add: s'_def)
    then have "inflight s' = inflight s" using DNone b by (simp add: inflight_def moving_def s'_def)
    then have "work s' < work s" using DNone b by (simp add: work_def stage_work_def s'_def)
    then show ?thesis by (intro go [of StrandNext s']) (use DNone q b h in \<open>simp_all add: s'_def\<close>)
  next
    case (DSeal b)
    define s' where "s' = s\<lparr>pool := (pool s)[b := Seal (pool s ! b)], task := DSync b\<rparr>"
    have b: "b < length (pool s)" using owned_less [OF inv, of b] DSeal by simp
    then have v: "buffer_valid (pool s ! b)" using inv by (auto simp: sinv_def bufs_ok_def)
    have "contents s' = contents s"
      using b mb.shut_contents [OF v] by (auto simp: contents_def fun_eq_iff s'_def nth_list_update)
    then have "inflight s' = inflight s" using DSeal by (simp add: inflight_def moving_def s'_def)
    then have "work s' < work s" using DSeal by (simp add: work_def stage_work_def s'_def)
    then show ?thesis by (intro go [of DrainSeal s']) (use DSeal h in \<open>simp_all add: s'_def\<close>)
  next
    case (DSync b)
    define s' where "s' = s\<lparr>task := DWalk b (ForEachFrame (pool s ! b))\<rparr>"
    have "inflight s' = inflight s"
      using inflight_task [of s' s] DSync by (simp add: inflight_def moving_def s'_def contents_def)
    then have "work s' < work s" using DSync by (simp add: work_def stage_work_def s'_def)
    then show ?thesis by (intro go [of DrainSync s']) (use DSync h in \<open>simp_all add: s'_def\<close>)
  next
    case (DWalk b fs)
    show ?thesis
    proof (cases fs)
      case Nil
      define s' where "s' = s\<lparr>task := DReset b\<rparr>"
      have "inflight s' = inflight s"
        using inflight_task [of s' s] DWalk Nil by (simp add: inflight_def moving_def s'_def)
      then have "work s' < work s" using DWalk by (simp add: work_def stage_work_def s'_def)
      then show ?thesis by (intro go [of "DrainFrame True" s']) (use DWalk Nil h in \<open>simp_all add: s'_def\<close>)
    next
      case (Cons d ds)
      define s' where "s' = s\<lparr>sent := sent s @ [d], persisted_bytes := persisted_bytes s + length d, task := DWalk b ds\<rparr>"
      have "inflight s = d # inflight s'"
        using inflight_task [of s' s] DWalk Cons by (simp add: inflight_def moving_def s'_def)
      then have "work s' < work s" using DWalk by (simp add: work_def stage_work_def s'_def)
      then show ?thesis by (intro go [of "DrainFrame True" s']) (use DWalk Cons h in \<open>simp_all add: s'_def\<close>)
    qed
  next
    case (DReset b)
    define s' where "s' = s\<lparr>pool := (pool s)[b := ResetForReuse (pool s ! b)], task := DPush b\<rparr>"
    have "b \<notin> set (queue s)" using inv DReset by (auto simp: sinv_def pool_ok_def places_def)
    then have "contents s' x = contents s x" if "x \<in> set (queue s)" for x
      using that by (cases "x = b") (auto simp: contents_def s'_def)
    then have "map (contents s') (queue s) = map (contents s) (queue s)" by simp
    then have "inflight s' = inflight s"
      using DReset by (simp add: inflight_def moving_def s'_def cong: map_cong)
    then have "work s' < work s" using DReset by (simp add: work_def stage_work_def s'_def)
    then show ?thesis by (intro go [of DrainReset s']) (use DReset h in \<open>simp_all add: s'_def\<close>)
  next
    case (DPush b)
    define s' where "s' = s\<lparr>free := free s @ [b], task := DDec\<rparr>"
    have "inflight s' = inflight s"
      using inflight_task [of s' s] DPush by (simp add: inflight_def moving_def s'_def)
    then have "work s' < work s" using DPush by (simp add: work_def stage_work_def s'_def)
    then show ?thesis by (intro go [of DrainPush s']) (use DPush h in \<open>simp_all add: s'_def locked_def\<close>)
  next
    case DDec
    define k where "k = (if in_flight s - 1 = 0 then DNotify else DNone)"
    define s' where "s' = s\<lparr>in_flight := in_flight s - 1, task := k\<rparr>"
    have k: "k = DNotify \<or> k = DNone" by (simp add: k_def)
    then have "inflight s' = inflight s"
      using inflight_task [of s' s] DDec by (auto simp: inflight_def moving_def s'_def)
    then have "work s' < work s" using DDec k by (auto simp: work_def stage_work_def s'_def)
    then show ?thesis by (intro go [of DrainDec s']) (use DDec h in \<open>simp_all add: s'_def k_def\<close>)
  next
    case DNotify
    define s' where "s' = s\<lparr>task := DNone\<rparr>"
    have "inflight s' = inflight s"
      using inflight_task [of s' s] DNotify by (simp add: inflight_def moving_def s'_def)
    then have "work s' < work s" using DNotify by (simp add: work_def stage_work_def s'_def)
    then show ?thesis by (intro go [of DrainNotify s']) (use DNotify h in \<open>simp_all add: s'_def locked_def\<close>)
  qed
qed

lemma strand_finishes:
  assumes "calm s0 s"
  shows "\<exists>as s'. (\<forall>a\<in>set as. quiet a) \<and> length as \<le> work s \<and> run_acts store_exec as s = Some s'
    \<and> calm s0 s' \<and> work s' = 0"
  using assms
proof (induction "work s" arbitrary: s rule: less_induct)
  case less
  show ?case
  proof (cases "work s = 0")
    case True
    with less.prems show ?thesis by (intro exI [of _ "[]"] exI [of _ s]) simp
  next
    case False
    with strand_progress [OF less.prems] obtain a s1 where
      a: "quiet a" "store_exec a s = Some s1" "calm s0 s1" "work s1 < work s" by auto
    from less.hyps [OF a(4,3)] obtain as s' where
      "\<forall>a\<in>set as. quiet a" "length as \<le> work s1" "run_acts store_exec as s1 = Some s'"
      "calm s0 s'" "work s' = 0" by blast
    with a show ?thesis by (intro exI [of _ "a # as"] exI [of _ s']) auto
  qed
qed

text \<open>
  \<open>Flush\<close> returns once the strand has done its work: from any reachable state in which a
  flush waits for \<open>in_flight_\<close> and no thread is stuck holding the lock, finitely many steps of the strand
  alone (at most eight per queued buffer, one per frame and a few for the current drain) make
  the wait's predicate true.
\<close>

theorem flush_can_return:
  assumes "started s0" and "store_step\<^sup>*\<^sup>* s0 s" and "holder s = None" and "\<not> destroyed s"
    and "spcs s t = FWait False n"
  shows "\<exists>as s'. (\<forall>a\<in>set as. actor a = None) \<and> length as \<le> work s
    \<and> run_acts store_exec (as @ [FlushReturn t]) s = Some s' \<and> spcs s' t = FDone n"
proof -
  have inv: "sinv s" using store_sys.reachable_inv [OF assms(1,2)] .
  with assms(3,4) have "calm s s" by (simp add: calm_def)
  from strand_finishes [OF this] obtain as s' where
    q: "\<forall>a\<in>set as. quiet a" and as: "length as \<le> work s" "run_acts store_exec as s = Some s'"
      "calm s s'" "work s' = 0" by blast
  then have "queue s' = []" "task s' = DNone"
    by (auto simp: work_def stage_work_def split: drain.splits)
  have nobody: "\<forall>a\<in>set as. actor a = None" using q by (simp add: quiet_def)
  with \<open>queue s' = []\<close> \<open>task s' = DNone\<close> have "in_flight s' = 0" using as(3) by (simp add: calm_def sinv_def pool_ok_def counted_def)
  then have "store_exec (FlushReturn t) s' = Some (flush_exit t False n s')"
    using as(3) assms(5) by (simp add: calm_def store_exec_def locked_def)
  then show ?thesis
    using as nobody by (intro exI [of _ as] exI [of _ "flush_exit t False n s'"])
      (simp add: run_acts_append flush_exit_def)
qed

theorem flush_can_return_witness:
  "\<exists>s. run_acts store_exec (take 22 client_run) small_store = Some s \<and> spcs s 1 = FWait False 3
     \<and> in_flight s = 2
     \<and> (\<exists>as s'. (\<forall>a\<in>set as. actor a = None) \<and> length as \<le> work s
          \<and> run_acts store_exec (as @ [FlushReturn 1]) s = Some s' \<and> spcs s' 1 = FDone 3)"
proof -
  define s where "s = the (run_acts store_exec (take 22 client_run) small_store)"
  have run: "run_acts store_exec (take 22 client_run) small_store = Some s \<and> spcs s 1 = FWait False 3
      \<and> in_flight s = 2 \<and> holder s = None \<and> \<not> destroyed s"
    unfolding s_def by (simp add: store_eval client_run_def)
  then have "store_step\<^sup>*\<^sup>* small_store s" by (blast intro: store_run_steps)
  then have "\<exists>as s'. (\<forall>a\<in>set as. actor a = None) \<and> length as \<le> work s
      \<and> run_acts store_exec (as @ [FlushReturn 1]) s = Some s' \<and> spcs s' 1 = FDone 3"
    using small_started run by (intro flush_can_return [of small_store s 1 3]) simp_all
  with run show ?thesis by blast
qed

section \<open>What never changes\<close>

lemma acquire_cfg:
  "cfg (snd (AcquireFreeBufferLocked s)) = cfg s" "cfg (snd (AcquireAfterWait s)) = cfg s"
  "page (snd (AcquireFreeBufferLocked s)) = page s" "page (snd (AcquireAfterWait s)) = page s"
  by (simp_all add: AcquireFreeBufferLocked_def AcquireAfterWait_def split: list.split sum.split)

lemma swap_cfg:
  "cfg (swap_append t d r) = cfg (snd r)" "cfg (swap_flush t dt n r) = cfg (snd r)"
  "page (swap_append t d r) = page (snd r)" "page (swap_flush t dt n r) = page (snd r)"
  by (cases r; cases "fst r"; simp add: swap_append_def swap_flush_def SwapMasterLocked_def)+

lemma cfg_step: "sexec a s = Some s' \<Longrightarrow> cfg s' = cfg s \<and> page s' = page s"
  by (cases a) (auto simp: locked_Some Let_def swap_cfg acquire_cfg flush_exit_def
      split: spc.splits if_splits drain.splits list.splits prod.splits)

end
