(* ===== verification/Mmap_Store_Faults.thy ===== *)
theory Mmap_Store_Faults
  imports Mmap_Store_Flush
begin

text \<open>
  The edges of \<open>mmap/mmap_store.cpp\<close>: records that fit no buffer, a flush that cannot get a buffer,
  writes through a stale master pointer, the destructor racing the end of a drain, and a swap
  after the thread pool has been shut down.
\<close>

section \<open>Records that do not fit\<close>

definition fits :: "store \<Rightarrow> bytes \<Rightarrow> bool" where
  "fits s d \<longleftrightarrow> frame_ok d \<and> 4 + length d \<le> region_bytes s"

definition returns_ok :: "store \<Rightarrow> bool" where
  "returns_ok s \<longleftrightarrow> (\<forall>t d. spcs s t = ADone d True \<longrightarrow> fits s d)"

lemma swap_returns:
  "spcs (swap_append t d r) u = ADone e True \<Longrightarrow> spcs (snd r) u = ADone e True"
  "spcs (swap_flush t dt n r) u = ADone e True \<Longrightarrow> spcs (snd r) u = ADone e True"
  using swap_spcs(1) [of d t r] swap_spcs(2) [of dt n t r] by (auto split: if_splits)

lemma returns_TryWrite:
  assumes inv: "sinv s" and ok: "returns_ok s" and ex: "sexec (TryWrite t) s = Some s'"
  shows "returns_ok s'"
proof -
  obtain d cur where pc: "spcs s t = AWrite d cur" using ex by (auto split: spc.splits)
  obtain r b where w: "Write d (pool s ! cur) = (r, b)" by fastforce
  have cur: "cur < length (pool s)" using inv pc by (rule sinv_AWrite)
  have h: "holds (pool s ! cur) (ForEachFrame (pool s ! cur))" "Capacity (pool s ! cur) = region_bytes s"
    using inv cur by (auto simp: sinv_def bufs_ok_def buffer_valid_def)
  have "r \<Longrightarrow> fits s d" using Write_cases(1) [OF h(1), of d] w h(2) by (simp add: fits_def)
  then show ?thesis
    using ok ex pc w by (auto simp: returns_ok_def fits_def Let_def split: if_splits)
qed

lemma returns_step:
  assumes inv: "sinv s" and ok: "returns_ok s" and ex: "sexec a s = Some s'"
  shows "returns_ok s'"
proof (cases "\<exists>t. a = TryWrite t")
  case True
  with assms returns_TryWrite show ?thesis by blast
next
  case False
  note c = cfg_step [OF ex]
  have "spcs s' u = ADone d True \<Longrightarrow> spcs s u = ADone d True" for u d
    using False ex
    by (cases a) (auto simp: locked_Some flush_exit_def Let_def acquire_spcs dest!: swap_returns
      split: spc.splits if_splits drain.splits list.splits)
  with ok c show ?thesis by (auto simp: returns_ok_def fits_def)
qed

lemma returns_init: "started s \<Longrightarrow> returns_ok s"
  using started_facts by (simp add: returns_ok_def)

interpretation fit_sys: invariant_system started store_step "\<lambda>s. sinv s \<and> returns_ok s"
proof unfold_locales
  show "sinv s \<and> returns_ok s" if "started s" for s
    using that returns_init store_sys.start_inv by blast
  show "sinv t \<and> returns_ok t" if st: "store_step s t" and i: "sinv s \<and> returns_ok s" for s t
  proof -
    obtain a where "sexec a s = Some t"
      using st by (auto simp: store_step_def acts_step_def store_exec_def split: if_splits)
    with i sinv_step returns_step show ?thesis by blast
  qed
qed

text \<open>
  \<open>Append\<close> returns true only for a record that fits an empty buffer: not empty, shorter than
  \<open>2 ^ 32\<close> bytes, and with its length field no longer than \<open>buffer_bytes\<close> rounded up to a page.
\<close>

theorem append_true_fits:
  assumes "started s0" and "store_step\<^sup>*\<^sup>* s0 s" and "spcs s t = ADone d True"
  shows "frame_ok d \<and> 4 + length d \<le> region_bytes s"
  using fit_sys.reachable_inv [OF assms(1,2)] assms(3) by (simp add: returns_ok_def fits_def)

theorem append_true_fits_witness:
  "\<exists>s. run_acts store_exec (take 3 client_run) small_store = Some s \<and> spcs s 1 = ADone [1, 2] True
     \<and> frame_ok [1, 2] \<and> 4 + length [1, 2 :: byte] \<le> region_bytes s"
proof -
  define s where "s = the (run_acts store_exec (take 3 client_run) small_store)"
  have run: "run_acts store_exec (take 3 client_run) small_store = Some s \<and> spcs s 1 = ADone [1, 2] True"
    unfolding s_def by (simp add: store_eval client_run_def)
  then have "store_step\<^sup>*\<^sup>* small_store s" by (blast intro: store_run_steps)
  then have "frame_ok [1, 2] \<and> 4 + length [1, 2 :: byte] \<le> region_bytes s"
    using append_true_fits [of small_store s 1] small_started run by blast
  with run show ?thesis by blast
qed

text \<open>
  The state at the top of the loop of an \<open>Append\<close> whose record is too long, everything else at rest:
  all buffers empty, one of them free.
\<close>

definition spinning :: "nat \<Rightarrow> bytes \<Rightarrow> store \<Rightarrow> bool" where
  "spinning t d s \<longleftrightarrow> sinv s \<and> spcs s t = ALoad d \<and> region_bytes s < 4 + length d
     \<and> d \<noteq> [] \<and> task s = DNone \<and> queue s = [] \<and> \<not> running s \<and> holder s = None \<and> \<not> stopped s
     \<and> \<not> destroyed s \<and> \<not> pool_stopped s \<and> free s \<noteq> [] \<and> (\<forall>b<length (pool s). ForEachFrame (pool s ! b) = [])"

definition spin_round :: "nat \<Rightarrow> sact list" where
  "spin_round t = [LoadMaster t, TryWrite t, LockSwap t, StrandNext, DrainSeal, DrainSync,
     DrainFrame True, DrainReset, DrainPush, DrainDec, DrainNotify, StrandNext]"

lemma run_step:
  "\<not> destroyed s \<Longrightarrow> sexec a s = Some s1 \<Longrightarrow> run_acts store_exec (a # as) s = run_acts store_exec as s1"
  by (simp add: store_exec_def)

lemma spin_again:
  assumes sp: "spinning t d s"
  shows "\<exists>s'. run_acts store_exec (spin_round t) s = Some s' \<and> spinning t d s' \<and> acks s' = acks s"
proof -
  have inv: "sinv s" using sp by (simp add: spinning_def)
  let ?m = "master s"
  have m: "?m < length (pool s)" using inv by (rule sinv_master)
  then have v: "buffer_valid (pool s ! ?m)" and cap: "Capacity (pool s ! ?m) = region_bytes s"
    and e: "ForEachFrame (pool s ! ?m) = []"
    using inv sp by (auto simp: sinv_def bufs_ok_def spinning_def)
  then have h: "holds (pool s ! ?m) []" by (simp add: buffer_valid_def)
  obtain ok x where w: "Write d (pool s ! ?m) = (ok, x)" by fastforce
  have no: "\<not> ok" using Write_cases(1) [OF h, of d] w sp cap by (auto simp: spinning_def)
  have hx: "holds x []" using Write_cases(2) [OF h, of d] w no by simp
  let ?y = "ResetForReuse (Seal x)"
  have "holds (Seal x) []" using hx by (rule Seal_holds)
  then have ex: "ForEachFrame (Seal x) = []" and ey: "ForEachFrame ?y = []"
    using holds_walk Reset_holds(1) by blast+
  obtain b bs where f: "free s = b # bs" using sp by (cases "free s") (auto simp: spinning_def)
  have if0: "in_flight s = 0" using inv sp by (simp add: spinning_def sinv_def pool_ok_def counted_def)
  define s' where "s' = s\<lparr>pool := (pool s)[?m := ?y], free := bs @ [?m], master := b,
      spcs := (spcs s)(t := ALoad d)\<rparr>"
  have run: "run_acts store_exec (spin_round t) s = Some s'"
    unfolding spin_round_def s'_def using sp f w no m ex if0
    by (simp add: spinning_def store_exec_def set_spc_def locked_def swap_append_def
        AcquireFreeBufferLocked_def SwapMasterLocked_def posts_inline_def Let_def)
  have "sinv s'"
    using run_acts_steps [OF run] inv store_sys.steps_inv unfolding store_step_def by blast
  moreover have "\<forall>b<length (pool s'). ForEachFrame (pool s' ! b) = []"
    using sp m ey by (auto simp: s'_def spinning_def nth_list_update)
  ultimately have "spinning t d s'" using sp by (simp add: spinning_def s'_def)
  with run show ?thesis by (intro exI [of _ s']) (simp add: s'_def)
qed

text \<open>
  A record that fits no buffer makes \<open>Append\<close> spin for ever: with an idle, empty store the loop
  swaps the master, the strand drains the empty buffer and gives it back, and \<open>Append\<close> is at the
  top of its loop again; after any number of rounds it has neither returned nor
  stored the record.
\<close>

theorem oversized_append_spins:
  assumes "spinning t d s"
  shows "\<exists>s'. run_acts store_exec (concat (replicate n (spin_round t))) s = Some s'
    \<and> spcs s' t = ALoad d \<and> acks s' = acks s"
proof -
  have "\<exists>s'. run_acts store_exec (concat (replicate n (spin_round t))) s = Some s'
      \<and> spinning t d s' \<and> acks s' = acks s"
    using assms
  proof (induction n arbitrary: s)
    case (Suc n)
    obtain s1 where s1: "run_acts store_exec (spin_round t) s = Some s1" "spinning t d s1" "acks s1 = acks s"
      using spin_again [OF Suc.prems] by blast
    from Suc.IH [OF s1(2)] s1 show ?case by (auto simp: run_acts_append)
  qed simp
  then show ?thesis by (auto simp: spinning_def)
qed

theorem oversized_append_spins_witness:
  "\<exists>s s'. run_acts store_exec [Append 1 (replicate 13 7)] small_store = Some s
     \<and> run_acts store_exec (concat (replicate 1000 (spin_round 1))) s = Some s'
     \<and> spcs s' 1 = ALoad (replicate 13 7)"
proof -
  let ?d = "replicate 13 (7 :: byte)"
  define s where "s = set_spc 1 (ALoad ?d) small_store"
  have run: "run_acts store_exec [Append 1 ?d] small_store = Some s"
    by (simp add: store_exec_def small_store_val at_rest_def set_spc_def s_def)
  have "sinv small_store" using small_started started_facts by blast
  then have "sinv s" unfolding s_def by (rule sinv_spc) simp
  moreover have "\<forall>b<length (pool small_store). ForEachFrame (pool small_store ! b) = []"
    using small_started started_facts by blast
  ultimately have "spinning 1 ?d s"
    by (simp add: spinning_def s_def) (simp add: small_store_val small_cfg_def RoundUpToPage_def)
  from oversized_append_spins [OF this, of 1000] run show ?thesis by blast
qed

section \<open>A flush that gets no buffer\<close>

text \<open>
  \<open>Flush\<close> ignores a failed swap: when no buffer is free and the creation of a new one throws,
  it returns normally, with the records of the master still in the master.
\<close>

theorem flush_ignores_creation_failure:
  assumes "spcs s t = FLock False" and "holder s = None" and "\<not> stopped s" and "\<not> destroyed s"
    and "0 < Used (pool s ! master s)" and "free s = []" and "length (pool s) < max_buffers (cfg s)"
    and "disk s (next_seq s) = Inl e" and "in_flight s = 0"
  shows "\<exists>s'. run_acts store_exec [FlushLock t, FlushReturn t] s = Some s'
    \<and> spcs s' t = FDone (length (acks s)) \<and> sent s' = sent s \<and> pool s' = pool s \<and> master s' = master s"
  using assms
  by (simp add: store_exec_def locked_def Let_def AcquireFreeBufferLocked_def swap_flush_def
      flush_exit_def set_spc_def)

text \<open>One preallocated buffer, and a disk on which no second file can be created.\<close>

definition full_disk :: "nat \<Rightarrow> bytes res" where
  "full_disk k = (if k = 0 then Inr [] else Inl (SystemError 28 ''MmapRegion''))"

definition one_buffer :: store where
  "one_buffer = (case MmapStore \<lparr>dir = [], buffer_bytes = 16, min_buffers = 1, max_buffers = 8\<rparr> 16
      True True full_disk of Inr s \<Rightarrow> s)"

theorem flush_ignores_creation_failure_witness:
  "\<exists>s s'. run_acts store_exec [Append 1 [5], LoadMaster 1, TryWrite 1, Flush 1] one_buffer = Some s
     \<and> acks s = [(1, [5])]
     \<and> run_acts store_exec [FlushLock 1, FlushReturn 1] s = Some s'
     \<and> spcs s' 1 = FDone 1 \<and> sent s' = []"
proof -
  define s where "s = the (run_acts store_exec [Append 1 [5], LoadMaster 1, TryWrite 1, Flush 1] one_buffer)"
  have run: "run_acts store_exec [Append 1 [5], LoadMaster 1, TryWrite 1, Flush 1] one_buffer = Some s
      \<and> acks s = [(1, [5])] \<and> sent s = [] \<and> spcs s 1 = FLock False \<and> holder s = None \<and> \<not> stopped s
      \<and> \<not> destroyed s \<and> 0 < Used (pool s ! master s) \<and> free s = [] \<and> length (pool s) < max_buffers (cfg s)
      \<and> disk s (next_seq s) = Inl (SystemError 28 ''MmapRegion'') \<and> in_flight s = 0"
    unfolding s_def one_buffer_def MmapStore_def
    by (simp add: store_eval normalise_def full_disk_def)
  then have "\<exists>s'. run_acts store_exec [FlushLock 1, FlushReturn 1] s = Some s'
    \<and> spcs s' 1 = FDone (length (acks s)) \<and> sent s' = sent s \<and> pool s' = pool s \<and> master s' = master s"
    by (intro flush_ignores_creation_failure) (simp_all del: run_acts.simps)
  with run show ?thesis by auto
qed

section \<open>A stale master pointer\<close>

text \<open>
  Thread 2 loads the master and is delayed; thread 1 fills that buffer, makes the store swap, and the
  strand drains it and gives it back. Thread 2 then writes to it: the buffer is in the free queue, open and empty,
  so the write succeeds.
\<close>

definition stale_run :: "sact list" where
  "stale_run =
     [Append 2 [9], LoadMaster 2,
      Append 1 [1, 2], LoadMaster 1, TryWrite 1, Append 1 (replicate 7 3), LoadMaster 1, TryWrite 1,
      LockSwap 1, LoadMaster 1, TryWrite 1]
     @ drain_run [True] @ [DrainDec, DrainNotify, TryWrite 2, Flush 1, FlushLock 1]
     @ drain_run [True] @ [DrainDec, FlushReturn 1]"

text \<open>
  A stale write defeats \<open>Flush\<close>: there is a run with two threads in which every call has returned
  true, a flush begun after that has returned, and an acknowledged record has
  not been handed to \<open>on_persist_\<close>: it is in the buffer that has just become the master.
\<close>

theorem stale_write_escapes_flush:
  "\<exists>s. run_acts store_exec stale_run small_store = Some s
    \<and> acks s = [(1, [1, 2]), (1, replicate 7 3), (2, [9])] \<and> spcs s 2 = ADone [9] True
    \<and> spcs s 1 = FDone 3 \<and> \<not> stopped s \<and> sent s = [[1, 2], replicate 7 3]
    \<and> ForEachFrame (pool s ! master s) = [[9]]"
  by (simp add: store_eval stale_run_def)

section \<open>Destruction during a drain\<close>

text \<open>
  The destructor can free the store under the drain. When the flush of \<open>~MmapStore\<close> waits for the last
  buffer, the strand may decrement \<open>in_flight_\<close> to zero, the destructor see that, return and free
  the object, and the task of the strand still be about to lock the freed \<open>mtx_\<close> and notify.
\<close>

theorem destructor_races_drain:
  assumes "spcs s t = FWait True n" and "holder s = None" and "\<not> destroyed s"
    and "task s = DDec" and "in_flight s = 1"
  shows "\<exists>s'. run_acts store_exec [DrainDec, FlushReturn t, DestroyLock t, DestroyEnd t] s = Some s'
    \<and> destroyed s' \<and> task s' = DNotify"
  using assms by (simp add: store_exec_def locked_def flush_exit_def set_spc_def)

definition dtor_run :: "sact list" where
  "dtor_run = [Append 1 [5], LoadMaster 1, TryWrite 1, Destroy 1, FlushLock 1] @ drain_run [True]"

theorem destructor_races_drain_witness:
  "\<exists>s s'. run_acts store_exec dtor_run small_store = Some s
     \<and> run_acts store_exec [DrainDec, FlushReturn 1, DestroyLock 1, DestroyEnd 1] s = Some s'
     \<and> destroyed s' \<and> task s' = DNotify"
proof -
  define s where "s = the (run_acts store_exec dtor_run small_store)"
  have run: "run_acts store_exec dtor_run small_store = Some s \<and> spcs s 1 = FWait True 1 \<and> holder s = None
      \<and> \<not> destroyed s \<and> task s = DDec \<and> in_flight s = 1"
    unfolding s_def by (simp add: store_eval dtor_run_def)
  then have "\<exists>s'. run_acts store_exec [DrainDec, FlushReturn 1, DestroyLock 1, DestroyEnd 1] s = Some s'
      \<and> destroyed s' \<and> task s' = DNotify"
    by (intro destructor_races_drain [of s 1 1]) simp_all
  with run show ?thesis by blast
qed

section \<open>After the thread pool has been shut down\<close>

text \<open>
  A thread that holds the lock inside \<open>PostDetached\<close>, running the drain itself: the drain has a buffer
  to give back, for which it needs the lock.
\<close>

definition stuck :: "nat \<Rightarrow> spc \<Rightarrow> store \<Rightarrow> bool" where
  "stuck t p s \<longleftrightarrow> holder s = Some t \<and> spcs s t = p \<and> running s
     \<and> (task s = DNone \<and> queue s \<noteq> [] \<or> owned (task s) \<noteq> [])"

lemma owned_iff: "owned k \<noteq> [] \<longleftrightarrow> (\<exists>b. k = DSeal b \<or> k = DSync b \<or> k = DReset b \<or> k = DPush b \<or> (\<exists>ds. k = DWalk b ds))"
  by (cases k) auto

lemma stuck_step:
  assumes st: "stuck t p s" and ex: "store_exec a s = Some s'" and p: "p = APost d \<or> p = FPost dt n"
  shows "stuck t p s'"
proof -
  have ex': "sexec a s = Some s'" using ex by (simp add: store_exec_def split: if_splits)
  have h: "holder s = Some t" "spcs s t = p" "running s" using st by (simp_all add: stuck_def)
  show ?thesis
  proof (cases "actor a")
    case None
    then show ?thesis
      using ex' st by (cases a) (auto simp: stuck_def owned_iff locked_def split: drain.splits list.splits if_splits)
  next
    case (Some u)
    then show ?thesis
      using ex' st p h
      by (cases a) (auto simp: stuck_def locked_def at_rest_def Let_def split: spc.splits if_splits prod.splits)
  qed
qed

text \<open>
  After \<open>ThreadPool::Shutdown\<close> a swap deadlocks. When the strand is idle and the pool has been shut
  down, the \<open>Append\<close> that finds its buffer full posts the drain while it holds \<open>mtx_\<close>; the pool runs
  it in the calling thread, and it can never lock \<open>mtx_\<close> again: in every continuation that thread
  is still inside \<open>PostDetached\<close> with the lock.
\<close>

theorem append_deadlocks_after_shutdown:
  assumes "spcs s t = ALock d (master s)" and "holder s = None" and "\<not> stopped s" and "\<not> destroyed s"
    and "free s = b # bs" and "pool_stopped s" and "\<not> running s" and "task s = DNone"
  shows "\<exists>s1. store_exec (LockSwap t) s = Some s1
    \<and> (\<forall>s2. store_step\<^sup>*\<^sup>* s1 s2 \<longrightarrow> holder s2 = Some t \<and> spcs s2 t = APost d)"
proof -
  define s1 where "s1 = swap_append t d (AcquireFreeBufferLocked s)"
  have ex: "store_exec (LockSwap t) s = Some s1"
    using assms by (simp add: store_exec_def locked_def s1_def)
  have "stuck t (APost d) s1"
    using assms by (simp add: s1_def AcquireFreeBufferLocked_def swap_append_def SwapMasterLocked_def
        posts_inline_def stuck_def set_spc_def)
  moreover have "stuck t (APost d) s2" if "store_step\<^sup>*\<^sup>* s1 s2" "stuck t (APost d) s1" for s2
    using that by (induction rule: rtranclp_induct) (auto simp: store_step_def acts_step_def intro: stuck_step)
  ultimately show ?thesis using ex by (auto simp: stuck_def)
qed

definition shutdown_run :: "sact list" where
  "shutdown_run = [Append 1 [1, 2], LoadMaster 1, TryWrite 1, PoolShutdown,
     Append 1 (replicate 7 3), LoadMaster 1, TryWrite 1]"

theorem append_deadlocks_after_shutdown_witness:
  "\<exists>s s1. run_acts store_exec shutdown_run small_store = Some s \<and> store_exec (LockSwap 1) s = Some s1
     \<and> (\<forall>s2. store_step\<^sup>*\<^sup>* s1 s2 \<longrightarrow> holder s2 = Some 1 \<and> spcs s2 1 = APost (replicate 7 3))"
proof -
  define s where "s = the (run_acts store_exec shutdown_run small_store)"
  have run: "run_acts store_exec shutdown_run small_store = Some s \<and> spcs s 1 = ALock (replicate 7 3) (master s)
      \<and> holder s = None \<and> \<not> stopped s \<and> \<not> destroyed s \<and> free s = [1] \<and> pool_stopped s \<and> \<not> running s
      \<and> task s = DNone"
    unfolding s_def by (simp add: store_eval shutdown_run_def)
  then have "\<exists>s1. store_exec (LockSwap 1) s = Some s1
      \<and> (\<forall>s2. store_step\<^sup>*\<^sup>* s1 s2 \<longrightarrow> holder s2 = Some 1 \<and> spcs s2 1 = APost (replicate 7 3))"
    by (intro append_deadlocks_after_shutdown [where b = 1 and bs = "[]"]) simp_all
  with run show ?thesis by blast
qed

end
