(* ===== verification/Mmap_Buffer_Conc.thy ===== *)
theory Mmap_Buffer_Conc
  imports Mmap_Buffer "HOL-Library.Multiset"
begin

text \<open>
  \<open>mmap/mmap_buffer.cpp\<close> under concurrency. Any number of threads run \<open>Write\<close>, one atomic
  operation or memory copy at a time, while the drainer runs \<open>Seal\<close>, the walk and
  \<open>ResetForReuse\<close>; the steps interleave freely (a sequentially consistent memory: the fence
  pair \<open>writers_\<close>/\<open>sealed_\<close> is \<open>seq_cst\<close> in the code). The state of \<open>Mmap_Buffer\<close> is extended
  by the threads' program counters and by two history variables no step reads: \<open>hist\<close>, the
  slots reserved since the last reset in the order of their \<open>fetch_add\<close>, and \<open>rets\<close>, the
  calls that returned true.
\<close>

section \<open>Atomic steps\<close>

text \<open>
  Where a thread is inside \<open>Write\<close>: after \<open>writers_.fetch_add\<close> (\<open>WEntered\<close>), after seeing the
  buffer unsealed (\<open>WOpen\<close>), after reserving at an offset (\<open>WSlot\<close>), after the length has been
  stored (\<open>WHeader\<close>), after the payload has been copied (\<open>WCopied\<close>), on a failing path before
  \<open>writers_.fetch_sub\<close> (\<open>WBail\<close>), returned (\<open>WDone\<close>).
\<close>

datatype wpc =
    WIdle
  | WEntered bytes
  | WOpen bytes
  | WSlot nat bytes
  | WHeader nat bytes
  | WCopied nat bytes
  | WBail
  | WDone bool

text \<open>
  Where the drainer is: nothing to do, waiting in \<open>Seal\<close>, sealed, and between the statements of
  \<open>ResetForReuse\<close>: \<open>prev_used\<close> captured, \<open>offset_\<close> zeroed, \<open>sealed_\<close> cleared.
\<close>

datatype dpc = DIdle | DSealing | DSealed | DReset0 nat | DReset1 nat | DReset2 nat

datatype stage = Fresh | Hdr | Copied | Acked

type_synonym slot = "nat \<times> stage \<times> bytes"

record cbuf = buffer +
  pcs :: "nat \<Rightarrow> wpc"
  dpc :: dpc
  hist :: "slot list"
  rets :: "(nat \<times> bytes) list"

definition cbuf_init :: "nat \<Rightarrow> cbuf" where
  "cbuf_init cap = \<lparr>mem = replicate cap 0, offset = 0, writers = 0, sealed = False,
     pcs = (\<lambda>_. WIdle), dpc = DIdle, hist = [], rets = []\<rparr>"

datatype cact =
    Call nat bytes
  | CheckSealed nat
  | FetchAdd nat
  | PutLen nat
  | PutData nat
  | Leave nat
  | SealSet
  | SealWait
  | ResetLoad
  | ResetOffset
  | ResetUnseal
  | ResetZero

definition promote :: "nat \<Rightarrow> stage \<Rightarrow> stage \<Rightarrow> slot list \<Rightarrow> slot list" where
  "promote t st st' h = map (\<lambda>(u, x, d). if u = t \<and> x = st then (u, st', d) else (u, x, d)) h"

definition set_pc :: "nat \<Rightarrow> wpc \<Rightarrow> cbuf \<Rightarrow> cbuf" where
  "set_pc t p s = s\<lparr>pcs := (pcs s)(t := p)\<rparr>"

definition can_call :: "wpc \<Rightarrow> bool" where
  "can_call p = (case p of WIdle \<Rightarrow> True | WDone _ \<Rightarrow> True | _ \<Rightarrow> False)"

fun cexec :: "cact \<Rightarrow> cbuf \<Rightarrow> cbuf option" where
  "cexec (Call t d) s =
     (if \<not> can_call (pcs s t) then None
      else if length d = 0 \<or> 0xFFFFFFFF < length d then Some (set_pc t (WDone False) s)
      else Some (set_pc t (WEntered d) (s\<lparr>writers := writers s + 1\<rparr>)))"
| "cexec (CheckSealed t) s =
     (case pcs s t of
        WEntered d \<Rightarrow> Some (set_pc t (if sealed s then WBail else WOpen d) s)
      | _ \<Rightarrow> None)"
| "cexec (FetchAdd t) s =
     (case pcs s t of
        WOpen d \<Rightarrow>
          (let need = 4 + length d; old = offset s; s1 = s\<lparr>offset := old + need\<rparr>
           in if Capacity s < old + need then Some (set_pc t WBail s1)
              else Some (set_pc t (WSlot old d) (s1\<lparr>hist := hist s @ [(t, Fresh, d)]\<rparr>)))
      | _ \<Rightarrow> None)"
| "cexec (PutLen t) s =
     (case pcs s t of
        WSlot old d \<Rightarrow>
          Some (set_pc t (WHeader old d)
            (s\<lparr>mem := mem_write (mem s) old (WriteU32LE (of_nat (length d))),
               hist := promote t Fresh Hdr (hist s)\<rparr>))
      | _ \<Rightarrow> None)"
| "cexec (PutData t) s =
     (case pcs s t of
        WHeader old d \<Rightarrow>
          Some (set_pc t (WCopied old d)
            (s\<lparr>mem := mem_write (mem s) (old + 4) d, hist := promote t Hdr Copied (hist s)\<rparr>))
      | _ \<Rightarrow> None)"
| "cexec (Leave t) s =
     (case pcs s t of
        WBail \<Rightarrow> Some (set_pc t (WDone False) (s\<lparr>writers := writers s - 1\<rparr>))
      | WCopied old d \<Rightarrow>
          Some (set_pc t (WDone True)
            (s\<lparr>writers := writers s - 1, hist := promote t Copied Acked (hist s),
               rets := rets s @ [(t, d)]\<rparr>))
      | _ \<Rightarrow> None)"
| "cexec SealSet s = (if dpc s = DIdle then Some (s\<lparr>sealed := True, dpc := DSealing\<rparr>) else None)"
| "cexec SealWait s =
     (if dpc s = DSealing \<and> writers s = 0 then Some (s\<lparr>dpc := DSealed\<rparr>) else None)"
| "cexec ResetLoad s =
     (if dpc s = DSealed then Some (s\<lparr>dpc := DReset0 (min (offset s) (Capacity s))\<rparr>) else None)"
| "cexec ResetOffset s =
     (case dpc s of DReset0 u \<Rightarrow> Some (s\<lparr>offset := 0, dpc := DReset1 u\<rparr>) | _ \<Rightarrow> None)"
| "cexec ResetUnseal s =
     (case dpc s of DReset1 u \<Rightarrow> Some (s\<lparr>sealed := False, dpc := DReset2 u\<rparr>) | _ \<Rightarrow> None)"
| "cexec ResetZero s =
     (case dpc s of
        DReset2 u \<Rightarrow>
          Some (s\<lparr>mem := mem_write (mem s) 0 (replicate u 0), dpc := DIdle, hist := [], rets := []\<rparr>)
      | _ \<Rightarrow> None)"

text \<open>
  The discipline the class comment asks for ("only after Seal ..."): no call of \<open>Write\<close> is
  under way when \<open>ResetForReuse\<close> starts and none begins before it ends. \<open>cstep\<close> allows every
  interleaving, \<open>qstep\<close> the disciplined ones.
\<close>

definition resetting :: "dpc \<Rightarrow> bool" where
  "resetting p = (case p of DReset0 _ \<Rightarrow> True | DReset1 _ \<Rightarrow> True | DReset2 _ \<Rightarrow> True | _ \<Rightarrow> False)"

definition quiet :: "cact \<Rightarrow> cbuf \<Rightarrow> bool" where
  "quiet a s =
     (case a of Call _ _ \<Rightarrow> \<not> resetting (dpc s) | ResetLoad \<Rightarrow> writers s = 0 | _ \<Rightarrow> True)"

definition cstep :: "cbuf \<Rightarrow> cbuf \<Rightarrow> bool" where
  "cstep = acts_step cexec"

definition qexec :: "cact \<Rightarrow> cbuf \<Rightarrow> cbuf option" where
  "qexec a s = (if quiet a s then cexec a s else None)"

definition qstep :: "cbuf \<Rightarrow> cbuf \<Rightarrow> bool" where
  "qstep = acts_step qexec"

section \<open>The invariant\<close>

definition slot_size :: "slot \<Rightarrow> nat" where
  "slot_size x = 4 + length (snd (snd x))"

definition slot_off :: "slot list \<Rightarrow> nat \<Rightarrow> nat" where
  "slot_off h i = sum_list (take i (map slot_size h))"

definition render :: "slot \<Rightarrow> bytes" where
  "render x = (case x of (t, st, d) \<Rightarrow>
     (case st of
        Fresh \<Rightarrow> replicate (4 + length d) 0
      | Hdr \<Rightarrow> encode_le32 (of_nat (length d)) @ replicate (length d) 0
      | _ \<Rightarrow> frame d))"

fun pc_slot :: "wpc \<Rightarrow> (stage \<times> nat \<times> bytes) option" where
  "pc_slot (WSlot o1 d) = Some (Fresh, o1, d)"
| "pc_slot (WHeader o1 d) = Some (Hdr, o1, d)"
| "pc_slot (WCopied o1 d) = Some (Copied, o1, d)"
| "pc_slot _ = None"

text \<open>Inside \<open>Write\<close>, and inside it past the check of \<open>sealed_\<close>.\<close>

definition active :: "wpc \<Rightarrow> bool" where
  "active p \<longleftrightarrow> \<not> can_call p"

fun admitted :: "wpc \<Rightarrow> bool" where
  "admitted (WOpen d) = True"
| "admitted p = (pc_slot p \<noteq> None)"

definition acked :: "slot list \<Rightarrow> (nat \<times> bytes) list" where
  "acked h = concat (map (\<lambda>(t, st, d). if st = Acked then [(t, d)] else []) h)"

definition counts_ok :: "cbuf \<Rightarrow> bool" where
  "counts_ok s \<longleftrightarrow> finite {t. active (pcs s t)} \<and> writers s = card {t. active (pcs s t)}"

definition slots_ok :: "(nat \<Rightarrow> wpc) \<Rightarrow> slot list \<Rightarrow> bool" where
  "slots_ok p h \<longleftrightarrow>
     (\<forall>t st o1 d. pc_slot (p t) = Some (st, o1, d) \<longrightarrow>
        (\<exists>i<length h. h ! i = (t, st, d) \<and> o1 = slot_off h i)) \<and>
     (\<forall>i<length h. \<forall>t st d. h ! i = (t, st, d) \<longrightarrow> st \<noteq> Acked \<longrightarrow>
        pc_slot (p t) = Some (st, slot_off h i, d))"

definition mem_ok :: "cbuf \<Rightarrow> bool" where
  "mem_ok s \<longleftrightarrow>
     slot_off (hist s) (length (hist s)) \<le> Capacity s
     \<and> mem s = concat (map render (hist s))
               @ replicate (Capacity s - slot_off (hist s) (length (hist s))) 0
     \<and> (\<forall>(t, st, d) \<in> set (hist s). frame_ok d)
     \<and> (\<forall>t d. pcs s t = WEntered d \<or> pcs s t = WOpen d \<longrightarrow> frame_ok d)"

definition offset_ok :: "cbuf \<Rightarrow> bool" where
  "offset_ok s \<longleftrightarrow>
     (let n = slot_off (hist s) (length (hist s)) in
      case dpc s of
        DReset0 u \<Rightarrow> n \<le> u \<and> u \<le> Capacity s
      | DReset1 u \<Rightarrow> n \<le> u \<and> u \<le> Capacity s \<and> offset s = 0
      | DReset2 u \<Rightarrow> n \<le> u \<and> u \<le> Capacity s \<and> offset s = 0
      | _ \<Rightarrow> offset s = n \<or> Capacity s < offset s)"

definition seal_ok :: "cbuf \<Rightarrow> bool" where
  "seal_ok s \<longleftrightarrow>
     (sealed s \<longleftrightarrow> (case dpc s of DIdle \<Rightarrow> False | DReset2 _ \<Rightarrow> False | _ \<Rightarrow> True))
     \<and> (dpc s \<noteq> DIdle \<and> dpc s \<noteq> DSealing \<longrightarrow> (\<forall>t. \<not> admitted (pcs s t)))
     \<and> (resetting (dpc s) \<longrightarrow> writers s = 0)"

definition cinv :: "cbuf \<Rightarrow> bool" where
  "cinv s \<longleftrightarrow> counts_ok s \<and> slots_ok (pcs s) (hist s) \<and> mem_ok s \<and> offset_ok s \<and> seal_ok s
     \<and> mset (rets s) = mset (acked (hist s))"

section \<open>Slots\<close>

lemma slot_size_simp [simp]: "slot_size (t, st, d) = 4 + length d"
  by (simp add: slot_size_def)

lemma slot_off_0 [simp]: "slot_off h 0 = 0"
  by (simp add: slot_off_def)

lemma slot_off_Suc: "i < length h \<Longrightarrow> slot_off h (Suc i) = slot_off h i + slot_size (h ! i)"
  by (simp add: slot_off_def take_Suc_conv_app_nth)

lemma slot_off_append: "i \<le> length h \<Longrightarrow> slot_off (h @ g) i = slot_off h i"
  by (simp add: slot_off_def)

lemma slot_off_snoc: "slot_off (h @ [x]) (Suc (length h)) = slot_off h (length h) + slot_size x"
  by (simp add: slot_off_def)

lemma slot_off_less:
  assumes "i < j" and "j \<le> length h"
  shows "slot_off h i + slot_size (h ! i) \<le> slot_off h j"
  using assms
proof (induction j)
  case (Suc j)
  then show ?case by (cases "i = j") (auto simp: slot_off_Suc)
qed simp

lemma slot_off_inj:
  assumes "i < length h" and "j < length h" and "slot_off h i = slot_off h j"
  shows "i = j"
proof (rule ccontr)
  have pos: "0 < slot_size x" for x by (simp add: slot_size_def)
  assume "i \<noteq> j"
  then consider "i < j" | "j < i" by linarith
  then show False
    using slot_off_less [of i j h] slot_off_less [of j i h] assms pos [of "h ! i"] pos [of "h ! j"]
    by cases auto
qed

lemma slot_off_update:
  assumes "i < length h" and "slot_size x = slot_size (h ! i)"
  shows "slot_off (h[i := x]) j = slot_off h j"
proof -
  have "map slot_size (h[i := x]) = map slot_size h"
    using assms by (simp add: map_update) (metis list_update_id nth_map)
  then show ?thesis by (simp add: slot_off_def)
qed

lemma slots_okD1:
  "slots_ok p h \<Longrightarrow> pc_slot (p t) = Some (st, o1, d) \<Longrightarrow>
     \<exists>i<length h. h ! i = (t, st, d) \<and> o1 = slot_off h i"
  by (simp add: slots_ok_def)

lemma slots_okD2:
  "slots_ok p h \<Longrightarrow> i < length h \<Longrightarrow> h ! i = (t, st, d) \<Longrightarrow> st \<noteq> Acked \<Longrightarrow>
     pc_slot (p t) = Some (st, slot_off h i, d)"
  by (simp add: slots_ok_def)

lemma slot_unique:
  assumes "slots_ok p h" and "i < length h" and "j < length h"
    and "h ! i = (t, st, d)" and "h ! j = (t, st', d')" and "st \<noteq> Acked" and "st' \<noteq> Acked"
  shows "i = j"
proof -
  have "slot_off h i = slot_off h j"
    using slots_okD2 [OF assms(1,2,4,6)] slots_okD2 [OF assms(1,3,5,7)] by simp
  with assms(2,3) show ?thesis by (rule slot_off_inj)
qed

lemma promote_update:
  assumes "slots_ok p h" and "i < length h" and "h ! i = (t, st, d)" and "st \<noteq> Acked"
  shows "promote t st st' h = h[i := (t, st', d)]"
proof (rule nth_equalityI)
  show "length (promote t st st' h) = length (h[i := (t, st', d)])"
    by (simp add: promote_def)
  fix j assume "j < length (promote t st st' h)"
  then have j: "j < length h" by (simp add: promote_def)
  obtain u x e where hj: "h ! j = (u, x, e)" by (cases "h ! j") auto
  show "promote t st st' h ! j = h[i := (t, st', d)] ! j"
  proof (cases "i = j")
    case True
    with j hj assms(3) show ?thesis by (simp add: promote_def)
  next
    case False
    then have "\<not> (u = t \<and> x = st)"
      using slot_unique [OF assms(1,2) j assms(3)] hj assms(4) by blast
    with False j hj show ?thesis by (auto simp: promote_def)
  qed
qed

lemma pc_slotD:
  assumes "slots_ok p h" and "pc_slot (p t) = Some (st, o1, d)"
  obtains i where "i < length h" and "h ! i = (t, st, d)" and "o1 = slot_off h i" and "st \<noteq> Acked"
proof -
  have "st \<noteq> Acked" using assms(2) by (cases "p t") auto
  with slots_okD1 [OF assms] that show ?thesis by blast
qed

text \<open>One thread moves its own slot to the next stage.\<close>

lemma slots_ok_advance:
  assumes ok: "slots_ok p h" and i: "i < length h" and hi: "h ! i = (t, st, d)" and st: "st \<noteq> Acked"
    and q: "pc_slot q = (if st' = Acked then None else Some (st', slot_off h i, d))"
  shows "slots_ok (p(t := q)) (h[i := (t, st', d)])"
  unfolding slots_ok_def
proof (intro conjI allI impI)
  let ?h = "h[i := (t, st', d)]"
  have off: "slot_off ?h j = slot_off h j" for j
    using i hi by (intro slot_off_update) simp_all
  {
    fix u x o1 e assume pc: "pc_slot ((p(t := q)) u) = Some (x, o1, e)"
    show "\<exists>j<length ?h. ?h ! j = (u, x, e) \<and> o1 = slot_off ?h j"
    proof (cases "u = t")
      case True
      with pc q have "x = st'" "o1 = slot_off h i" "e = d" by (auto split: if_splits)
      with True i show ?thesis by (intro exI [of _ i]) (simp add: off)
    next
      case False
      with pc slots_okD1 [OF ok, of u x o1 e]
      obtain j where "j < length h" "h ! j = (u, x, e)" "o1 = slot_off h j" by auto
      moreover from this False hi have "j \<noteq> i" by auto
      ultimately show ?thesis by (intro exI [of _ j]) (simp add: off)
    qed
  next
    fix j u x e assume j: "j < length ?h" and hj: "?h ! j = (u, x, e)" and x: "x \<noteq> Acked"
    show "pc_slot ((p(t := q)) u) = Some (x, slot_off ?h j, e)"
    proof (cases "j = i")
      case True
      with hj i have "u = t" "x = st'" "e = d" by simp_all
      with q x True show ?thesis by (simp add: off)
    next
      case False
      with hj j have hj': "h ! j = (u, x, e)" "j < length h" by simp_all
      then have "u \<noteq> t" using slot_unique [OF ok i _ hi] False st x by blast
      with slots_okD2 [OF ok hj'(2,1) x] show ?thesis by (simp add: off)
    qed
  }
qed

lemma slots_ok_frame:
  assumes ok: "slots_ok p h" and "pc_slot (p t) = None" and "pc_slot q = None"
  shows "slots_ok (p(t := q)) h"
proof -
  have "pc_slot ((p(t := q)) u) = pc_slot (p u)" for u using assms(2,3) by simp
  with ok show ?thesis unfolding slots_ok_def by (simp only: if_False)
qed

lemma slots_ok_reserve:
  assumes ok: "slots_ok p h" and t: "pc_slot (p t) = None"
  shows "slots_ok (p(t := WSlot (slot_off h (length h)) d)) (h @ [(t, Fresh, d)])"
  unfolding slots_ok_def
proof (intro conjI allI impI)
  let ?h = "h @ [(t, Fresh, d)]" and ?p = "p(t := WSlot (slot_off h (length h)) d)"
  fix u x o1 e assume pc: "pc_slot (?p u) = Some (x, o1, e)"
  show "\<exists>j<length ?h. ?h ! j = (u, x, e) \<and> o1 = slot_off ?h j"
  proof (cases "u = t")
    case True
    with pc show ?thesis by (intro exI [of _ "length h"]) (simp add: slot_off_append)
  next
    case False
    with pc slots_okD1 [OF ok, of u x o1 e]
    obtain j where "j < length h" "h ! j = (u, x, e)" "o1 = slot_off h j" by auto
    then show ?thesis by (intro exI [of _ j]) (simp add: slot_off_append nth_append)
  qed
next
  let ?h = "h @ [(t, Fresh, d)]" and ?p = "p(t := WSlot (slot_off h (length h)) d)"
  fix j u x e assume j: "j < length ?h" and hj: "?h ! j = (u, x, e)" and x: "x \<noteq> Acked"
  show "pc_slot (?p u) = Some (x, slot_off ?h j, e)"
  proof (cases "j = length h")
    case True
    with hj show ?thesis by (auto simp: slot_off_append)
  next
    case False
    with hj j have hj': "h ! j = (u, x, e)" "j < length h" by (simp_all add: nth_append)
    from slots_okD2 [OF ok hj'(2,1) x] t have "u \<noteq> t" by auto
    with slots_okD2 [OF ok hj'(2,1) x] hj'(2) show ?thesis by (simp add: slot_off_append)
  qed
qed

section \<open>The region under a thread's writes\<close>

lemma length_render [simp]: "length (render x) = slot_size x"
  by (cases x) (auto simp: render_def split: stage.split)

lemma length_renders: "length (concat (map render h)) = slot_off h (length h)"
  by (induction h) (simp_all add: slot_off_def)

lemma length_renders_take: "length (concat (map render (take i h))) = slot_off h i"
  by (simp add: slot_off_def length_concat take_map comp_def)

lemma mem_write_inside:
  assumes "length xs = off" and "k + length bs \<le> length ys"
  shows "mem_write (xs @ ys @ zs) (off + k) bs = xs @ mem_write ys k bs @ zs"
  using assms by (simp add: mem_write_def)

lemma renders_split:
  "i < length h \<Longrightarrow>
     concat (map render h) = concat (map render (take i h)) @ render (h ! i) @ concat (map render (drop (Suc i) h))"
  by (subst id_take_nth_drop [of i h]) simp_all

lemma renders_write:
  assumes i: "i < length h" and k: "k + length bs \<le> slot_size (h ! i)"
    and x: "render x = mem_write (render (h ! i)) k bs"
  shows "mem_write (concat (map render h) @ zs) (slot_off h i + k) bs = concat (map render (h[i := x])) @ zs"
proof -
  have "mem_write (concat (map render h) @ zs) (slot_off h i + k) bs =
      concat (map render (take i h)) @ mem_write (render (h ! i)) k bs @ concat (map render (drop (Suc i) h)) @ zs"
    using mem_write_inside [of "concat (map render (take i h))" "slot_off h i" k bs "render (h ! i)"
        "concat (map render (drop (Suc i) h)) @ zs"] k
    by (simp add: renders_split [OF i] length_renders_take)
  also have "\<dots> = concat (map render (h[i := x])) @ zs"
    using i x by (simp add: upd_conv_take_nth_drop)
  finally show ?thesis .
qed

lemma render_Hdr:
  "render (t, Hdr, d) = mem_write (render (t, Fresh, d)) 0 (encode_le32 (of_nat (length d)))"
  by (simp add: render_def mem_write_def)

lemma render_Copied: "render (t, Copied, d) = mem_write (render (t, Hdr, d)) 4 d"
  by (simp add: render_def mem_write_def frame_def)

lemma render_Acked: "render (t, Acked, d) = render (t, Copied, d)"
  by (simp add: render_def)

lemma active_upd:
  "{u. active ((p(t := q)) u)} = (if active q then insert t {u. active (p u)} else {u. active (p u)} - {t})"
  by auto

section \<open>Every disciplined step keeps the invariant\<close>

lemma active_simps [simp]:
  "\<not> active WIdle" "active (WEntered d)" "active (WOpen d)" "active (WSlot o1 d)"
  "active (WHeader o1 d)" "active (WCopied o1 d)" "active WBail" "\<not> active (WDone r)"
  by (simp_all add: active_def can_call_def)

lemma set_pc_simps [simp]:
  "pcs (set_pc t p s) = (pcs s)(t := p)" "mem (set_pc t p s) = mem s"
  "offset (set_pc t p s) = offset s" "writers (set_pc t p s) = writers s"
  "sealed (set_pc t p s) = sealed s" "dpc (set_pc t p s) = dpc s"
  "hist (set_pc t p s) = hist s" "rets (set_pc t p s) = rets s"
  "Capacity (set_pc t p s) = Capacity s"
  by (simp_all add: set_pc_def Capacity_def)

lemma counts_upd:
  "counts_ok s' \<longleftrightarrow> finite {u. active (pcs s u)} \<and> writers s' = card (if active q
     then insert t {u. active (pcs s u)} else {u. active (pcs s u)} - {t})"
  if "pcs s' = (pcs s)(t := q)"
  unfolding counts_ok_def that active_upd by auto

lemma counts_keep:
  "counts_ok s \<Longrightarrow> pcs s' = (pcs s)(t := q) \<Longrightarrow> active q = active (pcs s t) \<Longrightarrow>
     writers s' = writers s \<Longrightarrow> counts_ok s'"
  by (subst counts_upd) (auto simp: counts_ok_def insert_absorb)

lemma counts_enter:
  "counts_ok s \<Longrightarrow> pcs s' = (pcs s)(t := q) \<Longrightarrow> \<not> active (pcs s t) \<Longrightarrow> active q \<Longrightarrow>
     writers s' = writers s + 1 \<Longrightarrow> counts_ok s'"
  by (subst counts_upd) (auto simp: counts_ok_def)

lemma counts_leave:
  "counts_ok s \<Longrightarrow> pcs s' = (pcs s)(t := q) \<Longrightarrow> active (pcs s t) \<Longrightarrow> \<not> active q \<Longrightarrow>
     writers s' = writers s - 1 \<Longrightarrow> counts_ok s'"
  by (subst counts_upd) (auto simp: counts_ok_def)

lemma pc_slot_inactive: "\<not> active p \<Longrightarrow> pc_slot p = None"
  by (cases p) simp_all

lemma admitted_active: "admitted p \<Longrightarrow> active p"
  by (cases p) simp_all

lemma seal_keep:
  "seal_ok s \<Longrightarrow> (admitted q \<Longrightarrow> admitted (pcs s t)) \<Longrightarrow> pcs s' = (pcs s)(t := q) \<Longrightarrow>
     sealed s' = sealed s \<Longrightarrow> dpc s' = dpc s \<Longrightarrow> (resetting (dpc s) \<Longrightarrow> writers s' = 0) \<Longrightarrow> seal_ok s'"
  by (auto simp: seal_ok_def)

lemma mem_keep:
  "mem_ok s \<Longrightarrow> (\<And>d. q = WEntered d \<or> q = WOpen d \<Longrightarrow> frame_ok d) \<Longrightarrow> pcs s' = (pcs s)(t := q) \<Longrightarrow>
     mem s' = mem s \<Longrightarrow> hist s' = hist s \<Longrightarrow> mem_ok s'"
  by (auto simp: mem_ok_def Capacity_def)

lemma offset_keep:
  "offset_ok s \<Longrightarrow> mem s' = mem s \<Longrightarrow> hist s' = hist s \<Longrightarrow> offset s' = offset s \<Longrightarrow> dpc s' = dpc s \<Longrightarrow> offset_ok s'"
  by (cases "dpc s") (simp_all add: offset_ok_def Capacity_def)

lemma cinvD:
  "cinv s \<Longrightarrow> counts_ok s" "cinv s \<Longrightarrow> slots_ok (pcs s) (hist s)" "cinv s \<Longrightarrow> mem_ok s"
  "cinv s \<Longrightarrow> offset_ok s" "cinv s \<Longrightarrow> seal_ok s" "cinv s \<Longrightarrow> mset (rets s) = mset (acked (hist s))"
  by (simp_all add: cinv_def)

text \<open>A step of a thread that touches neither the region, the offset nor a slot.\<close>

lemma cinv_pc_step:
  assumes inv: "cinv s" and cnt: "counts_ok s'"
    and none: "pc_slot (pcs s t) = None" "pc_slot q = None"
    and adm: "admitted q \<Longrightarrow> admitted (pcs s t)"
    and fr: "\<And>d. q = WEntered d \<or> q = WOpen d \<Longrightarrow> frame_ok d"
    and res: "resetting (dpc s) \<Longrightarrow> writers s' = 0"
    and eq: "pcs s' = (pcs s)(t := q)" "mem s' = mem s" "hist s' = hist s" "offset s' = offset s"
      "sealed s' = sealed s" "dpc s' = dpc s" "rets s' = rets s"
  shows "cinv s'"
  unfolding cinv_def
proof (intro conjI)
  show "counts_ok s'" by (fact cnt)
  show "slots_ok (pcs s') (hist s')"
    unfolding eq using cinvD(2) [OF inv] none by (rule slots_ok_frame)
  show "mem_ok s'" using cinvD(3) [OF inv] fr eq(1,2,3) by (rule mem_keep)
  show "offset_ok s'" using cinvD(4) [OF inv] eq(2,3,4,6) by (rule offset_keep)
  show "seal_ok s'" using cinvD(5) [OF inv] adm eq(1,5,6) res by (rule seal_keep)
  show "mset (rets s') = mset (acked (hist s'))" using cinvD(6) [OF inv] eq by simp
qed

lemma resetting_writers: "cinv s \<Longrightarrow> resetting (dpc s) \<Longrightarrow> writers s = 0"
  by (simp add: cinv_def seal_ok_def)

lemma active_writers: "cinv s \<Longrightarrow> active (pcs s t) \<Longrightarrow> writers s \<noteq> 0"
  by (auto simp: cinv_def counts_ok_def)

lemma cinv_Call:
  assumes "cinv s" and "cexec (Call t d) s = Some s'" and "\<not> resetting (dpc s)"
  shows "cinv s'"
proof -
  have idle: "\<not> active (pcs s t)" using assms(2) by (auto simp: active_def split: if_splits)
  show ?thesis
  proof (cases "frame_ok d")
    case True
    then have s': "s' = set_pc t (WEntered d) (s\<lparr>writers := writers s + 1\<rparr>)"
      using assms(2) by (auto simp: frame_ok_def split: if_splits)
    have "counts_ok s'"
      by (rule counts_enter [OF cinvD(1) [OF assms(1)], of _ t "WEntered d"]) (use idle s' in simp_all)
    then show ?thesis
      by (rule cinv_pc_step [OF assms(1), where t = t and q = "WEntered d"])
        (use True assms(3) idle in \<open>auto simp: s' pc_slot_inactive\<close>)
  next
    case False
    then have s': "s' = set_pc t (WDone False) s"
      using assms(2) by (auto simp: frame_ok_def split: if_splits)
    have "counts_ok s'"
      by (rule counts_keep [OF cinvD(1) [OF assms(1)], of _ t "WDone False"]) (use idle s' in simp_all)
    then show ?thesis
      by (rule cinv_pc_step [OF assms(1), where t = t and q = "WDone False"])
        (use assms(3) idle in \<open>auto simp: s' pc_slot_inactive\<close>)
  qed
qed

lemma cinv_CheckSealed:
  assumes inv: "cinv s" and ex: "cexec (CheckSealed t) s = Some s'"
  shows "cinv s'"
proof -
  obtain d where pc: "pcs s t = WEntered d" and s': "s' = set_pc t (if sealed s then WBail else WOpen d) s"
    using ex by (auto split: wpc.splits)
  have busy: "\<not> resetting (dpc s)"
    using resetting_writers [OF inv] active_writers [OF inv, of t] pc by auto
  have fr: "frame_ok d" using cinvD(3) [OF inv] pc by (auto simp: mem_ok_def)
  have cnt: "counts_ok s'"
    by (rule counts_keep [OF cinvD(1) [OF inv], of _ t "if sealed s then WBail else WOpen d"])
      (use pc s' in auto)
  show ?thesis
  proof (cases "sealed s")
    case True
    with cnt show ?thesis
      by (intro cinv_pc_step [OF inv, where t = t and q = WBail]) (use pc s' busy in auto)
  next
    case False
    have idle: "dpc s = DIdle"
      using False cinvD(5) [OF inv] busy by (auto simp: seal_ok_def resetting_def split: dpc.splits)
    have sl: "slots_ok (pcs s') (hist s')"
      using slots_ok_frame [OF cinvD(2) [OF inv], of t "WOpen d"] pc False s' by simp
    have "mem_ok s'"
      by (rule mem_keep [OF cinvD(3) [OF inv], of "WOpen d" _ t]) (use fr False s' in auto)
    moreover have "offset_ok s'"
      by (rule offset_keep [OF cinvD(4) [OF inv]]) (use s' False in auto)
    moreover have "seal_ok s'"
      using False idle s' by (auto simp: seal_ok_def resetting_def)
    ultimately show ?thesis
      using cnt sl cinvD(6) [OF inv] s' False by (simp add: cinv_def)
  qed
qed

text \<open>A thread past the check is inside a buffer that is not yet sealed for good.\<close>

lemma admitted_dpc: "cinv s \<Longrightarrow> admitted (pcs s t) \<Longrightarrow> dpc s = DIdle \<or> dpc s = DSealing"
  using cinvD(5) by (auto simp: seal_ok_def)

lemma cinv_FetchAdd:
  assumes inv: "cinv s" and ex: "cexec (FetchAdd t) s = Some s'"
  shows "cinv s'"
proof -
  let ?n = "slot_off (hist s) (length (hist s))"
  obtain d where pc: "pcs s t = WOpen d" using ex by (auto split: wpc.splits)
  have fr: "frame_ok d" using cinvD(3) [OF inv] pc by (auto simp: mem_ok_def)
  have d: "dpc s = DIdle \<or> dpc s = DSealing" using admitted_dpc [OF inv, of t] pc by simp
  show ?thesis
  proof (cases "Capacity s < offset s + (4 + length d)")
    case True
    with ex pc have s': "s' = set_pc t WBail (s\<lparr>offset := offset s + (4 + length d)\<rparr>)"
      by (simp add: Let_def)
    have "counts_ok s'"
      by (rule counts_keep [OF cinvD(1) [OF inv], of _ t WBail]) (use pc s' in auto)
    moreover have "slots_ok (pcs s') (hist s')"
      using slots_ok_frame [OF cinvD(2) [OF inv], of t WBail] pc s' by simp
    moreover have "mem_ok s'"
      by (rule mem_keep [OF cinvD(3) [OF inv], of WBail _ t]) (use s' in auto)
    moreover have "offset_ok s'"
      using True d s' by (auto simp: offset_ok_def Capacity_def)
    moreover have "seal_ok s'"
      by (rule seal_keep [OF cinvD(5) [OF inv], of WBail t]) (use s' d in \<open>auto simp: resetting_def\<close>)
    ultimately show ?thesis
      using cinvD(6) [OF inv] s' by (simp add: cinv_def)
  next
    case False
    then have off: "offset s = ?n" using cinvD(4) [OF inv] d by (auto simp: offset_ok_def)
    let ?s1 = "s\<lparr>offset := ?n + (4 + length d), hist := hist s @ [(t, Fresh, d)]\<rparr>"
    from False ex pc off have s': "s' = set_pc t (WSlot ?n d) ?s1"
      by (simp add: Let_def)
    have room: "?n + (4 + length d) \<le> Capacity s" using False off by simp
    have "counts_ok s'"
      by (rule counts_keep [OF cinvD(1) [OF inv], of _ t "WSlot ?n d"]) (use pc s' in auto)
    moreover have "slots_ok (pcs s') (hist s')"
      using slots_ok_reserve [OF cinvD(2) [OF inv], of t d] pc s' by simp
    moreover have "mem_ok s'"
    proof -
      have "mem s = concat (map render (hist s)) @ replicate (4 + length d) 0
              @ replicate (Capacity s - (?n + (4 + length d))) 0"
        using cinvD(3) [OF inv] room unfolding mem_ok_def
        by (simp flip: replicate_add)
      then show ?thesis
        using cinvD(3) [OF inv] room fr s'
        by (auto simp: mem_ok_def Capacity_def slot_off_snoc render_def)
    qed
    moreover have "offset_ok s'"
      using d s' by (auto simp: offset_ok_def slot_off_snoc)
    moreover have "seal_ok s'"
      by (rule seal_keep [OF cinvD(5) [OF inv], of "WSlot ?n d" t]) (use s' d pc in \<open>auto simp: resetting_def\<close>)
    ultimately show ?thesis
      using cinvD(6) [OF inv] s' by (simp add: cinv_def acked_def)
  qed
qed

text \<open>A thread that fills its own slot.\<close>

lemma slot_off_end_update:
  "i < length h \<Longrightarrow> slot_size x = slot_size (h ! i) \<Longrightarrow>
     slot_off (h[i := x]) (length (h[i := x])) = slot_off h (length h)"
  by (simp add: slot_off_update)

lemma cinv_fill:
  assumes inv: "cinv s" and i: "i < length (hist s)" and hi: "hist s ! i = (t, st, d)"
    and st: "st \<noteq> Acked"
    and q: "pc_slot q = (if st' = Acked then None else Some (st', slot_off (hist s) i, d))"
      "\<And>d. q \<noteq> WEntered d \<and> q \<noteq> WOpen d"
    and k: "k + length bs \<le> 4 + length d"
    and r: "render (t, st', d) = mem_write (render (t, st, d)) k bs"
    and eq: "pcs s' = (pcs s)(t := q)" "mem s' = mem_write (mem s) (slot_off (hist s) i + k) bs"
      "hist s' = promote t st st' (hist s)" "offset s' = offset s"
      "sealed s' = sealed s" "dpc s' = dpc s"
      "mset (rets s') = mset (rets s) + (if st' = Acked then {#(t, d)#} else {#})"
    and cnt: "counts_ok s'"
  shows "cinv s'"
  unfolding cinv_def
proof (intro conjI)
  let ?h = "hist s" and ?h' = "(hist s)[i := (t, st', d)]"
  have h': "hist s' = ?h'"
    unfolding eq(3) by (rule promote_update [OF cinvD(2) [OF inv] i hi st])
  have pcs: "pc_slot (pcs s t) = Some (st, slot_off ?h i, d)"
    by (rule slots_okD2 [OF cinvD(2) [OF inv] i hi st])
  then have adm: "admitted (pcs s t)" by (cases "pcs s t") auto
  note dp = admitted_dpc [OF inv adm]
  have n: "slot_off ?h' (length ?h') = slot_off ?h (length ?h)"
    using i hi by (intro slot_off_end_update) simp_all
  have m: "mem s = concat (map render ?h) @ replicate (Capacity s - slot_off ?h (length ?h)) 0"
    using cinvD(3) [OF inv] by (simp add: mem_ok_def)
  have m': "mem s' = concat (map render ?h') @ replicate (Capacity s - slot_off ?h (length ?h)) 0"
    unfolding eq(2) m using renders_write [OF i, of k bs "(t, st', d)"] k r hi by simp
  have cap: "Capacity s' = Capacity s"
  proof -
    have "Capacity s = slot_off ?h (length ?h) + (Capacity s - slot_off ?h (length ?h))"
      using cinvD(3) [OF inv] by (simp add: mem_ok_def)
    also have "\<dots> = length (mem s')"
      unfolding m' length_append length_renders length_replicate n ..
    finally show ?thesis by (simp add: Capacity_def)
  qed
  show "counts_ok s'" by (fact cnt)
  show "slots_ok (pcs s') (hist s')"
    unfolding eq(1) h' by (rule slots_ok_advance [OF cinvD(2) [OF inv] i hi st q(1)])
  have ok: "frame_ok d" using cinvD(3) [OF inv] i hi nth_mem [OF i] by (auto simp: mem_ok_def)
  have all: "\<forall>(t, st, d) \<in> set ?h'. frame_ok d"
    using cinvD(3) [OF inv] ok by (auto simp: mem_ok_def dest!: set_update_subset_insert [THEN subsetD])
  show "mem_ok s'"
    unfolding mem_ok_def cap h' n using m' all cinvD(3) [OF inv] q(2) eq(1)
    by (auto simp: mem_ok_def)
  show "offset_ok s'"
    using cinvD(4) [OF inv] dp eq(4,6) by (auto simp: offset_ok_def h' n cap Let_def simp del: length_list_update)
  show "seal_ok s'"
    by (rule seal_keep [OF cinvD(5) [OF inv], of q t]) (use adm dp eq in \<open>auto simp: resetting_def\<close>)
  show "mset (rets s') = mset (acked (hist s'))"
  proof -
    have "?h = take i ?h @ (t, st, d) # drop (Suc i) ?h"
      using id_take_nth_drop [OF i] hi by simp
    then have "acked ?h = acked (take i ?h @ (t, st, d) # drop (Suc i) ?h)" by simp
    then have "mset (acked ?h) = mset (acked (take i ?h)) + mset (acked (drop (Suc i) ?h))"
      using st by (simp add: acked_def)
    then show ?thesis
      using cinvD(6) [OF inv] eq(7) i
      by (simp add: h' upd_conv_take_nth_drop acked_def)
  qed
qed

lemma cinv_PutLen:
  assumes inv: "cinv s" and ex: "cexec (PutLen t) s = Some s'"
  shows "cinv s'"
proof -
  obtain o1 d where pc: "pcs s t = WSlot o1 d"
    and s': "s' = set_pc t (WHeader o1 d) (s\<lparr>mem := mem_write (mem s) o1 (WriteU32LE (of_nat (length d))),
       hist := promote t Fresh Hdr (hist s)\<rparr>)"
    using ex by (auto split: wpc.splits)
  obtain i where i: "i < length (hist s)" "hist s ! i = (t, Fresh, d)" "o1 = slot_off (hist s) i"
    using pc_slotD [OF cinvD(2) [OF inv], of t Fresh o1 d] pc by auto
  have "counts_ok s'"
    by (rule counts_keep [OF cinvD(1) [OF inv], of _ t "WHeader o1 d"]) (use pc s' in auto)
  then show ?thesis
    by (intro cinv_fill [OF inv i(1,2), where q = "WHeader o1 d" and st' = Hdr and k = 0
          and bs = "WriteU32LE (of_nat (length d))"])
      (use s' i in \<open>auto simp: WriteU32LE_eq render_Hdr\<close>)
qed

lemma cinv_PutData:
  assumes inv: "cinv s" and ex: "cexec (PutData t) s = Some s'"
  shows "cinv s'"
proof -
  obtain o1 d where pc: "pcs s t = WHeader o1 d"
    and s': "s' = set_pc t (WCopied o1 d) (s\<lparr>mem := mem_write (mem s) (o1 + 4) d,
       hist := promote t Hdr Copied (hist s)\<rparr>)"
    using ex by (auto split: wpc.splits)
  obtain i where i: "i < length (hist s)" "hist s ! i = (t, Hdr, d)" "o1 = slot_off (hist s) i"
    using pc_slotD [OF cinvD(2) [OF inv], of t Hdr o1 d] pc by auto
  have "counts_ok s'"
    by (rule counts_keep [OF cinvD(1) [OF inv], of _ t "WCopied o1 d"]) (use pc s' in auto)
  then show ?thesis
    by (intro cinv_fill [OF inv i(1,2), where q = "WCopied o1 d" and st' = Copied and k = 4 and bs = d])
      (use s' i in \<open>auto simp: render_Copied\<close>)
qed

lemma cinv_Leave:
  assumes inv: "cinv s" and ex: "cexec (Leave t) s = Some s'"
  shows "cinv s'"
proof -
  consider (bail) "pcs s t = WBail" "s' = set_pc t (WDone False) (s\<lparr>writers := writers s - 1\<rparr>)"
    | (ok) o1 d where "pcs s t = WCopied o1 d"
        "s' = set_pc t (WDone True) (s\<lparr>writers := writers s - 1, hist := promote t Copied Acked (hist s),
           rets := rets s @ [(t, d)]\<rparr>)"
    using ex by (auto split: wpc.splits)
  then show ?thesis
  proof cases
    case bail
    have busy: "\<not> resetting (dpc s)"
      using resetting_writers [OF inv] active_writers [OF inv, of t] bail by auto
    have "counts_ok s'"
      by (rule counts_leave [OF cinvD(1) [OF inv], of _ t "WDone False"]) (use bail in auto)
    then show ?thesis
      by (intro cinv_pc_step [OF inv, where t = t and q = "WDone False"]) (use bail busy in auto)
  next
    case ok
    obtain i where i: "i < length (hist s)" "hist s ! i = (t, Copied, d)" "o1 = slot_off (hist s) i"
      using pc_slotD [OF cinvD(2) [OF inv], of t Copied o1 d] ok(1) by auto
    have "counts_ok s'"
      by (rule counts_leave [OF cinvD(1) [OF inv], of _ t "WDone True"]) (use ok in auto)
    then show ?thesis
      by (intro cinv_fill [OF inv i(1,2), where q = "WDone True" and st' = Acked and k = 0 and bs = "[]"])
        (use ok(2) in \<open>auto simp: render_Acked\<close>)
  qed
qed

lemma cinv_Seal:
  assumes inv: "cinv s" and "cexec SealSet s = Some s' \<or> cexec SealWait s = Some s'"
  shows "cinv s'"
proof -
  have noadm: "writers s = 0 \<Longrightarrow> \<not> admitted (pcs s t)" for t
    using active_writers [OF inv, of t] admitted_active by auto
  consider "dpc s = DIdle" "s' = s\<lparr>sealed := True, dpc := DSealing\<rparr>"
    | "dpc s = DSealing" "writers s = 0" "s' = s\<lparr>dpc := DSealed\<rparr>"
    using assms(2) by (auto split: if_splits)
  then show ?thesis
    using inv noadm
    by cases (auto simp: cinv_def counts_ok_def mem_ok_def offset_ok_def seal_ok_def Capacity_def
        resetting_def Let_def)
qed

text \<open>When no writer is inside, every reserved slot is complete.\<close>

lemma all_acked:
  assumes "slots_ok p h" and "\<And>t. \<not> admitted (p t)" and "x \<in> set h"
  shows "fst (snd x) = Acked"
proof (rule ccontr)
  assume ne: "fst (snd x) \<noteq> Acked"
  obtain t st d where x: "x = (t, st, d)" by (cases x) auto
  with assms(3) obtain i where "i < length h" "h ! i = (t, st, d)" by (auto simp: in_set_conv_nth)
  then have "pc_slot (p t) \<noteq> None" using slots_okD2 [OF assms(1)] ne x by auto
  then have "admitted (p t)" by (cases "p t") auto
  with assms(2) show False by blast
qed

lemma cinv_Reset:
  assumes inv: "cinv s"
    and "cexec ResetLoad s = Some s' \<and> writers s = 0 \<or> cexec ResetOffset s = Some s' \<or> cexec ResetUnseal s = Some s'"
  shows "cinv s'"
proof -
  consider "dpc s = DSealed" "writers s = 0" "s' = s\<lparr>dpc := DReset0 (min (offset s) (Capacity s))\<rparr>"
    | u where "dpc s = DReset0 u" "s' = s\<lparr>offset := 0, dpc := DReset1 u\<rparr>"
    | u where "dpc s = DReset1 u" "s' = s\<lparr>sealed := False, dpc := DReset2 u\<rparr>"
    using assms(2) by (auto split: if_splits dpc.splits)
  then show ?thesis
    using inv
    by cases (auto simp: cinv_def counts_ok_def mem_ok_def offset_ok_def seal_ok_def Capacity_def
        resetting_def Let_def)
qed

lemma cinv_ResetZero:
  assumes inv: "cinv s" and ex: "cexec ResetZero s = Some s'"
  shows "cinv s'"
proof -
  let ?n = "slot_off (hist s) (length (hist s))"
  obtain u where dp: "dpc s = DReset2 u"
    and s': "s' = s\<lparr>mem := mem_write (mem s) 0 (replicate u 0), dpc := DIdle, hist := [], rets := []\<rparr>"
    using ex by (auto split: dpc.splits)
  have u: "?n \<le> u" "u \<le> Capacity s" "offset s = 0"
    using cinvD(4) [OF inv] dp by (auto simp: offset_ok_def)
  have m: "mem s = concat (map render (hist s)) @ replicate (Capacity s - ?n) 0"
    using cinvD(3) [OF inv] by (simp add: mem_ok_def)
  have "drop u (mem s) = replicate (Capacity s - u) 0"
    using u by (subst m) (simp add: length_renders)
  then have mem': "mem s' = replicate (Capacity s) 0"
    using u s' by (simp add: mem_write_def flip: replicate_add)
  have w: "writers s = 0" using resetting_writers [OF inv] dp by (simp add: resetting_def)
  have noadm: "\<not> active (pcs s t)" for t using active_writers [OF inv, of t] w by auto
  then have none: "pc_slot (pcs s t) = None" for t by (rule pc_slot_inactive)
  have "\<not> admitted (pcs s t)" for t using noadm [of t] admitted_active by blast
  moreover have "pcs s t \<noteq> WEntered d" "pcs s t \<noteq> WOpen d" for t d using noadm [of t] by auto
  ultimately show ?thesis
    using inv u mem' none w dp s'
    by (auto simp: cinv_def counts_ok_def slots_ok_def mem_ok_def offset_ok_def seal_ok_def
        acked_def resetting_def Capacity_def)
qed

section \<open>Program order\<close>

text \<open>
  A thread's slot under construction is its last one, so its calls return in the order in which
  they reserved.
\<close>

definition fifo_ok :: "cbuf \<Rightarrow> bool" where
  "fifo_ok s \<longleftrightarrow>
     (\<forall>j<length (hist s). \<forall>i<j. fst (hist s ! i) = fst (hist s ! j) \<longrightarrow> fst (snd (hist s ! i)) = Acked)
     \<and> (\<forall>t. filter (\<lambda>x. fst x = t) (rets s) = filter (\<lambda>x. fst x = t) (acked (hist s)))"

lemma acked_Nil [simp]: "acked [] = []"
  by (simp add: acked_def)

lemma acked_Cons [simp]: "acked ((t, st, d) # h) = (if st = Acked then (t, d) # acked h else acked h)"
  by (simp add: acked_def)

lemma acked_append [simp]: "acked (h @ g) = acked h @ acked g"
  by (simp add: acked_def)

lemma acked_thread: "x \<in> set (acked h) \<Longrightarrow> \<exists>y\<in>set h. fst y = fst x \<and> fst (snd y) = Acked"
  by (induction h) (auto split: if_splits)

lemma fifo_reserve:
  assumes inv: "cinv s" and fifo: "fifo_ok s" and none: "pc_slot (pcs s t) = None"
    and eq: "hist s' = hist s @ [(t, Fresh, d)]" "rets s' = rets s"
  shows "fifo_ok s'"
proof -
  have "fst (snd (hist s ! i)) = Acked" if i: "i < length (hist s)" and it: "fst (hist s ! i) = t" for i
  proof (rule ccontr)
    assume ne: "fst (snd (hist s ! i)) \<noteq> Acked"
    obtain st e where "hist s ! i = (t, st, e)" using it by (cases "hist s ! i") auto
    with slots_okD2 [OF cinvD(2) [OF inv] i] ne none show False by auto
  qed
  with fifo show ?thesis
    by (auto simp: fifo_ok_def eq nth_append less_Suc_eq)
qed

lemma fifo_fill:
  assumes inv: "cinv s" and fifo: "fifo_ok s" and i: "i < length (hist s)" "hist s ! i = (t, st, d)"
    and st: "st \<noteq> Acked"
    and eq: "hist s' = promote t st st' (hist s)"
      "rets s' = rets s @ (if st' = Acked then [(t, d)] else [])"
  shows "fifo_ok s'"
  unfolding fifo_ok_def
proof (intro conjI allI impI)
  let ?h = "hist s"
  have h': "hist s' = ?h[i := (t, st', d)]"
    unfolding eq by (rule promote_update [OF cinvD(2) [OF inv] i st])
  have last: "fst (?h ! j) \<noteq> t" if "i < j" "j < length ?h" for j
  proof
    assume "fst (?h ! j) = t"
    with i(2) have "fst (?h ! i) = fst (?h ! j)" by simp
    with fifo that have "fst (snd (?h ! i)) = Acked" unfolding fifo_ok_def by blast
    with i(2) st show False by simp
  qed
  {
    fix j k assume "j < length (hist s')" "k < j" "fst (hist s' ! k) = fst (hist s' ! j)"
    then have j: "j < length ?h" "k < j" "fst (?h ! k) = fst (?h ! j)"
      using i by (auto simp: h' nth_list_update split: if_splits)
    then have "fst (snd (?h ! k)) = Acked" using fifo by (auto simp: fifo_ok_def)
    moreover from this have "k \<noteq> i" using i st by auto
    ultimately show "fst (snd (hist s' ! k)) = Acked" by (simp add: h')
  next
    fix u
    have split: "?h = take i ?h @ (t, st, d) # drop (Suc i) ?h"
      using id_take_nth_drop [OF i(1)] i(2) by simp
    have "filter (\<lambda>x. fst x = t) (acked (drop (Suc i) ?h)) = []"
    proof (rule filter_False, intro ballI notI)
      fix x assume "x \<in> set (acked (drop (Suc i) ?h))" "fst x = t"
      then obtain y where "y \<in> set (drop (Suc i) ?h)" "fst y = t" using acked_thread by blast
      then obtain j where "j < length (drop (Suc i) ?h)" "fst (drop (Suc i) ?h ! j) = t"
        by (auto simp: in_set_conv_nth)
      with last [of "Suc i + j"] show False by simp
    qed
    moreover have "acked ?h = acked (take i ?h) @ acked (drop (Suc i) ?h)"
      by (subst split) (use st in simp)
    ultimately show "filter (\<lambda>x. fst x = u) (rets s') = filter (\<lambda>x. fst x = u) (acked (hist s'))"
      using fifo i by (cases "u = t") (auto simp: fifo_ok_def eq(2) h' upd_conv_take_nth_drop)
  }
qed

lemma fifo_frame: "fifo_ok s \<Longrightarrow> hist s' = hist s \<Longrightarrow> rets s' = rets s \<Longrightarrow> fifo_ok s'"
  by (simp add: fifo_ok_def)

lemma delivery_step:
  assumes inv: "cinv s" and fifo: "fifo_ok s" and ex: "cexec a s = Some s'"
  shows "fifo_ok s'"
proof (cases a)
  case (FetchAdd t)
  then obtain d where "pcs s t = WOpen d" using ex by (auto split: wpc.splits)
  then show ?thesis
    using ex FetchAdd fifo_frame [OF fifo, of s'] fifo_reserve [OF inv fifo, of t s' d]
    by (auto simp: Let_def split: if_splits)
next
  case (PutLen t)
  then obtain o1 d where pc: "pcs s t = WSlot o1 d" using ex by (auto split: wpc.splits)
  obtain i where i: "i < length (hist s)" "hist s ! i = (t, Fresh, d)" "o1 = slot_off (hist s) i"
    using pc_slotD [OF cinvD(2) [OF inv], of t Fresh o1 d] pc by auto
  then show ?thesis
    by (intro fifo_fill [OF inv fifo i(1,2), where st' = Hdr]) (use ex pc PutLen in auto)
next
  case (PutData t)
  then obtain o1 d where pc: "pcs s t = WHeader o1 d" using ex by (auto split: wpc.splits)
  obtain i where i: "i < length (hist s)" "hist s ! i = (t, Hdr, d)" "o1 = slot_off (hist s) i"
    using pc_slotD [OF cinvD(2) [OF inv], of t Hdr o1 d] pc by auto
  then show ?thesis
    by (intro fifo_fill [OF inv fifo i(1,2), where st' = Copied]) (use ex pc PutData in auto)
next
  case (Leave t)
  show ?thesis
  proof (cases "pcs s t")
    case (WCopied o1 d)
    obtain i where i: "i < length (hist s)" "hist s ! i = (t, Copied, d)" "o1 = slot_off (hist s) i"
      using pc_slotD [OF cinvD(2) [OF inv], of t Copied o1 d] WCopied by auto
    then show ?thesis
      by (intro fifo_fill [OF inv fifo i(1,2), where st' = Acked]) (use ex WCopied Leave in auto)
  qed (use ex Leave fifo_frame [OF fifo, of s'] in auto)
next
  case ResetZero
  with ex show ?thesis by (auto simp: fifo_ok_def split: dpc.splits)
qed (use ex fifo_frame [OF fifo, of s'] in \<open>auto split: if_splits wpc.splits dpc.splits\<close>)

section \<open>The disciplined system\<close>

lemma cinv_step:
  assumes "cinv s" and "quiet a s" and "cexec a s = Some s'"
  shows "cinv s'"
proof (cases a)
  case (Call t d)
  with assms show ?thesis by (intro cinv_Call [of s t d s']) (simp_all add: quiet_def)
next
  case (CheckSealed t)
  with assms show ?thesis by (intro cinv_CheckSealed [of s t s']) simp_all
next
  case (FetchAdd t)
  with assms show ?thesis by (intro cinv_FetchAdd [of s t s']) simp_all
next
  case (PutLen t)
  with assms show ?thesis by (intro cinv_PutLen [of s t s']) simp_all
next
  case (PutData t)
  with assms show ?thesis by (intro cinv_PutData [of s t s']) simp_all
next
  case (Leave t)
  with assms show ?thesis by (intro cinv_Leave [of s t s']) simp_all
next
  case ResetZero
  with assms show ?thesis by (intro cinv_ResetZero [of s s']) simp_all
qed (use assms in \<open>auto simp: quiet_def intro: cinv_Seal [of s s'] cinv_Reset [of s s']
    simp del: cexec.simps\<close>)

lemma cinv_init: "cinv (cbuf_init cap)"
  by (simp add: cinv_def cbuf_init_def counts_ok_def slots_ok_def mem_ok_def offset_ok_def seal_ok_def
      Capacity_def resetting_def)

lemma fifo_init: "fifo_ok (cbuf_init cap)"
  by (simp add: fifo_ok_def cbuf_init_def)

interpretation cb: invariant_system "\<lambda>s. \<exists>cap. s = cbuf_init cap" qstep "\<lambda>s. cinv s \<and> fifo_ok s"
proof unfold_locales
  show "cinv s \<and> fifo_ok s" if "\<exists>cap. s = cbuf_init cap" for s
    using that cinv_init fifo_init by blast
  show "cinv t \<and> fifo_ok t" if "qstep s t" "cinv s \<and> fifo_ok s" for s t
    using that cinv_step delivery_step
    by (auto simp: qstep_def acts_step_def qexec_def split: if_splits)
qed

lemma reachable_cinv: "qstep\<^sup>*\<^sup>* (cbuf_init cap) s \<Longrightarrow> cinv s"
  using cb.reachable_inv by blast

lemma reachable_fifo: "qstep\<^sup>*\<^sup>* (cbuf_init cap) s \<Longrightarrow> fifo_ok s"
  using cb.reachable_inv by blast

section \<open>What the drainer and the writers may rely on\<close>

lemma render_acked: "fst (snd x) = Acked \<Longrightarrow> render x = frame (snd (snd x))"
  by (cases x) (simp add: render_def)

lemma acked_all: "\<forall>x\<in>set h. fst (snd x) = Acked \<Longrightarrow> acked h = map (\<lambda>x. (fst x, snd (snd x))) h"
  by (induction h) auto

lemma map_render_acked:
  "(\<And>x. x \<in> set h \<Longrightarrow> fst (snd x) = Acked) \<Longrightarrow>
     map render h = map frame (map (\<lambda>x. snd (snd x)) h) \<and> acked h = map (\<lambda>x. (fst x, snd (snd x))) h"
  by (simp add: render_acked acked_all)

lemma slot_off_frames: "slot_off h (length h) = frames_size (map (\<lambda>x. snd (snd x)) h)"
  by (induction h) (simp_all add: slot_off_def slot_size_def)

lemma drained_frames:
  assumes inv: "cinv s" and dp: "dpc s = DSealed"
  shows "ForEachFrame s = map (\<lambda>x. snd (snd x)) (hist s) \<and> acked (hist s) = map (\<lambda>x. (fst x, snd (snd x))) (hist s)"
proof -
  let ?ds = "map (\<lambda>x. snd (snd x)) (hist s)"
  have "\<not> admitted (pcs s t)" for t using cinvD(5) [OF inv] dp by (simp add: seal_ok_def)
  note ack = all_acked [OF cinvD(2) [OF inv] this]
  have "holds s ?ds"
    using cinvD(3,4) [OF inv] map_render_acked [OF ack] dp
    by (auto simp: holds_def mem_ok_def offset_ok_def layout_def slot_off_frames list_all_iff comp_def)
  then show ?thesis using holds_walk map_render_acked [OF ack] by blast
qed


text \<open>
  A schedule in which two writers overlap: thread 2 reserves first and returns last.
\<close>

definition overlap_run :: "cact list" where
  "overlap_run = [Call 1 [10], Call 2 [20, 21], CheckSealed 2, CheckSealed 1, FetchAdd 2, FetchAdd 1,
     PutLen 1, SealSet, PutData 1, Leave 1, PutLen 2, PutData 2, Leave 2, SealWait]"


text \<open>
  Writers never touch each other's bytes: the slots of two threads inside \<open>Write\<close> at the
  same time lie inside the region and do not overlap.
\<close>

theorem writers_isolated:
  assumes "qstep\<^sup>*\<^sup>* (cbuf_init cap) s" and "t \<noteq> u"
    and "pc_slot (pcs s t) = Some (st, o1, d)" and "pc_slot (pcs s u) = Some (st', o2, e)"
  shows "o1 + 4 + length d \<le> Capacity s \<and> (o1 + 4 + length d \<le> o2 \<or> o2 + 4 + length e \<le> o1)"
proof -
  note inv = reachable_cinv [OF assms(1)]
  note sl = cinvD(2) [OF inv]
  let ?h = "hist s"
  obtain i where i: "i < length ?h" "?h ! i = (t, st, d)" "o1 = slot_off ?h i"
    using slots_okD1 [OF sl assms(3)] by auto
  obtain j where j: "j < length ?h" "?h ! j = (u, st', e)" "o2 = slot_off ?h j"
    using slots_okD1 [OF sl assms(4)] by auto
  have "slot_off ?h (length ?h) \<le> Capacity s" using cinvD(3) [OF inv] by (simp add: mem_ok_def)
  moreover have "i \<noteq> j" using i j assms(2) by auto
  ultimately show ?thesis
    using slot_off_less [of i "length ?h" ?h] slot_off_less [of i j ?h] slot_off_less [of j i ?h] i j
    by (cases "i < j") auto
qed

theorem writers_isolated_witness:
  "\<exists>s. run_acts qexec (take 8 overlap_run) (cbuf_init 16) = Some s
     \<and> pc_slot (pcs s 1) = Some (Hdr, 6, [10]) \<and> pc_slot (pcs s 2) = Some (Fresh, 0, [20, 21])
     \<and> 6 + 4 + length [10 :: byte] \<le> Capacity s
     \<and> (6 + 4 + length [10 :: byte] \<le> (0 :: nat) \<or> 0 + 4 + length [20, 21 :: byte] \<le> 6)"
proof -
  define s where "s = the (run_acts qexec (take 8 overlap_run) (cbuf_init 16))"
  have run: "run_acts qexec (take 8 overlap_run) (cbuf_init 16) = Some s \<and> pc_slot (pcs s 1) = Some (Hdr, 6, [10])
      \<and> pc_slot (pcs s 2) = Some (Fresh, 0, [20, 21])"
    unfolding s_def
    by (simp add: overlap_run_def qexec_def quiet_def cbuf_init_def can_call_def set_pc_def
        Capacity_def Let_def resetting_def)
  then have "qstep\<^sup>*\<^sup>* (cbuf_init 16) s" unfolding qstep_def by (elim conjE) (rule run_acts_steps)
  with run writers_isolated [of 16 s 1 2 Hdr 6 "[10]" Fresh 0 "[20, 21]"] show ?thesis by auto
qed

section \<open>Sealing ends\<close>

text \<open>A thread inside \<open>Write\<close> leaves it in at most five steps of its own.\<close>

lemma thread_leaves:
  assumes "cinv s" and "active (pcs s t)" and "dpc s = DSealing"
  shows "\<exists>as s'. run_acts qexec as s = Some s' \<and> length as \<le> 5 \<and> dpc s' = DSealing
    \<and> writers s' = writers s - 1 \<and> (\<forall>u d. Call u d \<notin> set as)"
proof -
  have sl: "sealed s" using cinvD(5) [OF assms(1)] assms(3) by (simp add: seal_ok_def)
  define as where "as = (case pcs s t of
      WEntered d \<Rightarrow> [CheckSealed t, Leave t]
    | WOpen d \<Rightarrow> if Capacity s < offset s + (4 + length d) then [FetchAdd t, Leave t]
        else [FetchAdd t, PutLen t, PutData t, Leave t]
    | WSlot _ _ \<Rightarrow> [PutLen t, PutData t, Leave t]
    | WHeader _ _ \<Rightarrow> [PutData t, Leave t]
    | _ \<Rightarrow> [Leave t])"
  obtain s' where "run_acts qexec as s = Some s' \<and> dpc s' = DSealing \<and> writers s' = writers s - 1"
    using assms(2,3) sl
    by (cases "pcs s t"; cases "Capacity s < offset s + (4 + length (case pcs s t of WOpen d \<Rightarrow> d | _ \<Rightarrow> []))")
      (auto simp: as_def qexec_def quiet_def Let_def Capacity_def)
  moreover have "length as \<le> 5" "\<forall>u d. Call u d \<notin> set as"
    by (auto simp: as_def split: wpc.splits)
  ultimately show ?thesis by blast
qed

text \<open>
  C36. The spin loop of \<open>Seal\<close> can always end: from any reachable state in which the drainer
  waits, letting the threads inside \<open>Write\<close> run (no new call is needed) empties the buffer of
  writers within five steps each, and \<open>Seal\<close> returns.
\<close>

theorem seal_returns:
  assumes "qstep\<^sup>*\<^sup>* (cbuf_init cap) s" and "dpc s = DSealing"
  shows "\<exists>as s'. run_acts qexec as s = Some s' \<and> dpc s' = DSealed \<and> length as \<le> 5 * writers s + 1
    \<and> (\<forall>u d. Call u d \<notin> set as)"
proof -
  have "cinv s" using assms(1) by (rule reachable_cinv)
  then show ?thesis
    using assms(2)
  proof (induction "writers s" arbitrary: s)
    case 0
    then have "run_acts qexec [SealWait] s = Some (s\<lparr>dpc := DSealed\<rparr>)"
      by (simp add: qexec_def quiet_def)
    then show ?case by (intro exI [of _ "[SealWait]"]) auto
  next
    case (Suc n)
    have "\<exists>t. active (pcs s t)"
    proof (rule ccontr)
      assume "\<nexists>t. active (pcs s t)"
      then have "{t. active (pcs s t)} = {}" by blast
      with cinvD(1) [OF Suc.prems(1)] Suc.hyps(2) show False by (simp add: counts_ok_def)
    qed
    then obtain t where "active (pcs s t)" by blast
    then obtain as s1 where as: "run_acts qexec as s = Some s1" "length as \<le> 5" "dpc s1 = DSealing"
        "writers s1 = n" "\<forall>u d. Call u d \<notin> set as"
      using thread_leaves [OF Suc.prems(1) _ Suc.prems(2)] Suc.hyps(2) by (metis diff_Suc_1)
    have "cinv s1"
      using run_acts_steps [OF as(1)] Suc.prems(1)
      by (induction rule: rtranclp_induct)
        (auto simp: acts_step_def qexec_def split: if_splits intro: cinv_step)
    with Suc.hyps(1) [of s1] as(3,4) obtain bs s2 where
      "run_acts qexec bs s1 = Some s2" "dpc s2 = DSealed" "length bs \<le> 5 * n + 1" "\<forall>u d. Call u d \<notin> set bs"
      by auto
    with as Suc.hyps(2) show ?case
      by (intro exI [of _ "as @ bs"] exI [of _ s2]) (auto simp: run_acts_append)
  qed
qed

theorem seal_returns_witness:
  "\<exists>s. run_acts qexec (take 8 overlap_run) (cbuf_init 16) = Some s \<and> writers s = 2 \<and> dpc s = DSealing
     \<and> (\<exists>as s'. run_acts qexec as s = Some s' \<and> dpc s' = DSealed \<and> length as \<le> 5 * writers s + 1
          \<and> (\<forall>u d. Call u d \<notin> set as))"
proof -
  define s where "s = the (run_acts qexec (take 8 overlap_run) (cbuf_init 16))"
  have run: "run_acts qexec (take 8 overlap_run) (cbuf_init 16) = Some s \<and> writers s = 2 \<and> dpc s = DSealing"
    unfolding s_def
    by (simp add: overlap_run_def qexec_def quiet_def cbuf_init_def can_call_def set_pc_def
        Capacity_def Let_def resetting_def)
  then have "qstep\<^sup>*\<^sup>* (cbuf_init 16) s" unfolding qstep_def by (elim conjE) (rule run_acts_steps)
  with run seal_returns [of 16 s] show ?thesis by blast
qed

section \<open>Without the discipline\<close>

text \<open>
  Every schedule keeps \<open>offset_\<close> below the number of reservations times the largest frame,
  hence a 64-bit counter never wraps in fewer than \<open>2 ^ 31\<close> reservations per cycle.
\<close>

fun is_FetchAdd :: "cact \<Rightarrow> bool" where
  "is_FetchAdd (FetchAdd t) = True"
| "is_FetchAdd a = False"

definition sizes_ok :: "cbuf \<Rightarrow> bool" where
  "sizes_ok s \<longleftrightarrow> (\<forall>t d. pcs s t = WEntered d \<or> pcs s t = WOpen d \<longrightarrow> length d \<le> 0xFFFFFFFF)"

lemma offset_step:
  assumes "cexec a s = Some s'" and "sizes_ok s"
  shows "sizes_ok s' \<and> offset s' \<le> offset s + (if is_FetchAdd a then 2 ^ 32 + 3 else 0)"
  using assms
  by (cases a) (auto simp: sizes_ok_def Let_def can_call_def split: if_splits wpc.splits dpc.splits)

lemma offset_run:
  "run_acts cexec as s = Some s' \<Longrightarrow> sizes_ok s \<Longrightarrow>
     offset s' \<le> offset s + length (filter is_FetchAdd as) * (2 ^ 32 + 3)"
proof (induction as arbitrary: s)
  case (Cons a as)
  then obtain s1 where "cexec a s = Some s1" "run_acts cexec as s1 = Some s'"
    by (auto split: option.splits)
  with Cons offset_step [of a s s1] show ?case by (fastforce split: if_splits)
qed simp

text \<open>
  The unchecked \<open>offset_.fetch_add(4 + len)\<close> cannot wrap around 64 bits: in any schedule,
  disciplined or not, with fewer than \<open>2 ^ 31\<close> reservations, \<open>offset_\<close> plus the largest next
  frame stays below \<open>2 ^ 64\<close>, so \<open>old + need > cap\<close> is the comparison of the true numbers.
\<close>

theorem offset_no_wrap:
  assumes "run_acts cexec as (cbuf_init cap) = Some s" and "length (filter is_FetchAdd as) < 2 ^ 31"
  shows "offset s + (4 + 0xFFFFFFFF) < size_bound"
proof -
  have "sizes_ok (cbuf_init cap)" by (simp add: sizes_ok_def cbuf_init_def)
  from offset_run [OF assms(1) this]
  have "offset s \<le> length (filter is_FetchAdd as) * (2 ^ 32 + 3)" by (simp add: cbuf_init_def)
  also have "\<dots> \<le> (2 ^ 31 - 1) * (2 ^ 32 + 3)" using assms(2) by (intro mult_right_mono) simp_all
  finally show ?thesis by (simp add: size_bound_def)
qed

theorem offset_no_wrap_witness:
  "\<exists>s. run_acts cexec overlap_run (cbuf_init 16) = Some s \<and> offset s = 11
     \<and> offset s + (4 + 0xFFFFFFFF) < size_bound"
proof -
  define s where "s = the (run_acts cexec overlap_run (cbuf_init 16))"
  have run: "run_acts cexec overlap_run (cbuf_init 16) = Some s \<and> offset s = 11"
    unfolding s_def
    by (simp add: overlap_run_def cbuf_init_def can_call_def set_pc_def Capacity_def Let_def)
  then show ?thesis
    using offset_no_wrap [of overlap_run 16 s] by (simp add: overlap_run_def)
qed

text \<open>
  The order of the statements of \<open>ResetForReuse\<close>: \<open>sealed_\<close> is cleared before the bytes are
  scrubbed. A writer that still holds a pointer to the buffer can get in between.
\<close>

definition race_run :: "bytes \<Rightarrow> bytes \<Rightarrow> cact list" where
  "race_run e d =
     [Call 1 e, CheckSealed 1, FetchAdd 1, PutLen 1, PutData 1, Leave 1,
      SealSet, SealWait, ResetLoad, ResetOffset, ResetUnseal,
      Call 2 d, CheckSealed 2, FetchAdd 2, PutLen 2, PutData 2, Leave 2,
      ResetZero, SealSet, SealWait]"

text \<open>
  A record can be lost although \<open>Write\<close> returned true: a writer that enters the buffer
  after \<open>ResetForReuse\<close> has cleared \<open>sealed_\<close> and before it has zeroed the bytes writes a
  complete frame, which the \<open>memset\<close> then wipes; the next cycle delivers nothing.
\<close>

theorem reset_race_loses_record:
  assumes "frame_ok e" and "frame_ok d" and "length d \<le> length e" and "4 + length e \<le> cap"
  shows "\<exists>s. run_acts cexec (race_run e d) (cbuf_init cap) = Some s
    \<and> pcs s 2 = WDone True \<and> dpc s = DSealed \<and> ForEachFrame s = []"
proof -
  define s where "s = the (run_acts cexec (race_run e d) (cbuf_init cap))"
  have ne: "e \<noteq> []" "d \<noteq> []" "length e < 2 ^ 32" "length d < 2 ^ 32"
    using assms(1,2) by (simp_all add: frame_ok_def)
  obtain m where run: "run_acts cexec (race_run e d) (cbuf_init cap) = Some s \<and> pcs s 2 = WDone True
      \<and> dpc s = DSealed \<and> mem s = mem_write m 0 (replicate (4 + length e) 0)"
    using assms(3,4) ne unfolding s_def
    by (simp add: race_run_def cbuf_init_def can_call_def set_pc_def Capacity_def Let_def WriteU32LE_eq
        min_absorb1)
  have "mem s = replicate 4 0 @ replicate (length e) 0 @ drop (4 + length e) m"
    using run by (simp add: mem_write_def flip: replicate_add)
  then have "mem_read (mem s) 0 4 = replicate 4 0" by (simp add: mem_read_def)
  then have "decode_le32 (mem_read (mem s) 0 4) = 0"
    by (simp add: decode_le32_def)
  then have "ForEachFrame s = []" by (simp add: ForEachFrame_def walk_zero)
  with run show ?thesis by blast
qed

theorem reset_race_loses_record_witness:
  "\<exists>s. run_acts cexec (race_run [1, 2] [3]) (cbuf_init 16) = Some s
    \<and> pcs s 2 = WDone True \<and> dpc s = DSealed \<and> ForEachFrame s = []"
  by (rule reset_race_loses_record) (simp_all add: frame_ok_def)

end
