(* ===== verification/Buffer_Linear.thy ===== *)
theory Buffer_Linear
  imports Mmap_Buffer_Conc
begin

text \<open>
  The two models of \<open>mmap/mmap_buffer.cpp\<close> agree: a cycle of the concurrent buffer
  (\<open>Mmap_Buffer_Conc\<close>, one atomic operation per step) is, up to the order in which calls that
  overlap are put, the sequential buffer (\<open>Mmap_Buffer\<close>, one call per step). The order is that of
  the \<open>fetch_add\<close> on \<open>offset_\<close>; the calls that found the buffer sealed come after the \<open>Seal\<close>. This
  is what allows \<open>Mmap_Store\<close> to take a call of \<open>Write\<close> as one step.
\<close>

section \<open>The order of the calls\<close>

text \<open>A call: its thread, its payload, and whether it is going to return true.\<close>

type_synonym wcall = "nat \<times> bytes \<times> bool"

definition payload :: "wcall \<Rightarrow> bytes" where
  "payload c = fst (snd c)"

definition result :: "wcall \<Rightarrow> bool" where
  "result c = snd (snd c)"

definition taken :: "wcall list \<Rightarrow> (nat \<times> bytes) list" where
  "taken L = map (\<lambda>(t, d, r). (t, d)) (filter result L)"

text \<open>
  The calls of the current cycle, those before the \<open>Seal\<close> and those after it, as one step of
  the concurrent buffer extends them. A call that is refused for its length takes its place
  when it is made.
\<close>

definition order_step :: "cact \<Rightarrow> cbuf \<Rightarrow> cbuf \<Rightarrow> wcall list \<times> wcall list \<Rightarrow> wcall list \<times> wcall list" where
  "order_step a s s' LR =
     (case a of
        Call t d \<Rightarrow>
          (if pcs s' t \<noteq> WDone False then LR
           else if sealed s then (fst LR, snd LR @ [(t, d, False)])
           else (fst LR @ [(t, d, False)], snd LR))
      | CheckSealed t \<Rightarrow>
          (case pcs s t of
             WEntered d \<Rightarrow> if pcs s' t = WBail then (fst LR, snd LR @ [(t, d, False)]) else LR
           | _ \<Rightarrow> LR)
      | FetchAdd t \<Rightarrow>
          (case pcs s t of
             WOpen d \<Rightarrow> (fst LR @ [(t, d, pcs s' t \<noteq> WBail)], snd LR)
           | _ \<Rightarrow> LR)
      | ResetZero \<Rightarrow> ([], [])
      | _ \<Rightarrow> LR)"

fun call_order :: "cact list \<Rightarrow> cbuf \<Rightarrow> wcall list \<times> wcall list \<Rightarrow> wcall list \<times> wcall list" where
  "call_order [] s LR = LR"
| "call_order (a # as) s LR =
     (case qexec a s of None \<Rightarrow> LR | Some s' \<Rightarrow> call_order as s' (order_step a s s' LR))"

text \<open>The sequential buffer, call by call, with every result.\<close>

fun write_each :: "bytes list \<Rightarrow> buffer \<Rightarrow> bool list \<times> buffer" where
  "write_each [] b = ([], b)"
| "write_each (d # ds) b = (let (r, b1) = Write d b; (rs, b2) = write_each ds b1 in (r # rs, b2))"

lemma write_each_snoc:
  "write_each (ds @ [d]) b =
     (fst (write_each ds b) @ [fst (Write d (snd (write_each ds b)))], snd (Write d (snd (write_each ds b))))"
  by (induction ds arbitrary: b) (simp_all add: case_prod_beta Let_def)

lemma write_each_sealed: "sealed b \<Longrightarrow> write_each ds b = (replicate (length ds) False, b)"
  by (induction ds) (simp_all add: Write_sealed)

lemma call_simps [simp]:
  "payload (t, d, r) = d" "result (t, d, r) = r"
  "taken [] = []" "taken (L @ M) = taken L @ taken M" "taken [(t, d, r)] = (if r then [(t, d)] else [])"
  by (simp_all add: payload_def result_def taken_def)

section \<open>The simulation\<close>

text \<open>
  What relates a concurrent state to the calls ordered so far: outside \<open>ResetForReuse\<close> the
  sequential buffer, given the calls of the cycle, returns the same results, has the same
  \<open>offset_\<close>, and holds the frames of the reserved slots.
\<close>

definition slot_data :: "slot list \<Rightarrow> (nat \<times> bytes) list" where
  "slot_data h = map (\<lambda>(t, st, d). (t, d)) h"

definition follows :: "nat \<Rightarrow> cbuf \<Rightarrow> wcall list \<Rightarrow> bool" where
  "follows cap s L \<longleftrightarrow>
     slot_data (hist s) = taken L \<and> Capacity s = cap
     \<and> (\<not> resetting (dpc s) \<longrightarrow>
          (let (rs, b) = write_each (map payload L) (MmapBuffer cap [])
           in rs = map result L \<and> offset b = offset s \<and> \<not> sealed b \<and> writers b = 0
              \<and> Capacity b = cap \<and> holds b (map snd (taken L))))"

lemma slot_data_simps [simp]:
  "slot_data [] = []" "slot_data (h @ [(t, st, d)]) = slot_data h @ [(t, d)]"
  "slot_data (promote t st st' h) = slot_data h"
  by (auto simp: slot_data_def promote_def)

lemma followsD:
  assumes "follows cap s L" and "\<not> resetting (dpc s)"
  obtains b where "write_each (map payload L) (MmapBuffer cap []) = (map result L, b)"
    and "offset b = offset s" and "\<not> sealed b" and "writers b = 0" and "Capacity b = cap"
    and "holds b (map snd (taken L))"
  using assms by (auto simp: follows_def case_prod_beta Let_def) (metis surjective_pairing)

lemma follows_keep:
  "follows cap s L \<Longrightarrow> slot_data (hist s') = slot_data (hist s) \<Longrightarrow> Capacity s' = Capacity s \<Longrightarrow>
     (\<not> resetting (dpc s') \<Longrightarrow> \<not> resetting (dpc s) \<and> offset s' = offset s) \<Longrightarrow> follows cap s' L"
  by (auto simp: follows_def case_prod_beta Let_def)

lemma Write_writers: "\<not> sealed b \<Longrightarrow> frame_ok d \<Longrightarrow>
    offset (snd (Write d b)) = offset b + (4 + length d) \<and> writers (snd (Write d b)) = writers b"
  by (auto simp: Write_def Let_def frame_ok_def)

lemma Write_keeps_sealed: "sealed (snd (Write d b)) = sealed b"
  by (simp add: Write_def Let_def)

text \<open>One more call before the \<open>Seal\<close>: a reservation, or a refusal for the length.\<close>

lemma follows_call:
  assumes f: "follows cap s L" and d: "\<not> resetting (dpc s)" "dpc s' = dpc s" "Capacity s' = Capacity s"
    and r: "r \<longleftrightarrow> frame_ok d \<and> offset s + 4 + length d \<le> cap"
    and off: "offset s' = offset s + (if frame_ok d then 4 + length d else 0)"
    and h: "slot_data (hist s') = slot_data (hist s) @ (if r then [(t, d)] else [])"
  shows "follows cap s' (L @ [(t, d, r)])"
proof -
  obtain b where b: "write_each (map payload L) (MmapBuffer cap []) = (map result L, b)"
    "offset b = offset s" "\<not> sealed b" "writers b = 0" "Capacity b = cap" "holds b (map snd (taken L))"
    using f d(1) by (rule followsD)
  have w: "fst (Write d b) = r" and w': "holds (snd (Write d b)) (map snd (taken L) @ (if r then [d] else []))"
    using Write_cases [OF b(6), of d] b(2,3,5) r by (auto split: if_splits)
  have "offset (snd (Write d b)) = offset s' \<and> writers (snd (Write d b)) = 0"
    using Write_writers [OF b(3), of d] b(2,4) off by (auto simp: Write_invalid)
  then show ?thesis
    using f d h b w w' by (auto simp: follows_def write_each_snoc Write_keeps_sealed)
qed

lemma slot_room:
  assumes "cinv s" and "pc_slot (pcs s t) = Some (st, o1, d)"
  shows "o1 + 4 + length d \<le> Capacity s"
proof -
  let ?h = "hist s"
  obtain i where i: "i < length ?h" "?h ! i = (t, st, d)" "o1 = slot_off ?h i"
    using slots_okD1 [OF cinvD(2) [OF assms(1)] assms(2)] by auto
  have "slot_off ?h (length ?h) \<le> Capacity s" using cinvD(3) [OF assms(1)] by (simp add: mem_ok_def)
  with slot_off_less [of i "length ?h" ?h] i show ?thesis by simp
qed

text \<open>A step of the concurrent buffer is one call of the sequential one, or none.\<close>

lemma follows_step:
  assumes inv: "cinv s" and q: "quiet a s" and ex: "cexec a s = Some s'" and f: "follows cap s (fst LR)"
  shows "follows cap s' (fst (order_step a s s' LR))"
proof (cases a)
  case (Call t d)
  have nr: "\<not> resetting (dpc s)" using q Call by (simp add: quiet_def)
  show ?thesis
  proof (cases "frame_ok d")
    case True
    then have "s' = set_pc t (WEntered d) (s\<lparr>writers := writers s + 1\<rparr>)"
      using ex Call by (auto simp: frame_ok_def split: if_splits)
    with f Call show ?thesis by (auto simp: order_step_def Capacity_def intro: follows_keep)
  next
    case False
    then have s': "s' = set_pc t (WDone False) s"
      using ex Call by (auto simp: frame_ok_def split: if_splits)
    have "follows cap s' (fst LR)" using f s' by (auto intro: follows_keep)
    moreover have "follows cap s' (fst LR @ [(t, d, False)])"
      by (rule follows_call [OF f nr]) (use s' False in auto)
    ultimately show ?thesis using Call s' by (simp add: order_step_def)
  qed
next
  case (CheckSealed t)
  then obtain d where "pcs s t = WEntered d" using ex by (auto split: wpc.splits)
  with f ex CheckSealed show ?thesis by (auto simp: order_step_def intro: follows_keep)
next
  case (FetchAdd t)
  then obtain d where pc: "pcs s t = WOpen d" using ex by (auto split: wpc.splits)
  have fr: "frame_ok d" using cinvD(3) [OF inv] pc by (auto simp: mem_ok_def)
  have nr: "\<not> resetting (dpc s)" using admitted_dpc [OF inv, of t] pc by (auto simp: resetting_def)
  have cap: "Capacity s = cap" using f by (simp add: follows_def)
  have "follows cap s' (fst LR @ [(t, d, offset s + 4 + length d \<le> cap)])"
    by (rule follows_call [OF f nr]) (use ex FetchAdd pc fr cap in \<open>auto simp: Let_def Capacity_def split: if_splits\<close>)
  moreover have "pcs s' t \<noteq> WBail \<longleftrightarrow> offset s + 4 + length d \<le> cap"
    using ex FetchAdd pc cap by (auto simp: Let_def split: if_splits)
  ultimately show ?thesis using FetchAdd pc by (simp add: order_step_def)
next
  case (PutLen t)
  then obtain o1 d where pc: "pcs s t = WSlot o1 d" using ex by (auto split: wpc.splits)
  have "o1 + 4 \<le> length (mem s)"
    using slot_room [OF inv, of t Fresh o1 d] pc by (simp add: Capacity_def)
  with f ex PutLen pc show ?thesis
    by (auto simp: order_step_def WriteU32LE_eq Capacity_def intro!: follows_keep [OF f])
next
  case (PutData t)
  then obtain o1 d where pc: "pcs s t = WHeader o1 d" using ex by (auto split: wpc.splits)
  have "o1 + 4 + length d \<le> length (mem s)"
    using slot_room [OF inv, of t Hdr o1 d] pc by (simp add: Capacity_def)
  with f ex PutData pc show ?thesis
    by (auto simp: order_step_def Capacity_def intro!: follows_keep [OF f])
next
  case (Leave t)
  with f ex show ?thesis
    by (auto simp: order_step_def Capacity_def split: wpc.splits intro!: follows_keep [OF f])
next
  case ResetZero
  then obtain u where dp: "dpc s = DReset2 u"
    and s': "s' = s\<lparr>mem := mem_write (mem s) 0 (replicate u 0), dpc := DIdle, hist := [], rets := []\<rparr>"
    using ex by (auto split: dpc.splits)
  have "u \<le> length (mem s)" "offset s = 0"
    using cinvD(4) [OF inv] dp by (auto simp: offset_ok_def Capacity_def)
  then have "Capacity s' = cap" "offset s' = 0"
    using f s' by (simp_all add: follows_def Capacity_def)
  moreover have "holds (MmapBuffer cap []) []" by (rule holds_new) simp
  ultimately show ?thesis
    using ResetZero s' by (auto simp: order_step_def follows_def) (simp_all add: MmapBuffer_def Capacity_def)
qed (use f ex in \<open>auto simp: order_step_def resetting_def Capacity_def split: if_splits dpc.splits
     intro!: follows_keep [OF f]\<close>)

lemma follows_run:
  "run_acts qexec as s = Some s' \<Longrightarrow> cinv s \<Longrightarrow> follows cap s (fst LR) \<Longrightarrow>
     cinv s' \<and> follows cap s' (fst (call_order as s LR))"
proof (induction as arbitrary: s LR)
  case (Cons a as)
  then obtain s1 where q: "qexec a s = Some s1" and run: "run_acts qexec as s1 = Some s'"
    by (auto split: option.splits)
  then have "quiet a s" "cexec a s = Some s1" by (auto simp: qexec_def split: if_splits)
  with Cons.prems have "cinv s1" "follows cap s1 (fst (order_step a s s1 LR))"
    by (blast intro: cinv_step follows_step)+
  with Cons.IH [OF run] q show ?case by simp
qed simp

lemma follows_init: "follows cap (cbuf_init cap) []"
proof -
  have "holds (MmapBuffer cap []) []" by (rule holds_new) simp
  then show ?thesis by (simp add: follows_def cbuf_init_def MmapBuffer_def Capacity_def)
qed

text \<open>The calls put after the \<open>Seal\<close> were all going to return false.\<close>

lemma after_seal_false:
  "\<forall>c\<in>set (snd LR). \<not> result c \<Longrightarrow> \<forall>c\<in>set (snd (call_order as s LR)). \<not> result c"
proof (induction as arbitrary: s LR)
  case (Cons a as)
  then have "\<forall>c\<in>set (snd (order_step a s s1 LR)). \<not> result c" for s1
    by (auto simp: order_step_def split: cact.splits wpc.splits)
  then have "\<forall>c\<in>set (snd (call_order as s1 (order_step a s s1 LR))). \<not> result c" for s1
    by (rule Cons.IH)
  with Cons.prems show ?case by (simp split: option.splits)
qed simp

lemma slot_data_acked:
  "(\<And>x. x \<in> set h \<Longrightarrow> fst (snd x) = Acked) \<Longrightarrow> acked h = slot_data h \<and> concat (map render h) = layout (map snd (slot_data h))"
proof (induction h)
  case (Cons x h)
  obtain t st d where x: "x = (t, st, d)" by (cases x)
  with Cons.prems [of x] have "st = Acked" by simp
  with Cons x show ?case by (auto simp: slot_data_def render_def)
qed (simp add: slot_data_def)

section \<open>The property\<close>

text \<open>
  C4. Concurrent calls of \<open>Write\<close> are as good as atomic. In every interleaving of writers,
  \<open>Seal\<close> and drain (writers keeping out of \<open>ResetForReuse\<close>), when \<open>Seal\<close> has returned, the calls
  of the cycle can be put in one order, by their \<open>fetch_add\<close>, in which the sequential \<open>Write\<close>,
  \<open>Seal\<close>, and \<open>Write\<close> again for the latecomers, give each call the result it has, and leave
  exactly the bytes, the offset and the flag the concurrent buffer has; the calls that
  returned true are those the order says, for each thread in its own order.
\<close>

theorem concurrent_writes_linearize:
  assumes run: "run_acts qexec as (cbuf_init cap) = Some s" and drained: "dpc s = DSealed"
  defines "before \<equiv> fst (call_order as (cbuf_init cap) ([], []))"
    and "after \<equiv> snd (call_order as (cbuf_init cap) ([], []))"
  shows "\<exists>b. write_each (map payload before) (MmapBuffer cap []) = (map result before, b)
    \<and> write_each (map payload after) (Seal b) = (map result after, Seal b)
    \<and> (buffer.truncate s)\<lparr>writers := 0\<rparr> = Seal b
    \<and> mset (rets s) = mset (taken before)
    \<and> (\<forall>t. filter (\<lambda>x. fst x = t) (rets s) = filter (\<lambda>x. fst x = t) (taken before))"
proof -
  have "cinv s \<and> follows cap s before"
    unfolding before_def by (rule follows_run [OF run cinv_init]) (simp add: follows_init)
  then have inv: "cinv s" and f: "follows cap s before" by blast+
  have nr: "\<not> resetting (dpc s)" using drained by (simp add: resetting_def)
  obtain b where b: "write_each (map payload before) (MmapBuffer cap []) = (map result before, b)"
    "offset b = offset s" "\<not> sealed b" "writers b = 0" "Capacity b = cap" "holds b (map snd (taken before))"
    using f nr by (rule followsD)
  have "\<not> admitted (pcs s t)" for t using cinvD(5) [OF inv] drained by (simp add: seal_ok_def)
  from slot_data_acked [OF all_acked [OF cinvD(2) [OF inv] this]]
  have ack: "acked (hist s) = taken before" "concat (map render (hist s)) = layout (map snd (taken before))"
    using f by (auto simp: follows_def)
  have cap: "Capacity s = cap" using f by (simp add: follows_def)
  have "slot_off (hist s) (length (hist s)) = frames_size (map snd (taken before))"
    using ack(2) length_renders [of "hist s"] by simp
  then have "mem s = mem b"
    using cinvD(3) [OF inv] b(5,6) ack(2) cap by (simp add: mem_ok_def holds_def)
  moreover have "sealed s" using cinvD(5) [OF inv] drained by (simp add: seal_ok_def)
  ultimately have "(buffer.truncate s)\<lparr>writers := 0\<rparr> = Seal b"
    using b(2,4) by (simp add: buffer.truncate_def Seal_def)
  moreover have "write_each (map payload after) (Seal b) = (map result after, Seal b)"
  proof -
    have "\<forall>c\<in>set after. \<not> result c" unfolding after_def by (rule after_seal_false) simp
    then have "map result after = replicate (length after) False"
      by (induction after) simp_all
    then show ?thesis by (simp add: write_each_sealed Seal_def)
  qed
  moreover have "filter (\<lambda>x. fst x = t) (rets s) = filter (\<lambda>x. fst x = t) (taken before)" for t
    using reachable_fifo [of cap s] run_acts_steps [OF run] ack(1) by (simp add: fifo_ok_def qstep_def)
  ultimately show ?thesis using b(1) cinvD(6) [OF inv] ack(1) by (intro exI [of _ b]) simp
qed

text \<open>
  Thread 1 calls first and returns first, but thread 2 has reserved before it; thread 4 does not
  fit; thread 3 comes after \<open>sealed_\<close> has been set and is refused while thread 2 is still copying.
\<close>

definition late_run :: "cact list" where
  "late_run = [Call 1 [10], Call 2 [20, 21], CheckSealed 2, CheckSealed 1, FetchAdd 2, FetchAdd 1,
     PutLen 1, PutData 1, Leave 1, Call 4 [40, 41, 42], CheckSealed 4, SealSet, FetchAdd 4, Leave 4,
     Call 3 [30], CheckSealed 3, PutLen 2, Leave 3, PutData 2, Leave 2, SealWait]"

theorem concurrent_writes_linearize_witness:
  "\<exists>s b. run_acts qexec late_run (cbuf_init 16) = Some s
     \<and> call_order late_run (cbuf_init 16) ([], []) =
         ([(2, [20, 21], True), (1, [10], True), (4, [40, 41, 42], False)], [(3, [30], False)])
     \<and> write_each [[20, 21], [10], [40, 41, 42]] (MmapBuffer 16 []) = ([True, True, False], b)
     \<and> write_each [[30]] (Seal b) = ([False], Seal b)
     \<and> (buffer.truncate s)\<lparr>writers := 0\<rparr> = Seal b \<and> mset (rets s) = {#(1, [10]), (2, [20, 21])#}"
proof -
  define s where "s = the (run_acts qexec late_run (cbuf_init 16))"
  have run: "run_acts qexec late_run (cbuf_init 16) = Some s \<and> dpc s = DSealed \<and> rets s = [(1, [10]), (2, [20, 21])]"
    unfolding s_def
    by (simp add: late_run_def qexec_def quiet_def cbuf_init_def can_call_def set_pc_def
        Capacity_def Let_def resetting_def WriteU32LE_eq)
  have order: "call_order late_run (cbuf_init 16) ([], []) =
      ([(2, [20, 21], True), (1, [10], True), (4, [40, 41, 42], False)], [(3, [30], False)])"
    by (simp add: late_run_def qexec_def quiet_def cbuf_init_def can_call_def set_pc_def
        Capacity_def Let_def resetting_def WriteU32LE_eq order_step_def)
  have "run_acts qexec late_run (cbuf_init 16) = Some s" "dpc s = DSealed" using run by blast+
  from concurrent_writes_linearize [OF this] order run show ?thesis by auto
qed

end
