(* ===== verification/Strand.thy ===== *)
theory Strand
  imports Logger_Prelude
begin

text \<open>
  \<open>context/strand.h\<close> and \<open>.cpp\<close>: the serial executor on top of the thread pool, as atomic steps of the
  threads that call \<open>Enqueue_\<close> and of the pool threads that run \<open>Drain_\<close>. Each activation of \<open>Drain_\<close>
  has its own number, so that two activations at once would be representable; shown is that there never
  are two, that tasks start in the order of their submission, and that none is forgotten.
\<close>

section \<open>State\<close>

text \<open>
  An activation of \<open>Drain_\<close>: not started, at the top of its loop, running a task, returned.
\<close>

datatype activation = Pending | AtTop | InTask nat | Returned

text \<open>
  \<open>posting\<close> holds the callers that have set \<open>running_\<close> and not yet posted; \<open>activations\<close> lists the
  \<open>Drain_\<close> tasks ever posted to the pool, in order. History no step reads: \<open>strand_submitted\<close>, \<open>began\<close>.
\<close>

record strand =
  squeue :: "nat list"
  srunning :: bool
  posting :: "nat list"
  activations :: "activation list"
  strand_submitted :: "nat list"
  began :: "nat list"

definition strand_init :: strand where
  "strand_init = \<lparr>squeue = [], srunning = False, posting = [], activations = [],
     strand_submitted = [], began = []\<rparr>"

section \<open>Steps\<close>

datatype tact =
    SEnqueue nat nat
  | SPost nat
  | SRun nat
  | SNext nat
  | SFinish nat

fun texec :: "tact \<Rightarrow> strand \<Rightarrow> strand option" where
  "texec (SEnqueue c t) s =
     (if c \<in> set (posting s) then None
      else
        let s1 = s\<lparr>squeue := squeue s @ [t], strand_submitted := strand_submitted s @ [t]\<rparr>
        in if srunning s then Some s1
           else Some (s1\<lparr>srunning := True, posting := c # posting s\<rparr>))"
| "texec (SPost c) s =
     (if c \<in> set (posting s)
      then Some (s\<lparr>posting := remove1 c (posting s), activations := activations s @ [Pending]\<rparr>)
      else None)"
| "texec (SRun k) s =
     (if k < length (activations s) \<and> activations s ! k = Pending
      then Some (s\<lparr>activations := (activations s)[k := AtTop]\<rparr>) else None)"
| "texec (SNext k) s =
     (if k < length (activations s) \<and> activations s ! k = AtTop then
        (case squeue s of
           [] \<Rightarrow> Some (s\<lparr>srunning := False, activations := (activations s)[k := Returned]\<rparr>)
         | t # ts \<Rightarrow>
             Some (s\<lparr>squeue := ts, began := began s @ [t], activations := (activations s)[k := InTask t]\<rparr>))
      else None)"
| "texec (SFinish k) s =
     (if k < length (activations s) then
        (case activations s ! k of
           InTask t \<Rightarrow> Some (s\<lparr>activations := (activations s)[k := AtTop]\<rparr>)
         | _ \<Rightarrow> None)
      else None)"

definition strand_step :: "strand \<Rightarrow> strand \<Rightarrow> bool" where
  "strand_step = acts_step texec"

section \<open>The invariant\<close>

definition unreturned :: "strand \<Rightarrow> activation list" where
  "unreturned s = filter (\<lambda>a. a \<noteq> Returned) (activations s)"

definition strand_inv :: "strand \<Rightarrow> bool" where
  "strand_inv s \<longleftrightarrow>
     length (posting s) + length (unreturned s) = (if srunning s then 1 else 0)
     \<and> strand_submitted s = began s @ squeue s
     \<and> (squeue s \<noteq> [] \<longrightarrow> srunning s)"

lemma unreturned_update:
  "k < length as \<Longrightarrow>
     length (filter (\<lambda>a. a \<noteq> Returned) (as[k := x])) + (if as ! k \<noteq> Returned then 1 else 0) =
      length (filter (\<lambda>a. a \<noteq> Returned) as) + (if x \<noteq> Returned then 1 else 0)"
proof (induction as arbitrary: k)
  case (Cons a as)
  show ?case
  proof (cases k)
    case (Suc j)
    with Cons.IH [of j] Cons.prems show ?thesis by (simp split: if_splits)
  qed simp
qed simp

lemma strand_inv_step:
  assumes ex: "texec a s = Some s'" and inv: "strand_inv s"
  shows "strand_inv s'"
proof (cases a)
  case (SEnqueue c t)
  define s1 where "s1 = s\<lparr>squeue := squeue s @ [t], strand_submitted := strand_submitted s @ [t]\<rparr>"
  show ?thesis
  proof (cases "srunning s")
    case True
    with ex SEnqueue have "s' = s1" by (simp add: Let_def s1_def split: if_splits)
    with inv True show ?thesis by (simp add: strand_inv_def unreturned_def s1_def)
  next
    case False
    with ex SEnqueue have "s' = s1\<lparr>srunning := True, posting := c # posting s\<rparr>"
      by (simp add: Let_def s1_def split: if_splits)
    with inv False show ?thesis by (simp add: strand_inv_def unreturned_def s1_def)
  qed
next
  case (SPost c)
  then have c: "c \<in> set (posting s)" using ex by (simp split: if_splits)
  with SPost ex have s': "s' = s\<lparr>posting := remove1 c (posting s), activations := activations s @ [Pending]\<rparr>"
    by simp
  have "length (posting s) = Suc (length (remove1 c (posting s)))"
    using c length_pos_if_in_set [OF c] by (simp add: length_remove1)
  with inv s' show ?thesis by (simp add: strand_inv_def unreturned_def)
next
  case (SRun k)
  with ex inv unreturned_update [of k "activations s" AtTop] show ?thesis
    by (auto simp: strand_inv_def unreturned_def split: if_splits)
next
  case (SNext k)
  then have k: "k < length (activations s)" "activations s ! k = AtTop" using ex by (auto split: if_splits)
  show ?thesis
  proof (cases "squeue s")
    case Nil
    with ex SNext k have s': "s' = s\<lparr>srunning := False, activations := (activations s)[k := Returned]\<rparr>" by simp
    have "length (unreturned s) = Suc (length (unreturned s'))"
      using k unreturned_update [of k "activations s" Returned] by (simp add: unreturned_def s')
    then have "length (posting s) + length (unreturned s') = 0"
      using inv by (simp add: strand_inv_def split: if_splits)
    then show ?thesis using inv Nil s' by (simp add: strand_inv_def)
  next
    case (Cons t ts)
    with ex SNext k have "s' = s\<lparr>squeue := ts, began := began s @ [t], activations := (activations s)[k := InTask t]\<rparr>"
      by simp
    with inv Cons k unreturned_update [of k "activations s" "InTask t"] show ?thesis
      by (auto simp: strand_inv_def unreturned_def split: if_splits)
  qed
next
  case (SFinish k)
  with ex inv unreturned_update [of k "activations s" AtTop] show ?thesis
    by (auto simp: strand_inv_def unreturned_def split: if_splits activation.splits)
qed

lemma strand_inv_init: "strand_inv strand_init"
  by (simp add: strand_inv_def strand_init_def unreturned_def)

interpretation sd: invariant_system "\<lambda>s. s = strand_init" strand_step strand_inv
  by unfold_locales (auto simp: strand_step_def acts_step_def strand_inv_init strand_inv_step)

lemma reachable_strand: "strand_step\<^sup>*\<^sup>* strand_init s \<Longrightarrow> strand_inv s"
  using sd.reachable_inv by blast

section \<open>Properties\<close>

lemma two_unreturned:
  assumes "i < length as" and "j < length as" and "i < j" and "as ! i \<noteq> Returned" and "as ! j \<noteq> Returned"
  shows "2 \<le> length (filter (\<lambda>a. a \<noteq> Returned) as)"
proof -
  have "{i, j} \<subseteq> {k. k < length as \<and> as ! k \<noteq> Returned}" using assms by auto
  then have "card {i, j} \<le> card {k. k < length as \<and> as ! k \<noteq> Returned}"
    by (intro card_mono) auto
  with assms(3) show ?thesis by (simp add: length_filter_conv_card)
qed

text \<open>
  C11. A strand is serial, first come first served, and never asleep on work: in every interleaving at most one
  activation of \<open>Drain_\<close> has not returned, so no two tasks run at the same time; the tasks that have begun are
  a prefix of the submitted ones, in order; and while a task waits an activation is posted, about to be, or running.
\<close>

theorem strand_serial_fifo:
  assumes "strand_step\<^sup>*\<^sup>* strand_init s"
  shows "(\<nexists>i j. i < j \<and> j < length (activations s) \<and> activations s ! i \<noteq> Returned \<and> activations s ! j \<noteq> Returned)
    \<and> strand_submitted s = began s @ squeue s
    \<and> (squeue s = [] \<or> posting s \<noteq> [] \<or> unreturned s \<noteq> [])"
proof -
  have inv: "strand_inv s" using assms by (rule reachable_strand)
  then have "length (unreturned s) \<le> 1" by (auto simp: strand_inv_def split: if_splits)
  then have "\<nexists>i j. i < j \<and> j < length (activations s) \<and> activations s ! i \<noteq> Returned \<and> activations s ! j \<noteq> Returned"
    using two_unreturned [of _ "activations s"] by (force simp: unreturned_def)
  moreover have "squeue s = [] \<or> posting s \<noteq> [] \<or> unreturned s \<noteq> []"
    using inv by (auto simp: strand_inv_def)
  ultimately show ?thesis using inv by (simp add: strand_inv_def)
qed

definition strand_run :: "tact list" where
  "strand_run = [SEnqueue 1 10, SEnqueue 2 20, SPost 1, SRun 0, SNext 0, SEnqueue 1 30, SFinish 0, SNext 0]"

theorem strand_serial_fifo_witness:
  "\<exists>s. run_acts texec strand_run strand_init = Some s \<and> began s = [10, 20] \<and> squeue s = [30]
     \<and> (\<nexists>i j. i < j \<and> j < length (activations s) \<and> activations s ! i \<noteq> Returned \<and> activations s ! j \<noteq> Returned)
     \<and> strand_submitted s = began s @ squeue s
     \<and> (squeue s = [] \<or> posting s \<noteq> [] \<or> unreturned s \<noteq> [])"
proof -
  define s where "s = the (run_acts texec strand_run strand_init)"
  have run: "run_acts texec strand_run strand_init = Some s \<and> began s = [10, 20] \<and> squeue s = [30]"
    unfolding s_def by (simp add: strand_run_def strand_init_def Let_def)
  then have "strand_step\<^sup>*\<^sup>* strand_init s" unfolding strand_step_def by (elim conjE) (rule run_acts_steps)
  with strand_serial_fifo [of s] run show ?thesis by blast
qed

text \<open>The steps still to be made when nothing is submitted any more.\<close>

fun act_work :: "activation \<Rightarrow> nat" where
  "act_work Pending = 2"
| "act_work AtTop = 1"
| "act_work (InTask t) = 2"
| "act_work Returned = 0"

definition strand_work :: "strand \<Rightarrow> nat" where
  "strand_work s = 2 * length (squeue s) + 3 * length (posting s) + sum_list (map act_work (activations s))"

fun submits :: "tact \<Rightarrow> bool" where
  "submits (SEnqueue c t) = True"
| "submits a = False"

lemma work_update:
  "k < length as \<Longrightarrow> sum_list (map act_work (as[k := x])) + act_work (as ! k) = sum_list (map act_work as) + act_work x"
proof (induction as arbitrary: k)
  case (Cons a as)
  then show ?case by (cases k) auto
qed simp

lemma strand_moves:
  assumes inv: "strand_inv s" and busy: "squeue s \<noteq> [] \<or> posting s \<noteq> [] \<or> unreturned s \<noteq> []"
  shows "\<exists>a s'. \<not> submits a \<and> texec a s = Some s' \<and> strand_work s' < strand_work s
    \<and> strand_submitted s' = strand_submitted s"
proof (cases "posting s")
  case (Cons c cs)
  then have "texec (SPost c) s = Some (s\<lparr>posting := cs, activations := activations s @ [Pending]\<rparr>)" by simp
  then show ?thesis using Cons by (intro exI [of _ "SPost c"] exI) (auto simp: strand_work_def)
next
  case Nil
  with busy inv have "unreturned s \<noteq> []" by (auto simp: strand_inv_def)
  then obtain k where k: "k < length (activations s)" "activations s ! k \<noteq> Returned"
    by (auto simp: unreturned_def filter_empty_conv in_set_conv_nth)
  note w = work_update [OF k(1)]
  show ?thesis
  proof (cases "activations s ! k")
    case Pending
    then have "texec (SRun k) s = Some (s\<lparr>activations := (activations s)[k := AtTop]\<rparr>)" using k by simp
    then show ?thesis using w [of AtTop] Pending
      by (intro exI [of _ "SRun k"] exI) (auto simp: strand_work_def)
  next
    case (InTask t)
    then have "texec (SFinish k) s = Some (s\<lparr>activations := (activations s)[k := AtTop]\<rparr>)" using k by simp
    then show ?thesis using w [of AtTop] InTask
      by (intro exI [of _ "SFinish k"] exI) (auto simp: strand_work_def)
  next
    case AtTop
    show ?thesis
    proof (cases "squeue s")
      case Nil
      then have "texec (SNext k) s = Some (s\<lparr>srunning := False, activations := (activations s)[k := Returned]\<rparr>)"
        using k AtTop by simp
      then show ?thesis using w [of Returned] AtTop
        by (intro exI [of _ "SNext k"] exI) (auto simp: strand_work_def)
    next
      case (Cons t ts)
      then have "texec (SNext k) s = Some (s\<lparr>squeue := ts, began := began s @ [t],
          activations := (activations s)[k := InTask t]\<rparr>)" using k AtTop by simp
      then show ?thesis using w [of "InTask t"] AtTop Cons
        by (intro exI [of _ "SNext k"] exI) (auto simp: strand_work_def)
    qed
  qed (use k in simp)
qed

text \<open>
  A strand finishes what it is given: from any reachable state, without further submissions, a bounded number of
  steps (two per waiting task and at most three for each post or activation) leads to a state in which every
  submitted task has begun, in order, and no activation is left.
\<close>

theorem strand_finishes_work:
  assumes "strand_step\<^sup>*\<^sup>* strand_init s"
  shows "\<exists>as s'. run_acts texec as s = Some s' \<and> length as \<le> strand_work s \<and> (\<forall>a\<in>set as. \<not> submits a)
    \<and> began s' = strand_submitted s \<and> posting s' = [] \<and> unreturned s' = []"
proof -
  have "strand_inv s" using assms by (rule reachable_strand)
  then show ?thesis
  proof (induction "strand_work s" arbitrary: s rule: less_induct)
    case less
    show ?case
    proof (cases "squeue s \<noteq> [] \<or> posting s \<noteq> [] \<or> unreturned s \<noteq> []")
      case False
      with less.prems show ?thesis
        by (intro exI [of _ "[]"] exI [of _ s]) (simp add: strand_inv_def)
    next
      case True
      from strand_moves [OF less.prems this] obtain a s1 where a: "\<not> submits a" "texec a s = Some s1"
        "strand_work s1 < strand_work s" "strand_submitted s1 = strand_submitted s" by blast
      from less.hyps [OF a(3) strand_inv_step [OF a(2) less.prems]] obtain as s' where
        "run_acts texec as s1 = Some s'" "length as \<le> strand_work s1" "\<forall>a\<in>set as. \<not> submits a"
        "began s' = strand_submitted s1" "posting s' = []" "unreturned s' = []" by blast
      with a show ?thesis by (intro exI [of _ "a # as"] exI [of _ s']) auto
    qed
  qed
qed

theorem strand_finishes_work_witness:
  "\<exists>s. run_acts texec strand_run strand_init = Some s \<and> strand_submitted s = [10, 20, 30]
     \<and> (\<exists>as s'. run_acts texec as s = Some s' \<and> length as \<le> strand_work s \<and> (\<forall>a\<in>set as. \<not> submits a)
          \<and> began s' = [10, 20, 30] \<and> posting s' = [] \<and> unreturned s' = [])"
proof -
  define s where "s = the (run_acts texec strand_run strand_init)"
  have run: "run_acts texec strand_run strand_init = Some s \<and> strand_submitted s = [10, 20, 30]"
    unfolding s_def by (simp add: strand_run_def strand_init_def Let_def)
  then have "strand_step\<^sup>*\<^sup>* strand_init s" unfolding strand_step_def by (elim conjE) (rule run_acts_steps)
  with strand_finishes_work [of s] run show ?thesis by auto
qed

end
