(* ===== verification/Store_On_Strand.thy ===== *)
theory Store_On_Strand
  imports Mmap_Store Strand
begin

text \<open>
  The store and its strand. \<open>Mmap_Store\<close> carries the strand's queue and flag in its own state, so that
  one step of the strand is one step of the store; here every run of the store is shown to be a run of
  the model of \<open>context/strand.cpp\<close>, whose tasks are the calls of \<open>DrainOne_\<close>, named by their buffer.
\<close>

section \<open>The simulation relation\<close>

text \<open>
  The activation that has not returned is at the top of its loop when no drain runs, and inside the
  task of the buffer that the drain owns when one does. The pool takes every posted activation at once:
  a store in which it waits longer differs only in the times of its steps.
\<close>

definition activation_fits :: "drain \<Rightarrow> activation \<Rightarrow> bool" where
  "activation_fits k x \<longleftrightarrow>
     (case x of AtTop \<Rightarrow> k = DNone | InTask b \<Rightarrow> k \<noteq> DNone \<and> set (owned k) \<subseteq> {b} | _ \<Rightarrow> False)"

definition on_strand :: "store \<Rightarrow> strand \<Rightarrow> bool" where
  "on_strand s st \<longleftrightarrow>
     squeue st = queue s \<and> srunning st = running s \<and> posting st = []
     \<and> (if running s then \<exists>k<length (activations st). activation_fits (task s) (activations st ! k)
        else task s = DNone)"

section \<open>What a step of the store does to its strand\<close>

text \<open>Five kinds of step: the strand is not touched, a drain is posted, the strand goes idle, it takes the next
  drain, or a drain ends.\<close>

definition strand_view :: "store \<Rightarrow> store \<Rightarrow> bool" where
  "strand_view s s' \<longleftrightarrow>
     queue s' = queue s \<and> running s' = running s \<and> (task s' = DNone \<longleftrightarrow> task s = DNone)
     \<and> set (owned (task s')) \<subseteq> set (owned (task s))"

definition strand_posts :: "store \<Rightarrow> store \<Rightarrow> bool" where
  "strand_posts s s' \<longleftrightarrow> queue s' = queue s @ [master s] \<and> running s' \<and> task s' = task s"

lemma acquire_view:
  assumes "AcquireFreeBufferLocked s = (r, s1)"
  shows "queue s1 = queue s \<and> running s1 = running s \<and> task s1 = task s \<and> master s1 = master s"
  using assms by (auto simp: AcquireFreeBufferLocked_def split: list.splits if_splits sum.splits)

lemma acquire_wait_view:
  assumes "AcquireAfterWait s = (r, s1)"
  shows "queue s1 = queue s \<and> running s1 = running s \<and> task s1 = task s \<and> master s1 = master s"
  using assms by (auto simp: AcquireAfterWait_def split: list.splits if_splits)

lemma swap_view:
  assumes "queue s1 = queue s \<and> running s1 = running s \<and> task s1 = task s \<and> master s1 = master s"
  shows "strand_view s (swap_append t d (r, s1)) \<or> strand_posts s (swap_append t d (r, s1))"
    and "strand_view s (swap_flush t dt n (r, s1)) \<or> strand_posts s (swap_flush t dt n (r, s1))"
  using assms
  by (cases r; simp add: swap_append_def swap_flush_def SwapMasterLocked_def strand_view_def strand_posts_def)+

lemma lock_view:
  "strand_view s (swap_append t d (AcquireFreeBufferLocked s)) \<or> strand_posts s (swap_append t d (AcquireFreeBufferLocked s))"
  "strand_view s (swap_append t d (AcquireAfterWait s)) \<or> strand_posts s (swap_append t d (AcquireAfterWait s))"
  "strand_view s (swap_flush t dt n (AcquireFreeBufferLocked s)) \<or> strand_posts s (swap_flush t dt n (AcquireFreeBufferLocked s))"
  "strand_view s (swap_flush t dt n (AcquireAfterWait s)) \<or> strand_posts s (swap_flush t dt n (AcquireAfterWait s))"
  using swap_view [OF acquire_view] swap_view [OF acquire_wait_view] by (metis surj_pair)+

lemma strand_view_refl [simp]: "strand_view s s" "strand_view s (set_spc t p s)"
  by (simp_all add: strand_view_def)

lemma flush_exit_view [simp]: "strand_view s (flush_exit t dt n s)"
  by (simp add: flush_exit_def)

definition strand_idles :: "store \<Rightarrow> store \<Rightarrow> bool" where
  "strand_idles s s' \<longleftrightarrow> running s \<and> queue s = [] \<and> task s = DNone
     \<and> queue s' = [] \<and> \<not> running s' \<and> task s' = DNone"

definition strand_takes :: "store \<Rightarrow> store \<Rightarrow> bool" where
  "strand_takes s s' \<longleftrightarrow> running s \<and> running s' \<and> task s = DNone
     \<and> (\<exists>b. queue s = b # queue s' \<and> task s' = DSeal b)"

definition strand_ends :: "store \<Rightarrow> store \<Rightarrow> bool" where
  "strand_ends s s' \<longleftrightarrow> queue s' = queue s \<and> running s' = running s \<and> task s \<noteq> DNone \<and> task s' = DNone"

lemmas view_defs = strand_view_def strand_posts_def strand_idles_def strand_takes_def strand_ends_def

definition strand_kinds :: "store \<Rightarrow> store \<Rightarrow> bool" where
  "strand_kinds s s' \<longleftrightarrow> strand_view s s' \<or> strand_posts s s' \<or> strand_idles s s' \<or> strand_takes s s' \<or> strand_ends s s'"

lemma kinds_lock [intro]:
  "strand_kinds s (swap_append t d (AcquireFreeBufferLocked s))"
  "strand_kinds s (swap_append t d (AcquireAfterWait s))"
  "strand_kinds s (swap_flush t dt n (AcquireFreeBufferLocked s))"
  "strand_kinds s (swap_flush t dt n (AcquireAfterWait s))"
  "strand_kinds s (set_spc t p s)" "strand_kinds s (flush_exit t dt n s)"
  using lock_view(1) [of s t d] lock_view(2) [of s t d] lock_view(3,4) [of s t dt n]
  unfolding strand_kinds_def by (blast, blast, blast, blast, simp_all)

lemma kinds_view [intro]:
  assumes "queue s' = queue s" and "running s' = running s" and "task s' = task s"
  shows "strand_kinds s s'"
  using assms by (simp add: strand_kinds_def strand_view_def)

lemmas drain_view = strand_kinds_def view_defs locked_Some

lemma step_strand:
  assumes "sexec a s = Some s'"
  shows "strand_kinds s s'"
proof (cases a)
  case StrandNext
  with assms show ?thesis by (auto simp: drain_view split: list.splits if_splits)
next
  case (DrainFrame ok)
  with assms show ?thesis by (auto simp: drain_view split: drain.splits list.splits)
next
  case DrainDec
  with assms show ?thesis by (auto simp: drain_view split: if_splits)
next
  case DrainNotify
  with assms show ?thesis by (auto simp: drain_view split: if_splits)
next
  case DrainSeal
  with assms show ?thesis by (auto simp: drain_view split: drain.splits)
next
  case DrainSync
  with assms show ?thesis by (auto simp: drain_view split: drain.splits)
next
  case DrainReset
  with assms show ?thesis by (auto simp: drain_view split: drain.splits)
next
  case DrainPush
  with assms show ?thesis by (auto simp: drain_view split: drain.splits)
qed (use assms in \<open>(auto intro: kinds_view simp: locked_Some Let_def set_spc_def split: spc.splits prod.splits if_splits)[1]\<close>)+

section \<open>Every run of the store is a run of the strand\<close>

lemma activation_fits_cases:
  assumes "activation_fits k x"
  obtains "x = AtTop" "k = DNone" | b where "x = InTask b" "k \<noteq> DNone" "set (owned k) \<subseteq> {b}"
  using assms by (cases x) (auto simp: activation_fits_def)

lemma post_runs:
  assumes "on_strand s st" and "strand_posts s s'"
  shows "\<exists>as st'. run_acts texec as st = Some st' \<and> on_strand s' st'"
proof (cases "running s")
  case True
  let ?st = "st\<lparr>squeue := squeue st @ [master s], strand_submitted := strand_submitted st @ [master s]\<rparr>"
  have "on_strand s' ?st" using assms True by (simp add: on_strand_def strand_posts_def)
  moreover have "run_acts texec [SEnqueue 0 (master s)] st = Some ?st"
    using assms True by (simp add: on_strand_def)
  ultimately show ?thesis by blast
next
  case False
  let ?st = "st\<lparr>squeue := squeue st @ [master s], strand_submitted := strand_submitted st @ [master s],
    srunning := True, posting := [], activations := activations st @ [AtTop]\<rparr>"
  have "activation_fits (task s') ((activations st @ [AtTop]) ! length (activations st))"
    using assms False by (simp add: on_strand_def strand_posts_def activation_fits_def)
  then have "\<exists>k<length (activations ?st). activation_fits (task s') (activations ?st ! k)"
    by (intro exI [of _ "length (activations st)"]) simp
  then have "on_strand s' ?st" using assms False by (simp add: on_strand_def strand_posts_def)
  moreover have "run_acts texec [SEnqueue 0 (master s), SPost 0, SRun (length (activations st))] st = Some ?st"
    using assms False by (simp add: on_strand_def)
  ultimately show ?thesis by blast
qed

lemma idle_runs:
  assumes "on_strand s st" and "strand_idles s s'"
  shows "\<exists>as st'. run_acts texec as st = Some st' \<and> on_strand s' st'"
proof -
  from assms obtain k where "k < length (activations st)" "activations st ! k = AtTop"
    by (auto simp: on_strand_def strand_idles_def elim!: activation_fits_cases)
  with assms show ?thesis
    by (intro exI [of _ "[SNext k]"]) (auto simp: on_strand_def strand_idles_def)
qed

lemma take_runs:
  assumes "on_strand s st" and "strand_takes s s'"
  shows "\<exists>as st'. run_acts texec as st = Some st' \<and> on_strand s' st'"
proof -
  from assms obtain k where k: "k < length (activations st)" "activations st ! k = AtTop"
    by (auto simp: on_strand_def strand_takes_def elim!: activation_fits_cases)
  obtain b where b: "queue s = b # queue s'" "task s' = DSeal b"
    using assms(2) by (auto simp: strand_takes_def)
  let ?st = "st\<lparr>squeue := queue s', began := began st @ [b], activations := (activations st)[k := InTask b]\<rparr>"
  have "activation_fits (task s') ((activations st)[k := InTask b] ! k)"
    using k b by (simp add: activation_fits_def)
  then have "on_strand s' ?st" using assms k
    by (auto simp: on_strand_def strand_takes_def)
  moreover have "run_acts texec [SNext k] st = Some ?st"
    using assms k b by (simp add: on_strand_def)
  ultimately show ?thesis by blast
qed

lemma end_runs:
  assumes "on_strand s st" and "strand_ends s s'"
  shows "\<exists>as st'. run_acts texec as st = Some st' \<and> on_strand s' st'"
proof -
  from assms have "running s" by (auto simp: on_strand_def strand_ends_def split: if_splits)
  with assms obtain k b where "k < length (activations st)" "activations st ! k = InTask b"
    by (auto simp: on_strand_def strand_ends_def elim!: activation_fits_cases)
  with assms \<open>running s\<close> show ?thesis
    by (intro exI [of _ "[SFinish k]"]) (auto simp: on_strand_def strand_ends_def activation_fits_def)
qed

lemma view_runs:
  assumes "on_strand s st" and "strand_view s s'"
  shows "on_strand s' st"
  using assms by (fastforce simp: on_strand_def strand_view_def activation_fits_def split: activation.splits)

lemma step_simulates:
  assumes "sexec a s = Some s'" and "on_strand s st"
  shows "\<exists>as st'. run_acts texec as st = Some st' \<and> on_strand s' st'"
  using step_strand [OF assms(1)] unfolding strand_kinds_def
proof (elim disjE)
  assume "strand_view s s'"
  with assms(2) show ?thesis by (intro exI [of _ "[]"] exI [of _ st]) (simp add: view_runs)
qed (use assms(2) in \<open>blast intro: post_runs idle_runs take_runs end_runs\<close>)+

section \<open>The refinement\<close>

lemma on_strand_init: "started s \<Longrightarrow> on_strand s strand_init"
  by (auto simp: started_def MmapStore_def on_strand_def strand_init_def Let_def split: if_splits sum.splits)

lemma run_simulates:
  assumes "store_step\<^sup>*\<^sup>* s0 s" and "started s0"
  shows "\<exists>st. strand_step\<^sup>*\<^sup>* strand_init st \<and> on_strand s st"
  using assms(1)
proof (induction rule: rtranclp_induct)
  case base
  with assms(2) show ?case using on_strand_init by blast
next
  case (step s s')
  then obtain st where st: "strand_step\<^sup>*\<^sup>* strand_init st" "on_strand s st" by blast
  from step.hyps(2) obtain a where "sexec a s = Some s'"
    by (auto simp: store_step_def acts_step_def store_exec_def split: if_splits)
  from step_simulates [OF this st(2)] obtain as st' where "run_acts texec as st = Some st'" "on_strand s' st'"
    by (elim exE conjE)
  with st(1) show ?case
    by (intro exI [of _ st'] conjI rtranclp_trans [OF st(1)]) (simp_all add: strand_step_def run_acts_steps)
qed



end
