(* ===== verification/Store_Wakeups.thy ===== *)
theory Store_Wakeups
  imports Mmap_Store_Flush
begin

text \<open>
  The condition variables of the store, \<open>free_cv_\<close> and \<open>flush_cv_\<close> (mmap/mmap_store.cpp). In Mmap_Store a thread whose
  predicate holds may go on. Here the threads that wait on each variable form a set; a thread leaves it when it is
  notified, when its time is up, or for no reason, takes \<open>mtx_\<close> again and looks. The drain notifies one waiter after
  it has put a buffer back and released \<open>mtx_\<close>; it notifies all the flushers, under \<open>mtx_\<close>, when nothing is in flight;
  the destructor notifies everybody.
  Shown: the waits implement the store of Mmap_Store, and no wakeup is lost on either variable.
\<close>

section \<open>The store with its wait sets\<close>

text \<open>
  \<open>ws_woken\<close> holds the threads that have left \<open>free_cv_\<close> and have still to take \<open>mtx_\<close>, \<open>ws_late\<close> says of which the time was up;
  \<open>ws_owed\<close> says that the drain has put a buffer back and has still to call \<open>notify_one\<close>. A thread that waits on \<open>flush_cv_\<close> and is not in
  \<open>ws_flush_cv\<close> is about to look.
\<close>

record wstore =
  ws_store :: store
  ws_free_cv :: "nat list"
  ws_woken :: "nat list"
  ws_late :: "nat \<Rightarrow> bool"
  ws_owed :: bool
  ws_flush_cv :: "nat list"

definition wstore_of :: "store \<Rightarrow> wstore" where
  "wstore_of s =
     \<lparr>ws_store = s, ws_free_cv = [], ws_woken = [], ws_late = (\<lambda>_. False), ws_owed = False, ws_flush_cv = []\<rparr>"

fun free_wait :: "spc \<Rightarrow> bool" where
  "free_wait (AWait d) = True"
| "free_wait (FWaitFree dt n) = True"
| "free_wait p = False"

fun flush_wait :: "spc \<Rightarrow> bool" where
  "flush_wait (FWait dt n) = True"
| "flush_wait p = False"

fun may_time_out :: "spc \<Rightarrow> bool" where
  "may_time_out (AWait d) = True"
| "may_time_out p = False"

definition on_wstore :: "wstore \<Rightarrow> sact \<Rightarrow> wstore option" where
  "on_wstore r a = map_option (\<lambda>s. r\<lparr>ws_store := s\<rparr>) (store_exec a (ws_store r))"

text \<open>The steps of Mmap_Store that wait, notify or end a wait.\<close>

fun on_cv :: "sact \<Rightarrow> bool" where
  "on_cv (WakeSwap t) = True"
| "on_cv (TimeOut t) = True"
| "on_cv (FlushWake t) = True"
| "on_cv (FlushReturn t) = True"
| "on_cv DrainPush = True"
| "on_cv DrainDec = True"
| "on_cv DrainNotify = True"
| "on_cv (DestroyLock t) = True"
| "on_cv a = False"

text \<open>\<open>AcquireFreeBufferLocked_\<close> may have found that it has to wait.\<close>

definition enqueue_waiter :: "sact \<Rightarrow> wstore \<Rightarrow> wstore" where
  "enqueue_waiter a r =
     (case actor a of
        Some t \<Rightarrow> if free_wait (spcs (ws_store r) t) then r\<lparr>ws_free_cv := ws_free_cv r @ [t]\<rparr> else r
      | None \<Rightarrow> r)"

definition wake_free :: "nat \<Rightarrow> bool \<Rightarrow> wstore \<Rightarrow> wstore" where
  "wake_free t late r =
     r\<lparr>ws_free_cv := remove1 t (ws_free_cv r), ws_woken := t # ws_woken r, ws_late := (ws_late r)(t := late)\<rparr>"

datatype swact =
    Plain sact
  | SPush
  | SNotifyOne "nat option"
  | SDec
  | SNotifyFlush
  | SDestroyLock nat
  | STimeout nat
  | SSpurious nat
  | SSpuriousFlush nat
  | SLookFree nat
  | SLookFlush nat

fun swexec :: "swact \<Rightarrow> wstore \<Rightarrow> wstore option" where
  "swexec (Plain a) r = (if on_cv a then None else map_option (enqueue_waiter a) (on_wstore r a))"
| "swexec SPush r = map_option (\<lambda>r. r\<lparr>ws_owed := True\<rparr>) (on_wstore r DrainPush)"
| "swexec (SNotifyOne pick) r =
     (if \<not> ws_owed r \<or> destroyed (ws_store r) then None
      else case pick of
             Some t \<Rightarrow> if t \<in> set (ws_free_cv r) then Some ((wake_free t False r)\<lparr>ws_owed := False\<rparr>) else None
           | None \<Rightarrow> if ws_free_cv r = [] then Some (r\<lparr>ws_owed := False\<rparr>) else None)"
| "swexec SDec r = (if ws_owed r then None else on_wstore r DrainDec)"
| "swexec SNotifyFlush r = map_option (\<lambda>r. r\<lparr>ws_flush_cv := []\<rparr>) (on_wstore r DrainNotify)"
| "swexec (SDestroyLock t) r =
     map_option (\<lambda>r. r\<lparr>ws_free_cv := [], ws_woken := ws_free_cv r @ ws_woken r, ws_flush_cv := []\<rparr>)
       (on_wstore r (DestroyLock t))"
| "swexec (STimeout t) r =
     (if t \<in> set (ws_free_cv r) \<and> may_time_out (spcs (ws_store r) t) \<and> \<not> destroyed (ws_store r)
      then Some (wake_free t True r) else None)"
| "swexec (SSpurious t) r =
     (if t \<in> set (ws_free_cv r) \<and> \<not> destroyed (ws_store r) then Some (wake_free t False r) else None)"
| "swexec (SSpuriousFlush t) r =
     (if t \<in> set (ws_flush_cv r) \<and> \<not> destroyed (ws_store r)
      then Some (r\<lparr>ws_flush_cv := remove1 t (ws_flush_cv r)\<rparr>) else None)"
| "swexec (SLookFree t) r =
     (let s = ws_store r; r1 = r\<lparr>ws_woken := remove1 t (ws_woken r)\<rparr>
      in if t \<notin> set (ws_woken r) \<or> holder s \<noteq> None \<or> destroyed s then None
         else if stopped s \<or> free s \<noteq> [] then
           on_wstore r1 (if may_time_out (spcs s t) then WakeSwap t else FlushWake t)
         else if ws_late r t \<and> may_time_out (spcs s t) then on_wstore r1 (TimeOut t)
         else Some (r1\<lparr>ws_free_cv := ws_free_cv r @ [t]\<rparr>))"
| "swexec (SLookFlush t) r =
     (let s = ws_store r
      in if \<not> flush_wait (spcs s t) \<or> t \<in> set (ws_flush_cv r) \<or> holder s \<noteq> None \<or> destroyed s then None
         else if in_flight s = 0 \<or> stopped s then on_wstore r (FlushReturn t)
         else Some (r\<lparr>ws_flush_cv := t # ws_flush_cv r\<rparr>))"

section \<open>It implements the store of Mmap_Store\<close>

fun sw_abs :: "swact \<Rightarrow> wstore \<Rightarrow> sact list" where
  "sw_abs (Plain a) r = [a]"
| "sw_abs SPush r = [DrainPush]"
| "sw_abs SDec r = [DrainDec]"
| "sw_abs SNotifyFlush r = [DrainNotify]"
| "sw_abs (SDestroyLock t) r = [DestroyLock t]"
| "sw_abs (SLookFree t) r =
     (let s = ws_store r
      in if stopped s \<or> free s \<noteq> [] then [if may_time_out (spcs s t) then WakeSwap t else FlushWake t]
         else if ws_late r t \<and> may_time_out (spcs s t) then [TimeOut t] else [])"
| "sw_abs (SLookFlush t) r =
     (if in_flight (ws_store r) = 0 \<or> stopped (ws_store r) then [FlushReturn t] else [])"
| "sw_abs a r = []"

fun sw_abs_run :: "swact list \<Rightarrow> wstore \<Rightarrow> sact list" where
  "sw_abs_run [] r = []"
| "sw_abs_run (a # as) r = sw_abs a r @ (case swexec a r of None \<Rightarrow> [] | Some r' \<Rightarrow> sw_abs_run as r')"

lemma enqueue_simps [simp]:
  "ws_store (enqueue_waiter a r) = ws_store r" "ws_woken (enqueue_waiter a r) = ws_woken r"
  "ws_owed (enqueue_waiter a r) = ws_owed r" "ws_flush_cv (enqueue_waiter a r) = ws_flush_cv r"
  by (simp_all add: enqueue_waiter_def split: option.split)

lemma wake_free_simps [simp]:
  "ws_store (wake_free t l r) = ws_store r" "ws_woken (wake_free t l r) = t # ws_woken r"
  "ws_free_cv (wake_free t l r) = remove1 t (ws_free_cv r)" "ws_owed (wake_free t l r) = ws_owed r"
  "ws_flush_cv (wake_free t l r) = ws_flush_cv r"
  by (simp_all add: wake_free_def)

lemma on_wstore_Some: "on_wstore r a = Some r' \<longleftrightarrow> (\<exists>s. store_exec a (ws_store r) = Some s \<and> r' = r\<lparr>ws_store := s\<rparr>)"
  by (auto simp: on_wstore_def)

lemma sw_step_refines:
  assumes "swexec a r = Some r'"
  shows "run_acts store_exec (sw_abs a r) (ws_store r) = Some (ws_store r')"
  using assms by (cases a) (auto simp: on_wstore_Some Let_def split: if_splits option.splits)

lemma sw_run_refines:
  "run_acts swexec as r = Some r' \<Longrightarrow> run_acts store_exec (sw_abs_run as r) (ws_store r) = Some (ws_store r')"
proof (induction as arbitrary: r)
  case (Cons a as)
  from Cons.prems obtain u where u: "swexec a r = Some u" "run_acts swexec as u = Some r'"
    by (auto split: option.splits)
  from sw_step_refines [OF u(1)] Cons.IH [OF u(2)] show ?case
    by (simp only: sw_abs_run.simps u(1) option.case run_acts_append bind.simps)
qed simp

section \<open>What the other steps do to what the waits look at\<close>

lemma free_acquire:
  "length (free (snd (AcquireFreeBufferLocked s))) \<le> length (free s)"
  "length (free (snd (AcquireAfterWait s))) \<le> length (free s)"
  "fst (AcquireFreeBufferLocked s) = MustWait \<Longrightarrow> free s = [] \<and> snd (AcquireFreeBufferLocked s) = s"
  "fst (AcquireAfterWait s) \<noteq> MustWait"
  by (auto simp: AcquireFreeBufferLocked_def AcquireAfterWait_def split: list.splits sum.splits if_splits)

lemma acquire_flags:
  "stopped (snd (AcquireFreeBufferLocked s)) = stopped s" "stopped (snd (AcquireAfterWait s)) = stopped s"
  "in_flight (snd (AcquireFreeBufferLocked s)) = in_flight s" "in_flight (snd (AcquireAfterWait s)) = in_flight s"
  "task (snd (AcquireFreeBufferLocked s)) = task s" "task (snd (AcquireAfterWait s)) = task s"
  by (auto simp: AcquireFreeBufferLocked_def AcquireAfterWait_def split: list.splits sum.splits)

lemma swap_flags:
  "free (swap_append t d r) = free (snd r)" "free (swap_flush t dt n r) = free (snd r)"
  "stopped (swap_append t d r) = stopped (snd r)" "stopped (swap_flush t dt n r) = stopped (snd r)"
  "task (swap_append t d r) = task (snd r)" "task (swap_flush t dt n r) = task (snd r)"
  "in_flight (snd r) \<le> in_flight (swap_append t d r)" "in_flight (snd r) \<le> in_flight (swap_flush t dt n r)"
  by (cases r; cases "fst r"; simp add: swap_append_def swap_flush_def SwapMasterLocked_def)+

lemma swap_waits:
  "free_wait (spcs (swap_append t d r) t) \<longleftrightarrow> fst r = MustWait"
  "free_wait (spcs (swap_flush t dt n r) t) \<longleftrightarrow> fst r = MustWait"
  by (cases r; cases "fst r"; simp add: swap_append_def swap_flush_def SwapMasterLocked_def set_spc_def)+

lemma swap_others:
  "u \<noteq> t \<Longrightarrow> spcs (swap_append t d r) u = spcs (snd r) u" "u \<noteq> t \<Longrightarrow> spcs (swap_flush t dt n r) u = spcs (snd r) u"
  by (cases r; cases "fst r"; simp add: swap_append_def swap_flush_def SwapMasterLocked_def set_spc_def)+

lemmas swap_facts = free_acquire acquire_flags swap_flags swap_waits swap_others acquire_spcs

lemma other_pcs: "store_exec a s = Some s' \<Longrightarrow> actor a \<noteq> Some u \<Longrightarrow> spcs s' u = spcs s u"
  by (cases a) (auto simp: store_exec_def locked_Some flush_exit_def Let_def swap_others acquire_spcs
      split: spc.splits if_splits drain.splits list.splits prod.splits)

lemma plain_facts:
  assumes "store_exec a s = Some s'" and "\<not> on_cv a"
  shows "stopped s' = stopped s" and "length (free s') \<le> length (free s)" and "in_flight s \<le> in_flight s'"
    and "task s = DDec \<Longrightarrow> task s' = DDec" and "task s = DNotify \<Longrightarrow> task s' = DNotify"
  using assms
  by (cases a; auto simp: store_exec_def locked_Some flush_exit_def Let_def swap_facts
      split: spc.splits if_splits drain.splits list.splits prod.splits intro: order_trans [OF _ swap_flags(7)]
        order_trans [OF _ swap_flags(8)])+

lemma plain_actor:
  assumes "store_exec a s = Some s'" and "\<not> on_cv a" and "actor a = Some t"
  shows "\<not> free_wait (spcs s t)" and "\<not> flush_wait (spcs s t)"
    and "free_wait (spcs s' t) \<Longrightarrow> free s' = [] \<and> \<not> stopped s'"
  using assms
  by (cases a; auto simp: store_exec_def locked_Some flush_exit_def Let_def at_rest_def swap_facts
      split: spc.splits if_splits prod.splits)+

section \<open>No wakeup is lost\<close>

text \<open>
  The threads waiting for a buffer are those in the set and those woken; while one is in the set, there are no more buffers free than
  threads woken and notifications to come; nobody is in a set once the store is stopped; and flushers are in theirs
  only while something is in flight or the drain is about to notify them.
\<close>

definition swinv :: "wstore \<Rightarrow> bool" where
  "swinv r \<longleftrightarrow>
     distinct (ws_free_cv r @ ws_woken r)
     \<and> (\<forall>t. t \<in> set (ws_free_cv r @ ws_woken r) \<longleftrightarrow> free_wait (spcs (ws_store r) t))
     \<and> (\<forall>t\<in>set (ws_flush_cv r). flush_wait (spcs (ws_store r) t))
     \<and> (ws_free_cv r \<noteq> [] \<longrightarrow> length (free (ws_store r)) \<le> length (ws_woken r) + (if ws_owed r then 1 else 0))
     \<and> (stopped (ws_store r) \<longrightarrow> ws_free_cv r = [] \<and> ws_flush_cv r = [])
     \<and> (in_flight (ws_store r) = 0 \<longrightarrow> ws_flush_cv r = [] \<or> task (ws_store r) = DNotify)
     \<and> (ws_owed r \<longrightarrow> task (ws_store r) = DDec)"

lemma swinvD:
  assumes "swinv r"
  shows "distinct (ws_free_cv r @ ws_woken r)"
    and "t \<in> set (ws_free_cv r @ ws_woken r) \<longleftrightarrow> free_wait (spcs (ws_store r) t)"
    and "t \<in> set (ws_flush_cv r) \<Longrightarrow> flush_wait (spcs (ws_store r) t)"
    and "ws_free_cv r \<noteq> [] \<Longrightarrow> length (free (ws_store r)) \<le> length (ws_woken r) + (if ws_owed r then 1 else 0)"
    and "stopped (ws_store r) \<Longrightarrow> ws_free_cv r = [] \<and> ws_flush_cv r = []"
    and "in_flight (ws_store r) = 0 \<Longrightarrow> ws_flush_cv r = [] \<or> task (ws_store r) = DNotify"
    and "ws_owed r \<Longrightarrow> task (ws_store r) = DDec"
  using assms unfolding swinv_def by blast+

lemma swinvI:
  assumes "distinct (ws_free_cv r @ ws_woken r)"
    and "\<And>t. t \<in> set (ws_free_cv r @ ws_woken r) \<longleftrightarrow> free_wait (spcs (ws_store r) t)"
    and "\<And>t. t \<in> set (ws_flush_cv r) \<Longrightarrow> flush_wait (spcs (ws_store r) t)"
    and "ws_free_cv r \<noteq> [] \<Longrightarrow> length (free (ws_store r)) \<le> length (ws_woken r) + (if ws_owed r then 1 else 0)"
    and "stopped (ws_store r) \<Longrightarrow> ws_free_cv r = [] \<and> ws_flush_cv r = []"
    and "in_flight (ws_store r) = 0 \<Longrightarrow> ws_flush_cv r = [] \<or> task (ws_store r) = DNotify"
    and "ws_owed r \<Longrightarrow> task (ws_store r) = DDec"
  shows "swinv r"
  unfolding swinv_def using assms by blast

lemma sw_plain:
  assumes inv: "swinv r" and ex: "swexec (Plain a) r = Some r'"
  shows "swinv r'"
proof -
  let ?s = "ws_store r"
  from ex obtain s' where s': "store_exec a ?s = Some s'" and a: "\<not> on_cv a"
    and r': "r' = enqueue_waiter a (r\<lparr>ws_store := s'\<rparr>)" by (auto simp: on_wstore_Some split: if_splits)
  note p = plain_facts [OF s' a]
  note D = swinvD [OF inv]
  have same: "spcs s' u = spcs ?s u" if "actor a \<noteq> Some u" for u using other_pcs [OF s' that] .
  have fl: "flush_wait (spcs s' u)" if "u \<in> set (ws_flush_cv r)" for u
    using D(3) [OF that] plain_actor(2) [OF s' a, of u] same [of u] by (cases "actor a = Some u") auto
  have i5: "ws_flush_cv r = [] \<or> task s' = DNotify" if "in_flight s' = 0" using D(6) p(3,5) that by auto
  have i6: "task s' = DDec" if "ws_owed r" using D(7) [OF that] p(4) by simp
  show ?thesis
  proof (cases "\<exists>t. actor a = Some t \<and> free_wait (spcs s' t)")
    case True
    then obtain t where t: "actor a = Some t" "free_wait (spcs s' t)" by blast
    then have new: "free s' = []" "\<not> stopped s'" "\<not> free_wait (spcs ?s t)"
      using plain_actor [OF s' a t(1)] by auto
    have q: "r' = r\<lparr>ws_store := s', ws_free_cv := ws_free_cv r @ [t]\<rparr>" using t by (simp add: r' enqueue_waiter_def)
    have old: "t \<notin> set (ws_free_cv r @ ws_woken r)" using D(2) [of t] new(3) by blast
    show ?thesis
    proof (rule swinvI)
      show "distinct (ws_free_cv r' @ ws_woken r')" using D(1) old by (auto simp: q)
      show "u \<in> set (ws_free_cv r' @ ws_woken r') \<longleftrightarrow> free_wait (spcs (ws_store r') u)" for u
        using D(2) [of u] same [of u] t by (cases "u = t") (auto simp: q)
    qed (use new fl i5 i6 in \<open>simp_all add: q\<close>)
  next
    case False
    then have q: "r' = r\<lparr>ws_store := s'\<rparr>" by (auto simp: r' enqueue_waiter_def split: option.splits)
    show ?thesis
    proof (rule swinvI)
      show "distinct (ws_free_cv r' @ ws_woken r')" using D(1) by (simp add: q)
      show "u \<in> set (ws_free_cv r' @ ws_woken r') \<longleftrightarrow> free_wait (spcs (ws_store r') u)" for u
        using D(2) [of u] same [of u] plain_actor(1) [OF s' a, of u] False
        by (cases "actor a = Some u") (auto simp: q)
      show "length (free (ws_store r')) \<le> length (ws_woken r') + (if ws_owed r' then 1 else 0)" if "ws_free_cv r' \<noteq> []"
        using D(4) that p(2) by (simp add: q)
    qed (use D(5) p(1) fl i5 i6 in \<open>simp_all add: q\<close>)
  qed
qed

lemma sw_wake:
  assumes inv: "swinv r" and t: "t \<in> set (ws_free_cv r)" and owed: "ow = ws_owed r \<or> ow = False"
  shows "swinv ((wake_free t late r)\<lparr>ws_owed := ow\<rparr>)"
proof -
  note D = swinvD [OF inv]
  have d: "distinct (ws_free_cv r)" "t \<notin> set (ws_woken r)" using D(1) t by auto
  have "ws_free_cv r \<noteq> []" using t by auto
  note len = D(4) [OF this]
  have m: "u \<in> set (ws_free_cv r) - {t} \<or> u = t \<or> u \<in> set (ws_woken r) \<longleftrightarrow> free_wait (spcs (ws_store r) u)" for u
    using D(2) [of u] t by auto
  show ?thesis
  proof (rule swinvI)
    let ?r = "(wake_free t late r)\<lparr>ws_owed := ow\<rparr>"
    show "distinct (ws_free_cv ?r @ ws_woken ?r)" using D(1) d by (auto simp: distinct_remove1)
    show "u \<in> set (ws_free_cv ?r @ ws_woken ?r) \<longleftrightarrow> free_wait (spcs (ws_store ?r) u)" for u
      using m [of u] d(1) by auto
    show "length (free (ws_store ?r)) \<le> length (ws_woken ?r) + (if ws_owed ?r then 1 else 0)" if "ws_free_cv ?r \<noteq> []"
      using len owed by (auto split: if_splits)
  qed (use D(3,5,6,7) owed in auto)
qed

text \<open>A woken thread has \<open>mtx_\<close> and looks.\<close>

lemma wake_facts:
  assumes "store_exec a s = Some s'" and "a = WakeSwap t \<or> a = FlushWake t"
  shows "stopped s' = stopped s" and "free s \<noteq> [] \<Longrightarrow> \<not> stopped s \<Longrightarrow> length (free s') = length (free s) - 1"
    and "in_flight s \<le> in_flight s'" and "task s' = task s" and "\<not> free_wait (spcs s' t)"
  using assms
  by (auto simp: store_exec_def locked_Some swap_append_def swap_flush_def SwapMasterLocked_def AcquireAfterWait_def
      split: spc.splits if_splits list.splits)

lemma leave_woken:
  assumes inv: "swinv r" and t: "t \<in> set (ws_woken r)" and a: "actor a = Some t"
    and s': "store_exec a (ws_store r) = Some s'" and still: "stopped s' = stopped (ws_store r)"
    and gone: "\<not> free_wait (spcs s' t)" and fl: "in_flight (ws_store r) \<le> in_flight s'" and ta: "task s' = task (ws_store r)"
    and len: "ws_free_cv r \<noteq> [] \<Longrightarrow> length (free s') \<le> length (free (ws_store r)) - 1"
  shows "swinv (r\<lparr>ws_woken := remove1 t (ws_woken r), ws_store := s'\<rparr>)"
proof -
  let ?r = "r\<lparr>ws_woken := remove1 t (ws_woken r), ws_store := s'\<rparr>"
  note D = swinvD [OF inv]
  have same: "spcs s' u = spcs (ws_store r) u" if "u \<noteq> t" for u using other_pcs [OF s'] a that by simp
  have d: "distinct (ws_woken r)" "t \<notin> set (ws_free_cv r)" using D(1) t by auto
  have fw: "free_wait (spcs (ws_store r) t)" using D(2) [of t] t by simp
  then have nf: "\<not> flush_wait (spcs (ws_store r) t)" by (cases "spcs (ws_store r) t") simp_all
  show ?thesis
  proof (rule swinvI)
    show "distinct (ws_free_cv ?r @ ws_woken ?r)" using D(1) by (auto simp: distinct_remove1 dest: notin_set_remove1)
    show "u \<in> set (ws_free_cv ?r @ ws_woken ?r) \<longleftrightarrow> free_wait (spcs (ws_store ?r) u)" for u
      using D(2) [of u] same [of u] d gone by (cases "u = t") auto
    show "flush_wait (spcs (ws_store ?r) u)" if "u \<in> set (ws_flush_cv ?r)" for u
      using D(3) [of u] same [of u] nf that by (cases "u = t") auto
    show "length (free (ws_store ?r)) \<le> length (ws_woken ?r) + (if ws_owed ?r then 1 else 0)" if "ws_free_cv ?r \<noteq> []"
    proof -
      have n: "ws_free_cv r \<noteq> []" using that by simp
      have "length (ws_woken ?r) = length (ws_woken r) - 1" using t by (simp add: length_remove1)
      with D(4) [OF n] len [OF n] show ?thesis by (simp split: if_splits)
    qed
  qed (use D(5,6,7) still fl ta in auto)
qed

lemma sw_look_free:
  assumes inv: "swinv r" and ex: "swexec (SLookFree t) r = Some r'"
  shows "swinv r'"
proof -
  let ?s = "ws_store r" and ?r1 = "r\<lparr>ws_woken := remove1 t (ws_woken r)\<rparr>"
  note D = swinvD [OF inv]
  have t: "t \<in> set (ws_woken r)" using ex by (simp add: Let_def split: if_splits)
  consider (go) "stopped ?s \<or> free ?s \<noteq> []"
    | (late) "\<not> stopped ?s" "free ?s = []" "ws_late r t \<and> may_time_out (spcs ?s t)"
    | (again) "\<not> stopped ?s" "free ?s = []" "\<not> (ws_late r t \<and> may_time_out (spcs ?s t))" by blast
  then show ?thesis
  proof cases
    case go
    define a where "a = (if may_time_out (spcs ?s t) then WakeSwap t else FlushWake t)"
    have a: "a = WakeSwap t \<or> a = FlushWake t" "actor a = Some t" by (simp_all add: a_def)
    have "on_wstore ?r1 a = Some r'" using ex go by (simp add: Let_def a_def split: if_splits)
    then obtain s' where s': "store_exec a ?s = Some s'" "r' = ?r1\<lparr>ws_store := s'\<rparr>" by (auto simp: on_wstore_Some)
    note w = wake_facts [OF s'(1) a(1)]
    have "length (free s') \<le> length (free ?s) - 1" if "ws_free_cv r \<noteq> []"
    proof -
      have "\<not> stopped ?s" using D(5) that by blast
      with go w(2) show ?thesis by simp
    qed
    from leave_woken [OF inv t a(2) s'(1) w(1) w(5) w(3) w(4) this] show ?thesis by (simp add: s'(2))
  next
    case late
    have "on_wstore ?r1 (TimeOut t) = Some r'" using ex late by (simp add: Let_def split: if_splits)
    then obtain s' where s': "store_exec (TimeOut t) ?s = Some s'" "r' = ?r1\<lparr>ws_store := s'\<rparr>" by (auto simp: on_wstore_Some)
    then have q: "\<exists>d. s' = set_spc t (ADone d False) ?s"
      by (auto simp: store_exec_def locked_Some split: if_splits spc.splits)
    then show ?thesis using leave_woken [OF inv t _ s'(1)] late(2) by (auto simp: s'(2))
  next
    case again
    then have r': "r' = ?r1\<lparr>ws_free_cv := ws_free_cv r @ [t]\<rparr>" using ex by (auto simp: Let_def split: if_splits)
    have d: "distinct (ws_woken r)" "t \<notin> set (ws_free_cv r)" using D(1) t by auto
    show ?thesis
    proof (rule swinvI)
      show "distinct (ws_free_cv r' @ ws_woken r')" using D(1) d by (auto simp: r' distinct_remove1 dest: notin_set_remove1)
      show "u \<in> set (ws_free_cv r' @ ws_woken r') \<longleftrightarrow> free_wait (spcs (ws_store r') u)" for u
        using D(2) [of u] d t by (auto simp: r')
    qed (use D(3,6,7) again in \<open>simp_all add: r'\<close>)
  qed
qed

lemma sw_look_flush:
  assumes inv: "swinv r" and ex: "swexec (SLookFlush t) r = Some r'"
  shows "swinv r'"
proof -
  let ?s = "ws_store r"
  note D = swinvD [OF inv]
  have t: "flush_wait (spcs ?s t)" "t \<notin> set (ws_flush_cv r)" using ex by (simp_all add: Let_def split: if_splits)
  then have nf: "\<not> free_wait (spcs ?s t)" by (cases "spcs ?s t") simp_all
  show ?thesis
  proof (cases "in_flight ?s = 0 \<or> stopped ?s")
    case True
    then have "on_wstore r (FlushReturn t) = Some r'" using ex by (simp add: Let_def split: if_splits)
    then obtain s' where s': "store_exec (FlushReturn t) ?s = Some s'" "r' = r\<lparr>ws_store := s'\<rparr>" by (auto simp: on_wstore_Some)
    then obtain dt n where q: "s' = flush_exit t dt n ?s"
      by (auto simp: store_exec_def locked_Some split: if_splits spc.splits)
    show ?thesis
    proof (rule swinvI)
      show "u \<in> set (ws_free_cv r' @ ws_woken r') \<longleftrightarrow> free_wait (spcs (ws_store r') u)" for u
        using D(2) [of u] nf by (cases "u = t") (auto simp: s'(2) q flush_exit_def)
      show "flush_wait (spcs (ws_store r') u)" if "u \<in> set (ws_flush_cv r')" for u
        using D(3) [of u] that t(2) by (cases "u = t") (auto simp: s'(2) q flush_exit_def)
    qed (use D(1,4,5,6,7) in \<open>simp_all add: s'(2) q flush_exit_def\<close>)
  next
    case False
    then have r': "r' = r\<lparr>ws_flush_cv := t # ws_flush_cv r\<rparr>" using ex by (simp add: Let_def split: if_splits)
    show ?thesis
      by (rule swinvI) (use D(1-4,7) False t(1) in \<open>auto simp: r'\<close>)
  qed
qed

lemma sw_step_inv:
  assumes ex: "swexec a r = Some r'" and inv: "swinv r"
  shows "swinv r'"
proof -
  note D = swinvD [OF inv]
  show ?thesis
  proof (cases a)
    case (Plain b)
    with ex sw_plain [OF inv] show ?thesis by blast
  next
    case SPush
    with ex obtain s' where s': "store_exec DrainPush (ws_store r) = Some s'" "r' = r\<lparr>ws_store := s', ws_owed := True\<rparr>"
      by (auto simp: on_wstore_Some)
    then obtain b where b: "task (ws_store r) = DPush b"
        "s' = (ws_store r)\<lparr>free := free (ws_store r) @ [b], task := DDec\<rparr>"
      by (auto simp: store_exec_def locked_Some split: if_splits drain.splits)
    then have "\<not> ws_owed r" using D(7) by auto
    with D(4) have "ws_free_cv r \<noteq> [] \<Longrightarrow> length (free (ws_store r)) \<le> length (ws_woken r)" by simp
    then show ?thesis using D(1,2,3,5,6) b by (intro swinvI) (auto simp: s'(2))
  next
    case (SNotifyOne pick)
    show ?thesis
    proof (cases pick)
      case (Some t)
      with ex SNotifyOne have "t \<in> set (ws_free_cv r)" "r' = (wake_free t False r)\<lparr>ws_owed := False\<rparr>"
        by (simp_all split: if_splits)
      with sw_wake [OF inv, of t False False] show ?thesis by simp
    next
      case None
      with ex SNotifyOne have "ws_free_cv r = []" "r' = r\<lparr>ws_owed := False\<rparr>" by (simp_all split: if_splits)
      then show ?thesis using D(1,2,3,5,6) by (intro swinvI) auto
    qed
  next
    case SDec
    with ex obtain s' where s': "store_exec DrainDec (ws_store r) = Some s'" "r' = r\<lparr>ws_store := s'\<rparr>" and no: "\<not> ws_owed r"
      by (auto simp: on_wstore_Some split: if_splits)
    then have "s' = (ws_store r)\<lparr>in_flight := in_flight (ws_store r) - 1,
        task := (if in_flight (ws_store r) - 1 = 0 then DNotify else DNone)\<rparr>"
      by (auto simp: store_exec_def split: if_splits)
    then show ?thesis using D(1-5) no by (intro swinvI) (auto simp: s'(2))
  next
    case SNotifyFlush
    with ex obtain s' where s': "store_exec DrainNotify (ws_store r) = Some s'" "r' = r\<lparr>ws_store := s', ws_flush_cv := []\<rparr>"
      by (auto simp: on_wstore_Some)
    then have "s' = (ws_store r)\<lparr>task := DNone\<rparr>" "task (ws_store r) = DNotify"
      by (auto simp: store_exec_def locked_Some split: if_splits)
    then show ?thesis using D(1,2,4,5,7) by (intro swinvI) (auto simp: s'(2))
  next
    case (SDestroyLock t)
    with ex obtain s' where s': "store_exec (DestroyLock t) (ws_store r) = Some s'"
        "r' = r\<lparr>ws_store := s', ws_free_cv := [], ws_woken := ws_free_cv r @ ws_woken r, ws_flush_cv := []\<rparr>"
      by (auto simp: on_wstore_Some)
    then have q: "s' = set_spc t DtorEnd ((ws_store r)\<lparr>stopped := True\<rparr>)" "spcs (ws_store r) t = DtorLock"
      by (auto simp: store_exec_def locked_Some split: if_splits)
    show ?thesis
    proof (rule swinvI)
      show "u \<in> set (ws_free_cv r' @ ws_woken r') \<longleftrightarrow> free_wait (spcs (ws_store r') u)" for u
        using D(2) [of u] q by (cases "u = t") (auto simp: s'(2))
    qed (use D(1,7) q in \<open>auto simp: s'(2)\<close>)
  next
    case (STimeout t)
    with ex sw_wake [OF inv, of t "ws_owed r" True] show ?thesis by (simp add: wake_free_def split: if_splits)
  next
    case (SSpurious t)
    with ex sw_wake [OF inv, of t "ws_owed r" False] show ?thesis by (simp add: wake_free_def split: if_splits)
  next
    case (SSpuriousFlush t)
    with ex have "r' = r\<lparr>ws_flush_cv := remove1 t (ws_flush_cv r)\<rparr>" by (simp split: if_splits)
    then show ?thesis using D(1-7) by (intro swinvI) (auto dest: notin_set_remove1)
  next
    case (SLookFree t)
    with ex sw_look_free [OF inv] show ?thesis by blast
  next
    case (SLookFlush t)
    with ex sw_look_flush [OF inv] show ?thesis by blast
  qed
qed

lemma swinv_start: "started s \<Longrightarrow> swinv (wstore_of s)"
  using started_facts [of s] by (intro swinvI) (auto simp: wstore_of_def)

interpretation sw: invariant_system "\<lambda>r. \<exists>s. started s \<and> r = wstore_of s" "acts_step swexec" swinv
proof unfold_locales
  show "\<exists>s. started s \<and> r = wstore_of s \<Longrightarrow> swinv r" for r using swinv_start by blast
  show "acts_step swexec r u \<Longrightarrow> swinv r \<Longrightarrow> swinv u" for r u
    unfolding acts_step_def using sw_step_inv by blast
qed

section \<open>Properties\<close>

text \<open>
  C14. No wakeup of the store is lost. In every run with real waits on \<open>free_cv_\<close> and \<open>flush_cv_\<close>, where \<open>notify_one\<close> may pick any
  waiter, time-outs and spurious wakeups come at any moment, and other threads may take a buffer before the one that was
  notified gets the mutex: the store is one that Mmap_Store reaches by the steps behind the schedule; whenever a buffer is free, nobody
  waits for one unless some waiter has been woken or the drain is about to notify; whenever nothing is in flight, no flusher waits
  unless the drain is about to notify all; and once the store is stopped, nobody waits.
\<close>

theorem store_wakeups_not_lost:
  assumes "started s0" and "run_acts swexec as (wstore_of s0) = Some r"
  shows "run_acts store_exec (sw_abs_run as (wstore_of s0)) s0 = Some (ws_store r)
    \<and> (free (ws_store r) \<noteq> [] \<longrightarrow> ws_free_cv r = [] \<or> ws_woken r \<noteq> [] \<or> ws_owed r)
    \<and> (in_flight (ws_store r) = 0 \<longrightarrow> ws_flush_cv r = [] \<or> task (ws_store r) = DNotify)
    \<and> (stopped (ws_store r) \<longrightarrow> ws_free_cv r = [] \<and> ws_flush_cv r = [])"
proof -
  have start: "\<exists>s. started s \<and> wstore_of s0 = wstore_of s" using assms(1) by blast
  have inv: "swinv r" by (rule sw.reachable_inv [OF start run_acts_steps [OF assms(2)]])
  have "run_acts store_exec (sw_abs_run as (wstore_of s0)) s0 = Some (ws_store r)"
    using sw_run_refines [OF assms(2)] by (simp add: wstore_of_def)
  moreover have "ws_free_cv r = [] \<or> ws_woken r \<noteq> [] \<or> ws_owed r" if "free (ws_store r) \<noteq> []"
  proof (cases "ws_free_cv r = []")
    case False
    show ?thesis using swinvD(4) [OF inv False] that by (cases "ws_woken r") (auto split: if_splits)
  qed simp
  ultimately show ?thesis using swinvD(5,6) [OF inv] by blast
qed

text \<open>
  Two buffers in all. Thread 1 fills both and starts the drain of the first; thread 2 and then thread 1 find no buffer and wait. The drain gives
  the first buffer back and notifies one of them, here thread 1.
\<close>

definition waiting_run :: "swact list" where
  "waiting_run =
     map Plain
       [Append 1 [1, 2, 3, 4, 5, 6, 7, 8], LoadMaster 1, TryWrite 1,
        Append 1 [1, 2, 3, 4, 5, 6, 7, 9], LoadMaster 1, TryWrite 1, LockSwap 1, LoadMaster 1, TryWrite 1,
        Append 2 [2, 2, 3, 4, 5, 6, 7, 8], LoadMaster 2, TryWrite 2, LockSwap 2,
        Append 1 [3, 2, 3, 4, 5, 6, 7, 9], LoadMaster 1, TryWrite 1, LockSwap 1,
        StrandNext, DrainSeal, DrainSync, DrainFrame True, DrainFrame True, DrainReset]
     @ [SPush, SNotifyOne (Some 1)]"

theorem store_wakeups_not_lost_witness:
  "\<exists>r. run_acts swexec waiting_run (wstore_of small_store) = Some r
     \<and> ws_free_cv r = [2] \<and> ws_woken r = [1] \<and> free (ws_store r) = [0]
     \<and> run_acts store_exec (sw_abs_run waiting_run (wstore_of small_store)) small_store = Some (ws_store r)
     \<and> (free (ws_store r) \<noteq> [] \<longrightarrow> ws_free_cv r = [] \<or> ws_woken r \<noteq> [] \<or> ws_owed r)"
proof -
  define r where "r = the (run_acts swexec waiting_run (wstore_of small_store))"
  have run: "run_acts swexec waiting_run (wstore_of small_store) = Some r \<and> ws_free_cv r = [2] \<and> ws_woken r = [1]
      \<and> free (ws_store r) = [0]"
    unfolding r_def
    by (simp add: store_eval waiting_run_def wstore_of_def on_wstore_def enqueue_waiter_def wake_free_def)
  with store_wakeups_not_lost [of small_store waiting_run r] small_started show ?thesis by blast
qed

text \<open>
  \<open>SwapMasterLocked_\<close> ignores the master its caller has found full (its parameter \<open>expected\<close>). Both threads of
  \<open>waiting_run\<close> wait because of the same full master; the first one woken replaces it, and the second, woken later, swaps out the
  new master, into which nobody has written yet: an empty buffer goes to the drain.
\<close>

definition second_waiter_run :: "swact list" where
  "second_waiter_run =
     waiting_run @ [SLookFree 1, SDec]
     @ map Plain [StrandNext, DrainSeal, DrainSync, DrainFrame True, DrainFrame True, DrainReset]
     @ [SPush, SNotifyOne (Some 2), SLookFree 2]"

theorem waiter_swaps_untouched_master:
  "\<exists>r. run_acts swexec second_waiter_run (wstore_of small_store) = Some r
     \<and> queue (ws_store r) = [0] \<and> master (ws_store r) = 1 \<and> Used (pool (ws_store r) ! 0) = 0"
  by (simp add: store_eval second_waiter_run_def waiting_run_def wstore_of_def on_wstore_def enqueue_waiter_def wake_free_def)

end
