(* ===== verification/Thread_Pool.thy ===== *)
theory Thread_Pool
  imports Logger_Prelude "HOL-Library.Multiset"
begin

text \<open>
  \<open>context/thread_pool.h\<close> and \<open>.cpp\<close>: the elastic pool, as atomic steps of its worker threads and of the
  threads that call \<open>Enqueue_\<close> and \<open>Shutdown\<close>. A critical section is one step; a time-out of a
  worker's wait may happen at any moment at which its predicate is false. Tasks are identified by
  numbers; what a task does is not looked at here (an exception it throws is swallowed by the code).
  Shown: the bounds on the number of workers, the conservation of tasks, and that \<open>Shutdown\<close>
  returns only when every queued task has run. Pool_Reap, Pool_Wakeups and Pool_Futures refine this model: joining in \<open>ReapLocked_\<close>,
  the condition variable, and what the tasks do.
\<close>

section \<open>Configuration\<close>

record pool_cfg =
  min_threads :: nat
  max_threads :: nat
  scale_factor :: nat

definition Default :: "nat \<Rightarrow> pool_cfg" where
  "Default hw =
     (let base = (if hw = 0 then 4 else hw); mn = max 1 (base div 4)
      in \<lparr>min_threads = mn, max_threads = max (mn + 1) base, scale_factor = 2\<rparr>)"

definition fix_cfg :: "pool_cfg \<Rightarrow> pool_cfg" where
  "fix_cfg c =
     (let c1 = (if min_threads c = 0 then c\<lparr>min_threads := 1\<rparr> else c);
          c2 = (if max_threads c1 < min_threads c1 then c1\<lparr>max_threads := min_threads c1\<rparr> else c1)
      in if scale_factor c2 = 0 then c2\<lparr>scale_factor := 1\<rparr> else c2)"

section \<open>State\<close>

text \<open>A worker thread: not yet created, at the top of its loop, running a task, exited.\<close>

datatype worker = Unborn | Looping | Running nat | Exited

text \<open>
  A caller: at rest; in \<open>Enqueue_\<close> after the first check of \<open>stopped_\<close>; in \<open>Enqueue_\<close> with
  \<open>need_spawn\<close> set; in \<open>Shutdown\<close> after setting \<open>stopped_\<close>, and joining the threads taken; back from
  \<open>Shutdown\<close>.
\<close>

datatype caller = Rest | EnqLocking nat | EnqSpawning | ShutTaking | ShutJoining "nat list" | ShutDone

text \<open>History no step reads: \<open>submitted\<close>, the tasks passed to \<open>Enqueue_\<close>, and \<open>finished\<close>.\<close>

record pool =
  pcfg :: pool_cfg
  tasks :: "nat list"
  workers :: "nat list"
  reap :: "nat list"
  worker_count :: nat
  pstopped :: bool
  threads :: "nat \<Rightarrow> worker"
  born :: nat
  callers :: "nat \<Rightarrow> caller"
  submitted :: "nat list"
  finished :: "nat list"

definition SpawnLocked :: "pool \<Rightarrow> pool" where
  "SpawnLocked p =
     p\<lparr>threads := (threads p)(born p := Looping), born := born p + 1,
       workers := born p # workers p, worker_count := worker_count p + 1\<rparr>"

fun spawn_n :: "nat \<Rightarrow> pool \<Rightarrow> pool" where
  "spawn_n 0 p = p"
| "spawn_n (Suc n) p = spawn_n n (SpawnLocked p)"

definition ThreadPool :: "pool_cfg \<Rightarrow> pool" where
  "ThreadPool c =
     (let c = fix_cfg c
      in spawn_n (min_threads c)
        \<lparr>pcfg = c, tasks = [], workers = [], reap = [], worker_count = 0, pstopped = False,
         threads = (\<lambda>_. Unborn), born = 0, callers = (\<lambda>_. Rest), submitted = [], finished = []\<rparr>)"

section \<open>Steps\<close>

datatype pact =
    Enqueue nat nat
  | EnqLock nat
  | EnqSpawn nat
  | Shutdown nat
  | ShutTake nat
  | ShutJoin nat
  | Take nat
  | ExitStopped nat
  | IdleTimeout nat
  | Finish nat

text \<open>The test of \<open>need_spawn\<close>, made twice by the code.\<close>

definition wants_worker :: "pool \<Rightarrow> bool" where
  "wants_worker p \<longleftrightarrow>
     worker_count p < max_threads (pcfg p)
     \<and> worker_count p * scale_factor (pcfg p) < length (tasks p)"

text \<open>The part of \<open>WorkerLoop_\<close> under \<open>should_exit\<close>.\<close>

definition leave_pool :: "nat \<Rightarrow> pool \<Rightarrow> pool" where
  "leave_pool w p =
     (let p1 = (if w \<in> set (workers p)
                then p\<lparr>reap := reap p @ [w], workers := remove1 w (workers p)\<rparr> else p)
      in p1\<lparr>worker_count := worker_count p - 1, threads := (threads p)(w := Exited)\<rparr>)"

definition set_caller :: "nat \<Rightarrow> caller \<Rightarrow> pool \<Rightarrow> pool" where
  "set_caller c x p = p\<lparr>callers := (callers p)(c := x)\<rparr>"

definition idle_caller :: "caller \<Rightarrow> bool" where
  "idle_caller x \<longleftrightarrow> x = Rest \<or> x = ShutDone"

fun pexec :: "pact \<Rightarrow> pool \<Rightarrow> pool option" where
  "pexec (Enqueue c t) p =
     (if \<not> idle_caller (callers p c) then None
      else if pstopped p
        then Some (set_caller c Rest (p\<lparr>submitted := submitted p @ [t], finished := finished p @ [t]\<rparr>))
        else Some (set_caller c (EnqLocking t) (p\<lparr>submitted := submitted p @ [t]\<rparr>)))"
| "pexec (EnqLock c) p =
     (case callers p c of
        EnqLocking t \<Rightarrow>
          (if pstopped p then Some (set_caller c Rest (p\<lparr>finished := finished p @ [t]\<rparr>))
           else
             let p1 = p\<lparr>reap := [], tasks := tasks p @ [t]\<rparr>
             in Some (set_caller c (if wants_worker p1 then EnqSpawning else Rest) p1))
      | _ \<Rightarrow> None)"
| "pexec (EnqSpawn c) p =
     (if callers p c = EnqSpawning then
        Some (set_caller c Rest (if \<not> pstopped p \<and> wants_worker p then SpawnLocked p else p))
      else None)"
| "pexec (Shutdown c) p =
     (if \<not> idle_caller (callers p c) then None
      else if pstopped p then Some (set_caller c Rest p)
      else Some (set_caller c ShutTaking (p\<lparr>pstopped := True\<rparr>)))"
| "pexec (ShutTake c) p =
     (if callers p c = ShutTaking then
        Some (set_caller c (ShutJoining (workers p @ reap p)) (p\<lparr>workers := [], reap := []\<rparr>))
      else None)"
| "pexec (ShutJoin c) p =
     (case callers p c of
        ShutJoining ws \<Rightarrow>
          (if \<forall>w\<in>set ws. threads p w = Exited then Some (set_caller c ShutDone p) else None)
      | _ \<Rightarrow> None)"
| "pexec (Take w) p =
     (case (threads p w, tasks p) of
        (Looping, t # ts) \<Rightarrow> Some (p\<lparr>tasks := ts, threads := (threads p)(w := Running t)\<rparr>)
      | _ \<Rightarrow> None)"
| "pexec (ExitStopped w) p =
     (if threads p w = Looping \<and> tasks p = [] \<and> pstopped p then Some (leave_pool w p) else None)"
| "pexec (IdleTimeout w) p =
     (if threads p w = Looping \<and> tasks p = [] \<and> \<not> pstopped p then
        Some (if min_threads (pcfg p) < worker_count p then leave_pool w p else p)
      else None)"
| "pexec (Finish w) p =
     (case threads p w of
        Running t \<Rightarrow> Some (p\<lparr>finished := finished p @ [t], threads := (threads p)(w := Looping)\<rparr>)
      | _ \<Rightarrow> None)"

definition pool_step :: "pool \<Rightarrow> pool \<Rightarrow> bool" where
  "pool_step = acts_step pexec"

section \<open>The invariant\<close>

definition live :: "pool \<Rightarrow> nat set" where
  "live p = {w. w < born p \<and> threads p w \<noteq> Exited}"

fun held :: "worker \<Rightarrow> nat list" where
  "held (Running t) = [t]"
| "held _ = []"

fun entering :: "caller \<Rightarrow> nat list" where
  "entering (EnqLocking t) = [t]"
| "entering _ = []"

definition shape_ok :: "pool \<Rightarrow> bool" where
  "shape_ok p \<longleftrightarrow>
     (\<forall>w. threads p w = Unborn \<longleftrightarrow> born p \<le> w)
     \<and> worker_count p = card (live p)
     \<and> worker_count p \<le> max_threads (pcfg p)
     \<and> distinct (workers p) \<and> (\<forall>w\<in>set (reap p). threads p w = Exited)
     \<and> (\<not> pstopped p \<longrightarrow> set (workers p) = live p \<and> min_threads (pcfg p) \<le> worker_count p)
     \<and> 1 \<le> min_threads (pcfg p)
     \<and> (pstopped p \<longrightarrow> tasks p \<noteq> [] \<longrightarrow> live p \<noteq> {})"

text \<open>
  Who is in \<open>Shutdown\<close>: nobody before it, and the one thread inside has, or is about to take, every
  worker still alive.
\<close>

definition shut_ok :: "pool \<Rightarrow> bool" where
  "shut_ok p \<longleftrightarrow>
     (\<forall>c. (callers p c = ShutTaking \<longrightarrow> pstopped p \<and> live p \<subseteq> set (workers p))
        \<and> (\<forall>ws. callers p c = ShutJoining ws \<longrightarrow> pstopped p \<and> live p \<subseteq> set ws)
        \<and> (callers p c = ShutDone \<longrightarrow> pstopped p \<and> live p = {}))
     \<and> (\<forall>c d. callers p c = ShutTaking \<longrightarrow> callers p d = ShutTaking \<longrightarrow> c = d)"

text \<open>\<open>cs\<close> holds every caller between its two checks of \<open>stopped_\<close>.\<close>

definition entering_sum :: "(nat \<Rightarrow> caller) \<Rightarrow> nat multiset \<Rightarrow> bool" where
  "entering_sum f m \<longleftrightarrow>
     (\<exists>cs. finite cs \<and> (\<forall>c. c \<notin> cs \<longrightarrow> entering (f c) = []) \<and> m = (\<Sum>c\<in>cs. mset (entering (f c))))"

definition held_sum :: "pool \<Rightarrow> nat multiset" where
  "held_sum p = (\<Sum>w<born p. mset (held (threads p w)))"

definition tasks_ok :: "pool \<Rightarrow> bool" where
  "tasks_ok p \<longleftrightarrow>
     (\<exists>m. entering_sum (callers p) m
        \<and> mset (submitted p) = mset (finished p) + mset (tasks p) + held_sum p + m)"

definition pinv :: "pool \<Rightarrow> bool" where
  "pinv p \<longleftrightarrow> shape_ok p \<and> shut_ok p \<and> tasks_ok p"

section \<open>Sums over threads\<close>

lemma entering_upd:
  assumes "entering_sum f m"
  shows "\<exists>k. entering_sum (f(c := x)) k \<and> k + mset (entering (f c)) = m + mset (entering x)"
proof -
  obtain cs where cs: "finite cs" "\<forall>c. c \<notin> cs \<longrightarrow> entering (f c) = []" "m = (\<Sum>c\<in>cs. mset (entering (f c)))"
    using assms by (auto simp: entering_sum_def)
  let ?r = "\<Sum>d\<in>cs - {c}. mset (entering (f d))"
  have m: "m = mset (entering (f c)) + ?r"
    using cs sum.remove [of cs c "\<lambda>c. mset (entering (f c))"] by (cases "c \<in> cs") auto
  have "entering_sum (f(c := x)) (mset (entering x) + ?r)"
    unfolding entering_sum_def
  proof (intro exI [of _ "insert c cs"] conjI)
    have "(\<Sum>d\<in>insert c cs. mset (entering ((f(c := x)) d))) =
        mset (entering x) + (\<Sum>d\<in>cs - {c}. mset (entering ((f(c := x)) d)))"
      using cs(1) by (simp add: sum.insert_remove)
    also have "(\<Sum>d\<in>cs - {c}. mset (entering ((f(c := x)) d))) = ?r" by (intro sum.cong) auto
    finally show "mset (entering x) + ?r = (\<Sum>d\<in>insert c cs. mset (entering ((f(c := x)) d)))" by simp
  qed (use cs in auto)
  then show ?thesis using m by (intro exI [of _ "mset (entering x) + ?r"]) (simp add: ac_simps)
qed

lemma entering_same:
  "entering_sum f m \<Longrightarrow> entering (f c) = entering x \<Longrightarrow> entering_sum (f(c := x)) m"
  using entering_upd [of f m c x] by auto

lemma held_upd:
  assumes "w < born p" and "born p' = born p" and "threads p' = (threads p)(w := x)"
  shows "held_sum p' + mset (held (threads p w)) = held_sum p + mset (held x)"
proof -
  have "held_sum p' = mset (held x) + (\<Sum>v\<in>{..<born p} - {w}. mset (held (threads p' v)))"
    using assms sum.remove [of "{..<born p}" w "\<lambda>v. mset (held (threads p' v))"] by (simp add: held_sum_def)
  also have "(\<Sum>v\<in>{..<born p} - {w}. mset (held (threads p' v))) =
      (\<Sum>v\<in>{..<born p} - {w}. mset (held (threads p v)))"
    using assms(3) by (intro sum.cong) auto
  moreover have "held_sum p = mset (held (threads p w)) + (\<Sum>v\<in>{..<born p} - {w}. mset (held (threads p v)))"
    using assms sum.remove [of "{..<born p}" w "\<lambda>v. mset (held (threads p v))"] by (simp add: held_sum_def)
  ultimately show ?thesis by (simp add: ac_simps)
qed

lemma held_cong: "born p' = born p \<Longrightarrow> threads p' = threads p \<Longrightarrow> held_sum p' = held_sum p"
  by (simp add: held_sum_def)

section \<open>Every step keeps the invariant\<close>

lemma live_finite [simp]: "finite (live p)"
  by (simp add: live_def)

lemma live_cong: "born p' = born p \<Longrightarrow> threads p' = threads p \<Longrightarrow> live p' = live p"
  by (simp add: live_def)

lemma set_caller_simps [simp]:
  "pcfg (set_caller c x p) = pcfg p" "tasks (set_caller c x p) = tasks p"
  "workers (set_caller c x p) = workers p" "reap (set_caller c x p) = reap p"
  "worker_count (set_caller c x p) = worker_count p" "pstopped (set_caller c x p) = pstopped p"
  "threads (set_caller c x p) = threads p" "born (set_caller c x p) = born p"
  "callers (set_caller c x p) = (callers p)(c := x)" "submitted (set_caller c x p) = submitted p"
  "finished (set_caller c x p) = finished p" "live (set_caller c x p) = live p"
  "held_sum (set_caller c x p) = held_sum p"
  by (simp_all add: set_caller_def live_def held_sum_def)

lemma Spawn_simps [simp]:
  "pcfg (SpawnLocked p) = pcfg p" "tasks (SpawnLocked p) = tasks p"
  "workers (SpawnLocked p) = born p # workers p" "reap (SpawnLocked p) = reap p"
  "worker_count (SpawnLocked p) = worker_count p + 1" "pstopped (SpawnLocked p) = pstopped p"
  "callers (SpawnLocked p) = callers p" "submitted (SpawnLocked p) = submitted p"
  "finished (SpawnLocked p) = finished p" "threads (SpawnLocked p) = (threads p)(born p := Looping)"
  "born (SpawnLocked p) = born p + 1"
  by (simp_all add: SpawnLocked_def)

lemma Spawn_live [simp]: "live (SpawnLocked p) = insert (born p) (live p)"
  by (auto simp: live_def SpawnLocked_def less_Suc_eq)

lemma Spawn_held [simp]: "held_sum (SpawnLocked p) = held_sum p"
  by (simp add: held_sum_def SpawnLocked_def)

lemma Spawn_shape:
  assumes "shape_ok p" and "worker_count p < max_threads (pcfg p)" and "\<not> pstopped p"
  shows "shape_ok (SpawnLocked p)"
proof -
  have "born p \<notin> live p" by (simp add: live_def)
  moreover have "threads p (born p) = Unborn" using assms(1) by (simp add: shape_ok_def)
  moreover have "\<forall>w\<in>set (reap p). threads p w = Exited" using assms(1) by (simp add: shape_ok_def)
  ultimately have "born p \<notin> live p" "born p \<notin> set (reap p)" by auto
  then show ?thesis using assms by (auto simp: shape_ok_def)
qed

lemma shapeD:
  assumes "shape_ok p"
  shows "threads p w = Looping \<Longrightarrow> w \<in> live p" and "threads p w = Running t \<Longrightarrow> w \<in> live p"
    and "w \<in> live p \<Longrightarrow> w < born p" and "worker_count p = card (live p)" and "distinct (workers p)"
proof -
  have u: "threads p w = Unborn \<longleftrightarrow> born p \<le> w" using assms by (simp add: shape_ok_def)
  show "threads p w = Looping \<Longrightarrow> w \<in> live p" "threads p w = Running t \<Longrightarrow> w \<in> live p"
    using u by (auto simp: live_def not_le [symmetric])
  show "w \<in> live p \<Longrightarrow> w < born p" by (simp add: live_def)
  show "worker_count p = card (live p)" "distinct (workers p)" using assms by (simp_all add: shape_ok_def)
qed

text \<open>A worker leaves.\<close>

lemma leave_simps [simp]:
  "pcfg (leave_pool w p) = pcfg p" "tasks (leave_pool w p) = tasks p"
  "worker_count (leave_pool w p) = worker_count p - 1" "pstopped (leave_pool w p) = pstopped p"
  "threads (leave_pool w p) = (threads p)(w := Exited)" "born (leave_pool w p) = born p"
  "callers (leave_pool w p) = callers p" "submitted (leave_pool w p) = submitted p"
  "finished (leave_pool w p) = finished p"
  "workers (leave_pool w p) = (if w \<in> set (workers p) then remove1 w (workers p) else workers p)"
  "reap (leave_pool w p) = (if w \<in> set (workers p) then reap p @ [w] else reap p)"
  by (simp_all add: leave_pool_def Let_def)

lemma leave_live [simp]: "live (leave_pool w p) = live p - {w}"
  by (auto simp: live_def)

lemma leave_pinv:
  assumes inv: "pinv p" and w: "threads p w = Looping" "tasks p = []"
    and ok: "pstopped p \<or> min_threads (pcfg p) < worker_count p"
  shows "pinv (leave_pool w p)"
proof -
  have sh: "shape_ok p" and su: "shut_ok p" and ta: "tasks_ok p" using inv by (simp_all add: pinv_def)
  note l = shapeD [OF sh]
  have wl: "w \<in> live p" using l(1) w(1) by blast
  then have wb: "w < born p" by (rule l(3))
  have "shape_ok (leave_pool w p)"
    using sh wl w ok wb by (auto simp: shape_ok_def)
  moreover have "shut_ok (leave_pool w p)"
    using su l(5) by (auto simp: shut_ok_def)
  moreover have "held_sum (leave_pool w p) = held_sum p"
    using held_upd [OF wb, of "leave_pool w p" Exited] w(1) by simp
  then have "tasks_ok (leave_pool w p)" using ta by (simp add: tasks_ok_def)
  ultimately show ?thesis by (simp add: pinv_def)
qed

lemma worker_pinv:
  assumes inv: "pinv p" and ex: "pexec a p = Some p'"
    and a: "a \<in> {Take w, ExitStopped w, IdleTimeout w, Finish w}"
  shows "pinv p'"
proof -
  have sh: "shape_ok p" and su: "shut_ok p" and ta: "tasks_ok p" using inv by (simp_all add: pinv_def)
  note l = shapeD [OF sh]
  show ?thesis
    using a
  proof (elim insertE emptyE)
    assume "a = Take w"
    with ex obtain t ts where w: "threads p w = Looping" "tasks p = t # ts"
      and p': "p' = p\<lparr>tasks := ts, threads := (threads p)(w := Running t)\<rparr>"
      by (auto split: worker.splits list.splits)
    have wb: "w < born p" using l(1,3) w(1) by blast
    have lv: "live p' = live p" using w(1) by (auto simp: live_def p')
    have "shape_ok p'" using sh lv w wb by (auto simp: shape_ok_def p')
    moreover have "shut_ok p'" using su lv by (simp add: shut_ok_def p')
    moreover have "held_sum p' = held_sum p + {#t#}"
      using held_upd [OF wb, of p' "Running t"] w(1) by (simp add: p')
    then have "tasks_ok p'" using ta w(2) by (auto simp: tasks_ok_def p')
    ultimately show ?thesis by (simp add: pinv_def)
  next
    assume "a = Finish w"
    with ex obtain t where w: "threads p w = Running t"
      and p': "p' = p\<lparr>finished := finished p @ [t], threads := (threads p)(w := Looping)\<rparr>"
      by (auto split: worker.splits)
    have wb: "w < born p" using l(2,3) w(1) by blast
    have lv: "live p' = live p" using w(1) by (auto simp: live_def p')
    have "shape_ok p'" using sh lv w wb by (auto simp: shape_ok_def p')
    moreover have "shut_ok p'" using su lv by (simp add: shut_ok_def p')
    moreover have h: "held_sum p' + {#t#} = held_sum p"
      using held_upd [OF wb, of p' Looping] w(1) by (simp add: p')
    have "tasks_ok p'" using ta unfolding tasks_ok_def h [symmetric] by (auto simp: p')
    ultimately show ?thesis by (simp add: pinv_def)
  next
    assume "a = ExitStopped w"
    with ex leave_pinv [OF inv, of w] show ?thesis by (auto split: if_splits)
  next
    assume "a = IdleTimeout w"
    with ex inv leave_pinv [OF inv, of w] show ?thesis by (auto split: if_splits)
  qed
qed

text \<open>A caller moves.\<close>

lemma shut_caller:
  "shut_ok p \<Longrightarrow> x \<in> {Rest, EnqLocking t, EnqSpawning} \<Longrightarrow> shut_ok (set_caller c x p)"
  by (auto simp: shut_ok_def)

lemma rest_pinv:
  assumes "pinv p" and "callers p c = EnqSpawning"
  shows "pinv (set_caller c Rest p)"
proof -
  have sh: "shape_ok p" and su: "shut_ok p" using assms(1) by (simp_all add: pinv_def)
  obtain m where m: "entering_sum (callers p) m"
      "mset (submitted p) = mset (finished p) + mset (tasks p) + held_sum p + m"
    using assms(1) by (auto simp: pinv_def tasks_ok_def)
  have "shape_ok (set_caller c Rest p)" using sh by (auto simp: shape_ok_def)
  moreover have "shut_ok (set_caller c Rest p)" using su by (auto simp: shut_ok_def)
  moreover have "tasks_ok (set_caller c Rest p)"
    using entering_same [OF m(1), of c Rest] m(2) assms(2) by (auto simp: tasks_ok_def)
  ultimately show ?thesis by (simp add: pinv_def)
qed

lemma enqueue_pinv:
  assumes inv: "pinv p" and ex: "pexec a p = Some p'"
    and a: "a \<in> {Enqueue c t, EnqLock c, EnqSpawn c}"
  shows "pinv p'"
proof -
  have sh: "shape_ok p" and su: "shut_ok p" and ta: "tasks_ok p" using inv by (simp_all add: pinv_def)
  obtain m where m: "entering_sum (callers p) m"
      "mset (submitted p) = mset (finished p) + mset (tasks p) + held_sum p + m"
    using ta by (auto simp: tasks_ok_def)
  show ?thesis
    using a
  proof (elim insertE emptyE)
    assume a: "a = Enqueue c t"
    then have e: "entering (callers p c) = []"
      using ex by (auto simp: idle_caller_def split: if_splits)
    show ?thesis
    proof (cases "pstopped p")
      case True
      with ex a have p': "p' = set_caller c Rest (p\<lparr>submitted := submitted p @ [t], finished := finished p @ [t]\<rparr>)"
        by (simp split: if_splits)
      have "shape_ok p'" using sh by (auto simp: p' shape_ok_def live_def)
      moreover have "shut_ok p'" using su by (auto simp: p' shut_ok_def live_def)
      moreover have "entering_sum (callers p') m" using entering_same [OF m(1), of c Rest] e by (simp add: p')
      then have "tasks_ok p'" using m(2) by (auto simp: tasks_ok_def p' held_sum_def)
      ultimately show ?thesis by (simp add: pinv_def)
    next
      case False
      with ex a have p': "p' = set_caller c (EnqLocking t) (p\<lparr>submitted := submitted p @ [t]\<rparr>)"
        by (simp split: if_splits)
      have "shape_ok p'" using sh by (auto simp: p' shape_ok_def live_def)
      moreover have "shut_ok p'" using su by (auto simp: p' shut_ok_def live_def)
      moreover obtain k where "entering_sum (callers p') k" "k = m + {#t#}"
        using entering_upd [OF m(1), of c "EnqLocking t"] e by (auto simp: p')
      then have "tasks_ok p'" using m(2) by (auto simp: tasks_ok_def p' held_sum_def)
      ultimately show ?thesis by (simp add: pinv_def)
    qed
  next
    assume a: "a = EnqLock c"
    then obtain u where u: "callers p c = EnqLocking u" using ex by (auto split: caller.splits)
    show ?thesis
    proof (cases "pstopped p")
      case True
      with ex a u have p': "p' = set_caller c Rest (p\<lparr>finished := finished p @ [u]\<rparr>)" by simp
      have "shape_ok p'" using sh by (auto simp: p' shape_ok_def live_def)
      moreover have "shut_ok p'" using su by (auto simp: p' shut_ok_def live_def)
      moreover obtain k where "entering_sum (callers p') k" "k + {#u#} = m"
        using entering_upd [OF m(1), of c Rest] u by (auto simp: p')
      then have "tasks_ok p'" using m(2) by (auto simp: tasks_ok_def p' held_sum_def)
      ultimately show ?thesis by (simp add: pinv_def)
    next
      case False
      define p1 where "p1 = p\<lparr>reap := [], tasks := tasks p @ [u]\<rparr>"
      define x where "x = (if wants_worker p1 then EnqSpawning else Rest)"
      from False ex a u have p': "p' = set_caller c x p1" by (simp add: Let_def p1_def x_def)
      have x: "entering x = []" "x \<noteq> ShutTaking" "x \<noteq> ShutDone" "\<And>ws. x \<noteq> ShutJoining ws"
        by (simp_all add: x_def)
      have "shape_ok p'" using sh False by (auto simp: p' p1_def shape_ok_def live_def)
      moreover have "shut_ok p'" using su x by (auto simp: p' p1_def shut_ok_def live_def)
      moreover obtain k where "entering_sum (callers p') k" "k + {#u#} = m"
        using entering_upd [OF m(1), of c x] u x by (auto simp: p' p1_def)
      then have "tasks_ok p'" using m(2) by (auto simp: tasks_ok_def p' p1_def held_sum_def)
      ultimately show ?thesis by (simp add: pinv_def)
    qed
  next
    assume a: "a = EnqSpawn c"
    then have u: "callers p c = EnqSpawning" using ex by (simp split: if_splits)
    have k: "entering_sum ((callers p)(c := Rest)) m" using entering_same [OF m(1), of c Rest] u by simp
    show ?thesis
    proof (cases "\<not> pstopped p \<and> wants_worker p")
      case True
      with ex a u have p': "p' = set_caller c Rest (SpawnLocked p)" by simp
      have "shape_ok (SpawnLocked p)" using Spawn_shape [OF sh] True by (simp add: wants_worker_def)
      then have "shape_ok p'" by (auto simp: p' shape_ok_def)
      moreover have "shut_ok p'" using su True by (auto simp: p' shut_ok_def)
      moreover have "tasks_ok p'" using k m(2) by (auto simp: tasks_ok_def p')
      ultimately show ?thesis by (simp add: pinv_def)
    next
      case False
      with ex a u have "p' = set_caller c Rest p" by auto
      with rest_pinv [OF inv u] show ?thesis by simp
    qed
  qed
qed

lemma shutdown_pinv:
  assumes inv: "pinv p" and ex: "pexec a p = Some p'"
    and a: "a \<in> {Shutdown c, ShutTake c, ShutJoin c}"
  shows "pinv p'"
proof -
  have sh: "shape_ok p" and su: "shut_ok p" and ta: "tasks_ok p" using inv by (simp_all add: pinv_def)
  obtain m where m: "entering_sum (callers p) m"
      "mset (submitted p) = mset (finished p) + mset (tasks p) + held_sum p + m"
    using ta by (auto simp: tasks_ok_def)
  have keep: "tasks_ok p'" if "entering (callers p c) = []" "entering x = []" "callers p' = (callers p)(c := x)"
    "submitted p' = submitted p" "finished p' = finished p" "tasks p' = tasks p" "threads p' = threads p"
    "born p' = born p" for x
    using m(2) entering_same [OF m(1), of c x] that held_cong [of p' p] by (auto simp: tasks_ok_def)
  show ?thesis
    using a
  proof (elim insertE emptyE)
    assume a: "a = Shutdown c"
    then have i: "callers p c = Rest \<or> callers p c = ShutDone"
      using ex by (auto simp: idle_caller_def split: if_splits)
    show ?thesis
    proof (cases "pstopped p")
      case True
      with ex a have p': "p' = set_caller c Rest p" by (simp split: if_splits)
      have "shape_ok p'" using sh by (auto simp: p' shape_ok_def)
      moreover have "shut_ok p'" using su by (auto simp: p' shut_ok_def)
      moreover have "tasks_ok p'" by (rule keep [of Rest]) (use i in \<open>auto simp: p'\<close>)
      ultimately show ?thesis by (simp add: pinv_def)
    next
      case False
      with ex a have p': "p' = set_caller c ShutTaking (p\<lparr>pstopped := True\<rparr>)" by (simp split: if_splits)
      have lv: "live p' = live p" by (simp add: p' live_def)
      have "live p \<noteq> {}" using sh False by (auto simp: shape_ok_def)
      then have "shape_ok p'" using sh lv by (auto simp: p' shape_ok_def)
      moreover have "shut_ok p'" using su False sh lv by (auto simp: p' shut_ok_def shape_ok_def)
      moreover have "tasks_ok p'" by (rule keep [of ShutTaking]) (use i in \<open>auto simp: p'\<close>)
      ultimately show ?thesis by (simp add: pinv_def)
    qed
  next
    assume a: "a = ShutTake c"
    then have u: "callers p c = ShutTaking"
      and p': "p' = set_caller c (ShutJoining (workers p @ reap p)) (p\<lparr>workers := [], reap := []\<rparr>)"
      using ex by (simp_all split: if_splits)
    have st: "pstopped p" "live p \<subseteq> set (workers p)" using su u by (auto simp: shut_ok_def)
    have lv: "live p' = live p" by (simp add: p' live_def)
    have "shape_ok p'" using sh st lv by (auto simp: p' shape_ok_def)
    moreover have "d \<noteq> c \<Longrightarrow> callers p d \<noteq> ShutTaking" for d using su u by (auto simp: shut_ok_def)
    then have "shut_ok p'" using su st lv by (auto simp: p' shut_ok_def)
    moreover have "tasks_ok p'"
      by (rule keep [of "ShutJoining (workers p @ reap p)"]) (use u in \<open>auto simp: p'\<close>)
    ultimately show ?thesis by (simp add: pinv_def)
  next
    assume a: "a = ShutJoin c"
    then obtain ws where u: "callers p c = ShutJoining ws" "\<forall>w\<in>set ws. threads p w = Exited"
      and p': "p' = set_caller c ShutDone p"
      using ex by (auto split: caller.splits if_splits)
    have st: "pstopped p" "live p \<subseteq> set ws" using su u by (auto simp: shut_ok_def)
    then have "live p = {}" using u(2) by (auto simp: live_def)
    then have "shut_ok p'" using su st by (auto simp: p' shut_ok_def)
    moreover have "shape_ok p'" using sh by (auto simp: p' shape_ok_def)
    moreover have "tasks_ok p'" by (rule keep [of ShutDone]) (use u in \<open>auto simp: p'\<close>)
    ultimately show ?thesis by (simp add: pinv_def)
  qed
qed

lemma pool_pinv: "pexec a p = Some p' \<Longrightarrow> pinv p \<Longrightarrow> pinv p'"
  by (cases a) (blast intro: worker_pinv enqueue_pinv shutdown_pinv)+

section \<open>Construction\<close>

lemma fix_cfg_bounds:
  "1 \<le> min_threads (fix_cfg c) \<and> min_threads (fix_cfg c) \<le> max_threads (fix_cfg c) \<and> 1 \<le> scale_factor (fix_cfg c)"
  by (auto simp: fix_cfg_def Let_def)

text \<open>While the constructor spawns: everything but the lower bound.\<close>

definition filling :: "pool \<Rightarrow> nat \<Rightarrow> bool" where
  "filling p n \<longleftrightarrow>
     (\<forall>w. threads p w = (if w < n then Looping else Unborn)) \<and> born p = n \<and> worker_count p = n
     \<and> distinct (workers p) \<and> set (workers p) = {..<n} \<and> reap p = [] \<and> tasks p = [] \<and> \<not> pstopped p
     \<and> (\<forall>c. callers p c = Rest) \<and> submitted p = [] \<and> finished p = []"

lemma filling_spawn:
  "filling p k \<Longrightarrow> filling (spawn_n n p) (k + n) \<and> pcfg (spawn_n n p) = pcfg p"
proof (induction n arbitrary: p k)
  case (Suc n)
  have "filling (SpawnLocked p) (k + 1)"
    using Suc.prems by (auto simp: filling_def less_Suc_eq)
  from Suc.IH [OF this] show ?case by simp
qed simp

lemma filled: "filling (ThreadPool c) (min_threads (fix_cfg c)) \<and> pcfg (ThreadPool c) = fix_cfg c"
  using filling_spawn [of "\<lparr>pcfg = fix_cfg c, tasks = [], workers = [], reap = [], worker_count = 0,
      pstopped = False, threads = (\<lambda>_. Unborn), born = 0, callers = (\<lambda>_. Rest), submitted = [],
      finished = []\<rparr>" 0 "min_threads (fix_cfg c)"]
  by (simp add: ThreadPool_def Let_def filling_def)

lemma pinv_start: "pinv (ThreadPool c)"
proof -
  let ?p = "ThreadPool c" and ?n = "min_threads (fix_cfg c)"
  have f: "filling ?p ?n" and c: "pcfg ?p = fix_cfg c" using filled [of c] by auto
  have lv: "live ?p = {..<?n}" using f by (auto simp: filling_def live_def)
  have "shape_ok ?p"
    using f fix_cfg_bounds [of c] by (simp add: shape_ok_def lv c) (simp add: filling_def)
  moreover have "shut_ok ?p" using f by (simp add: shut_ok_def filling_def)
  moreover have "entering_sum (callers ?p) {#}"
    using f by (auto simp: entering_sum_def filling_def intro: exI [of _ "{}"])
  moreover have "held_sum ?p = {#}" using f by (simp add: held_sum_def filling_def)
  ultimately show ?thesis using f by (auto simp: pinv_def tasks_ok_def filling_def)
qed

interpretation tp: invariant_system "\<lambda>p. \<exists>c. p = ThreadPool c" pool_step pinv
  by unfold_locales (auto simp: pool_step_def acts_step_def pinv_start pool_pinv)

lemma reachable_pinv: "pool_step\<^sup>*\<^sup>* (ThreadPool c) p \<Longrightarrow> pinv p"
  using tp.reachable_inv by blast

lemma pcfg_step: "pexec a p = Some p' \<Longrightarrow> pcfg p' = pcfg p"
  by (cases a) (auto simp: Let_def split: if_splits caller.splits worker.splits list.splits)

lemma reachable_cfg: "pool_step\<^sup>*\<^sup>* (ThreadPool c) p \<Longrightarrow> pcfg p = fix_cfg c"
proof (induction rule: rtranclp_induct)
  case base
  then show ?case using filled by blast
next
  case (step p q)
  then show ?case using pcfg_step by (auto simp: pool_step_def acts_step_def)
qed

lemma shut_done_drained:
  assumes inv: "pinv p" and "callers p d = ShutDone"
  shows "live p = {} \<and> tasks p = []
    \<and> (\<exists>m. entering_sum (callers p) m \<and> mset (submitted p) = mset (finished p) + m)"
proof -
  have lv: "live p = {}" "pstopped p" using assms by (auto simp: pinv_def shut_ok_def)
  then have t: "tasks p = []" using inv by (auto simp: pinv_def shape_ok_def)
  have "held (threads p w) = []" if "w < born p" for w
    using lv(1) that by (auto simp: live_def)
  then have "held_sum p = {#}" by (simp add: held_sum_def)
  then show ?thesis using inv lv t by (auto simp: pinv_def tasks_ok_def)
qed

section \<open>Properties\<close>

text \<open>
  C33. The pool is elastic within its bounds: in every interleaving, while it is not stopped, the number of
  live workers is \<open>worker_count_\<close>, at least \<open>min_threads\<close> (which is positive after normalisation, so a queued
  task always has a worker) and at most \<open>max_threads\<close>; after \<open>Shutdown\<close> it is still never above it.
\<close>

theorem workers_within_bounds:
  assumes "pool_step\<^sup>*\<^sup>* (ThreadPool c) p"
  shows "card (live p) = worker_count p \<and> worker_count p \<le> max_threads (fix_cfg c)
    \<and> (pstopped p \<or> 1 \<le> min_threads (fix_cfg c) \<and> min_threads (fix_cfg c) \<le> worker_count p)"
  using reachable_pinv [OF assms] reachable_cfg [OF assms] by (auto simp: pinv_def shape_ok_def)

text \<open>A run: one worker, two tasks submitted at once make a second worker, a third runs after shutdown.\<close>

definition pool_run :: "pact list" where
  "pool_run = [Enqueue 9 100, EnqLock 9, Enqueue 8 101, EnqLock 8, EnqSpawn 8, Take 0, Take 1, Finish 1,
     Enqueue 9 102, EnqLock 9, Shutdown 7, ShutTake 7, Finish 0, Take 0, Enqueue 9 103, Finish 0,
     ExitStopped 1, ExitStopped 0, ShutJoin 7]"

definition small_pool :: pool_cfg where
  "small_pool = \<lparr>min_threads = 1, max_threads = 2, scale_factor = 1\<rparr>"

lemmas pool_eval = ThreadPool_def small_pool_def fix_cfg_def Let_def SpawnLocked_def wants_worker_def
  leave_pool_def set_caller_def idle_caller_def

theorem workers_within_bounds_witness:
  "\<exists>p. run_acts pexec (take 5 pool_run) (ThreadPool small_pool) = Some p \<and> worker_count p = 2
     \<and> card (live p) = worker_count p \<and> worker_count p \<le> max_threads (fix_cfg small_pool)
     \<and> (pstopped p \<or> 1 \<le> min_threads (fix_cfg small_pool) \<and> min_threads (fix_cfg small_pool) \<le> worker_count p)"
proof -
  define p where "p = the (run_acts pexec (take 5 pool_run) (ThreadPool small_pool))"
  have run: "run_acts pexec (take 5 pool_run) (ThreadPool small_pool) = Some p \<and> worker_count p = 2"
    unfolding p_def by (simp add: pool_eval pool_run_def)
  then have "pool_step\<^sup>*\<^sup>* (ThreadPool small_pool) p" unfolding pool_step_def by (elim conjE) (rule run_acts_steps)
  with workers_within_bounds [of small_pool p] run show ?thesis by blast
qed



text \<open>
  The default configuration is at least two threads wide: on a machine with one hardware thread the pool may
  grow to two workers, not to \<open>hardware_concurrency\<close> as the README says; on any other the maximum is that number
  (4 when it is unknown).
\<close>

theorem default_pool_size:
  "max_threads (Default hw) = (if hw = 0 then 4 else if hw = 1 then 2 else hw)
     \<and> min_threads (Default hw) = max 1 ((if hw = 0 then 4 else hw) div 4)
     \<and> fix_cfg (Default hw) = Default hw"
  by (auto simp: Default_def fix_cfg_def Let_def max_def)

end
