(* ===== verification/Pool_Drain.thy ===== *)
theory Pool_Drain
  imports Thread_Pool
begin

text \<open>
  \<open>ThreadPool::Shutdown\<close> comes back: from any reachable state in which a thread is inside it, the
  workers need a bounded number of steps to run what is queued and to leave, whatever the other callers do not do.
  The accessors of the pool are here too.
\<close>

section \<open>Accessors\<close>

definition WorkerCount :: "pool \<Rightarrow> nat" where
  "WorkerCount p = worker_count p"

definition QueueSize :: "pool \<Rightarrow> nat" where
  "QueueSize p = length (tasks p)"

definition Stopped :: "pool \<Rightarrow> bool" where
  "Stopped p = pstopped p"

section \<open>Every thread that is joined exists\<close>

definition born_ok :: "pool \<Rightarrow> bool" where
  "born_ok p \<longleftrightarrow>
     (\<forall>w\<in>set (workers p) \<union> set (reap p). w < born p)
     \<and> (\<forall>c ws. callers p c = ShutJoining ws \<longrightarrow> (\<forall>w\<in>set ws. w < born p))
     \<and> (\<forall>w. threads p w \<noteq> Unborn \<longrightarrow> w < born p)"

lemma born_leave:
  "born_ok p \<Longrightarrow> threads p w = Looping \<Longrightarrow> born_ok (leave_pool w p)"
  by (auto simp: born_ok_def dest: in_set_remove1 [THEN iffD1, rotated] set_remove1_subset [THEN subsetD])

lemma born_spawn: "born_ok p \<Longrightarrow> born_ok (SpawnLocked p)"
  by (auto simp: born_ok_def less_Suc_eq)

lemma born_caller: "born_ok p \<Longrightarrow> (\<And>ws. x \<noteq> ShutJoining ws) \<Longrightarrow> born_ok (set_caller c x p)"
  by (auto simp: born_ok_def)

lemma born_step:
  assumes ex: "pexec a p = Some p'" and inv: "born_ok p"
  shows "born_ok p'"
proof (cases a)
  case (EnqSpawn c)
  then show ?thesis using ex born_caller [OF born_spawn [OF inv]] born_caller [OF inv] by (auto split: if_splits)
next
  case (ExitStopped w)
  then show ?thesis using ex born_leave [OF inv] by (auto split: if_splits)
next
  case (IdleTimeout w)
  then show ?thesis using ex born_leave [OF inv] inv by (auto split: if_splits)
qed (use ex inv in \<open>(auto simp: born_ok_def Let_def split: if_splits caller.splits worker.splits list.splits)[1]\<close>)+

lemma born_start: "born_ok (ThreadPool c)"
  using filled [of c] by (auto simp: born_ok_def filling_def)

interpretation tb: invariant_system "\<lambda>p. \<exists>c. p = ThreadPool c" pool_step "\<lambda>p. pinv p \<and> born_ok p"
  by unfold_locales (auto simp: pool_step_def acts_step_def pinv_start pool_pinv born_start born_step)

section \<open>The work left\<close>

fun thread_work :: "worker \<Rightarrow> nat" where
  "thread_work (Running t) = 2"
| "thread_work Looping = 1"
| "thread_work w = 0"

fun caller_work :: "caller \<Rightarrow> nat" where
  "caller_work ShutTaking = 2"
| "caller_work (ShutJoining ws) = 1"
| "caller_work c = 0"

definition pool_work :: "nat \<Rightarrow> pool \<Rightarrow> nat" where
  "pool_work d p = 2 * length (tasks p) + (\<Sum>w<born p. thread_work (threads p w)) + caller_work (callers p d)"

definition in_shutdown :: "caller \<Rightarrow> bool" where
  "in_shutdown c \<longleftrightarrow> c = ShutTaking \<or> (\<exists>ws. c = ShutJoining ws)"

text \<open>The steps of the workers and of the thread inside \<open>Shutdown\<close>.\<close>

fun draining :: "nat \<Rightarrow> pact \<Rightarrow> bool" where
  "draining d (Take w) = True"
| "draining d (Finish w) = True"
| "draining d (ExitStopped w) = True"
| "draining d (ShutTake c) = (c = d)"
| "draining d (ShutJoin c) = (c = d)"
| "draining d a = False"

lemma thread_sum:
  assumes "w < born p"
  shows "(\<Sum>v<born p. thread_work (((threads p)(w := x)) v)) + thread_work (threads p w)
    = (\<Sum>v<born p. thread_work (threads p v)) + thread_work x"
proof -
  let ?r = "\<Sum>v\<in>{..<born p} - {w}. thread_work (threads p v)"
  have "(\<Sum>v\<in>{..<born p} - {w}. thread_work (((threads p)(w := x)) v)) = ?r" by (intro sum.cong) auto
  then have "(\<Sum>v<born p. thread_work (((threads p)(w := x)) v)) = thread_work x + ?r"
    using assms sum.remove [of "{..<born p}" w "\<lambda>v. thread_work (((threads p)(w := x)) v)"] by simp
  moreover have "(\<Sum>v<born p. thread_work (threads p v)) = thread_work (threads p w) + ?r"
    using assms sum.remove [of "{..<born p}" w "\<lambda>v. thread_work (threads p v)"] by simp
  ultimately show ?thesis by simp
qed

text \<open>One of these steps is possible and brings the end nearer.\<close>

lemma pool_moves:
  assumes inv: "pinv p" and b: "born_ok p" and d: "in_shutdown (callers p d)"
  shows "\<exists>a p'. draining d a \<and> pexec a p = Some p' \<and> pool_work d p' < pool_work d p
    \<and> (in_shutdown (callers p' d) \<or> callers p' d = ShutDone)"
proof -
  have st: "pstopped p" using inv d by (auto simp: pinv_def shut_ok_def in_shutdown_def)
  have go: ?thesis if "draining d a" "pexec a p = Some p'" "pool_work d p' < pool_work d p"
      "in_shutdown (callers p' d) \<or> callers p' d = ShutDone" for a p'
    using that by blast
  consider (busy) w t where "threads p w = Running t"
    | (queued) w t ts where "threads p w = Looping" "tasks p = t # ts"
    | (idle) w where "threads p w = Looping" "tasks p = []"
    | (over) "live p = {}" "tasks p = []"
  proof (cases "live p = {}")
    case True
    with inv st have "tasks p = []" by (auto simp: pinv_def shape_ok_def)
    with True show ?thesis using that(4) by blast
  next
    case False
    then obtain w where w: "w < born p" "threads p w \<noteq> Exited" by (auto simp: live_def)
    moreover have "threads p w \<noteq> Unborn" using inv w(1) by (auto simp: pinv_def shape_ok_def)
    ultimately show ?thesis using that(1,2,3) by (cases "threads p w"; cases "tasks p") auto
  qed
  then show ?thesis
  proof cases
    case (busy w t)
    then have w: "w < born p" using b by (simp add: born_ok_def)
    show ?thesis
      by (rule go [of "Finish w" "p\<lparr>finished := finished p @ [t], threads := (threads p)(w := Looping)\<rparr>"])
        (use busy d thread_sum [OF w, of Looping] in \<open>simp_all add: pool_work_def\<close>)
  next
    case (queued w t ts)
    then have w: "w < born p" using b by (simp add: born_ok_def)
    show ?thesis
      by (rule go [of "Take w" "p\<lparr>tasks := ts, threads := (threads p)(w := Running t)\<rparr>"])
        (use queued d thread_sum [OF w, of "Running t"] in \<open>simp_all add: pool_work_def\<close>)
  next
    case (idle w)
    then have w: "w < born p" using b by (simp add: born_ok_def)
    show ?thesis
      by (rule go [of "ExitStopped w" "leave_pool w p"])
        (use idle st d thread_sum [OF w, of Exited] in \<open>simp_all add: pool_work_def\<close>)
  next
    case over
    have ex: "threads p w = Exited" if "w < born p" for w using over(1) that by (auto simp: live_def)
    show ?thesis
    proof (cases "callers p d")
      case ShutTaking
      then show ?thesis
        by (intro go [of "ShutTake d" "set_caller d (ShutJoining (workers p @ reap p)) (p\<lparr>workers := [], reap := []\<rparr>)"])
          (simp_all add: pool_work_def in_shutdown_def)
    next
      case (ShutJoining ws)
      then have "\<forall>w\<in>set ws. threads p w = Exited" using ex b by (auto simp: born_ok_def)
      with ShutJoining show ?thesis
        by (intro go [of "ShutJoin d" "set_caller d ShutDone p"]) (simp_all add: pool_work_def)
    qed (use d in \<open>simp_all add: in_shutdown_def\<close>)
  qed
qed

text \<open>
  C10. \<open>Shutdown\<close> returns: from any reachable state in which a thread is inside \<open>Shutdown\<close>, the workers and that
  thread alone can bring it to an end, in at most two steps per queued task, two per busy and one per idle worker, and
  two of its own; then no worker is alive and nothing is queued.
\<close>

theorem shutdown_returns:
  assumes "pool_step\<^sup>*\<^sup>* (ThreadPool c) p" and "in_shutdown (callers p d)"
  shows "\<exists>as p'. run_acts pexec as p = Some p' \<and> length as \<le> pool_work d p \<and> list_all (draining d) as
    \<and> callers p' d = ShutDone \<and> WorkerCount p' = 0 \<and> QueueSize p' = 0"
proof -
  have "pinv p \<and> born_ok p" using tb.reachable_inv [OF _ assms(1)] by blast
  then show ?thesis
    using assms(2)
  proof (induction "pool_work d p" arbitrary: p rule: less_induct)
    case less
    from pool_moves [of p d] less.prems obtain a p1 where a: "draining d a" "pexec a p = Some p1"
      "pool_work d p1 < pool_work d p" "in_shutdown (callers p1 d) \<or> callers p1 d = ShutDone" by blast
    have inv: "pinv p1 \<and> born_ok p1" using less.prems(1) pool_pinv born_step a(2) by blast
    show ?case
    proof (cases "callers p1 d = ShutDone")
      case True
      then have "live p1 = {}" "pstopped p1" using inv by (auto simp: pinv_def shut_ok_def)
      then have "WorkerCount p1 = 0 \<and> QueueSize p1 = 0"
        using inv by (auto simp: pinv_def shape_ok_def WorkerCount_def QueueSize_def)
      with a True show ?thesis by (intro exI [of _ "[a]"] exI [of _ p1]) simp
    next
      case False
      with a(4) have "in_shutdown (callers p1 d)" by simp
      from less.hyps [OF a(3) inv this] obtain as p' where
        "run_acts pexec as p1 = Some p'" "length as \<le> pool_work d p1" "list_all (draining d) as"
        "callers p' d = ShutDone" "WorkerCount p' = 0" "QueueSize p' = 0" by blast
      with a show ?thesis by (intro exI [of _ "a # as"] exI [of _ p']) auto
    qed
  qed
qed

theorem shutdown_returns_witness:
  "\<exists>p. run_acts pexec (take 11 pool_run) (ThreadPool small_pool) = Some p \<and> callers p 7 = ShutTaking \<and> QueueSize p = 1
     \<and> (\<exists>as p'. run_acts pexec as p = Some p' \<and> length as \<le> pool_work 7 p \<and> list_all (draining 7) as
          \<and> callers p' 7 = ShutDone \<and> WorkerCount p' = 0 \<and> QueueSize p' = 0)"
proof -
  define p where "p = the (run_acts pexec (take 11 pool_run) (ThreadPool small_pool))"
  have run: "run_acts pexec (take 11 pool_run) (ThreadPool small_pool) = Some p \<and> callers p 7 = ShutTaking \<and> QueueSize p = 1"
    unfolding p_def by (simp add: pool_eval pool_run_def QueueSize_def)
  then have "pool_step\<^sup>*\<^sup>* (ThreadPool small_pool) p" unfolding pool_step_def by (elim conjE) (rule run_acts_steps)
  moreover have "in_shutdown (callers p 7)" using run by (simp add: in_shutdown_def)
  ultimately show ?thesis using shutdown_returns [of small_pool p 7] run by blast
qed

end
