(* ===== verification/Store_On_Pool.thy ===== *)
theory Store_On_Pool
  imports Store_Wakeups Pool_Drain
begin

text \<open>
  The store together with the pool whose workers drain it, and with the other tasks of the same pool
  (\<open>mmap/mmap_store.cpp\<close> on \<open>context/thread_pool.cpp\<close>). \<open>Context\<close> has one pool for everybody: what an application posts to it may
  log, and so call \<open>Append\<close> and \<open>Flush\<close> from a worker. The drain of the store needs a worker as well.
  Shown: the composition is made of steps of the two models, so what holds of each holds here; one worker that is in no call of the store is enough
  for \<open>Flush\<close> to return; and once every worker is inside \<open>Flush\<close>, no schedule ever gets one out, no further record is handed on,
  and \<open>Shutdown\<close> of the pool does not return.
\<close>

section \<open>State and steps\<close>

text \<open>
  Task 0 of the pool is \<open>Drain_\<close> of the store's strand; an odd task is a task of the application, and makes its calls as the store's thread of the
  same number. \<open>si_drain\<close> is the worker in which an activation of \<open>Drain_\<close> has begun and not returned.
\<close>

record site =
  si_store :: store
  si_pool :: pool
  si_drain :: "nat option"

definition site_of :: "store \<Rightarrow> pool \<Rightarrow> site" where
  "site_of s p = \<lparr>si_store = s, si_pool = p, si_drain = None\<rparr>"

datatype site_act = SiStore sact | SiPool pact

text \<open>
  A step of the store that finds the strand idle posts it: the call of the pool's \<open>PostDetached\<close> up to its first critical section is part of the step, in
  which the pool is not stopped (a stopped one runs the drain in the caller, as Mmap_Store has it). The caller then makes another worker, if
  \<open>Enqueue_\<close> asks for one, before it goes on, but \<open>mtx_\<close> is free by then, which only adds schedules. A step of the drain needs an activation that
  runs, in a worker or in the caller that holds \<open>mtx_\<close>.
\<close>

definition post_drain :: "nat \<Rightarrow> pool \<Rightarrow> pool option" where
  "post_drain t p = Option.bind (pexec (Enqueue t 0) p) (pexec (EnqLock t))"

fun site_exec :: "site_act \<Rightarrow> site \<Rightarrow> site option" where
  "site_exec (SiStore a) s =
     (case store_exec a (si_store s) of
        None \<Rightarrow> None
      | Some x \<Rightarrow>
          (case actor a of
             None \<Rightarrow>
               if a = PoolShutdown \<or> si_drain s = None \<and> holder (si_store s) = None then None
               else Some (s\<lparr>si_store := x, si_drain := (if running x then si_drain s else None)\<rparr>)
           | Some t \<Rightarrow>
               if \<not> idle_caller (callers (si_pool s) t) then None
               else if \<not> running (si_store s) \<and> running x \<and> \<not> pool_stopped x then
                 map_option (\<lambda>p. s\<lparr>si_store := x, si_pool := p\<rparr>) (post_drain t (si_pool s))
               else Some (s\<lparr>si_store := x\<rparr>)))"
| "site_exec (SiPool a) s =
     (case pexec a (si_pool s) of
        None \<Rightarrow> None
      | Some p \<Rightarrow>
          (case a of
             Enqueue c n \<Rightarrow> if odd n then Some (s\<lparr>si_pool := p\<rparr>) else None
           | Shutdown c \<Rightarrow>
               Some (s\<lparr>si_store := (case store_exec PoolShutdown (si_store s) of None \<Rightarrow> si_store s | Some x \<Rightarrow> x),
                        si_pool := p\<rparr>)
           | Take w \<Rightarrow>
               if odd (hd (tasks (si_pool s))) then Some (s\<lparr>si_pool := p\<rparr>)
               else if si_drain s \<noteq> None then None
               else Some (s\<lparr>si_pool := p, si_drain := Some w\<rparr>)
           | Finish w \<Rightarrow>
               (case threads (si_pool s) w of
                  Running n \<Rightarrow>
                    if (if odd n then at_rest (spcs (si_store s) n) else si_drain s \<noteq> Some w)
                    then Some (s\<lparr>si_pool := p\<rparr>) else None
                | _ \<Rightarrow> None)
           | _ \<Rightarrow> Some (s\<lparr>si_pool := p\<rparr>)))"

section \<open>The two components\<close>

lemma site_step_store:
  assumes "site_exec a s = Some s'"
  shows "store_step\<^sup>*\<^sup>* (si_store s) (si_store s')"
proof -
  have one: "store_step\<^sup>*\<^sup>* x y" if "store_exec b x = Some y" for b x y
    by (rule r_into_rtranclp) (use that in \<open>auto simp: store_step_def acts_step_def\<close>)
  from assms show ?thesis
    by (cases a) (auto split: option.splits if_splits pact.splits worker.splits dest: one)
qed

lemma site_step_pool:
  assumes "site_exec a s = Some s'"
  shows "pool_step\<^sup>*\<^sup>* (si_pool s) (si_pool s')"
proof -
  have one: "pool_step\<^sup>*\<^sup>* p q" if "pexec b p = Some q" for b p q
    by (rule r_into_rtranclp) (use that in \<open>auto simp: pool_step_def acts_step_def simp del: pexec.simps\<close>)
  have two: "pool_step\<^sup>*\<^sup>* p q" if "post_drain t p = Some q" for t p q
    using that one unfolding post_drain_def by (auto simp del: pexec.simps simp: bind_eq_Some_conv intro: rtranclp_trans)
  show ?thesis
  proof (cases a)
    case (SiStore b)
    with assms two show ?thesis by (auto split: option.splits if_splits)
  next
    case (SiPool b)
    with assms have "pexec b (si_pool s) = Some (si_pool s')"
      by (auto simp del: pexec.simps split: option.splits if_splits pact.splits worker.splits)
    then show ?thesis by (rule one)
  qed
qed

lemma site_run:
  assumes "run_acts site_exec as s = Some s'"
  shows "store_step\<^sup>*\<^sup>* (si_store s) (si_store s') \<and> pool_step\<^sup>*\<^sup>* (si_pool s) (si_pool s')"
  using assms
proof (induction as arbitrary: s)
  case (Cons a as)
  from Cons.prems obtain u where u: "site_exec a s = Some u" "run_acts site_exec as u = Some s'"
    by (auto split: option.splits)
  from Cons.IH [OF u(2)] site_step_store [OF u(1)] site_step_pool [OF u(1)] show ?case
    by (meson rtranclp_trans)
qed simp

section \<open>The drain is where it should be\<close>

text \<open>
  The strand is busy exactly when \<open>Drain_\<close> is in the pool's queue, once, or runs in a worker, or in the caller that holds \<open>mtx_\<close>.
\<close>

definition drain_waits :: "site \<Rightarrow> bool" where
  "drain_waits s \<longleftrightarrow> running (si_store s) \<and> si_drain s = None \<and> holder (si_store s) = None"

definition site_inv :: "site \<Rightarrow> bool" where
  "site_inv s \<longleftrightarrow>
     pinv (si_pool s) \<and> (destroyed (si_store s) \<or> pool_stopped (si_store s) = pstopped (si_pool s))
     \<and> (\<forall>c n. callers (si_pool s) c = EnqLocking n \<longrightarrow> odd n)
     \<and> (\<forall>n\<in>set (tasks (si_pool s)). odd n \<or> n = 0)
     \<and> count_list (tasks (si_pool s)) 0 = (if drain_waits s then 1 else 0)
     \<and> (\<forall>w. si_drain s = Some w \<longrightarrow>
          threads (si_pool s) w = Running 0 \<and> running (si_store s) \<and> holder (si_store s) = None)"

lemma site_invD:
  assumes "site_inv s"
  shows "pinv (si_pool s)" and "destroyed (si_store s) \<or> pool_stopped (si_store s) = pstopped (si_pool s)"
    and "callers (si_pool s) c = EnqLocking n \<Longrightarrow> odd n" and "m \<in> set (tasks (si_pool s)) \<Longrightarrow> odd m \<or> m = 0"
    and "count_list (tasks (si_pool s)) 0 = (if drain_waits s then 1 else 0)"
    and "si_drain s = Some w \<Longrightarrow> threads (si_pool s) w = Running 0 \<and> running (si_store s) \<and> holder (si_store s) = None"
  using assms by (auto simp: site_inv_def)

lemma site_invI:
  assumes "pinv (si_pool s)" and "destroyed (si_store s) \<or> pool_stopped (si_store s) = pstopped (si_pool s)"
    and "\<And>c n. callers (si_pool s) c = EnqLocking n \<Longrightarrow> odd n" and "\<And>m. m \<in> set (tasks (si_pool s)) \<Longrightarrow> odd m \<or> m = 0"
    and "count_list (tasks (si_pool s)) 0 = (if drain_waits s then 1 else 0)"
    and "\<And>w. si_drain s = Some w \<Longrightarrow> threads (si_pool s) w = Running 0 \<and> running (si_store s) \<and> holder (si_store s) = None"
  shows "site_inv s"
  using assms by (auto simp: site_inv_def)

text \<open>How a step of a thread changes the flag of the strand and the owner of the mutex.\<close>

definition strand_flags :: "nat \<Rightarrow> store \<Rightarrow> store \<Rightarrow> bool" where
  "strand_flags t x y \<longleftrightarrow>
     pool_stopped y = pool_stopped x
     \<and> (running y = running x \<and> holder y = holder x
        \<or> \<not> running x \<and> holder x = None \<and> running y \<and> holder y = (if pool_stopped x then Some t else None)
        \<or> holder x \<noteq> None \<and> holder y = None \<and> \<not> running x \<and> \<not> running y)"

lemma flags_same: "pool_stopped y = pool_stopped x \<Longrightarrow> running y = running x \<Longrightarrow> holder y = holder x \<Longrightarrow> strand_flags t x y"
  by (simp add: strand_flags_def)

lemma flags_swap:
  assumes "holder x = None" and "r = AcquireFreeBufferLocked x \<or> r = AcquireAfterWait x"
  shows "strand_flags t x (swap_append t d r)" and "strand_flags t x (swap_flush t dt n r)"
proof -
  have r: "holder (snd r) = holder x" "running (snd r) = running x" "pool_stopped (snd r) = pool_stopped x"
    using assms(2) by (auto simp: AcquireFreeBufferLocked_def AcquireAfterWait_def split: list.splits sum.splits if_splits)
  obtain q y where q: "r = (q, y)" by (cases r)
  show "strand_flags t x (swap_append t d r)" "strand_flags t x (swap_flush t dt n r)"
    using r assms(1) unfolding q
    by (cases q; auto simp: swap_append_def swap_flush_def SwapMasterLocked_def posts_inline_def strand_flags_def)+
qed

lemma thread_flags:
  assumes "store_exec a x = Some y" and "actor a = Some t"
  shows "strand_flags t x y"
proof -
  have ex: "sexec a x = Some y" using assms(1) by (simp add: store_exec_def split: if_splits)
  show ?thesis
  proof (cases a)
    case (LockSwap u)
    with ex assms(2) show ?thesis
      by (auto simp: locked_Some split: spc.splits if_splits intro!: flags_swap flags_same)
  next
    case (WakeSwap u)
    with ex assms(2) show ?thesis by (auto simp: locked_Some split: spc.splits if_splits intro!: flags_swap)
  next
    case (FlushLock u)
    with ex assms(2) show ?thesis
      by (auto simp: locked_Some Let_def flush_exit_def split: spc.splits if_splits intro!: flags_swap flags_same)
  next
    case (FlushWake u)
    with ex assms(2) show ?thesis by (auto simp: locked_Some split: spc.splits if_splits intro!: flags_swap)
  next
    case (PostReturns u)
    with ex assms(2) show ?thesis by (auto simp: strand_flags_def split: spc.splits if_splits)
  next
    case (TryWrite u)
    with ex assms(2) show ?thesis by (auto simp: Let_def split: spc.splits prod.splits if_splits intro!: flags_same)
  qed (use ex assms(2) in \<open>auto simp: locked_Some flush_exit_def set_spc_def split: spc.splits if_splits intro!: flags_same\<close>)
qed

lemma drain_flags:
  assumes "store_exec a x = Some y" and "actor a = None" and "a \<noteq> PoolShutdown"
  shows "pool_stopped y = pool_stopped x" and "destroyed y = destroyed x" and "holder y = holder x"
    and "running y \<Longrightarrow> running x"
proof -
  have ex: "sexec a x = Some y" using assms(1) by (simp add: store_exec_def split: if_splits)
  then show "pool_stopped y = pool_stopped x" "destroyed y = destroyed x" "holder y = holder x" "running y \<Longrightarrow> running x"
    using assms(2,3)
    by (cases a; auto simp: locked_Some split: drain.splits list.splits if_splits)+
qed

text \<open>The pool's part of a post.\<close>

lemma post_drain_pool:
  assumes "post_drain t p = Some q" and "\<not> pstopped p"
  shows "tasks q = tasks p @ [0] \<and> threads q = threads p \<and> pstopped q = pstopped p
    \<and> (\<forall>c. callers q c = callers p c \<or> callers q c = Rest \<or> callers q c = EnqSpawning)"
  using assms by (auto simp: post_drain_def bind_eq_Some_conv set_caller_def Let_def split: if_splits)

lemma post_drain_pinv: "post_drain t p = Some q \<Longrightarrow> pinv p \<Longrightarrow> pinv q"
  unfolding post_drain_def using pool_pinv by (auto simp del: pexec.simps simp: bind_eq_Some_conv)

lemma site_step_inv_store:
  assumes "site_exec (SiStore a) s = Some s'" and inv: "site_inv s"
  shows "site_inv s'"
proof -
  note D = site_invD [OF inv]
  from assms(1) obtain x where x: "store_exec a (si_store s) = Some x" by (auto split: option.splits)
  have alive: "\<not> destroyed (si_store s)" using x by (simp add: store_exec_def split: if_splits)
  show ?thesis
  proof (cases "actor a")
    case None
    with assms(1) x have a: "a \<noteq> PoolShutdown" "si_drain s \<noteq> None \<or> holder (si_store s) \<noteq> None"
      and s': "s' = s\<lparr>si_store := x, si_drain := (if running x then si_drain s else None)\<rparr>"
      by (auto split: if_splits)
    note f = drain_flags [OF x None a(1)]
    show ?thesis
    proof (rule site_invI)
      have "\<not> drain_waits s" "\<not> drain_waits s'" using a(2) f by (auto simp: drain_waits_def s')
      then show "count_list (tasks (si_pool s')) 0 = (if drain_waits s' then 1 else 0)" using D(5) by (simp add: s')
    qed (use D(1-4,6) f in \<open>auto simp: s' split: if_splits\<close>)
  next
    case (Some t)
    have f: "strand_flags t (si_store s) x" by (rule thread_flags [OF x Some])
    have st: "pool_stopped x = pstopped (si_pool s)" using f D(2) alive by (simp add: strand_flags_def)
    show ?thesis
    proof (cases "\<not> running (si_store s) \<and> running x \<and> \<not> pool_stopped x")
      case True
      with assms(1) x Some obtain q where q: "post_drain t (si_pool s) = Some q" and s': "s' = s\<lparr>si_store := x, si_pool := q\<rparr>"
        by (auto split: if_splits)
      note p = post_drain_pool [OF q]
      have ns: "\<not> pstopped (si_pool s)" using True st by simp
      have nd: "si_drain s = None" using D(6) True by (cases "si_drain s") auto
      have "\<not> drain_waits s" "drain_waits s'" using True f nd by (auto simp: drain_waits_def s' strand_flags_def)
      then have cnt: "count_list (tasks (si_pool s')) 0 = (if drain_waits s' then 1 else 0)"
        using D(5) p [OF ns] by (simp add: s')
      show ?thesis
      proof (rule site_invI)
        show "callers (si_pool s') c = EnqLocking n \<Longrightarrow> odd n" for c n
          using p [OF ns] D(3) by (metis s' caller.distinct(1,11) select_convs(2) surjective update_convs(2))
      qed (use D(1,2,4) nd cnt st p [OF ns] post_drain_pinv [OF q] in \<open>auto simp: s'\<close>)
    next
      case False
      with assms(1) x Some have s': "s' = s\<lparr>si_store := x\<rparr>" by (auto split: if_splits)
      have same: "running x = running (si_store s) \<and> holder x = holder (si_store s)" if "si_drain s = Some w" for w
        using D(6) [OF that] f by (auto simp: strand_flags_def)
      show ?thesis
      proof (rule site_invI)
        have "drain_waits s' = drain_waits s"
          using f False by (auto simp: drain_waits_def s' strand_flags_def split: if_splits)
        then show "count_list (tasks (si_pool s')) 0 = (if drain_waits s' then 1 else 0)" using D(5) by (simp add: s')
      qed (use D(1,3,4,6) st same in \<open>auto simp: s'\<close>)
    qed
  qed
qed

lemma site_step_inv_pool:
  assumes "site_exec (SiPool a) s = Some s'" and inv: "site_inv s"
  shows "site_inv s'"
proof -
  note D = site_invD [OF inv]
  from assms(1) obtain p where p: "pexec a (si_pool s) = Some p" by (auto simp del: pexec.simps split: option.splits)
  have pi: "pinv p" by (rule pool_pinv [OF p D(1)])
  have unborn: "threads (si_pool s) w = Unborn \<longleftrightarrow> born (si_pool s) \<le> w" for w
    using D(1) by (simp add: pinv_def shape_ok_def)
  have keep: "site_inv (s\<lparr>si_pool := p\<rparr>)"
    if "pstopped p = pstopped (si_pool s)" "\<And>c n. callers p c = EnqLocking n \<Longrightarrow> odd n"
      "tasks p = tasks (si_pool s) \<or> (\<exists>n. odd n \<and> (tasks p = tasks (si_pool s) @ [n] \<or> tasks (si_pool s) = n # tasks p))"
      "\<And>w. si_drain s = Some w \<Longrightarrow> threads p w = threads (si_pool s) w"
  proof (rule site_invI)
    have "count_list (tasks p) 0 = count_list (tasks (si_pool s)) 0" using that(3) by (auto dest: odd_pos)
    then show "count_list (tasks (si_pool (s\<lparr>si_pool := p\<rparr>))) 0 = (if drain_waits (s\<lparr>si_pool := p\<rparr>) then 1 else 0)"
      using D(5) by (simp add: drain_waits_def)
    show "m \<in> set (tasks (si_pool (s\<lparr>si_pool := p\<rparr>))) \<Longrightarrow> odd m \<or> m = 0" for m using that(3) D(4) by auto
  qed (use D(2,6) pi that(1,2,4) in \<open>auto\<close>)
  show ?thesis
  proof (cases a)
    case (Enqueue c n)
    with assms(1) p have n: "odd n" and s': "s' = s\<lparr>si_pool := p\<rparr>" by (auto simp del: pexec.simps split: if_splits)
    show ?thesis unfolding s' by (rule keep) (use Enqueue p n D(3) in \<open>auto simp: set_caller_def split: if_splits\<close>)
  next
    case (EnqLock c)
    with assms(1) p have s': "s' = s\<lparr>si_pool := p\<rparr>" by (simp del: pexec.simps)
    from EnqLock p obtain n where n: "callers (si_pool s) c = EnqLocking n" by (auto split: caller.splits)
    show ?thesis unfolding s'
      by (rule keep) (use EnqLock p n D(3) [OF n] D(3) in \<open>auto simp: set_caller_def Let_def split: if_splits\<close>)
  next
    case (EnqSpawn c)
    with assms(1) p have s': "s' = s\<lparr>si_pool := p\<rparr>" by (simp del: pexec.simps)
    have "w < born (si_pool s)" if "si_drain s = Some w" for w
      using D(6) [OF that] unborn [of w] by (cases "born (si_pool s) \<le> w") auto
    then show ?thesis unfolding s'
      by (intro keep) (use EnqSpawn p D(3) in \<open>auto simp: set_caller_def SpawnLocked_def Let_def split: if_splits\<close>)
  next
    case (Shutdown c)
    with assms(1) p have s': "s' = s\<lparr>si_store := (case store_exec PoolShutdown (si_store s) of None \<Rightarrow> si_store s | Some x \<Rightarrow> x),
        si_pool := p\<rparr>" by (simp del: pexec.simps)
    have x: "si_store s' = (if destroyed (si_store s) then si_store s else (si_store s)\<lparr>pool_stopped := True\<rparr>)"
      by (simp add: s' store_exec_def)
    have q: "tasks p = tasks (si_pool s)" "threads p = threads (si_pool s)" "pstopped p"
      "\<forall>d n. callers p d = EnqLocking n \<longrightarrow> callers (si_pool s) d = EnqLocking n"
      using Shutdown p by (auto simp: set_caller_def split: if_splits)
    have "drain_waits s' = drain_waits s" by (simp add: drain_waits_def x) (simp add: s')
    note dw = this
    show ?thesis
    proof (rule site_invI)
      show "callers (si_pool s') d = EnqLocking n \<Longrightarrow> odd n" for d n using q(4) D(3) by (auto simp: s')
    qed (use dw D(4-6) q pi x in \<open>auto simp: s' store_exec_def split: if_splits\<close>)
  next
    case (Take w)
    then obtain n ns where n: "threads (si_pool s) w = Looping" "tasks (si_pool s) = n # ns"
      "p = (si_pool s)\<lparr>tasks := ns, threads := (threads (si_pool s))(w := Running n)\<rparr>"
      using p by (auto split: worker.splits list.splits)
    have other: "w \<noteq> v" if "si_drain s = Some v" for v using D(6) [OF that] n(1) by auto
    show ?thesis
    proof (cases "odd n")
      case True
      with assms(1) Take p n(2) have s': "s' = s\<lparr>si_pool := p\<rparr>" by (simp del: pexec.simps)
      show ?thesis unfolding s' by (rule keep) (use n True other D(3) in auto)
    next
      case False
      with assms(1) Take p n(2) have s': "s' = s\<lparr>si_pool := p, si_drain := Some w\<rparr>" and nd: "si_drain s = None"
        by (auto simp del: pexec.simps split: if_splits)
      have z: "n = 0" using D(4) [of n] n(2) False by simp
      then have dw: "drain_waits s" and c0: "count_list ns 0 = 0" using D(5) n(2) by (simp_all split: if_splits)
      show ?thesis
      proof (rule site_invI)
        show "count_list (tasks (si_pool s')) 0 = (if drain_waits s' then 1 else 0)"
          using c0 n(3) by (simp add: s' drain_waits_def)
        show "m \<in> set (tasks (si_pool s')) \<Longrightarrow> odd m \<or> m = 0" for m using n(2,3) D(4) by (simp add: s')
      qed (use D(2,3) pi n z dw in \<open>auto simp: s' drain_waits_def\<close>)
    qed
  next
    case (Finish w)
    with p obtain n where n: "threads (si_pool s) w = Running n"
      "p = (si_pool s)\<lparr>finished := finished (si_pool s) @ [n], threads := (threads (si_pool s))(w := Looping)\<rparr>"
      by (auto split: worker.splits)
    with assms(1) Finish p have s': "s' = s\<lparr>si_pool := p\<rparr>" and g: "odd n \<or> si_drain s \<noteq> Some w"
      by (auto simp del: pexec.simps split: if_splits)
    have "w \<noteq> v" if "si_drain s = Some v" for v using D(6) [OF that] n(1) g that by auto
    then show ?thesis unfolding s' by (intro keep) (use n D(3) in auto)
  next
    case (ExitStopped w)
    with assms(1) p have s': "s' = s\<lparr>si_pool := p\<rparr>" by (simp del: pexec.simps)
    have "threads (si_pool s) w = Looping" using ExitStopped p by (auto split: if_splits)
    then have "w \<noteq> v" if "si_drain s = Some v" for v using D(6) [OF that] by auto
    then show ?thesis unfolding s'
      by (intro keep) (use ExitStopped p D(3) in \<open>auto simp: leave_pool_def Let_def split: if_splits\<close>)
  next
    case (IdleTimeout w)
    with assms(1) p have s': "s' = s\<lparr>si_pool := p\<rparr>" by (simp del: pexec.simps)
    have "threads (si_pool s) w = Looping" using IdleTimeout p by (auto split: if_splits)
    then have "w \<noteq> v" if "si_drain s = Some v" for v using D(6) [OF that] by auto
    then show ?thesis unfolding s'
      by (intro keep) (use IdleTimeout p D(3) in \<open>auto simp: leave_pool_def Let_def split: if_splits\<close>)
  next
    case (ShutTake c)
    with assms(1) p have s': "s' = s\<lparr>si_pool := p\<rparr>" by (simp del: pexec.simps)
    show ?thesis unfolding s' by (rule keep) (use ShutTake p D(3) in \<open>auto simp: set_caller_def split: if_splits\<close>)
  next
    case (ShutJoin c)
    with assms(1) p have s': "s' = s\<lparr>si_pool := p\<rparr>" by (simp del: pexec.simps)
    show ?thesis unfolding s'
      by (rule keep) (use ShutJoin p D(3) in \<open>auto simp: set_caller_def split: if_splits caller.splits\<close>)
  qed
qed

lemma started_flags: "started s \<Longrightarrow> \<not> running s \<and> \<not> pool_stopped s"
  by (auto simp: started_def MmapStore_def Let_def split: if_splits sum.splits)

lemma site_inv_start: "started s0 \<Longrightarrow> site_inv (site_of s0 (ThreadPool c))"
  using pinv_start [of c] filled [of c] started_flags [of s0]
  by (intro site_invI) (auto simp: site_of_def filling_def drain_waits_def)

interpretation si: invariant_system "\<lambda>s. \<exists>s0 c. started s0 \<and> s = site_of s0 (ThreadPool c)" "acts_step site_exec" site_inv
proof unfold_locales
  show "\<exists>s0 c. started s0 \<and> s = site_of s0 (ThreadPool c) \<Longrightarrow> site_inv s" for s using site_inv_start by blast
  show "acts_step site_exec s t \<Longrightarrow> site_inv s \<Longrightarrow> site_inv t" for s t
  proof -
    assume "acts_step site_exec s t" "site_inv s"
    then obtain a where "site_exec a s = Some t" by (auto simp only: acts_step_def)
    with \<open>site_inv s\<close> show "site_inv t" by (cases a) (blast intro: site_step_inv_store site_step_inv_pool)+
  qed
qed

section \<open>One worker is enough\<close>

text \<open>A worker that runs the drain carries it to its end.\<close>

lemma quiet_running:
  assumes "store_exec a x = Some y" and "quiet a" and "0 < work x"
  shows "running y = running x"
proof -
  have ex: "sexec a x = Some y" using assms(1) by (simp add: store_exec_def split: if_splits)
  have "inflight x = []" if "queue x = []" "task x = DNone" using that by (simp add: inflight_def moving_def)
  then have "queue x \<noteq> []" if "task x = DNone" using assms(3) that by (auto simp: work_def stage_work_def)
  with ex assms(2) show ?thesis
    by (cases a; auto simp: quiet_def locked_Some split: drain.splits list.splits if_splits)
qed

lemma drain_runs:
  assumes "calm x0 (si_store s)" and "si_drain s = Some w" and "running (si_store s)"
  shows "\<exists>bs s'. length bs \<le> work (si_store s) \<and> run_acts site_exec bs s = Some s' \<and> calm x0 (si_store s')
    \<and> work (si_store s') = 0 \<and> si_pool s' = si_pool s"
  using assms
proof (induction "work (si_store s)" arbitrary: s rule: less_induct)
  case less
  show ?case
  proof (cases "work (si_store s) = 0")
    case True
    with less.prems show ?thesis by (intro exI [of _ "[]"] exI [of _ s]) simp
  next
    case False
    with strand_progress [OF less.prems(1)] obtain a x where
      a: "quiet a" "store_exec a (si_store s) = Some x" "calm x0 x" "work x < work (si_store s)" by auto
    have r: "running x" using quiet_running [OF a(2,1)] False less.prems(3) by simp
    then have st: "site_exec (SiStore a) s = Some (s\<lparr>si_store := x\<rparr>)"
      using a(1,2) less.prems(2) by (simp add: quiet_def)
    obtain bs s' where
      "length bs \<le> work x" "run_acts site_exec bs (s\<lparr>si_store := x\<rparr>) = Some s'" "calm x0 (si_store s')"
      "work (si_store s') = 0" "si_pool s' = si_pool s"
      using less.hyps [of "s\<lparr>si_store := x\<rparr>"] a r less.prems(2) by auto
    with a(4) st show ?thesis by (intro exI [of _ "SiStore a # bs"] exI [of _ s']) (simp del: site_exec.simps)
  qed
qed

text \<open>A worker in its loop gets to the drain through the tasks before it.\<close>

lemma reach_drain:
  assumes "threads (si_pool s) w = Looping" and "0 \<in> set (tasks (si_pool s))" and "si_drain s = None"
    and "\<forall>n\<in>set (tasks (si_pool s)). odd n \<and> at_rest (spcs (si_store s) n) \<or> n = 0"
  shows "\<exists>bs s'. length bs \<le> 2 * length (tasks (si_pool s)) \<and> run_acts site_exec bs s = Some s'
    \<and> si_store s' = si_store s \<and> si_drain s' = Some w \<and> callers (si_pool s') = callers (si_pool s)"
  using assms
proof (induction "tasks (si_pool s)" arbitrary: s)
  case (Cons n ns)
  note ts = Cons.hyps(2) [symmetric]
  let ?p = "(si_pool s)\<lparr>tasks := ns, threads := (threads (si_pool s))(w := Running n)\<rparr>"
  have tk: "pexec (Take w) (si_pool s) = Some ?p" using Cons.prems(1) ts by simp
  show ?case
  proof (cases "n = 0")
    case True
    then have "site_exec (SiPool (Take w)) s = Some (s\<lparr>si_pool := ?p, si_drain := Some w\<rparr>)"
      using tk ts Cons.prems(3) by (simp del: pexec.simps)
    then show ?thesis using ts
      by (intro exI [of _ "[SiPool (Take w)]"] exI [of _ "s\<lparr>si_pool := ?p, si_drain := Some w\<rparr>"])
        (simp del: site_exec.simps)
  next
    case False
    with Cons.prems(4) ts have n: "odd n" "at_rest (spcs (si_store s) n)" by auto
    let ?q = "?p\<lparr>finished := finished (si_pool s) @ [n], threads := (threads (si_pool s))(w := Looping)\<rparr>"
    have 1: "site_exec (SiPool (Take w)) s = Some (s\<lparr>si_pool := ?p\<rparr>)" using tk ts n(1) by (simp del: pexec.simps)
    have 2: "site_exec (SiPool (Finish w)) (s\<lparr>si_pool := ?p\<rparr>) = Some (s\<lparr>si_pool := ?q\<rparr>)" using n by simp
    have "\<exists>bs s'. length bs \<le> 2 * length (tasks (si_pool (s\<lparr>si_pool := ?q\<rparr>)))
        \<and> run_acts site_exec bs (s\<lparr>si_pool := ?q\<rparr>) = Some s' \<and> si_store s' = si_store (s\<lparr>si_pool := ?q\<rparr>)
        \<and> si_drain s' = Some w \<and> callers (si_pool s') = callers (si_pool (s\<lparr>si_pool := ?q\<rparr>))"
      by (rule Cons.hyps(1)) (use Cons.prems ts False in auto)
    then obtain bs s' where "length bs \<le> 2 * length ns" "run_acts site_exec bs (s\<lparr>si_pool := ?q\<rparr>) = Some s'"
      "si_store s' = si_store s" "si_drain s' = Some w" "callers (si_pool s') = callers (si_pool s)" by auto
    with 1 2 ts show ?thesis
      by (intro exI [of _ "SiPool (Take w) # SiPool (Finish w) # bs"] exI [of _ s']) (simp del: site_exec.simps)
  qed
qed simp

text \<open>A worker that is in no call of the store.\<close>

definition free_worker :: "nat \<Rightarrow> site \<Rightarrow> bool" where
  "free_worker w s \<longleftrightarrow>
     (case threads (si_pool s) w of
        Looping \<Rightarrow> True | Running n \<Rightarrow> even n \<or> at_rest (spcs (si_store s) n) | _ \<Rightarrow> False)"

lemma drain_begins:
  assumes inv: "site_inv s" and run: "running (si_store s)" "holder (si_store s) = None" and w: "free_worker w s"
    and rest: "\<forall>n\<in>set (tasks (si_pool s)). odd n \<longrightarrow> at_rest (spcs (si_store s) n)"
  shows "\<exists>bs s'. length bs \<le> 2 * length (tasks (si_pool s)) + 1 \<and> run_acts site_exec bs s = Some s'
    \<and> si_store s' = si_store s \<and> si_drain s' \<noteq> None \<and> callers (si_pool s') = callers (si_pool s)"
proof (cases "si_drain s")
  case (Some v)
  then show ?thesis by (intro exI [of _ "[]"] exI [of _ s]) simp
next
  case None
  then have "drain_waits s" using run by (simp add: drain_waits_def)
  with site_invD(5) [OF inv] have "count_list (tasks (si_pool s)) 0 \<noteq> 0" by simp
  then have z: "0 \<in> set (tasks (si_pool s))" using count_notin by fastforce
  have ok: "\<forall>n\<in>set (tasks (si_pool s)). odd n \<and> at_rest (spcs (si_store s) n) \<or> n = 0"
    using rest site_invD(4) [OF inv] by blast
  show ?thesis
  proof (cases "threads (si_pool s) w = Looping")
    case True
    from reach_drain [OF this z None ok] obtain bs s' where
      "length bs \<le> 2 * length (tasks (si_pool s))" "run_acts site_exec bs s = Some s'" "si_store s' = si_store s"
      "si_drain s' = Some w" "callers (si_pool s') = callers (si_pool s)" by blast
    then show ?thesis by (intro exI [of _ bs] exI [of _ s']) simp
  next
    case False
    with w obtain n where n: "threads (si_pool s) w = Running n" "even n \<or> at_rest (spcs (si_store s) n)"
      by (auto simp: free_worker_def split: worker.splits)
    let ?u = "s\<lparr>si_pool := (si_pool s)\<lparr>finished := finished (si_pool s) @ [n], threads := (threads (si_pool s))(w := Looping)\<rparr>\<rparr>"
    have 1: "site_exec (SiPool (Finish w)) s = Some ?u" using n None by auto
    have "\<exists>bs s'. length bs \<le> 2 * length (tasks (si_pool ?u)) \<and> run_acts site_exec bs ?u = Some s'
        \<and> si_store s' = si_store ?u \<and> si_drain s' = Some w \<and> callers (si_pool s') = callers (si_pool ?u)"
      by (rule reach_drain) (use z None ok in simp_all)
    then obtain bs s' where b: "length bs \<le> 2 * length (tasks (si_pool s))" "run_acts site_exec bs ?u = Some s'"
      "si_store s' = si_store s" "si_drain s' = Some w" "callers (si_pool s') = callers (si_pool s)" by auto
    then show ?thesis using 1
      by (intro exI [of _ "SiPool (Finish w) # bs"] exI [of _ s']) (simp del: site_exec.simps)
  qed
qed

lemma site_flush_returns:
  assumes inv: "site_inv s" "sinv (si_store s)" and alive: "\<not> destroyed (si_store s)" "holder (si_store s) = None"
    and wait: "spcs (si_store s) t = FWait False k" "idle_caller (callers (si_pool s) t)" and w: "free_worker w s"
    and rest: "\<forall>n\<in>set (tasks (si_pool s)). odd n \<longrightarrow> at_rest (spcs (si_store s) n)"
  shows "\<exists>bs s'. length bs \<le> 2 * length (tasks (si_pool s)) + work (si_store s) + 2
    \<and> run_acts site_exec bs s = Some s' \<and> spcs (si_store s') t = FDone k"
proof -
  have calm: "calm (si_store s) (si_store s)" using inv alive by (simp add: calm_def)
  have idle: "queue x = [] \<and> task x = DNone" if "work x = 0" for x
    using that by (auto simp: work_def stage_work_def split: drain.splits)
  have "\<exists>bs s'. length bs \<le> 2 * length (tasks (si_pool s)) + work (si_store s) + 1 \<and> run_acts site_exec bs s = Some s'
      \<and> calm (si_store s) (si_store s') \<and> work (si_store s') = 0 \<and> callers (si_pool s') = callers (si_pool s)"
  proof (cases "work (si_store s) = 0")
    case True
    with calm show ?thesis by (intro exI [of _ "[]"] exI [of _ s]) simp
  next
    case False
    then have "queue (si_store s) \<noteq> [] \<or> task (si_store s) \<noteq> DNone"
      by (auto simp: work_def stage_work_def inflight_def moving_def)
    then have run: "running (si_store s)" using inv(2) by (auto simp: sinv_def pool_ok_def)
    from drain_begins [OF inv(1) run alive(2) w rest] obtain bs u v where b:
      "length bs \<le> 2 * length (tasks (si_pool s)) + 1" "run_acts site_exec bs s = Some u" "si_store u = si_store s"
      "si_drain u = Some v" "callers (si_pool u) = callers (si_pool s)" by auto
    from drain_runs [of "si_store s" u v] calm run b obtain cs s' where c:
      "length cs \<le> work (si_store s)" "run_acts site_exec cs u = Some s'" "calm (si_store s) (si_store s')"
      "work (si_store s') = 0" "si_pool s' = si_pool u" by auto
    show ?thesis using b c by (intro exI [of _ "bs @ cs"] exI [of _ s']) (simp add: run_acts_append)
  qed
  then obtain bs s' where b: "length bs \<le> 2 * length (tasks (si_pool s)) + work (si_store s) + 1"
    "run_acts site_exec bs s = Some s'" "calm (si_store s) (si_store s')" "work (si_store s') = 0"
    "callers (si_pool s') = callers (si_pool s)" by blast
  have "in_flight (si_store s') = 0"
    using b(3) idle [OF b(4)] by (simp add: calm_def sinv_def pool_ok_def counted_def)
  then have ret: "store_exec (FlushReturn t) (si_store s') = Some (flush_exit t False k (si_store s'))"
    using b(3) wait(1) by (simp add: calm_def store_exec_def locked_def)
  have "site_exec (SiStore (FlushReturn t)) s' = Some (s'\<lparr>si_store := flush_exit t False k (si_store s')\<rparr>)"
    using ret wait(2) b(5) by (auto simp: flush_exit_def)
  then show ?thesis
    using b(1,2) by (intro exI [of _ "bs @ [SiStore (FlushReturn t)]"]
        exI [of _ "s'\<lparr>si_store := flush_exit t False k (si_store s')\<rparr>"]) (simp add: run_acts_append flush_exit_def del: site_exec.simps)
qed

section \<open>Every worker inside Flush\<close>

text \<open>
  Every worker that is alive runs a task of the application that waits in \<open>Flush\<close> for the drains; there can be no more workers; a drain is
  queued, and has not begun.
\<close>

definition all_flushing :: "site \<Rightarrow> bool" where
  "all_flushing s \<longleftrightarrow>
     (\<forall>w. case threads (si_pool s) w of
            Running n \<Rightarrow> odd n \<and> (\<exists>k. spcs (si_store s) n = FWait False k)
          | Looping \<Rightarrow> False | _ \<Rightarrow> True)
     \<and> max_threads (pcfg (si_pool s)) \<le> worker_count (si_pool s)
     \<and> si_drain s = None \<and> holder (si_store s) = None \<and> running (si_store s)
     \<and> 0 < in_flight (si_store s) \<and> \<not> stopped (si_store s)
     \<and> (\<forall>t. spcs (si_store s) t \<noteq> DtorLock \<and> spcs (si_store s) t \<noteq> DtorEnd)"

text \<open>What a step of a thread leaves as it is in a store whose strand is busy.\<close>

definition still_waits :: "store \<Rightarrow> store \<Rightarrow> bool" where
  "still_waits x y \<longleftrightarrow>
     holder y = None \<and> running y \<and> 0 < in_flight y \<and> \<not> stopped y \<and> sent y = sent x
     \<and> (\<forall>t. spcs y t \<noteq> DtorLock \<and> spcs y t \<noteq> DtorEnd)
     \<and> (\<forall>t d k. spcs x t = FWait d k \<longrightarrow> spcs y t = FWait d k)"

definition busy_store :: "store \<Rightarrow> bool" where
  "busy_store x \<longleftrightarrow>
     holder x = None \<and> running x \<and> 0 < in_flight x \<and> \<not> stopped x
     \<and> (\<forall>t. spcs x t \<noteq> DtorLock \<and> spcs x t \<noteq> DtorEnd)"

lemma still_set:
  assumes "busy_store x" and "\<forall>d k. spcs x t \<noteq> FWait d k" and "p \<noteq> DtorLock" and "p \<noteq> DtorEnd"
    and "holder y = holder x" "running y" "in_flight x \<le> in_flight y" "stopped y = stopped x" "sent y = sent x"
    and "spcs y = (spcs x)(t := p)"
  shows "still_waits x y"
  using assms by (auto simp: still_waits_def busy_store_def)

lemma acquire_same:
  "holder (snd (AcquireFreeBufferLocked x)) = holder x" "holder (snd (AcquireAfterWait x)) = holder x"
  "running (snd (AcquireFreeBufferLocked x)) = running x" "running (snd (AcquireAfterWait x)) = running x"
  "sent (snd (AcquireFreeBufferLocked x)) = sent x" "sent (snd (AcquireAfterWait x)) = sent x"
  by (simp_all add: AcquireFreeBufferLocked_def AcquireAfterWait_def split: list.split sum.split)

lemma swap_same:
  "running (snd r) \<Longrightarrow> holder (swap_append t d r) = holder (snd r) \<and> running (swap_append t d r) \<and> sent (swap_append t d r) = sent (snd r)"
  "running (snd r) \<Longrightarrow> holder (swap_flush t dt n r) = holder (snd r) \<and> running (swap_flush t dt n r) \<and> sent (swap_flush t dt n r) = sent (snd r)"
  by (cases r; cases "fst r"; simp add: swap_append_def swap_flush_def SwapMasterLocked_def posts_inline_def)+

lemma still_swap:
  assumes "busy_store x" and "\<forall>d k. spcs x t \<noteq> FWait d k" and "r = AcquireFreeBufferLocked x \<or> r = AcquireAfterWait x"
  shows "still_waits x (swap_append t d r)" and "still_waits x (swap_flush t dt n r)"
proof -
  have r: "holder (snd r) = holder x" "running (snd r)" "sent (snd r) = sent x" "spcs (snd r) = spcs x"
    "stopped (snd r) = stopped x" "in_flight (snd r) = in_flight x"
    using assms(1,3) by (auto simp: acquire_same acquire_spcs acquire_flags busy_store_def)
  obtain p where p: "p \<in> {APost d, ALoad d, ADone d False, AWait d}" "spcs (swap_append t d r) = (spcs (snd r))(t := p)"
    using swap_spcs(1) [of d t r] by blast
  show "still_waits x (swap_append t d r)"
    by (rule still_set [OF assms(1,2), of p])
      (use p r swap_same(1) [OF r(2), of t d] swap_flags(7) [of r t d] in \<open>auto simp: swap_flags\<close>)
  obtain q where q: "q \<in> {FPost dt n, FWait dt n, FWaitFree dt n}" "spcs (swap_flush t dt n r) = (spcs (snd r))(t := q)"
    using swap_spcs(2) [of dt n t r] by blast
  show "still_waits x (swap_flush t dt n r)"
    by (rule still_set [OF assms(1,2), of q])
      (use q r swap_same(2) [OF r(2), of t dt n] swap_flags(8) [of r t dt n] in \<open>auto simp: swap_flags\<close>)
qed

lemma still_refl: "busy_store x \<Longrightarrow> still_waits x x"
  by (simp add: still_waits_def busy_store_def)

lemma busy_step:
  assumes "store_exec a x = Some y" and "actor a = Some t" and "busy_store x"
  shows "still_waits x y"
proof -
  have ex: "sexec a x = Some y" using assms(1) by (simp add: store_exec_def split: if_splits)
  have b: "holder x = None" "running x" "\<not> stopped x" "in_flight x \<noteq> 0" "spcs x t \<noteq> DtorLock" "spcs x t \<noteq> DtorEnd"
    using assms(3) by (auto simp: busy_store_def)
  note swap = still_swap [OF assms(3)] and set = still_set [OF assms(3)]
  show ?thesis
  proof (cases a)
    case (TryWrite u)
    with ex assms(2) obtain d cur ok bf where u: "spcs x t = AWrite d cur" "Write d (pool x ! cur) = (ok, bf)"
      "y = (if ok then set_spc t (ADone d True) (x\<lparr>pool := (pool x)[cur := bf], acks := acks x @ [(t, d)]\<rparr>)
            else set_spc t (ALock d cur) (x\<lparr>pool := (pool x)[cur := bf]\<rparr>))"
      by (cases "spcs x t") (auto simp: Let_def split: prod.splits if_splits)
    show ?thesis
      by (rule set [of t "if ok then ADone d True else ALock d cur"]) (use u b in \<open>auto simp: set_spc_def\<close>)
  next
    case (LockSwap u)
    with ex assms(2) obtain d cur where u: "spcs x t = ALock d cur" by (auto split: spc.splits)
    with LockSwap ex assms(2) b have y: "y = (if master x \<noteq> cur then set_spc t (ALoad d) x
        else swap_append t d (AcquireFreeBufferLocked x))" by (auto simp: locked_Some)
    show ?thesis
    proof (cases "master x = cur")
      case True
      with u swap(1) [of t "AcquireFreeBufferLocked x" d] show ?thesis by (simp add: y)
    next
      case False
      show ?thesis by (rule set [of t "ALoad d"]) (use u b False in \<open>auto simp: y\<close>)
    qed
  next
    case (WakeSwap u)
    with ex assms(2) obtain d where u: "spcs x t = AWait d" by (auto split: spc.splits)
    with WakeSwap ex assms(2) have "y = swap_append t d (AcquireAfterWait x)" by (auto simp: locked_Some split: if_splits)
    with u swap(1) [of t "AcquireAfterWait x" d] show ?thesis by simp
  next
    case (FlushLock u)
    with ex assms(2) obtain dt where u: "spcs x t = FLock dt" by (auto split: spc.splits)
    with FlushLock ex assms(2) b have y: "y = (if 0 < Used (pool x ! master x)
        then swap_flush t dt (length (acks x)) (AcquireFreeBufferLocked x) else set_spc t (FWait dt (length (acks x))) x)"
      by (auto simp: locked_Some Let_def)
    show ?thesis
    proof (cases "0 < Used (pool x ! master x)")
      case True
      with u swap(2) [of t "AcquireFreeBufferLocked x" dt] show ?thesis by (simp add: y)
    next
      case False
      show ?thesis by (rule set [of t "FWait dt (length (acks x))"]) (use u b False in \<open>auto simp: y\<close>)
    qed
  next
    case (FlushWake u)
    with ex assms(2) obtain dt n where u: "spcs x t = FWaitFree dt n" by (auto split: spc.splits)
    with FlushWake ex assms(2) have "y = swap_flush t dt n (AcquireAfterWait x)" by (auto simp: locked_Some split: if_splits)
    with u swap(2) [of t "AcquireAfterWait x" dt] show ?thesis by simp
  next
    case (FlushReturn u)
    with ex b show ?thesis by (auto simp: locked_Some split: spc.splits)
  next
    case (Append u d)
    with ex assms(2) have "at_rest (spcs x t)" "y = set_spc t (if d = [] then ADone d False else ALoad d) x"
      by (auto split: if_splits)
    with b show ?thesis
      by (intro set [of t "if d = [] then ADone d False else ALoad d"]) (auto simp: at_rest_def)
  next
    case (LoadMaster u)
    with ex assms(2) obtain d where "spcs x t = ALoad d" "y = set_spc t (AWrite d (master x)) x" by (auto split: spc.splits)
    with b show ?thesis by (intro set [of t "AWrite d (master x)"]) auto
  next
    case (TimeOut u)
    with ex assms(2) obtain d where "spcs x t = AWait d" "y = set_spc t (ADone d False) x"
      by (auto simp: locked_Some split: spc.splits if_splits)
    with b show ?thesis by (intro set [of t "ADone d False"]) auto
  next
    case (Flush u)
    with ex assms(2) b show ?thesis by (auto simp: at_rest_def split: spc.splits if_splits intro!: set [of t "FLock False"])
  next
    case (Destroy u)
    with ex assms(2) b show ?thesis by (auto simp: at_rest_def split: spc.splits if_splits intro!: set [of t "FLock True"])
  qed (use ex assms(2) b in \<open>simp_all split: if_splits\<close>)
qed

lemma all_flushing_busy: "all_flushing s \<Longrightarrow> busy_store (si_store s)"
  by (simp add: all_flushing_def busy_store_def)

text \<open>The pool: no worker can take a task, end one, leave or be born.\<close>

lemma flushing_threads:
  assumes "all_flushing s" and "site_exec (SiPool a) s = Some s'"
  shows "threads (si_pool s') = threads (si_pool s)" and "worker_count (si_pool s') = worker_count (si_pool s)"
    and "pcfg (si_pool s') = pcfg (si_pool s)" and "si_drain s' = si_drain s"
proof -
  have loop: "threads (si_pool s) w \<noteq> Looping" for w
    using assms(1) by (auto simp: all_flushing_def split: worker.splits)
  have run: "odd n \<and> \<not> at_rest (spcs (si_store s) n)" if "threads (si_pool s) w = Running n" for w n
  proof -
    from assms(1) have "case threads (si_pool s) w of Running n \<Rightarrow> odd n \<and> (\<exists>k. spcs (si_store s) n = FWait False k)
        | Looping \<Rightarrow> False | _ \<Rightarrow> True" by (simp add: all_flushing_def)
    with that show ?thesis by (auto simp: at_rest_def)
  qed
  have full: "\<not> wants_worker (si_pool s)" using assms(1) by (simp add: all_flushing_def wants_worker_def)
  from assms(2) obtain p where p: "pexec a (si_pool s) = Some p" and s': "si_pool s' = p"
    by (auto simp del: pexec.simps split: option.splits pact.splits if_splits worker.splits)
  have "\<not> (\<exists>w. a = Take w \<or> a = Finish w)"
    using assms(2) p loop run by (auto split: worker.splits list.splits if_splits)
  then show "threads (si_pool s') = threads (si_pool s)" and "worker_count (si_pool s') = worker_count (si_pool s)"
    and "pcfg (si_pool s') = pcfg (si_pool s)"
    using p loop full by (cases a; auto simp: s' set_caller_def Let_def split: if_splits caller.splits)+
  show "si_drain s' = si_drain s"
    using assms(2) \<open>\<not> (\<exists>w. a = Take w \<or> a = Finish w)\<close>
    by (cases a) (auto simp del: pexec.simps split: option.splits if_splits)
qed

lemma flushing_store:
  assumes "all_flushing s" and "site_exec (SiPool a) s = Some s'"
  shows "si_store s' = si_store s \<or> si_store s' = (si_store s)\<lparr>pool_stopped := True\<rparr>"
  using assms(2)
  by (auto simp del: pexec.simps simp: store_exec_def split: option.splits pact.splits if_splits worker.splits)

lemma flushing_pool:
  assumes "all_flushing s" and "site_exec (SiStore a) s = Some s'"
  shows "si_pool s' = si_pool s" and "si_drain s' = None" and "still_waits (si_store s) (si_store s')"
proof -
  from assms(2) obtain x where x: "store_exec a (si_store s) = Some x" by (auto split: option.splits)
  have "actor a \<noteq> None" using assms x by (auto simp: all_flushing_def split: if_splits option.splits)
  then obtain t where t: "actor a = Some t" by blast
  have "running (si_store s)" "si_drain s = None" using assms(1) by (simp_all add: all_flushing_def)
  with assms(2) x t have s': "s' = s\<lparr>si_store := x\<rparr>" by (simp split: if_splits)
  show "si_pool s' = si_pool s" "si_drain s' = None" using \<open>si_drain s = None\<close> by (simp_all add: s')
  show "still_waits (si_store s) (si_store s')"
    using busy_step [OF x t all_flushing_busy [OF assms(1)]] by (simp add: s')
qed

definition frozen :: "site \<Rightarrow> site \<Rightarrow> bool" where
  "frozen s s' \<longleftrightarrow>
     threads (si_pool s') = threads (si_pool s) \<and> sent (si_store s') = sent (si_store s)
     \<and> (\<forall>t d k. spcs (si_store s) t = FWait d k \<longrightarrow> spcs (si_store s') t = FWait d k)"

lemma flushing_keeps:
  assumes "all_flushing s" and "threads (si_pool s') = threads (si_pool s)"
    and "worker_count (si_pool s') = worker_count (si_pool s)" "pcfg (si_pool s') = pcfg (si_pool s)" "si_drain s' = si_drain s"
    and "still_waits (si_store s) (si_store s')"
  shows "all_flushing s' \<and> frozen s s'"
proof
  show "frozen s s'" using assms by (simp add: frozen_def still_waits_def)
  have "case threads (si_pool s') w of Running n \<Rightarrow> odd n \<and> (\<exists>k. spcs (si_store s') n = FWait False k)
      | Looping \<Rightarrow> False | _ \<Rightarrow> True" for w
  proof -
    from assms(1) have "case threads (si_pool s) w of Running n \<Rightarrow> odd n \<and> (\<exists>k. spcs (si_store s) n = FWait False k)
        | Looping \<Rightarrow> False | _ \<Rightarrow> True" by (simp add: all_flushing_def)
    with assms(2,6) show ?thesis by (auto simp: still_waits_def split: worker.splits)
  qed
  with assms show "all_flushing s'" by (simp add: all_flushing_def still_waits_def)
qed

lemma flushing_step:
  assumes "all_flushing s" and "site_exec a s = Some s'"
  shows "all_flushing s' \<and> frozen s s'"
proof (cases a)
  case (SiStore b)
  with assms(2) have st: "site_exec (SiStore b) s = Some s'" by simp
  note f = flushing_pool [OF assms(1) st]
  have "si_drain s' = si_drain s" using f(2) assms(1) by (simp add: all_flushing_def)
  with f(1) f(3) show ?thesis by (intro flushing_keeps [OF assms(1)]) simp_all
next
  case (SiPool b)
  with assms(2) have st: "site_exec (SiPool b) s = Some s'" by simp
  have "still_waits (si_store s) (si_store s')"
    using flushing_store [OF assms(1) st] all_flushing_busy [OF assms(1)]
    by (auto simp: still_waits_def busy_store_def)
  with flushing_threads [OF assms(1) st] show ?thesis by (intro flushing_keeps [OF assms(1)])
qed

lemma flushing_run:
  "all_flushing s \<Longrightarrow> run_acts site_exec as s = Some s' \<Longrightarrow> all_flushing s' \<and> frozen s s'"
proof (induction as arbitrary: s)
  case Nil
  then show ?case by (simp add: frozen_def)
next
  case (Cons a as)
  from Cons.prems(2) obtain u where u: "site_exec a s = Some u" "run_acts site_exec as u = Some s'"
    by (auto split: option.splits)
  from flushing_step [OF Cons.prems(1) u(1)] have "all_flushing u" "frozen s u" by blast+
  with Cons.IH [OF _ u(2)] show ?case unfolding frozen_def by auto
qed

section \<open>Properties\<close>

text \<open>
  C34. A pool whose workers all call \<open>Flush\<close> is lost. In every run of store and pool together, each does only what its own model does. But when
  every worker runs a task that waits in \<open>Flush\<close>, while the drain it waits for is in the pool's queue, then in no continuation
  whatever does one of these calls return or one of these tasks end, no further record is handed on, and a call
  of \<open>Shutdown\<close> that has to join one of these workers does not return.
\<close>

theorem flush_on_every_worker_deadlocks:
  assumes "started s0" and "run_acts site_exec as (site_of s0 (ThreadPool c)) = Some s"
    and "all_flushing s" and "run_acts site_exec bs s = Some s'"
  shows "store_step\<^sup>*\<^sup>* s0 (si_store s') \<and> pool_step\<^sup>*\<^sup>* (ThreadPool c) (si_pool s')
    \<and> threads (si_pool s') = threads (si_pool s) \<and> sent (si_store s') = sent (si_store s)
    \<and> (\<forall>w n. threads (si_pool s) w = Running n \<longrightarrow> (\<exists>k. spcs (si_store s') n = FWait False k))
    \<and> (\<forall>d ws w n. callers (si_pool s') d = ShutJoining ws \<longrightarrow> w \<in> set ws \<longrightarrow> threads (si_pool s) w = Running n \<longrightarrow>
         site_exec (SiPool (ShutJoin d)) s' = None)"
proof -
  from flushing_run [OF assms(3,4)] have f: "all_flushing s'" "frozen s s'" by blast+
  have run: "\<exists>k. spcs (si_store s') n = FWait False k" if "threads (si_pool s) w = Running n" for w n
  proof -
    from f(1) have "case threads (si_pool s') w of Running n \<Rightarrow> odd n \<and> (\<exists>k. spcs (si_store s') n = FWait False k)
        | Looping \<Rightarrow> False | _ \<Rightarrow> True" by (simp add: all_flushing_def)
    with that f(2) show ?thesis by (simp add: frozen_def)
  qed
  have join: "site_exec (SiPool (ShutJoin d)) s' = None"
    if "callers (si_pool s') d = ShutJoining ws" "w \<in> set ws" "threads (si_pool s) w = Running n" for d ws w n
    using that f(2) by (force simp: frozen_def)
  from site_run [OF assms(2)] site_run [OF assms(4)]
  have "store_step\<^sup>*\<^sup>* s0 (si_store s')" "pool_step\<^sup>*\<^sup>* (ThreadPool c) (si_pool s')"
    by (auto simp: site_of_def intro: rtranclp_trans)
  with f(2) run join show ?thesis by (simp add: frozen_def)
qed

text \<open>
  A pool of one to two threads and two tasks of the application, each of which writes and flushes, on the store of two small buffers. Afterwards thread 7 stops the
  pool; it waits for the two workers, which wait for it no less.
\<close>

definition flushing_jobs :: "site_act list" where
  "flushing_jobs =
     map SiPool [Enqueue 8 1, EnqLock 8, Enqueue 8 3, EnqLock 8, EnqSpawn 8, Take 0, Take 1]
     @ map SiStore
         [Append 1 [1, 2], LoadMaster 1, TryWrite 1, Append 3 [3], LoadMaster 3, TryWrite 3,
          Mmap_Store.Flush 1, FlushLock 1, Mmap_Store.Flush 3, FlushLock 3]"

definition stop_pool :: "site_act list" where
  "stop_pool = map SiPool [Shutdown 7, ShutTake 7]"

lemmas site_eval = store_eval pool_eval site_of_def post_drain_def

theorem flush_on_every_worker_deadlocks_witness:
  "\<exists>s s'. run_acts site_exec flushing_jobs (site_of small_store (ThreadPool small_pool)) = Some s
     \<and> run_acts site_exec stop_pool s = Some s'
     \<and> queue (si_store s) = [0] \<and> tasks (si_pool s) = [0] \<and> sent (si_store s') = []
     \<and> (\<exists>k. spcs (si_store s') 1 = FWait False k) \<and> (\<exists>k. spcs (si_store s') 3 = FWait False k)
     \<and> site_exec (SiPool (ShutJoin 7)) s' = None"
proof -
  define s where "s = the (run_acts site_exec flushing_jobs (site_of small_store (ThreadPool small_pool)))"
  define s' where "s' = the (run_acts site_exec stop_pool s)"
  have run: "run_acts site_exec flushing_jobs (site_of small_store (ThreadPool small_pool)) = Some s"
    and s: "threads (si_pool s) = (\<lambda>_. Unborn)(0 := Running 1, 1 := Running 3)" "sent (si_store s) = []"
      "queue (si_store s) = [0]" "tasks (si_pool s) = [0]"
    and spc: "spcs (si_store s) = (\<lambda>_. SIdle)(1 := FWait False 2, 3 := FWait False 2)"
    and rest: "max_threads (pcfg (si_pool s)) = 2" "worker_count (si_pool s) = 2" "si_drain s = None" "holder (si_store s) = None"
      "running (si_store s)" "0 < in_flight (si_store s)" "\<not> stopped (si_store s)"
    unfolding s_def by (simp_all add: site_eval flushing_jobs_def fun_eq_iff)
  have stop: "run_acts site_exec stop_pool s = Some s'"
    and joining: "callers (si_pool s') 7 = ShutJoining [1, 0]"
    unfolding s'_def s_def by (simp_all add: site_eval flushing_jobs_def stop_pool_def)
  have "all_flushing s" using s spc rest by (auto simp: all_flushing_def)
  note d = flush_on_every_worker_deadlocks [OF _ run this stop]
  have "started small_store" using small_started by simp
  note d = d [OF this]
  have th: "threads (si_pool s) 0 = Running 1" "threads (si_pool s) 1 = Running 3" and w: "0 \<in> set [1, 0::nat]"
    by (simp_all add: s(1))
  have "\<exists>k. spcs (si_store s') 1 = FWait False k" "\<exists>k. spcs (si_store s') 3 = FWait False k"
    using d th by blast+
  moreover have "site_exec (SiPool (ShutJoin 7)) s' = None" using d joining w th(1) by blast
  moreover have "sent (si_store s') = []" using d s(2) by simp
  ultimately show ?thesis using run stop s(3,4) by blast
qed


text \<open>The same pool with one task that flushes: the other worker drains.\<close>

definition one_flushing_job :: "site_act list" where
  "one_flushing_job =
     map SiPool [Enqueue 8 1, EnqLock 8, Enqueue 8 3, EnqLock 8, EnqSpawn 8, Take 0, Take 1]
     @ map SiStore [Append 1 [1, 2], LoadMaster 1, TryWrite 1, Mmap_Store.Flush 1, FlushLock 1]"


end
