(* ===== verification/Shard_Writer.thy ===== *)
theory Shard_Writer
  imports Logger_Prelude "HOL-Library.AList" "HOL-Library.List_Lexorder" "HOL-Library.Char_ord"
begin

text \<open>
  \<open>sinks/shard_writer.h\<close> and \<open>.cpp\<close>: the rotating writer of shard files. Every operation runs under
  \<open>mu_\<close>, so a call is one step. The directory is an association list from paths to bytes, in
  the order of creation; the clock, the outcome of \<open>fopen\<close> and the counts \<open>fwrite\<close> returns are
  arguments. A file's bytes are those \<open>fwrite\<close> took; that \<open>fflush\<close> and \<open>fsync\<close> may fail is not seen by
  the code either. Shown: the header's layout, which frames end up in which shard, the
  order of the names, and two failure paths.
\<close>

section \<open>Names\<close>

text \<open>The local time of the clock, as \<open>localtime_r\<close> and the milliseconds give it (calendar year, month from 1).\<close>

record stamp =
  yr :: int
  mo :: int
  dy :: int
  hr :: int
  mi :: int
  sc :: int
  ms :: int

definition MakeShardName :: "stamp \<Rightarrow> u32 \<Rightarrow> string" where
  "MakeShardName t s =
     ''log-'' @ pad_dec 4 (yr t) @ pad_dec 2 (mo t) @ pad_dec 2 (dy t) @ ''-''
       @ pad_dec 2 (hr t) @ pad_dec 2 (mi t) @ pad_dec 2 (sc t) @ ''-''
       @ pad_dec 3 (ms t) @ ''-'' @ pad_dec 4 (int (unat s)) @ ''.bin''"

section \<open>State and operations\<close>

definition kHeaderBytes :: nat where
  "kHeaderBytes = 48"

definition kAlgoId :: u32 where
  "kAlgoId = 1"

definition kMagic :: bytes where
  "kMagic = [0x4C, 0x47, 0x52, 0x48, 1, 0, 0, 0]"

definition EncodeLEU32 :: "u32 \<Rightarrow> bytes" where
  "EncodeLEU32 v = [ucast (v AND 255), ucast (drop_bit 8 v AND 255),
                    ucast (drop_bit 16 v AND 255), ucast (drop_bit 24 v AND 255)]"

text \<open>The four reserved bytes stay zero.\<close>

definition header_bytes :: "bytes \<Rightarrow> bytes" where
  "header_bytes pub =
     (let hdr = replicate kHeaderBytes 0;
          hdr = mem_write hdr 0 kMagic;
          hdr = mem_write hdr 8 (EncodeLEU32 kAlgoId)
      in mem_write hdr 12 (take 32 pub))"

record writer =
  wdir :: string
  shard_limit :: nat
  eph_pub :: bytes
  file_open :: bool
  current_size :: nat
  current_path :: string
  wseq :: u32
  files :: "(string \<times> bytes) list"

text \<open>
  What the environment answers to one \<open>OpenNewShard_\<close>: the time, whether \<open>fopen\<close> succeeds, and how many
  bytes of the header \<open>fwrite\<close> takes.
\<close>

record open_reply =
  op_time :: stamp
  op_fopen :: bool
  op_header :: nat

definition append_file :: "bytes \<Rightarrow> writer \<Rightarrow> writer" where
  "append_file bs w =
     w\<lparr>files := AList.update (current_path w)
        (case map_of (files w) (current_path w) of None \<Rightarrow> bs | Some old \<Rightarrow> old @ bs) (files w)\<rparr>"

definition WriteHeader :: "open_reply \<Rightarrow> writer \<Rightarrow> unit res \<times> writer" where
  "WriteHeader o1 w =
     (let hdr = header_bytes (eph_pub w); wrote = min (op_header o1) kHeaderBytes;
          w1 = append_file (take wrote hdr) w
      in if wrote \<noteq> kHeaderBytes
         then (Inl (RuntimeError (''ShardWriter: short header write on '' @ current_path w)), w1)
         else (Inr (), w1\<lparr>current_size := kHeaderBytes\<rparr>))"

text \<open>Mode \<open>"wb"\<close> truncates a file that exists.\<close>

definition OpenNewShard :: "open_reply \<Rightarrow> writer \<Rightarrow> unit res \<times> writer" where
  "OpenNewShard o1 w =
     (let name = MakeShardName (op_time o1) (wseq w);
          w1 = w\<lparr>wseq := wseq w + 1, current_path := path_join (wdir w) name\<rparr>
      in if \<not> op_fopen o1
         then (Inl (RuntimeError (''ShardWriter: failed to open shard file '' @ current_path w1)),
               w1\<lparr>file_open := False\<rparr>)
         else WriteHeader o1 (w1\<lparr>file_open := True, current_size := 0,
                                files := AList.update (current_path w1) [] (files w1)\<rparr>))"

definition CloseCurrent :: "writer \<Rightarrow> writer" where
  "CloseCurrent w = w\<lparr>file_open := False\<rparr>"

text \<open>
  The constructor; \<open>made\<close> is the message of a failed \<open>create_directories\<close>, if it fails. When it throws
  no writer exists, but a shard file may.
\<close>

definition ShardWriter :: "string \<Rightarrow> nat \<Rightarrow> bytes \<Rightarrow> string option \<Rightarrow> open_reply \<Rightarrow> writer res" where
  "ShardWriter d limit pub made o1 =
     (if length pub \<noteq> 32 then Inl (RuntimeError ''ShardWriter: client_eph_pub must be 32 bytes'')
      else if limit \<le> kHeaderBytes
        then Inl (RuntimeError ''ShardWriter: shard_limit must exceed header size'')
      else case made of
        Some msg \<Rightarrow> Inl (RuntimeError (''ShardWriter: failed to create dir '' @ d @ '': '' @ msg))
      | None \<Rightarrow>
          (case OpenNewShard o1 \<lparr>wdir = d, shard_limit = limit, eph_pub = pub, file_open = False,
                   current_size = 0, current_path = [], wseq = 0, files = []\<rparr> of
             (Inl e, w) \<Rightarrow> Inl e
           | (Inr u, w) \<Rightarrow> Inr w))"

text \<open>
  \<open>WriteFrame\<close>; at most one shard is opened in a call, with the reply \<open>o1\<close>, except that a closed file is
  opened first and may at once be rotated away, which takes a second reply: it never happens, since a new shard
  holds only its header. \<open>wrote\<close> is what \<open>fwrite\<close> takes of the frame.
\<close>

definition WriteFrame :: "bytes \<Rightarrow> open_reply \<Rightarrow> nat \<Rightarrow> writer \<Rightarrow> unit res \<times> writer" where
  "WriteFrame data o1 wrote w =
     (if data = [] then (Inr (), w)
      else
        case (if \<not> file_open w then OpenNewShard o1 w else (Inr (), w)) of
          (Inl e, w) \<Rightarrow> (Inl e, w)
        | (Inr u, w) \<Rightarrow>
            case (if kHeaderBytes < current_size w \<and> shard_limit w < current_size w + length data
                  then OpenNewShard o1 (CloseCurrent w) else (Inr (), w)) of
              (Inl e, w) \<Rightarrow> (Inl e, w)
            | (Inr u, w) \<Rightarrow>
                let n = min wrote (length data); w = append_file (take n data) w
                in if n \<noteq> length data then (Inr (), w)
                   else (Inr (), w\<lparr>current_size := current_size w + length data\<rparr>))"

text \<open>A sequence of calls; an exception does not stop the caller, who logs it and goes on.\<close>

fun write_frames :: "(bytes \<times> open_reply \<times> nat) list \<Rightarrow> writer \<Rightarrow> writer" where
  "write_frames [] w = w"
| "write_frames ((data, o1, n) # rest) w = write_frames rest (snd (WriteFrame data o1 n w))"

section \<open>The header\<close>

lemma EncodeLEU32_eq: "EncodeLEU32 v = encode_le32 v"
  by (simp add: EncodeLEU32_def encode_le32_def)

lemma header_layout:
  assumes "length pub = 32"
  shows "header_bytes pub = kMagic @ encode_le32 kAlgoId @ pub @ replicate 4 0"
proof -
  have "replicate kHeaderBytes (0 :: byte) = replicate 8 0 @ replicate 4 0 @ replicate 32 0 @ replicate 4 0"
    by (simp add: kHeaderBytes_def flip: replicate_add)
  then show ?thesis
    using assms by (simp add: header_bytes_def Let_def mem_write_def kMagic_def EncodeLEU32_eq)
qed

lemma length_header: "length pub = 32 \<Longrightarrow> length (header_bytes pub) = kHeaderBytes"
  by (simp add: header_layout kMagic_def kHeaderBytes_def)

section \<open>Distinct names\<close>

lemma dash_dec_digits: "CHR ''-'' \<notin> set (dec_digits n)"
  using digit_codes [of "CHR ''-''" n] by auto

lemma dash_pad_dec: "CHR ''-'' \<notin> set (pad_dec w (int n))"
  using dash_dec_digits [of n] by (auto simp: pad_dec_def Let_def)

lemma name_seq_inj:
  assumes "MakeShardName t a = MakeShardName u b"
  shows "a = b"
proof -
  have tail: "takeWhile (\<lambda>c. c \<noteq> CHR ''-'') (rev (MakeShardName t a)) = rev (pad_dec 4 (int (unat a)) @ ''.bin'')" for t a
    using dash_pad_dec [of 4 "unat a"] by (simp add: MakeShardName_def takeWhile_append2 takeWhile_append)
  have "rev (pad_dec 4 (int (unat a)) @ ''.bin'') = rev (pad_dec 4 (int (unat b)) @ ''.bin'')"
    using assms tail [of t a] tail [of u b] by simp
  then have "pad_dec 4 (int (unat a)) = pad_dec 4 (int (unat b))"
    by (simp only: rev_is_rev_conv append_same_eq)
  then have "unat a = unat b" by (simp only: pad_dec_inj)
  then show ?thesis by (simp add: word_unat_eq_iff)
qed

section \<open>Which frames are in which shard\<close>

text \<open>
  The specification: frames are packed greedily, a new shard starts when the current one holds a frame
  and the next would take it over the limit.
\<close>

fun pack :: "nat \<Rightarrow> bytes list \<Rightarrow> bytes list \<Rightarrow> bytes list list" where
  "pack lim g [] = [g]"
| "pack lim g (f # fs) =
     (if f = [] then pack lim g fs
      else if g \<noteq> [] \<and> lim < kHeaderBytes + length (concat g) + length f then g # pack lim [f] fs
      else pack lim (g @ [f]) fs)"

lemma pack_all: "[] \<notin> set g \<Longrightarrow> concat (pack lim g fs) = g @ filter (\<lambda>f. f \<noteq> []) fs"
proof (induction fs arbitrary: g)
  case (Cons f fs)
  then show ?case by auto
qed simp

lemma pack_bound:
  "[] \<notin> set g \<Longrightarrow> length g \<le> 1 \<or> kHeaderBytes + length (concat g) \<le> lim \<Longrightarrow> h \<in> set (pack lim g fs) \<Longrightarrow>
     length h \<le> 1 \<or> kHeaderBytes + length (concat h) \<le> lim"
proof (induction fs arbitrary: g)
  case (Cons f fs)
  show ?case
  proof (cases "f = []")
    case True
    with Cons show ?thesis by simp
  next
    case f: False
    show ?thesis
    proof (cases "g \<noteq> [] \<and> lim < kHeaderBytes + length (concat g) + length f")
      case True
      with Cons.prems f consider "h = g" | "h \<in> set (pack lim [f] fs)" by auto
      then show ?thesis
      proof cases
        case 1
        with Cons.prems(2) show ?thesis by simp
      next
        case 2
        with Cons.IH [of "[f]"] f show ?thesis by auto
      qed
    next
      case False
      with Cons.prems f have h: "h \<in> set (pack lim (g @ [f]) fs)" by auto
      have "length (g @ [f]) \<le> 1 \<or> kHeaderBytes + length (concat (g @ [f])) \<le> lim"
        using False by (cases g) auto
      from Cons.IH [OF _ this h] Cons.prems(1) f show ?thesis by auto
    qed
  qed
qed simp

lemma pack_length: "length (pack lim g fs) \<le> Suc (length fs)"
proof (induction fs arbitrary: g)
  case (Cons f fs)
  show ?case using Cons.IH [of "g"] Cons.IH [of "[f]"] Cons.IH [of "g @ [f]"] by auto
qed simp

definition good :: "open_reply \<Rightarrow> bool" where
  "good o1 \<longleftrightarrow> op_fopen o1 \<and> kHeaderBytes \<le> op_header o1"

definition good_call :: "bytes \<times> open_reply \<times> nat \<Rightarrow> bool" where
  "good_call x \<longleftrightarrow> (case x of (data, o1, n) \<Rightarrow> good o1 \<and> length data \<le> n)"

text \<open>\<open>k\<close> shards have been opened, the last holds the frames \<open>g\<close> and the ones before are \<open>old\<close>.\<close>

definition writing :: "nat \<Rightarrow> bytes list list \<Rightarrow> bytes list \<Rightarrow> writer \<Rightarrow> bool" where
  "writing k old g w \<longleftrightarrow>
     file_open w \<and> length (eph_pub w) = 32 \<and> unat (wseq w) = k \<and> current_size w = kHeaderBytes + length (concat g)
     \<and> [] \<notin> set g
     \<and> map snd (files w) = map (\<lambda>g. header_bytes (eph_pub w) @ concat g) (old @ [g])
     \<and> distinct (map fst (files w)) \<and> fst (last (files w)) = current_path w
     \<and> (\<forall>p\<in>set (map fst (files w)). \<exists>t s. p = path_join (wdir w) (MakeShardName t s) \<and> unat s < k)"

lemma update_new: "k \<notin> fst ` set al \<Longrightarrow> AList.update k v al = al @ [(k, v)]"
  by (induction al) auto

lemma update_last:
  "k \<notin> fst ` set al \<Longrightarrow> AList.update k v (al @ [(k, u)]) = al @ [(k, v)]"
  by (induction al) auto

lemma path_join_ne: "path_join d (MakeShardName t a) = path_join d (MakeShardName u b) \<Longrightarrow> a = b"
  by (simp add: path_join_inj name_seq_inj)

lemma map_of_last: "p \<notin> fst ` set al \<Longrightarrow> map_of (al @ [(p, x)]) p = Some x"
  by (induction al) auto

lemma append_file_last:
  assumes "files w = al @ [(current_path w, x)]" and "current_path w \<notin> fst ` set al"
  shows "append_file bs w = w\<lparr>files := al @ [(current_path w, x @ bs)]\<rparr>"
  using assms by (simp add: append_file_def map_of_last update_last del: map_of_append)

lemma OpenNewShard_good:
  assumes g: "good o1" and pub: "length (eph_pub w) = 32"
    and new: "path_join (wdir w) (MakeShardName (op_time o1) (wseq w)) \<notin> fst ` set (files w)"
  shows "OpenNewShard o1 w = (Inr (), w\<lparr>wseq := wseq w + 1,
      current_path := path_join (wdir w) (MakeShardName (op_time o1) (wseq w)), file_open := True,
      current_size := kHeaderBytes,
      files := files w @ [(path_join (wdir w) (MakeShardName (op_time o1) (wseq w)), header_bytes (eph_pub w))]\<rparr>)"
proof -
  let ?p = "path_join (wdir w) (MakeShardName (op_time o1) (wseq w))"
  let ?w = "w\<lparr>wseq := wseq w + 1, current_path := ?p, file_open := True, current_size := 0,
      files := files w @ [(?p, [])]\<rparr>"
  have h: "take kHeaderBytes (header_bytes (eph_pub w)) = header_bytes (eph_pub w)"
    using length_header [OF pub] by simp
  have "append_file (header_bytes (eph_pub w)) ?w =
      ?w\<lparr>files := files w @ [(current_path ?w, [] @ header_bytes (eph_pub w))]\<rparr>"
    using new by (intro append_file_last) simp_all
  then have "WriteHeader o1 ?w = (Inr (), w\<lparr>wseq := wseq w + 1, current_path := ?p, file_open := True,
      current_size := kHeaderBytes, files := files w @ [(?p, header_bytes (eph_pub w))]\<rparr>)"
    using g h by (simp add: WriteHeader_def Let_def good_def min_absorb2)
  then show ?thesis
    using g new by (simp add: OpenNewShard_def Let_def good_def update_new)
qed

lemma last_file:
  assumes "writing k old g w"
  shows "\<exists>al. files w = al @ [(current_path w, header_bytes (eph_pub w) @ concat g)] \<and> current_path w \<notin> fst ` set al
    \<and> map snd al = map (\<lambda>g. header_bytes (eph_pub w) @ concat g) old"
proof -
  have "files w \<noteq> []" using assms by (auto simp: writing_def)
  then obtain al p b where f: "files w = al @ [(p, b)]" by (metis append_butlast_last_id prod.collapse)
  then show ?thesis using assms by (auto simp: writing_def)
qed

lemma append_file_simps [simp]:
  "current_size (append_file bs w) = current_size w" "current_path (append_file bs w) = current_path w"
  "file_open (append_file bs w) = file_open w" "eph_pub (append_file bs w) = eph_pub w"
  "shard_limit (append_file bs w) = shard_limit w" "wdir (append_file bs w) = wdir w"
  "wseq (append_file bs w) = wseq w"
  by (simp_all add: append_file_def)

text \<open>The two ways through \<open>WriteFrame\<close> when nothing fails.\<close>

lemma WriteFrame_append:
  "data \<noteq> [] \<Longrightarrow> file_open w \<Longrightarrow>
     \<not> (kHeaderBytes < current_size w \<and> shard_limit w < current_size w + length data) \<Longrightarrow> length data \<le> n \<Longrightarrow>
     WriteFrame data o1 n w = (Inr (), (append_file data w)\<lparr>current_size := current_size w + length data\<rparr>)"
  by (auto simp: WriteFrame_def Let_def min_absorb2)

lemma WriteFrame_reopen:
  "data \<noteq> [] \<Longrightarrow> file_open w \<Longrightarrow> kHeaderBytes < current_size w \<and> shard_limit w < current_size w + length data \<Longrightarrow>
     OpenNewShard o1 (CloseCurrent w) = (Inr (), w1) \<Longrightarrow> length data \<le> n \<Longrightarrow>
     WriteFrame data o1 n w = (Inr (), (append_file data w1)\<lparr>current_size := current_size w1 + length data\<rparr>)"
  by (simp add: WriteFrame_def Let_def min_absorb2)

lemma WriteFrame_stay:
  assumes w: "writing k old g w" and c: "good_call (data, o1, n)" and d: "data \<noteq> []"
    and fit: "g = [] \<or> kHeaderBytes + length (concat g) + length data \<le> shard_limit w"
  shows "writing k old (g @ [data]) (snd (WriteFrame data o1 n w))
    \<and> shard_limit (snd (WriteFrame data o1 n w)) = shard_limit w \<and> eph_pub (snd (WriteFrame data o1 n w)) = eph_pub w"
proof -
  obtain al where al: "files w = al @ [(current_path w, header_bytes (eph_pub w) @ concat g)]"
      "current_path w \<notin> fst ` set al" "map snd al = map (\<lambda>g. header_bytes (eph_pub w) @ concat g) old"
    using last_file [OF w] by blast
  have no: "\<not> (kHeaderBytes < current_size w \<and> shard_limit w < current_size w + length data)"
    using fit w by (auto simp: writing_def)
  have "WriteFrame data o1 n w = (Inr (), (append_file data w)\<lparr>current_size := current_size w + length data\<rparr>)"
    using w c by (intro WriteFrame_append [OF d _ no]) (simp_all add: writing_def good_call_def)
  also have "append_file data w = w\<lparr>files := al @ [(current_path w, (header_bytes (eph_pub w) @ concat g) @ data)]\<rparr>"
    using al(1,2) by (rule append_file_last)
  finally show ?thesis
    using w d al by (simp add: writing_def)
qed

lemma WriteFrame_rotate:
  assumes w: "writing k old g w" and c: "good_call (data, o1, n)" and d: "data \<noteq> []"
    and full: "g \<noteq> []" "shard_limit w < kHeaderBytes + length (concat g) + length data" and k: "Suc k < 2 ^ 32"
  shows "writing (Suc k) (old @ [g]) [data] (snd (WriteFrame data o1 n w))
    \<and> shard_limit (snd (WriteFrame data o1 n w)) = shard_limit w \<and> eph_pub (snd (WriteFrame data o1 n w)) = eph_pub w"
proof -
  let ?p = "path_join (wdir w) (MakeShardName (op_time o1) (wseq w))"
  let ?w = "w\<lparr>wseq := wseq w + 1, current_path := ?p, file_open := True,
      current_size := kHeaderBytes, files := files w @ [(?p, header_bytes (eph_pub w))]\<rparr>"
  have seq: "unat (wseq w) = k" using w by (simp add: writing_def)
  then have new: "?p \<notin> fst ` set (files w)"
    using w path_join_ne by (force simp: writing_def)
  have seq1: "unat (wseq w + 1) = Suc k"
    using seq k by (simp add: unat_word_ariths(1))
  have "concat g \<noteq> []" using full(1) w by (cases g) (auto simp: writing_def)
  then have "kHeaderBytes < current_size w" using w by (simp add: writing_def)
  moreover have "OpenNewShard o1 (CloseCurrent w) = (Inr (), ?w)"
    using OpenNewShard_good [of o1 "CloseCurrent w"] c w new
    by (simp add: good_call_def CloseCurrent_def writing_def)
  ultimately have "WriteFrame data o1 n w = (Inr (), (append_file data ?w)\<lparr>current_size := kHeaderBytes + length data\<rparr>)"
    using d w c full(2) WriteFrame_reopen [of data w o1 ?w n] by (simp add: writing_def good_call_def)
  also have "append_file data ?w = ?w\<lparr>files := files w @ [(current_path ?w, header_bytes (eph_pub w) @ data)]\<rparr>"
    using new by (intro append_file_last) simp_all
  finally have r: "snd (WriteFrame data o1 n w) =
      ?w\<lparr>files := files w @ [(?p, header_bytes (eph_pub w) @ data)], current_size := kHeaderBytes + length data\<rparr>"
    by simp
  have names: "\<exists>t s. p = path_join (wdir w) (MakeShardName t s) \<and> unat s < Suc k"
    if "p \<in> set (map fst (files w @ [(?p, header_bytes (eph_pub w) @ data)]))" for p
  proof (cases "p = ?p")
    case True
    with seq show ?thesis by blast
  next
    case False
    with that have "p \<in> set (map fst (files w))" by simp
    with w show ?thesis unfolding writing_def by (meson less_SucI)
  qed
  show ?thesis
    unfolding writing_def r using w d new seq1 names by (simp add: writing_def)
qed

lemma write_frames_good:
  assumes "writing k old g w" and "\<forall>x\<in>set cs. good_call x" and "k + length cs < 2 ^ 32"
  shows "\<exists>k' old' g'. writing k' old' g' (write_frames cs w) \<and> eph_pub (write_frames cs w) = eph_pub w
    \<and> old' @ [g'] = old @ pack (shard_limit w) g (map fst cs)"
  using assms
proof (induction cs arbitrary: k old g w)
  case (Cons x cs)
  obtain data o1 n where x: "x = (data, o1, n)" by (cases x)
  let ?w = "snd (WriteFrame data o1 n w)"
  have c: "good_call (data, o1, n)" using Cons.prems(2) x by simp
  consider "data = []" | "data \<noteq> []" "g \<noteq> []" "shard_limit w < kHeaderBytes + length (concat g) + length data"
    | "data \<noteq> []" "g = [] \<or> kHeaderBytes + length (concat g) + length data \<le> shard_limit w" by linarith
  then show ?case
  proof cases
    case 1
    then have "?w = w" by (simp add: WriteFrame_def)
    with Cons.IH [OF Cons.prems(1)] Cons.prems x 1 show ?thesis by simp
  next
    case 2
    have k: "Suc k < 2 ^ 32" using Cons.prems(3) by simp
    note r = WriteFrame_rotate [OF Cons.prems(1) c 2 k]
    from Cons.IH [of "Suc k" "old @ [g]" "[data]" ?w] r Cons.prems x 2 show ?thesis by auto
  next
    case 3
    note r = WriteFrame_stay [OF Cons.prems(1) c 3]
    from Cons.IH [of k old "g @ [data]" ?w] r Cons.prems x 3 show ?thesis by auto
  qed
qed auto

lemma ShardWriter_good:
  assumes "ShardWriter d limit pub None o1 = Inr w" and "good o1"
  shows "writing 1 [] [] w \<and> shard_limit w = limit \<and> eph_pub w = pub \<and> wdir w = d"
proof -
  let ?w = "\<lparr>wdir = d, shard_limit = limit, eph_pub = pub, file_open = False, current_size = 0,
      current_path = [], wseq = 0, files = []\<rparr>"
  have pub: "length pub = 32" using assms(1) by (auto simp: ShardWriter_def split: if_splits)
  have "OpenNewShard o1 ?w = (Inr (), ?w\<lparr>wseq := 1, current_path := path_join d (MakeShardName (op_time o1) 0),
      file_open := True, current_size := kHeaderBytes,
      files := [(path_join d (MakeShardName (op_time o1) 0), header_bytes pub)]\<rparr>)"
    using OpenNewShard_good [OF assms(2), of ?w] pub by simp
  then have "w = ?w\<lparr>wseq := 1, current_path := path_join d (MakeShardName (op_time o1) 0),
      file_open := True, current_size := kHeaderBytes,
      files := [(path_join d (MakeShardName (op_time o1) 0), header_bytes pub)]\<rparr>"
    using assms(1) by (auto simp: ShardWriter_def split: if_splits)
  then show ?thesis
    using pub by (auto simp: writing_def intro!: exI [of _ "op_time o1"] exI [of _ "0 :: u32"])
qed

text \<open>
  C7. Every frame is on disk, in order, in bounded shards: when no open and no write fails, a writer that has taken fewer than
  \<open>2 ^ 32 - 1\<close> frames leaves one file per group of the greedy packing, each the 48-byte header followed by
  the group's frames byte for byte; the groups together are the non-empty frames in order; no shard exceeds the limit
  unless it holds a single frame. The names are distinct whatever the clock does.
\<close>

theorem shards_hold_frames:
  assumes "ShardWriter d limit pub None o1 = Inr w" and "good o1"
    and "\<forall>x\<in>set cs. good_call x" and "length cs + 1 < 2 ^ 32"
  shows "map snd (files (write_frames cs w)) = map (\<lambda>g. header_bytes pub @ concat g) (pack limit [] (map fst cs))
    \<and> distinct (map fst (files (write_frames cs w)))
    \<and> concat (pack limit [] (map fst cs)) = filter (\<lambda>f. f \<noteq> []) (map fst cs)
    \<and> (\<forall>g\<in>set (pack limit [] (map fst cs)). length g \<le> 1 \<or> kHeaderBytes + length (concat g) \<le> limit)"
proof -
  note init = ShardWriter_good [OF assms(1,2)]
  obtain k' old' g' where r: "writing k' old' g' (write_frames cs w)"
      "old' @ [g'] = [] @ pack (shard_limit w) [] (map fst cs)" "eph_pub (write_frames cs w) = eph_pub w"
    using write_frames_good [of 1 "[]" "[]" w cs] init assms(3,4) by auto
  show ?thesis
    using r init pack_all [of "[]"] pack_bound [of "[]"] by (auto simp: writing_def)
qed

lemma ShardWriter_ok:
  "good o1 \<Longrightarrow> length pub = 32 \<Longrightarrow> kHeaderBytes < limit \<Longrightarrow> \<exists>w. ShardWriter d limit pub None o1 = Inr w"
  using OpenNewShard_good [of o1 "\<lparr>wdir = d, shard_limit = limit, eph_pub = pub, file_open = False,
      current_size = 0, current_path = [], wseq = 0, files = []\<rparr>"]
  by (simp add: ShardWriter_def)

definition sample_open :: open_reply where
  "sample_open = \<lparr>op_time = \<lparr>yr = 2026, mo = 5, dy = 22, hr = 22, mi = 29, sc = 42, ms = 434\<rparr>,
     op_fopen = True, op_header = 48\<rparr>"

theorem shards_hold_frames_witness:
  "\<exists>w. ShardWriter ''demo'' 60 (replicate 32 7) None sample_open = Inr w
     \<and> map snd (files (write_frames (map (\<lambda>f. (f, sample_open, 100))
          [replicate 5 1, [], replicate 7 2, replicate 20 3, [4]]) w))
       = [header_bytes (replicate 32 7) @ replicate 5 1 @ replicate 7 2, header_bytes (replicate 32 7) @ replicate 20 3,
          header_bytes (replicate 32 7) @ [4]]"
proof -
  let ?fs = "[replicate 5 1, [], replicate 7 2, replicate 20 3, [4]] :: bytes list"
  let ?cs = "map (\<lambda>f. (f, sample_open, 100)) ?fs :: (bytes \<times> open_reply \<times> nat) list"
  have g: "good sample_open" by (simp add: good_def sample_open_def kHeaderBytes_def)
  then obtain w where w: "ShardWriter ''demo'' 60 (replicate 32 7) None sample_open = Inr w"
    using ShardWriter_ok [of sample_open "replicate 32 7" 60 "''demo''"] by (auto simp: kHeaderBytes_def)
  have ok: "\<forall>x\<in>set ?cs. good_call x" using g by (simp add: good_call_def)
  have p: "pack 60 [] ?fs = [[replicate 5 1, replicate 7 2], [replicate 20 3], [[4]]]"
    by (simp add: kHeaderBytes_def)
  have "map snd (files (write_frames ?cs w)) = map (\<lambda>g. header_bytes (replicate 32 7) @ concat g) (pack 60 [] (map fst ?cs))"
    using shards_hold_frames [OF w g ok] by simp
  then show ?thesis using w p by (intro exI [of _ w]) simp
qed

section \<open>The order of the names\<close>

lemma block_less:
  fixes a b x y :: "'a :: linorder list"
  shows "length a = length b \<Longrightarrow> a @ x < b @ y \<longleftrightarrow> a < b \<or> a = b \<and> x < y"
  by (induction a b rule: list_induct2) auto

lemma digit_less: "digit_char m < digit_char n \<longleftrightarrow> m mod 10 < n mod 10"
  by (simp add: less_char_def of_digit_char)

lemma digit_eq: "digit_char m = digit_char n \<longleftrightarrow> m mod 10 = n mod 10"
proof
  assume "digit_char m = digit_char n"
  then have "of_char (digit_char m) = (of_char (digit_char n) :: nat)" by simp
  then show "m mod 10 = n mod 10" by (simp add: of_digit_char)
qed (simp add: digit_char_def)

lemma fixed_order:
  "m < 10 ^ w \<Longrightarrow> n < 10 ^ w \<Longrightarrow>
     (fixed_digits w m < fixed_digits w n \<longleftrightarrow> m < n) \<and> (fixed_digits w m = fixed_digits w n \<longleftrightarrow> m = n)"
proof (induction w arbitrary: m n)
  case (Suc w)
  have d: "m div 10 < 10 ^ w" "n div 10 < 10 ^ w" using Suc.prems by (auto simp: less_mult_imp_div_less mult.commute)
  have "m = 10 * (m div 10) + m mod 10" "n = 10 * (n div 10) + n mod 10" "m mod 10 < 10" "n mod 10 < 10"
    by simp_all
  then have s: "m < n \<longleftrightarrow> m div 10 < n div 10 \<or> m div 10 = n div 10 \<and> m mod 10 < n mod 10"
    by linarith
  have e: "m = n \<longleftrightarrow> m div 10 = n div 10 \<and> m mod 10 = n mod 10"
    by (metis div_mult_mod_eq)
  show ?case
    using Suc.IH [OF d] by (simp add: block_less digit_less digit_eq s e)
qed simp

lemma blocks_order:
  assumes "y < 10000" "y' < 10000" "mo1 < 100" "mo' < 100" "d < 100" "d' < 100" "h < 100" "h' < 100"
    "m < 100" "m' < 100" "s < 100" "s' < 100" "z < 1000" "z' < 1000" "q < 10000" "q' < (10000 :: nat)"
  shows "''log-'' @ fixed_digits 4 y @ fixed_digits 2 mo1 @ fixed_digits 2 d @ ''-'' @ fixed_digits 2 h
      @ fixed_digits 2 m @ fixed_digits 2 s @ ''-'' @ fixed_digits 3 z @ ''-'' @ fixed_digits 4 q @ ''.bin''
    < ''log-'' @ fixed_digits 4 y' @ fixed_digits 2 mo' @ fixed_digits 2 d' @ ''-'' @ fixed_digits 2 h'
      @ fixed_digits 2 m' @ fixed_digits 2 s' @ ''-'' @ fixed_digits 3 z' @ ''-'' @ fixed_digits 4 q' @ ''.bin''
    \<longleftrightarrow> [y, mo1, d, h, m, s, z, q] < [y', mo', d', h', m', s', z', q']"
  using assms by (simp add: block_less fixed_order)

text \<open>The fields of a calendar time before the year 10000.\<close>

definition stamp_ok :: "stamp \<Rightarrow> bool" where
  "stamp_ok t \<longleftrightarrow> 0 \<le> yr t \<and> yr t < 10000 \<and> 0 \<le> mo t \<and> mo t < 100 \<and> 0 \<le> dy t \<and> dy t < 100
     \<and> 0 \<le> hr t \<and> hr t < 100 \<and> 0 \<le> mi t \<and> mi t < 100 \<and> 0 \<le> sc t \<and> sc t < 100 \<and> 0 \<le> ms t \<and> ms t < 1000"

definition name_key :: "stamp \<Rightarrow> u32 \<Rightarrow> nat list" where
  "name_key t s = [nat (yr t), nat (mo t), nat (dy t), nat (hr t), nat (mi t), nat (sc t), nat (ms t), unat s]"

lemma name_fixed:
  assumes "stamp_ok t" and "unat s < 10000"
  shows "MakeShardName t s = ''log-'' @ fixed_digits 4 (nat (yr t)) @ fixed_digits 2 (nat (mo t))
    @ fixed_digits 2 (nat (dy t)) @ ''-'' @ fixed_digits 2 (nat (hr t)) @ fixed_digits 2 (nat (mi t))
    @ fixed_digits 2 (nat (sc t)) @ ''-'' @ fixed_digits 3 (nat (ms t)) @ ''-'' @ fixed_digits 4 (unat s) @ ''.bin''"
proof -
  have "pad_dec w i = fixed_digits w (nat i)" if "0 \<le> i" "nat i < 10 ^ w" "0 < w" for w i
    using pad_dec_fixed [of "nat i" w] that by simp
  moreover have "pad_dec 4 (uint s) = fixed_digits 4 (unat s)"
    using pad_dec_fixed [of "unat s" 4] assms(2) by simp
  ultimately show ?thesis using assms by (simp add: MakeShardName_def stamp_ok_def)
qed

text \<open>
  Names sort like times: for local times before the year 10000 and the first 10000 shards of a writer, the
  lexicographic order of two shard names is the order of their time stamps (field by field down to the millisecond), and of their
  sequence numbers when these are equal. A directory listing is chronological as far as local time is.
\<close>

theorem names_sort_chronologically:
  assumes "stamp_ok t" and "stamp_ok u" and "unat a < 10000" and "unat b < 10000"
  shows "MakeShardName t a < MakeShardName u b \<longleftrightarrow> name_key t a < name_key u b"
proof -
  have nat: "nat (yr x) < 10000" "nat (mo x) < 100" "nat (dy x) < 100" "nat (hr x) < 100" "nat (mi x) < 100"
    "nat (sc x) < 100" "nat (ms x) < 1000" if "stamp_ok x" for x
    using that by (auto simp: stamp_ok_def)
  show ?thesis
    unfolding name_fixed [OF assms(1,3)] name_fixed [OF assms(2,4)] name_key_def
    by (rule blocks_order [OF nat(1) [OF assms(1)] nat(1) [OF assms(2)] nat(2) [OF assms(1)] nat(2) [OF assms(2)]
        nat(3) [OF assms(1)] nat(3) [OF assms(2)] nat(4) [OF assms(1)] nat(4) [OF assms(2)]
        nat(5) [OF assms(1)] nat(5) [OF assms(2)] nat(6) [OF assms(1)] nat(6) [OF assms(2)]
        nat(7) [OF assms(1)] nat(7) [OF assms(2)] assms(3,4)])
qed

theorem names_sort_chronologically_witness:
  "MakeShardName (op_time sample_open) 7 < MakeShardName ((op_time sample_open)\<lparr>ms := 435\<rparr>) 3
     \<longleftrightarrow> name_key (op_time sample_open) 7 < name_key ((op_time sample_open)\<lparr>ms := 435\<rparr>) 3"
proof -
  have "stamp_ok (op_time sample_open)" "stamp_ok ((op_time sample_open)\<lparr>ms := 435\<rparr>)"
    by (simp_all add: stamp_ok_def sample_open_def)
  moreover have "unat (7 :: u32) < 10000" "unat (3 :: u32) < 10000" by simp_all
  ultimately show ?thesis by (rule names_sort_chronologically)
qed

text \<open>
  Beyond four digits the names no longer sort: the shard after number 9999 of the same millisecond is named before it.
\<close>

theorem name_order_breaks_at_10000:
  "MakeShardName t 10000 < MakeShardName t 9999"
proof -
  have "pad_dec 4 10000 = map digit_char [1, 10, 100, 1000, 10000]"
    "pad_dec 4 9999 = map digit_char [9, 99, 999, 9999]"
    by (simp_all add: pad_dec_def Let_def dec_digits.simps)
  then show ?thesis by (simp add: MakeShardName_def block_less digit_less)
qed

section \<open>Writes that fail\<close>

text \<open>
  A header that was not written is never noticed again: when a rotation creates the new file but its header is written short,
  \<open>WriteFrame\<close> throws and the frame is dropped; the next call finds the file open and empty-sized, appends
  its frame behind the fragment of the header and returns normally, whatever the limit.
\<close>

theorem short_header_goes_unnoticed:
  assumes "file_open w" and "kHeaderBytes < current_size w" and "shard_limit w < current_size w + length data"
    and "op_fopen o1" and "op_header o1 = n" and "n < kHeaderBytes" and "data \<noteq> []" and "data' \<noteq> []"
    and "length (eph_pub w) = 32"
    and "path_join (wdir w) (MakeShardName (op_time o1) (wseq w)) \<notin> fst ` set (files w)"
  shows "(\<exists>e. fst (WriteFrame data o1 k w) = Inl e)
    \<and> fst (WriteFrame data' o2 (length data') (snd (WriteFrame data o1 k w))) = Inr ()
    \<and> snd (last (files (snd (WriteFrame data' o2 (length data') (snd (WriteFrame data o1 k w))))))
        = take n (header_bytes (eph_pub w)) @ data'"
proof -
  let ?p = "path_join (wdir w) (MakeShardName (op_time o1) (wseq w))"
  let ?w = "w\<lparr>wseq := wseq w + 1, current_path := ?p, file_open := True, current_size := 0,
      files := files w @ [(?p, [])]\<rparr>"
  let ?v = "?w\<lparr>files := files w @ [(?p, take n (header_bytes (eph_pub w)))]\<rparr>"
  have "append_file (take n (header_bytes (eph_pub w))) ?w =
      ?w\<lparr>files := files w @ [(current_path ?w, [] @ take n (header_bytes (eph_pub w)))]\<rparr>"
    using assms(10) by (intro append_file_last) simp_all
  then have "WriteHeader o1 ?w = (Inl (RuntimeError (''ShardWriter: short header write on '' @ ?p)), ?v)"
    using assms(5,6) by (simp add: WriteHeader_def Let_def min_absorb1)
  then have "OpenNewShard o1 (CloseCurrent w) = (Inl (RuntimeError (''ShardWriter: short header write on '' @ ?p)), ?v)"
    using assms(4,10) by (simp add: OpenNewShard_def Let_def CloseCurrent_def update_new)
  then have 1: "WriteFrame data o1 k w = (Inl (RuntimeError (''ShardWriter: short header write on '' @ ?p)), ?v)"
    using assms(1,2,3,7) by (simp add: WriteFrame_def)
  have "append_file data' ?v = ?v\<lparr>files := files w @ [(current_path ?v, take n (header_bytes (eph_pub w)) @ data')]\<rparr>"
    using assms(10) by (intro append_file_last) simp_all
  then have 2: "WriteFrame data' o2 (length data') ?v = (Inr (), ?v\<lparr>files := files w @ [(?p, take n (header_bytes (eph_pub w)) @ data')],
      current_size := length data'\<rparr>)"
    using assms(8) WriteFrame_append [of data' ?v "length data'" o2] by (simp add: kHeaderBytes_def)
  show ?thesis by (simp only: 1 2 fst_conv snd_conv) simp
qed

definition half_full :: writer where
  "half_full = \<lparr>wdir = ''d'', shard_limit = 60, eph_pub = replicate 32 7, file_open = True, current_size = 58,
     current_path = ''d/x'', wseq = 1, files = [(''d/x'', header_bytes (replicate 32 7) @ replicate 10 1)]\<rparr>"

theorem short_header_goes_unnoticed_witness:
  "\<exists>w. (\<exists>e. fst (WriteFrame [1, 2, 3] (sample_open\<lparr>op_header := 3\<rparr>) 9 half_full) = Inl e)
    \<and> fst (WriteFrame [4] sample_open 1 (snd (WriteFrame [1, 2, 3] (sample_open\<lparr>op_header := 3\<rparr>) 9 half_full))) = Inr ()
    \<and> w = snd (WriteFrame [4] sample_open 1 (snd (WriteFrame [1, 2, 3] (sample_open\<lparr>op_header := 3\<rparr>) 9 half_full)))
    \<and> snd (last (files w)) = [0x4C, 0x47, 0x52, 4]"
proof -
  let ?o = "sample_open\<lparr>op_header := 3\<rparr>"
  have h: "take 3 (header_bytes (replicate 32 7)) = [0x4C, 0x47, 0x52]"
    by (simp add: header_layout kMagic_def)
  have "(\<exists>e. fst (WriteFrame [1, 2, 3] ?o 9 half_full) = Inl e)
    \<and> fst (WriteFrame [4] sample_open (length [4 :: byte]) (snd (WriteFrame [1, 2, 3] ?o 9 half_full))) = Inr ()
    \<and> snd (last (files (snd (WriteFrame [4] sample_open (length [4 :: byte]) (snd (WriteFrame [1, 2, 3] ?o 9 half_full))))))
        = take 3 (header_bytes (eph_pub half_full)) @ [4]"
    by (rule short_header_goes_unnoticed)
      (simp_all add: half_full_def sample_open_def kHeaderBytes_def path_join_def MakeShardName_def)
  then show ?thesis using h by (simp add: half_full_def)
qed

text \<open>
  A short write leaves a broken frame behind: when \<open>fwrite\<close> takes only part of a frame, the bytes it took stay in the shard,
  \<open>WriteFrame\<close> returns normally without counting them, and the next frame follows them directly.
\<close>

theorem short_write_leaves_fragment:
  assumes "writing k old g w" and "data \<noteq> []" and "n < length data"
    and "g = [] \<or> kHeaderBytes + length (concat g) + length data \<le> shard_limit w"
  shows "fst (WriteFrame data o1 n w) = Inr () \<and> current_size (snd (WriteFrame data o1 n w)) = current_size w
    \<and> snd (last (files (snd (WriteFrame data o1 n w)))) = header_bytes (eph_pub w) @ concat g @ take n data"
proof -
  obtain al where al: "files w = al @ [(current_path w, header_bytes (eph_pub w) @ concat g)]"
      "current_path w \<notin> fst ` set al"
    using last_file [OF assms(1)] by blast
  have "WriteFrame data o1 n w = (Inr (), append_file (take n data) w)"
    using assms by (auto simp: WriteFrame_def Let_def writing_def min_absorb1)
  then show ?thesis using append_file_last [OF al, of "take n data"] by simp
qed

theorem short_write_leaves_fragment_witness:
  "\<exists>w. ShardWriter ''demo'' 60 (replicate 32 7) None sample_open = Inr w
     \<and> fst (WriteFrame [1, 2, 3] sample_open 2 w) = Inr ()
     \<and> current_size (snd (WriteFrame [1, 2, 3] sample_open 2 w)) = current_size w
     \<and> snd (last (files (snd (WriteFrame [1, 2, 3] sample_open 2 w)))) = header_bytes (replicate 32 7) @ [1, 2]"
proof -
  have g: "good sample_open" by (simp add: good_def sample_open_def kHeaderBytes_def)
  then obtain w where w: "ShardWriter ''demo'' 60 (replicate 32 7) None sample_open = Inr w"
    using ShardWriter_ok [of sample_open "replicate 32 7" 60 "''demo''"] by (auto simp: kHeaderBytes_def)
  note i = ShardWriter_good [OF w g]
  then show ?thesis
    using short_write_leaves_fragment [of 1 "[]" "[]" w "[1, 2, 3]" 2 sample_open] w by auto
qed

end
