(* ===== verification/Shard_Durable.thy ===== *)
theory Shard_Durable
  imports Shard_Writer
begin

text \<open>
  \<open>sinks/shard_writer.cpp\<close> below \<open>fwrite\<close>: what the stdio buffer, the kernel and the disk hold of each shard. A shard
  only grows at its end, so each of them holds a prefix, given by its length. \<open>Shard_Writer\<close> says what
  \<open>fwrite\<close> has taken; here every operation also says what it pushes further down: stdio hands bytes to
  the kernel when it likes (an argument) and at \<open>fflush\<close> and \<open>fclose\<close>; the kernel has written to the disk, as far as the
  program can know, what \<open>fsync\<close> covered. \<open>Flush\<close>, the destructor and \<open>CurrentShardPath\<close> are modelled here. That
  \<open>fflush\<close> and \<open>fsync\<close> do their work is assumed: the code does not look at what they return (Shard_Flush_Faults drops the assumption).
\<close>

section \<open>State\<close>

record durable =
  wr :: writer
  handed :: "string \<Rightarrow> nat"
  synced :: "string \<Rightarrow> nat"

definition file_len :: "writer \<Rightarrow> string \<Rightarrow> nat" where
  "file_len w p = (case map_of (files w) p of None \<Rightarrow> 0 | Some bs \<Rightarrow> length bs)"

text \<open>What is left of the shards when the process is killed, and what is certain to be left after a power failure.\<close>

definition after_kill :: "durable \<Rightarrow> (string \<times> bytes) list" where
  "after_kill s = map (\<lambda>(p, bs). (p, take (handed s p) bs)) (files (wr s))"

definition after_power_loss :: "durable \<Rightarrow> (string \<times> bytes) list" where
  "after_power_loss s = map (\<lambda>(p, bs). (p, take (synced s p) bs)) (files (wr s))"

section \<open>Operations\<close>

text \<open>Of the open file, stdio has handed at least \<open>k\<close> bytes to the kernel, or all there are.\<close>

definition spill :: "nat \<Rightarrow> durable \<Rightarrow> durable" where
  "spill k s =
     (let p = current_path (wr s)
      in s\<lparr>handed := (handed s)(p := max (handed s p) (min k (file_len (wr s) p)))\<rparr>)"

definition fflush :: "durable \<Rightarrow> durable" where
  "fflush s = s\<lparr>handed := (handed s)(current_path (wr s) := file_len (wr s) (current_path (wr s)))\<rparr>"

definition fsync :: "durable \<Rightarrow> durable" where
  "fsync s = s\<lparr>synced := (synced s)(current_path (wr s) := handed s (current_path (wr s)))\<rparr>"

definition Flush :: "durable \<Rightarrow> durable" where
  "Flush s = (if \<not> file_open (wr s) then s else fsync (fflush s))"

definition close_file :: "durable \<Rightarrow> durable" where
  "close_file s = (if \<not> file_open (wr s) then s else (fflush s)\<lparr>wr := CloseCurrent (wr s)\<rparr>)"

definition open_file :: "open_reply \<Rightarrow> nat \<Rightarrow> durable \<Rightarrow> unit res \<times> durable" where
  "open_file o1 k s =
     (let (r, w) = OpenNewShard o1 (wr s); p = current_path w; s1 = s\<lparr>wr := w\<rparr>
      in (r, if op_fopen o1 then spill k (s1\<lparr>handed := (handed s)(p := 0), synced := (synced s)(p := 0)\<rparr>) else s1))"

definition DestroyWriter :: "durable \<Rightarrow> durable" where
  "DestroyWriter s = close_file s"

definition CurrentShardPath :: "durable \<Rightarrow> string" where
  "CurrentShardPath s = current_path (wr s)"

definition write_frame :: "bytes \<Rightarrow> open_reply \<Rightarrow> nat \<Rightarrow> nat \<Rightarrow> durable \<Rightarrow> unit res \<times> durable" where
  "write_frame data o1 wrote k s =
     (if data = [] then (Inr (), s)
      else
        case (if \<not> file_open (wr s) then open_file o1 k s else (Inr (), s)) of
          (Inl e, s) \<Rightarrow> (Inl e, s)
        | (Inr u, s) \<Rightarrow>
            case (if kHeaderBytes < current_size (wr s) \<and> shard_limit (wr s) < current_size (wr s) + length data
                  then open_file o1 k (close_file s) else (Inr (), s)) of
              (Inl e, s) \<Rightarrow> (Inl e, s)
            | (Inr u, s) \<Rightarrow>
                let n = min wrote (length data); w = append_file (take n data) (wr s);
                    w = (if n \<noteq> length data then w else w\<lparr>current_size := current_size w + length data\<rparr>)
                in (Inr (), spill k (s\<lparr>wr := w\<rparr>)))"

text \<open>The calls of a client, and the state the constructor leaves.\<close>

datatype call = CallWrite bytes open_reply nat nat | CallFlush

fun perform :: "call \<Rightarrow> durable \<Rightarrow> durable" where
  "perform (CallWrite data o1 n k) s = snd (write_frame data o1 n k s)"
| "perform CallFlush s = Flush s"

definition opened :: "writer \<Rightarrow> nat \<Rightarrow> durable" where
  "opened w k = spill k \<lparr>wr = w, handed = (\<lambda>_. 0), synced = (\<lambda>_. 0)\<rparr>"

section \<open>The writer above\<close>

lemma wr_simps [simp]:
  "wr (spill k s) = wr s" "wr (fflush s) = wr s" "wr (fsync s) = wr s" "wr (Flush s) = wr s"
  by (simp_all add: spill_def fflush_def fsync_def Flush_def Let_def)

lemma wr_close: "wr (close_file s) = CloseCurrent (wr s)"
  by (simp add: close_file_def CloseCurrent_def)

lemma wr_open: "fst (open_file o1 k s) = fst (OpenNewShard o1 (wr s))"
  "wr (snd (open_file o1 k s)) = snd (OpenNewShard o1 (wr s))"
  by (simp_all add: open_file_def case_prod_beta Let_def)

text \<open>Seen from above, the operations are those of \<open>Shard_Writer\<close>.\<close>

definition above :: "'e \<times> durable \<Rightarrow> 'e \<times> writer" where
  "above r = (fst r, wr (snd r))"

lemma above_simps [simp]: "above (e, s) = (e, wr s)"
  by (simp add: above_def)

lemma above_open [simp]: "above (open_file o1 k s) = OpenNewShard o1 (wr s)"
  by (simp add: above_def wr_open)

lemma above_bind:
  assumes "\<And>s. above (f s) = g (wr s)"
  shows "above (case r of (Inl e, s) \<Rightarrow> (Inl e, s) | (Inr u, s) \<Rightarrow> f s) =
    (case above r of (Inl e, w) \<Rightarrow> (Inl e, w) | (Inr u, w) \<Rightarrow> g w)"
  using assms by (cases r; cases "fst r") auto

lemma write_frame_refines:
  "above (write_frame data o1 n k s) = WriteFrame data o1 n (wr s)"
proof (cases "data = []")
  case False
  show ?thesis
    unfolding write_frame_def WriteFrame_def if_not_P [OF False]
  proof (subst above_bind)
    show "above (case if kHeaderBytes < current_size (wr s) \<and> shard_limit (wr s) < current_size (wr s) + length data
          then open_file o1 k (close_file s) else (Inr (), s) of (Inl e, s) \<Rightarrow> (Inl e, s)
        | (Inr u, s) \<Rightarrow> let n = min n (length data); w = append_file (take n data) (wr s);
             w = (if n \<noteq> length data then w else w\<lparr>current_size := current_size w + length data\<rparr>)
           in (Inr (), spill k (s\<lparr>wr := w\<rparr>))) =
      (case if kHeaderBytes < current_size (wr s) \<and> shard_limit (wr s) < current_size (wr s) + length data
          then OpenNewShard o1 (CloseCurrent (wr s)) else (Inr (), wr s) of (Inl e, w) \<Rightarrow> (Inl e, w)
        | (Inr u, w) \<Rightarrow> let n = min n (length data); w = append_file (take n data) w
           in if n \<noteq> length data then (Inr (), w)
              else (Inr (), w\<lparr>current_size := current_size w + length data\<rparr>))" for s
      by (subst above_bind) (auto simp: Let_def wr_close split: sum.splits prod.splits)
  qed simp
qed (simp add: write_frame_def WriteFrame_def)

section \<open>The invariant\<close>

text \<open>Disk, kernel and file are prefixes of one another, and what is closed has left stdio.\<close>

definition levels_ok :: "durable \<Rightarrow> bool" where
  "levels_ok s \<longleftrightarrow>
     (\<forall>p. synced s p \<le> handed s p \<and> handed s p \<le> file_len (wr s) p \<and> synced s p \<le> file_len (wr s) p)
     \<and> (\<forall>p. p \<noteq> current_path (wr s) \<or> \<not> file_open (wr s) \<longrightarrow> handed s p = file_len (wr s) p)"

lemma file_len_append:
  "file_len (append_file bs w) p = file_len w p + (if p = current_path w then length bs else 0)"
  by (auto simp: file_len_def append_file_def update_conv split: option.split)

lemma file_len_cong [simp]:
  "file_len (CloseCurrent w) = file_len w" "file_len (w\<lparr>current_size := n\<rparr>) = file_len w"
  by (simp_all add: file_len_def CloseCurrent_def fun_eq_iff)

lemma CloseCurrent_simps [simp]:
  "file_open (CloseCurrent w) = False" "current_path (CloseCurrent w) = current_path w"
  "files (CloseCurrent w) = files w"
  by (simp_all add: CloseCurrent_def)

lemma OpenNewShard_len:
  "op_fopen o1 \<Longrightarrow> file_open (snd (OpenNewShard o1 w)) \<and>
     (p \<noteq> current_path (snd (OpenNewShard o1 w)) \<longrightarrow> file_len (snd (OpenNewShard o1 w)) p = file_len w p)"
  "\<not> op_fopen o1 \<Longrightarrow> \<not> file_open (snd (OpenNewShard o1 w)) \<and> file_len (snd (OpenNewShard o1 w)) = file_len w"
  by (auto simp: OpenNewShard_def WriteHeader_def Let_def file_len_def append_file_def update_conv fun_eq_iff)

lemma spill_ok:
  "levels_ok s \<Longrightarrow> file_open (wr s) \<Longrightarrow> levels_ok (spill k s)"
  by (auto simp: levels_ok_def spill_def Let_def le_max_iff_disj)

lemma close_ok: "levels_ok s \<Longrightarrow> levels_ok (close_file s) \<and> \<not> file_open (wr (close_file s))"
  by (auto simp: levels_ok_def close_file_def fflush_def)

lemma Flush_ok: "levels_ok s \<Longrightarrow> levels_ok (Flush s)"
  by (auto simp: levels_ok_def Flush_def fflush_def fsync_def)

lemma open_ok:
  assumes "levels_ok s" and "\<not> file_open (wr s)"
  shows "levels_ok (snd (open_file o1 k s))"
proof (cases "op_fopen o1")
  case True
  let ?w = "snd (OpenNewShard o1 (wr s))"
  have "levels_ok (s\<lparr>wr := ?w, handed := (handed s)(current_path ?w := 0), synced := (synced s)(current_path ?w := 0)\<rparr>)"
    using assms OpenNewShard_len(1) [OF True, of "wr s"] by (auto simp: levels_ok_def)
  from spill_ok [OF this, of k] show ?thesis
    using True OpenNewShard_len(1) [OF True, of "wr s"] by (simp add: open_file_def case_prod_beta Let_def)
next
  case False
  then show ?thesis
    using assms OpenNewShard_len(2) [OF False, of "wr s"]
    by (auto simp: open_file_def case_prod_beta Let_def levels_ok_def)
qed

lemma open_opens: "fst (open_file o1 k s) = Inr u \<Longrightarrow> file_open (wr (snd (open_file o1 k s)))"
  by (auto simp: wr_open OpenNewShard_def WriteHeader_def Let_def split: if_splits)

lemma append_ok:
  assumes "levels_ok s" and "file_open (wr s)"
  shows "levels_ok (spill k (s\<lparr>wr := if b then append_file bs (wr s)
    else (append_file bs (wr s))\<lparr>current_size := n\<rparr>\<rparr>))"
  using assms by (intro spill_ok) (auto simp: levels_ok_def file_len_append trans_le_add1)

lemma write_ok:
  assumes "levels_ok s"
  shows "levels_ok (snd (write_frame data o1 n k s))"
proof (cases "data = []")
  case False
  let ?r1 = "if \<not> file_open (wr s) then open_file o1 k s else (Inr (), s)"
  have 1: "levels_ok (snd ?r1)" using assms open_ok by simp
  have o1: "fst ?r1 = Inr u \<Longrightarrow> file_open (wr (snd ?r1))" for u using open_opens by (auto split: if_splits)
  show ?thesis
  proof (cases "fst ?r1")
    case (Inl e)
    then show ?thesis using 1 False by (cases ?r1) (auto simp: write_frame_def)
  next
    case (Inr u)
    define s1 where "s1 = snd ?r1"
    let ?r2 = "if kHeaderBytes < current_size (wr s1) \<and> shard_limit (wr s1) < current_size (wr s1) + length data
      then open_file o1 k (close_file s1) else (Inr (), s1)"
    have 2: "levels_ok (snd ?r2)" using 1 close_ok [of s1] open_ok by (simp add: s1_def)
    have o2: "fst ?r2 = Inr u' \<Longrightarrow> file_open (wr (snd ?r2))" for u'
      using open_opens o1 [OF Inr] by (auto simp: s1_def split: if_splits)
    have r1: "?r1 = (Inr (), s1)" using Inr by (simp add: s1_def prod_eq_iff)
    show ?thesis
    proof (cases "fst ?r2")
      case (Inl e)
      then show ?thesis using 2 False r1 by (cases ?r2) (auto simp: write_frame_def)
    next
      case (Inr u')
      then have r2: "?r2 = (Inr (), snd ?r2)" by (simp add: prod_eq_iff)
      show ?thesis
        unfolding write_frame_def r1 if_not_P [OF False] prod.case sum.case
        by (subst r2) (use append_ok [OF 2 o2 [OF Inr]] in \<open>simp add: Let_def\<close>)
    qed
  qed
qed (use assms in \<open>simp add: write_frame_def\<close>)

lemma perform_ok: "levels_ok s \<Longrightarrow> levels_ok (perform c s)"
  by (cases c) (simp_all add: write_ok Flush_ok)

lemma calls_ok: "levels_ok s \<Longrightarrow> levels_ok (fold perform cs s)"
  by (induction cs arbitrary: s) (simp_all add: perform_ok)

lemma ShardWriter_one_file:
  assumes "ShardWriter d limit pub made o1 = Inr w"
  shows "file_open w \<and> map fst (files w) = [current_path w]"
  using assms
  by (auto simp: ShardWriter_def OpenNewShard_def WriteHeader_def append_file_def Let_def
      split: if_splits option.splits)

lemma opened_ok:
  assumes "ShardWriter d limit pub made o1 = Inr w"
  shows "levels_ok (opened w k)"
proof -
  have "map_of (files w) p = None" if "p \<noteq> current_path w" for p
    using ShardWriter_one_file [OF assms] that by (auto simp: map_of_eq_None_iff simp flip: set_map)
  then show ?thesis
    using ShardWriter_one_file [OF assms]
    by (auto simp: opened_def levels_ok_def spill_def Let_def file_len_def)
qed

text \<open>Only \<open>Flush\<close> makes bytes of a shard certain, and only of the shard that is open.\<close>

lemma synced_steps [simp]:
  "synced (spill k s) = synced s" "synced (fflush s) = synced s" "synced (close_file s) = synced s"
  by (simp_all add: spill_def fflush_def close_file_def Let_def)

lemma open_synced: "synced (snd (open_file o1 k s)) p \<le> synced s p"
  by (simp add: open_file_def case_prod_beta Let_def)

lemma open_synced_le:
  "synced s p \<le> m \<Longrightarrow> synced (snd (open_file o1 k s)) p \<le> m"
  "synced s p \<le> m \<Longrightarrow> synced (snd (open_file o1 k (close_file s))) p \<le> m"
  using open_synced [of o1 k s p] open_synced [of o1 k "close_file s" p] by simp_all

lemma write_synced: "synced (snd (write_frame data o1 n k s)) p \<le> synced s p"
proof -
  have "synced (snd (case r of (Inl e, s) \<Rightarrow> (Inl e, s) | (Inr u, s) \<Rightarrow> f s)) p \<le> m"
    if "synced (snd r) p \<le> m" and "\<And>s. synced s p \<le> m \<Longrightarrow> synced (snd (f s)) p \<le> m"
    for r :: "unit res \<times> durable" and f :: "durable \<Rightarrow> unit res \<times> durable" and m
    using that by (cases r; cases "fst r") auto
  note bind = this
  show ?thesis
    unfolding write_frame_def
    by (auto simp: Let_def intro!: bind open_synced_le)
qed

lemma flush_open: "file_open (wr s) \<Longrightarrow>
    handed (Flush s) (current_path (wr s)) = file_len (wr s) (current_path (wr s))
    \<and> synced (Flush s) (current_path (wr s)) = file_len (wr s) (current_path (wr s))"
  by (simp add: Flush_def fflush_def fsync_def)

text \<open>A path names one file.\<close>

lemma distinct_keys:
  "distinct (map fst (files w)) \<Longrightarrow> distinct (map fst (files (append_file bs w)))"
  "distinct (map fst (files w)) \<Longrightarrow> distinct (map fst (files (snd (OpenNewShard o1 w))))"
  by (simp_all add: append_file_def OpenNewShard_def WriteHeader_def Let_def distinct_update)

lemma WriteFrame_keys:
  "distinct (map fst (files w)) \<Longrightarrow> distinct (map fst (files (snd (WriteFrame data o1 n w))))"
  using distinct_keys(2) [of w o1] distinct_keys(2) [of "CloseCurrent w" o1]
    distinct_keys(2) [of "CloseCurrent (snd (OpenNewShard o1 w))" o1]
  by (auto simp: WriteFrame_def Let_def distinct_keys(1) split: sum.splits prod.splits)

lemma calls_keys:
  "distinct (map fst (files (wr s))) \<Longrightarrow> distinct (map fst (files (wr (fold perform cs s))))"
proof (induction cs arbitrary: s)
  case (Cons c cs)
  have "wr (snd (write_frame data o1 n k s)) = snd (WriteFrame data o1 n (wr s))" for data o1 n k
    using write_frame_refines [of data o1 n k s] by (metis above_def snd_conv)
  then have "distinct (map fst (files (wr (perform c s))))"
    using Cons.prems WriteFrame_keys by (cases c) simp_all
  with Cons.IH show ?case by simp
qed simp

lemma map_of_pairs: "map_of (map (\<lambda>(p, bs). (p, f p bs)) xs) q = map_option (f q) (map_of xs q)"
  by (induction xs) auto

section \<open>What Flush makes certain\<close>


text \<open>Two frames that need two shards, then a \<open>Flush\<close>: the first shard has reached the kernel only.\<close>

definition two_shards :: "call list" where
  "two_shards = [CallWrite (replicate 10 1) sample_open 100 0, CallWrite (replicate 10 2) sample_open 100 50]"


end
