(* ===== verification/Shard_Flush_Faults.thy ===== *)
theory Shard_Flush_Faults
  imports Shard_Durable
begin

text \<open>
  \<open>ShardWriter::Flush\<close> and \<open>CloseCurrent_\<close> (sinks/shard_writer.cpp) on a system on which \<open>fflush\<close>, \<open>fclose\<close> and \<open>fsync\<close> may fail.
  The code looks at none of their results. Shown: with good replies the operations are those of Shard_Durable; with bad ones
  they end in the same way for their caller, and what stdio could not hand on is lost by a kill of the process, or, once the shard has been rotated away, for good.
\<close>

section \<open>Operations with replies\<close>

text \<open>
  The reply of \<open>fflush\<close> or \<open>fclose\<close>: \<open>None\<close> when everything has reached the kernel, \<open>Some k\<close> when it fails and the kernel has the first \<open>k\<close> bytes of the
  file, or what it had before.
\<close>

definition fflush_replying :: "nat option \<Rightarrow> durable \<Rightarrow> durable" where
  "fflush_replying r s = (case r of None \<Rightarrow> fflush s | Some k \<Rightarrow> spill k s)"

definition FlushReplying :: "nat option \<Rightarrow> bool \<Rightarrow> durable \<Rightarrow> durable" where
  "FlushReplying r fsync_ok s =
     (if \<not> file_open (wr s) then s
      else let s1 = fflush_replying r s in if fsync_ok then fsync s1 else s1)"

text \<open>\<open>fclose\<close> tries once more to write what is left, and gives the buffer up in any case.\<close>

definition CloseReplying :: "nat option \<Rightarrow> nat option \<Rightarrow> durable \<Rightarrow> durable" where
  "CloseReplying r r2 s =
     (if \<not> file_open (wr s) then s
      else let s2 = fflush_replying r2 (fflush_replying r s) in s2\<lparr>wr := CloseCurrent (wr s2)\<rparr>)"

lemma fflush_spilled: "fflush (spill k s) = fflush s" "fflush (fflush s) = fflush s"
  by (simp_all add: fflush_def spill_def Let_def)

lemma wr_replying [simp]: "wr (fflush_replying r s) = wr s"
  by (simp add: fflush_replying_def split: option.split)

lemma replying_good:
  "FlushReplying None True s = Flush s" "CloseReplying r None s = close_file s"
  by (simp_all add: FlushReplying_def Flush_def CloseReplying_def close_file_def fflush_replying_def fflush_spilled
      split: option.split)

text \<open>A later operation on another shard does not reach what was given up.\<close>

lemma handed_elsewhere:
  "p \<noteq> current_path (wr s) \<Longrightarrow> handed (Flush s) p = handed s p"
  "p \<noteq> current_path (snd (OpenNewShard o1 (wr s))) \<Longrightarrow> handed (snd (open_file o1 k s)) p = handed s p"
  by (simp_all add: Flush_def fflush_def fsync_def open_file_def spill_def Let_def case_prod_beta)

section \<open>Properties\<close>

text \<open>
  A failure to flush is not reported and not repaired. Take any state in which the open shard has bytes that the kernel lacks, and let \<open>fflush\<close>
  fail having handed on \<open>k\<close> bytes. \<open>Flush\<close> returns as always (it has no result, and the writer is unchanged), and a kill then leaves
  the first \<open>k\<close> bytes. If only \<open>fsync\<close> fails, a power failure leaves what it would have left before. If
  the shard is rotated away while the device refuses, the shard stays cut off at \<open>k\<close> bytes whatever is
  opened and flushed afterwards, although every frame in it was taken by \<open>WriteFrame\<close>.
\<close>

theorem flush_failures_are_silent:
  assumes "file_open (wr s)" and "handed s (current_path (wr s)) \<le> k" and "k < file_len (wr s) (current_path (wr s))"
  shows "wr (FlushReplying (Some k) ok s) = wr s
    \<and> map_of (after_kill (FlushReplying (Some k) ok s)) (CurrentShardPath s) =
        map_option (take k) (map_of (files (wr s)) (CurrentShardPath s))
    \<and> after_power_loss (FlushReplying None False s) = after_power_loss s
    \<and> FlushReplying None True s = Flush s
    \<and> wr (CloseReplying (Some k) (Some k) s) = CloseCurrent (wr s)
    \<and> (current_path (snd (OpenNewShard o1 (CloseCurrent (wr s)))) \<noteq> CurrentShardPath s \<longrightarrow>
         handed (Flush (snd (open_file o1 n (CloseReplying (Some k) (Some k) s)))) (CurrentShardPath s) = k)"
proof -
  have cut: "handed (fflush_replying (Some k) s) (current_path (wr s)) = k"
    using assms(2,3) by (simp add: fflush_replying_def spill_def Let_def)
  have kill: "handed (FlushReplying (Some k) ok s) (current_path (wr s)) = k"
    using assms(1) cut by (simp add: FlushReplying_def Let_def fsync_def)
  have wr: "wr (FlushReplying r b s) = wr s" for r b by (simp add: FlushReplying_def Let_def)
  have close: "wr (CloseReplying (Some k) (Some k) s) = CloseCurrent (wr s)"
    "handed (CloseReplying (Some k) (Some k) s) (current_path (wr s)) = k"
    using assms by (simp_all add: CloseReplying_def Let_def fflush_replying_def spill_def)
  have "map_of (after_kill (FlushReplying (Some k) ok s)) (CurrentShardPath s) =
      map_option (take k) (map_of (files (wr s)) (CurrentShardPath s))"
    by (simp add: after_kill_def map_of_pairs CurrentShardPath_def wr kill)
  moreover have "after_power_loss (FlushReplying None False s) = after_power_loss s"
    by (simp add: after_power_loss_def FlushReplying_def fflush_replying_def)
  ultimately show ?thesis
    using wr close by (simp add: replying_good CurrentShardPath_def handed_elsewhere wr_open)
qed

text \<open>A shard of 58 bytes of which the kernel has none, on a device with room for 20.\<close>

definition half_written :: durable where
  "half_written =
     \<lparr>wr = \<lparr>wdir = ''d'', shard_limit = 60, eph_pub = [], file_open = True, current_size = 58, current_path = ''d/a'',
        wseq = 1, files = [(''d/a'', replicate 58 7)]\<rparr>, handed = (\<lambda>_. 0), synced = (\<lambda>_. 0)\<rparr>"

lemma flush_failures_are_silent_witness:
  "map_of (after_kill (FlushReplying (Some 20) True half_written)) ''d/a'' = Some (replicate 20 7)
    \<and> map_of (after_kill (Flush half_written)) ''d/a'' = Some (replicate 58 7)"
proof -
  have "file_open (wr half_written)" "handed half_written (current_path (wr half_written)) \<le> 20"
    "20 < file_len (wr half_written) (current_path (wr half_written))"
    by (simp_all add: half_written_def file_len_def)
  then have "map_of (after_kill (FlushReplying (Some 20) True half_written)) (CurrentShardPath half_written) =
      map_option (take 20) (map_of (files (wr half_written)) (CurrentShardPath half_written))"
    by (rule flush_failures_are_silent [THEN conjunct2, THEN conjunct1])
  moreover have "CurrentShardPath half_written = ''d/a''" "files (wr half_written) = [(''d/a'', replicate 58 7)]"
    by (simp_all add: half_written_def CurrentShardPath_def)
  moreover have "map_of (after_kill (Flush half_written)) ''d/a'' = Some (replicate 58 7)"
    by (simp add: half_written_def after_kill_def Flush_def fsync_def fflush_def file_len_def)
  ultimately show ?thesis by simp
qed

end
