(* ===== verification/Eviction.thy ===== *)
theory Eviction
  imports Logger_Prelude "HOL-Library.Multiset" "HOL-Library.List_Lexorder" "HOL-Library.Char_ord"
begin

text \<open>
  \<open>EvictionRunner\<close> (sinks/eviction_runner.cpp): the sweep that deletes the oldest shards of the log
  directory when their total size exceeds a cap, and the life of the thread that runs it, one call at a time
  (Eviction_Thread has its steps).
  The file system's replies are data: for each directory entry what \<open>is_regular_file\<close> and \<open>file_size\<close>
  answer, for each path its canonical form and whether \<open>remove\<close> fails.
\<close>

section \<open>The directory scan\<close>

definition LooksLikeShard :: "string \<Rightarrow> bool" where
  "LooksLikeShard name \<longleftrightarrow>
     length name > 4 + 4 \<and> take 4 name = ''log-'' \<and> drop (length name - 4) name = ''.bin''"

text \<open>
  \<open>ev_regular\<close> is the value of \<open>is_regular_file(ec)\<close> with what it leaves in \<open>ec\<close> (libstdc++ clears it on success
  and sets it, for instance, for a dangling symbolic link); \<open>ev_size\<close> is \<open>None\<close> when \<open>file_size\<close> fails.
\<close>

record ev_entry =
  ev_name :: string
  ev_regular :: "bool \<times> bool"
  ev_size :: "nat option"

record entry =
  filename :: string
  fsize :: nat

text \<open>The loop over the directory, with the error code carried from one round to the next; \<open>None\<close> is its \<open>return\<close>.\<close>

fun scan :: "ev_entry list \<Rightarrow> bool \<Rightarrow> entry list \<Rightarrow> nat \<Rightarrow> (entry list \<times> nat) option" where
  "scan [] ec entries tot = Some (entries, tot)"
| "scan (de # ds) ec entries tot =
     (if ec then None
      else case ev_regular de of (regular, ec) \<Rightarrow>
        if \<not> regular then scan ds ec entries tot
        else if \<not> LooksLikeShard (ev_name de) then scan ds ec entries tot
        else case ev_size de of
               None \<Rightarrow> scan ds True entries tot
             | Some sz \<Rightarrow> scan ds False (entries @ [\<lparr>filename = ev_name de, fsize = sz\<rparr>]) (tot + sz))"

section \<open>The sweep\<close>

text \<open>
  \<open>canon p\<close> is \<open>weakly_canonical\<close> (\<open>None\<close> when it reports an error), \<open>stuck p\<close> says that \<open>remove\<close> of \<open>p\<close>
  reports one. The result is the entries removed, in order, and the final total.
\<close>

fun remove_oldest ::
  "(string \<Rightarrow> string option) \<Rightarrow> (string \<Rightarrow> bool) \<Rightarrow> nat \<Rightarrow> string \<Rightarrow> string \<Rightarrow>
     entry list \<Rightarrow> nat \<Rightarrow> entry list \<times> nat" where
  "remove_oldest canon stuck cap dir active_canon [] tot = ([], tot)"
| "remove_oldest canon stuck cap dir active_canon (e # es) tot =
     (if tot \<le> cap then ([], tot)
      else if active_canon \<noteq> [] \<and> canon (path_join dir (filename e)) = Some active_canon
      then remove_oldest canon stuck cap dir active_canon es tot
      else if stuck (path_join dir (filename e))
      then remove_oldest canon stuck cap dir active_canon es tot
      else case remove_oldest canon stuck cap dir active_canon es (tot - fsize e) of
             (removed, t) \<Rightarrow> (e # removed, t))"

definition active_path :: "(string \<Rightarrow> string option) \<Rightarrow> string \<Rightarrow> string" where
  "active_path canon active =
     (if active = [] then [] else case canon active of None \<Rightarrow> [] | Some c \<Rightarrow> c)"

text \<open>
  \<open>listing\<close> is \<open>None\<close> when the directory does not exist or cannot be asked; an iterator that cannot be
  opened yields no entry. \<open>active\<close> is the value of \<open>get_active_shard_\<close>, empty when there is none.
\<close>

definition SweepOnce ::
  "(string \<Rightarrow> string option) \<Rightarrow> (string \<Rightarrow> bool) \<Rightarrow> nat \<Rightarrow> string \<Rightarrow> string \<Rightarrow>
     ev_entry list option \<Rightarrow> entry list" where
  "SweepOnce canon stuck cap dir active listing =
     (case listing of
        None \<Rightarrow> []
      | Some des \<Rightarrow>
          (case scan des False [] 0 of
             None \<Rightarrow> []
           | Some (entries, tot) \<Rightarrow>
               if tot \<le> cap then []
               else fst (remove_oldest canon stuck cap dir (active_path canon active)
                          (sort_key filename entries) tot)))"

section \<open>The thread\<close>

text \<open>
  \<open>thread_\<close> has not been started, runs \<open>RunLoop_\<close>, or has been joined; \<open>sweeps\<close> counts the calls of \<open>SweepOnce_\<close>.
\<close>

datatype ev_thread = NoThread | InLoop | Joined

record runner =
  started :: bool
  stop :: bool
  thread :: ev_thread
  sweeps :: nat

definition runner_init :: runner where
  "runner_init = \<lparr>started = False, stop = False, thread = NoThread, sweeps = 0\<rparr>"

definition Start :: "runner \<Rightarrow> runner" where
  "Start r = (if started r then r else r\<lparr>started := True, thread := InLoop\<rparr>)"

text \<open>\<open>Stop\<close> returns when the thread has seen \<open>stop_\<close> and left its loop.\<close>

definition Stop :: "runner \<Rightarrow> runner" where
  "Stop r =
     (if \<not> started r then r
      else r\<lparr>stop := True, thread := (if thread r = InLoop then Joined else thread r), started := False\<rparr>)"

text \<open>One turn of the loop: \<open>stop_\<close> is looked at before and after the wait.\<close>

definition LoopTurn :: "runner \<Rightarrow> runner" where
  "LoopTurn r = (if thread r = InLoop \<and> \<not> stop r then r\<lparr>sweeps := sweeps r + 1\<rparr> else r)"

datatype ev_call = CallStart | CallStop | Turn

fun ev_run :: "ev_call list \<Rightarrow> runner \<Rightarrow> runner" where
  "ev_run [] r = r"
| "ev_run (CallStart # cs) r = ev_run cs (Start r)"
| "ev_run (CallStop # cs) r = ev_run cs (Stop r)"
| "ev_run (Turn # cs) r = ev_run cs (LoopTurn r)"

section \<open>What a sweep removes\<close>

definition keepable :: "(string \<Rightarrow> string option) \<Rightarrow> (string \<Rightarrow> bool) \<Rightarrow> string \<Rightarrow> string \<Rightarrow> entry \<Rightarrow> bool" where
  "keepable canon stuck dir active_canon e \<longleftrightarrow>
     active_canon \<noteq> [] \<and> canon (path_join dir (filename e)) = Some active_canon
     \<or> stuck (path_join dir (filename e))"

definition sizes :: "entry list \<Rightarrow> nat" where
  "sizes es = sum_list (map fsize es)"

lemma sizes_simps [simp]: "sizes [] = 0" "sizes (e # es) = fsize e + sizes es"
  "sizes (xs @ ys) = sizes xs + sizes ys"
  by (simp_all add: sizes_def)

text \<open>
  The sweep stops at some point of the sorted list, and up to there it has removed exactly
  what it could: the specification in one equation.
\<close>

lemma remove_oldest_prefix:
  assumes "remove_oldest canon stuck cap dir ac es tot = (removed, t)" and "sizes es \<le> tot"
  shows "\<exists>pre post. es = pre @ post
     \<and> removed = filter (\<lambda>e. \<not> keepable canon stuck dir ac e) pre
     \<and> t + sizes removed = tot \<and> (post = [] \<or> t \<le> cap)
     \<and> (\<forall>r rs. removed = rs @ [r] \<longrightarrow> cap < tot - sizes rs)"
  using assms
proof (induction es arbitrary: tot removed t)
  case Nil
  then show ?case by simp
next
  case (Cons e es)
  show ?case
  proof (cases "tot \<le> cap")
    case True
    with Cons.prems show ?thesis by (intro exI [of _ "[]"] exI [of _ "e # es"]) simp
  next
    case big: False
    show ?thesis
    proof (cases "keepable canon stuck dir ac e")
      case True
      with big Cons.prems have "remove_oldest canon stuck cap dir ac es tot = (removed, t)"
        by (auto simp: keepable_def split: if_splits)
      from Cons.IH [OF this] Cons.prems(2) obtain pre post where "es = pre @ post"
        "removed = filter (\<lambda>e. \<not> keepable canon stuck dir ac e) pre"
        "t + sizes removed = tot" "post = [] \<or> t \<le> cap"
        "\<forall>r rs. removed = rs @ [r] \<longrightarrow> cap < tot - sizes rs" by auto
      with True show ?thesis by (intro exI [of _ "e # pre"] exI [of _ post]) auto
    next
      case False
      with big Cons.prems obtain rm where
        r: "remove_oldest canon stuck cap dir ac es (tot - fsize e) = (rm, t)" and rm: "removed = e # rm"
        by (auto simp: keepable_def split: if_splits prod.splits)
      have "sizes es \<le> tot - fsize e" using Cons.prems(2) by simp
      from Cons.IH [OF r this] obtain pre post where *: "es = pre @ post"
        "rm = filter (\<lambda>e. \<not> keepable canon stuck dir ac e) pre"
        "t + sizes rm = tot - fsize e" "post = [] \<or> t \<le> cap"
        "\<forall>r rs. rm = rs @ [r] \<longrightarrow> cap < tot - fsize e - sizes rs" by (elim exE conjE)
      have "cap < tot - sizes rs" if "removed = rs @ [x]" for x rs
      proof (cases rs)
        case Nil
        with big show ?thesis by simp
      next
        case (Cons y ys)
        with that rm have "rm = ys @ [x]" "y = e" by auto
        with *(5) Cons show ?thesis by (auto simp: algebra_simps)
      qed
      with * False rm Cons.prems(2) show ?thesis
        by (intro exI [of _ "e # pre"] exI [of _ post]) auto
    qed
  qed
qed

lemma scan_Cons:
  assumes "scan (de # ds) ec entries tot = Some res"
  obtains ec' where "\<not> ec" and "scan ds ec' entries tot = Some res"
  | ec' sz where "\<not> ec" and "LooksLikeShard (ev_name de)" and "ev_size de = Some sz"
      and "scan ds ec' (entries @ [\<lparr>filename = ev_name de, fsize = sz\<rparr>]) (tot + sz) = Some res"
proof -
  obtain reg c where r: "ev_regular de = (reg, c)" by (cases "ev_regular de")
  from assms have ec: "\<not> ec" by (auto split: if_splits)
  show ?thesis
  proof (cases "reg \<and> LooksLikeShard (ev_name de)")
    case True
    show ?thesis
    proof (cases "ev_size de")
      case None
      with True assms ec r have "scan ds True entries tot = Some res" by simp
      with ec show ?thesis by (rule that(1))
    next
      case (Some sz)
      with True assms ec r
      have "scan ds False (entries @ [\<lparr>filename = ev_name de, fsize = sz\<rparr>]) (tot + sz) = Some res" by simp
      with ec True Some show ?thesis using that(2) by blast
    qed
  next
    case False
    with assms ec r have "scan ds c entries tot = Some res" by (simp split: if_splits)
    with ec show ?thesis by (rule that(1))
  qed
qed

lemma scan_shards:
  "scan des ec entries tot = Some (entries', tot') \<Longrightarrow> tot = sizes entries \<Longrightarrow>
     \<forall>e \<in> set entries. LooksLikeShard (filename e) \<Longrightarrow>
     tot' = sizes entries' \<and> (\<forall>e \<in> set entries'. LooksLikeShard (filename e))"
proof (induction des arbitrary: ec entries tot)
  case (Cons de ds)
  from Cons.prems(1) show ?case
  proof (cases rule: scan_Cons)
    case (1 ec')
    from Cons.IH [OF 1(2) Cons.prems(2,3)] show ?thesis .
  next
    case (2 ec' sz)
    show ?thesis by (rule Cons.IH [OF 2(4)]) (use Cons.prems 2 in auto)
  qed
qed simp

lemma sizes_mset: "mset xs = mset ys \<Longrightarrow> sizes xs = sizes ys"
  unfolding sizes_def by (metis mset_map sum_mset_sum_list)

section \<open>Properties\<close>

text \<open>
  C21. A sweep removes the oldest shards, no more than necessary, and never the active one.
  When the scan is complete and the total is over the cap, the shards removed are, in the
  order of the names, all the removable ones of an initial segment of the sorted directory:
  the active shard (as far as its path has a canonical form) and files that \<open>remove\<close> fails on are
  skipped. Afterwards the total is within the cap or nothing removable is left, and the
  last removal was needed.
\<close>

theorem sweep_removes_oldest:
  fixes canon :: "string \<Rightarrow> string option" and stuck :: "string \<Rightarrow> bool" and dir active :: string
  assumes "scan des False [] 0 = Some (entries, tot)" and "cap < tot"
  defines "removed \<equiv> SweepOnce canon stuck cap dir active (Some des)"
    and "keep \<equiv> keepable canon stuck dir (active_path canon active)"
  shows "\<exists>older newer. mset (older @ newer) = mset entries \<and> sorted (map filename (older @ newer))
    \<and> removed = filter (\<lambda>e. \<not> keep e) older
    \<and> (newer = [] \<or> tot - sizes removed \<le> cap)
    \<and> (\<forall>rs r. removed = rs @ [r] \<longrightarrow> cap < tot - sizes rs)
    \<and> (\<forall>e \<in> set removed. LooksLikeShard (filename e))
    \<and> (\<forall>e \<in> set removed. active \<noteq> [] \<longrightarrow> canon active \<noteq> None \<longrightarrow> canon active \<noteq> Some []
          \<longrightarrow> canon (path_join dir (filename e)) \<noteq> canon active)"
proof -
  let ?es = "sort_key filename entries" and ?ac = "active_path canon active"
  obtain rm t where r: "remove_oldest canon stuck cap dir ?ac ?es tot = (rm, t)"
    by (cases "remove_oldest canon stuck cap dir ?ac ?es tot")
  with assms(1,2) have removed: "removed = rm"
    by (simp add: removed_def SweepOnce_def)
  have tot: "tot = sizes entries" and looks: "\<forall>e \<in> set entries. LooksLikeShard (filename e)"
    using scan_shards [OF assms(1)] by simp_all
  have "sizes ?es = sizes entries" by (rule sizes_mset) simp
  with tot have "sizes ?es \<le> tot" by simp
  from remove_oldest_prefix [OF r this] obtain older newer where es: "?es = older @ newer"
    and rm: "rm = filter (\<lambda>e. \<not> keep e) older" and t: "t + sizes rm = tot"
    and stop: "newer = [] \<or> t \<le> cap" and need: "\<forall>r rs. rm = rs @ [r] \<longrightarrow> cap < tot - sizes rs"
    unfolding keep_def by blast
  have "mset (older @ newer) = mset entries" and "sorted (map filename (older @ newer))"
    unfolding es [symmetric] by simp_all
  moreover have "\<forall>e \<in> set rm. LooksLikeShard (filename e)"
  proof -
    have "set rm \<subseteq> set ?es" using rm es by auto
    with looks show ?thesis by auto
  qed
  moreover have "\<forall>e \<in> set rm. active \<noteq> [] \<longrightarrow> canon active \<noteq> None \<longrightarrow> canon active \<noteq> Some []
          \<longrightarrow> canon (path_join dir (filename e)) \<noteq> canon active"
    using rm by (auto simp: keep_def keepable_def active_path_def split: if_splits)
  ultimately show ?thesis
    using rm stop need t removed by (intro exI [of _ older] exI [of _ newer]) auto
qed

definition shard_reply :: "string \<Rightarrow> nat \<Rightarrow> ev_entry" where
  "shard_reply name n = \<lparr>ev_name = name, ev_regular = (True, False), ev_size = Some n\<rparr>"

lemma scan_sample:
  "scan [shard_reply ''log-b.bin'' 60, shard_reply ''log-a.bin'' 50, shard_reply ''notes.txt'' 999,
         shard_reply ''log-c.bin'' 40] False [] 0
   = Some ([\<lparr>filename = ''log-b.bin'', fsize = 60\<rparr>, \<lparr>filename = ''log-a.bin'', fsize = 50\<rparr>,
            \<lparr>filename = ''log-c.bin'', fsize = 40\<rparr>], 150)"
  by (simp add: shard_reply_def LooksLikeShard_def)

lemma sweep_removes_oldest_witness:
  "\<exists>older newer. mset (older @ newer)
       = mset [\<lparr>filename = ''log-b.bin'', fsize = 60\<rparr>, \<lparr>filename = ''log-a.bin'', fsize = 50\<rparr>,
               \<lparr>filename = ''log-c.bin'', fsize = 40\<rparr>]
    \<and> SweepOnce Some (\<lambda>p. False) 100 ''d'' ''d/log-c.bin''
        (Some [shard_reply ''log-b.bin'' 60, shard_reply ''log-a.bin'' 50, shard_reply ''notes.txt'' 999,
               shard_reply ''log-c.bin'' 40])
      = filter (\<lambda>e. \<not> keepable Some (\<lambda>p. False) ''d'' (active_path Some ''d/log-c.bin'') e) older"
  using sweep_removes_oldest [OF scan_sample, of 100 Some "\<lambda>p. False" "''d''" "''d/log-c.bin''"]
  by simp blast

text \<open>
  One bad entry switches eviction off. When \<open>is_regular_file\<close> reports an error for an entry (a
  dangling symbolic link) or \<open>file_size\<close> does for a shard (one deleted meanwhile), and the
  directory goes on after it, the leftover error code makes the next round return: the
  sweep removes nothing, however far the total is over the cap.
\<close>

theorem bad_entry_stops_sweep:
  assumes "ev_regular de = (False, True)
      \<or> fst (ev_regular de) \<and> LooksLikeShard (ev_name de) \<and> ev_size de = None"
    and "rest \<noteq> []"
  shows "SweepOnce canon stuck cap dir active (Some (pre @ de # rest)) = []"
proof -
  obtain d ds where rest: "rest = d # ds" using assms(2) by (cases rest) auto
  have "scan (pre @ de # d # ds) ec entries tot = None" for ec entries tot
  proof (induction pre arbitrary: ec entries tot)
    case Nil
    show ?case using assms(1) by (auto split: prod.splits)
  next
    case (Cons p ps)
    show ?case
    proof (cases "scan ((p # ps) @ de # d # ds) ec entries tot")
      case (Some res)
      then have "scan (p # (ps @ de # d # ds)) ec entries tot = Some res" by simp
      then show ?thesis by (rule scan_Cons) (simp_all add: Cons.IH)
    qed
  qed
  then show ?thesis by (simp add: SweepOnce_def rest)
qed

lemma bad_entry_stops_sweep_witness:
  "SweepOnce Some (\<lambda>p. False) 10 ''d'' []
     (Some [\<lparr>ev_name = ''latest'', ev_regular = (False, True), ev_size = None\<rparr>,
            shard_reply ''log-a.bin'' 5000]) = []"
  using bad_entry_stops_sweep
    [of "\<lparr>ev_name = ''latest'', ev_regular = (False, True), ev_size = None\<rparr>"
        "[shard_reply ''log-a.bin'' 5000]" Some "\<lambda>p. False" 10 "''d''" "[]" "[]"]
  by simp

text \<open>
  No sweep runs after \<open>Stop\<close> has returned, whatever is called afterwards. That includes a new
  \<open>Start\<close>: \<open>stop_\<close> is never cleared, so the restarted thread leaves at once and eviction stays off.
\<close>

theorem no_sweep_after_stop:
  assumes "started (ev_run before runner_init)"
  shows "sweeps (ev_run (before @ CallStop # after) runner_init) = sweeps (ev_run before runner_init)"
proof -
  have app: "ev_run (xs @ ys) r = ev_run ys (ev_run xs r)" for xs ys r
    by (induction xs r rule: ev_run.induct) simp_all
  have stay: "stop r \<Longrightarrow> sweeps (ev_run cs r) = sweeps r" for cs r
    by (induction cs r rule: ev_run.induct) (simp_all add: Start_def Stop_def LoopTurn_def)
  have "stop (Stop (ev_run before runner_init))" using assms by (simp add: Stop_def)
  from stay [OF this] show ?thesis by (simp add: app) (simp add: Stop_def)
qed

lemma no_sweep_after_stop_witness:
  "sweeps (ev_run ([CallStart, Turn, Turn] @ CallStop # [CallStart, Turn, Turn]) runner_init) = 2"
  using no_sweep_after_stop [of "[CallStart, Turn, Turn]" "[CallStart, Turn, Turn]"]
  by (simp add: runner_init_def Start_def LoopTurn_def)

end
