(* ===== verification/Eviction_Thread.thy ===== *)
theory Eviction_Thread
  imports Eviction
begin

text \<open>
  The life of \<open>EvictionRunner\<close>'s thread (sinks/eviction_runner.cpp) at the level of its mutex, its
  condition variable, the atomic \<open>started_\<close> and the \<open>std::thread\<close> object: \<open>Start\<close>, \<open>Stop\<close>, the
  destructor and \<open>RunLoop_\<close> as atomic steps of any number of threads. A critical section of \<open>mu_\<close> is one
  step; a wait may end by a notification, by its time-out, or for no reason.
  Shown, for calls made by one thread: no wakeup is lost, \<open>Stop\<close> returns after a bounded number of
  steps of the whole program however they are scheduled, the thread is gone when it returns, and the calls
  are those of the sequential model of Eviction. For calls that overlap: two faults.
\<close>

section \<open>State\<close>

text \<open>
  A thread in \<open>RunLoop_\<close>: not yet created; about to lock \<open>mu_\<close>, at the beginning or after a sweep; in the wait,
  with \<open>mu_\<close> released; woken and about to lock \<open>mu_\<close> again, by the time-out or not; sweeping; returned.
\<close>

datatype ev_loop = LoopAbsent | LoopLocking | LoopBlocked | LoopWoken bool | LoopSweeping | LoopGone

text \<open>
  A caller: outside; in \<open>Start\<close> after its exchange of \<open>started_\<close>; in \<open>Stop\<close> before it sets \<open>stop_\<close>, before the
  notification, before \<open>joinable\<close>, in \<open>join\<close>, before it clears \<open>started_\<close> (the flag tells whether the destructor has
  called it); in the destructor before \<open>thread_\<close> is destroyed; the object is gone.
\<close>

datatype ev_caller =
    EvRest
  | EvSpawning
  | EvSetting bool
  | EvNotifying bool
  | EvTesting bool
  | EvJoining bool nat
  | EvClearing bool
  | EvDestroying
  | EvDestroyed

text \<open>
  \<open>e_thread\<close> is the \<open>std::thread\<close> member, \<open>None\<close> when it is not joinable; \<open>e_broken\<close> says that the program has
  called \<open>std::terminate\<close> or has joined a thread that another caller had joined already. \<open>e_sweeps\<close>, which no step
  reads, counts the sweeps begun.
\<close>

record ev_state =
  e_started :: bool
  e_stop :: bool
  e_thread :: "nat option"
  e_loops :: "nat \<Rightarrow> ev_loop"
  e_born :: nat
  e_callers :: "nat \<Rightarrow> ev_caller"
  e_sweeps :: nat
  e_broken :: bool

definition EvictionRunner :: ev_state where
  "EvictionRunner =
     \<lparr>e_started = False, e_stop = False, e_thread = None, e_loops = (\<lambda>_. LoopAbsent), e_born = 0,
      e_callers = (\<lambda>_. EvRest), e_sweeps = 0, e_broken = False\<rparr>"

definition set_ev_caller :: "nat \<Rightarrow> ev_caller \<Rightarrow> ev_state \<Rightarrow> ev_state" where
  "set_ev_caller c x s = s\<lparr>e_callers := (e_callers s)(c := x)\<rparr>"

definition set_ev_loop :: "nat \<Rightarrow> ev_loop \<Rightarrow> ev_state \<Rightarrow> ev_state" where
  "set_ev_loop w x s = s\<lparr>e_loops := (e_loops s)(w := x)\<rparr>"

text \<open>\<open>cv_.notify_all\<close>.\<close>

definition notify_all :: "(nat \<Rightarrow> ev_loop) \<Rightarrow> nat \<Rightarrow> ev_loop" where
  "notify_all f w = (if f w = LoopBlocked then LoopWoken False else f w)"

section \<open>Steps\<close>

datatype ev_act =
    EvStart nat
  | EvSpawn nat bool
  | EvStop nat bool
  | EvSet nat
  | EvNotify nat
  | EvTest nat
  | EvJoin nat
  | EvClear nat
  | EvDestroy nat
  | LoopLock nat
  | LoopTimeout nat
  | LoopSpurious nat
  | LoopWake nat
  | LoopSwept nat bool

text \<open>
  \<open>EvSpawn\<close> carries whether the system could create the thread; if not, \<open>Start\<close> throws and \<open>started_\<close> stays set.
  Assigning to a joinable \<open>thread_\<close> terminates the program, as does destroying it.
  \<open>LoopSwept\<close> carries whether the sweep has thrown, which \<open>RunLoop_\<close> only logs.
\<close>

fun ev_step :: "ev_act \<Rightarrow> ev_state \<Rightarrow> ev_state option" where
  "ev_step (EvStart c) s =
     (if e_callers s c \<noteq> EvRest then None
      else if e_started s then Some s
      else Some (set_ev_caller c EvSpawning (s\<lparr>e_started := True\<rparr>)))"
| "ev_step (EvSpawn c created) s =
     (if e_callers s c \<noteq> EvSpawning then None
      else if \<not> created then Some (set_ev_caller c EvRest s)
      else if e_thread s \<noteq> None then Some (s\<lparr>e_broken := True\<rparr>)
      else Some (set_ev_caller c EvRest
             (set_ev_loop (e_born s) LoopLocking (s\<lparr>e_thread := Some (e_born s), e_born := e_born s + 1\<rparr>))))"
| "ev_step (EvStop c destroy) s =
     (if e_callers s c \<noteq> EvRest then None
      else if \<not> e_started s then Some (set_ev_caller c (if destroy then EvDestroying else EvRest) s)
      else Some (set_ev_caller c (EvSetting destroy) s))"
| "ev_step (EvSet c) s =
     (case e_callers s c of
        EvSetting d \<Rightarrow> Some (set_ev_caller c (EvNotifying d) (s\<lparr>e_stop := True\<rparr>))
      | _ \<Rightarrow> None)"
| "ev_step (EvNotify c) s =
     (case e_callers s c of
        EvNotifying d \<Rightarrow>
          Some (set_ev_caller c (EvTesting d)
            (s\<lparr>e_loops := notify_all (e_loops s)\<rparr>))
      | _ \<Rightarrow> None)"
| "ev_step (EvTest c) s =
     (case e_callers s c of
        EvTesting d \<Rightarrow>
          Some (set_ev_caller c (case e_thread s of Some w \<Rightarrow> EvJoining d w | None \<Rightarrow> EvClearing d) s)
      | _ \<Rightarrow> None)"
| "ev_step (EvJoin c) s =
     (case e_callers s c of
        EvJoining d w \<Rightarrow>
          (if e_loops s w \<noteq> LoopGone then None
           else if e_thread s \<noteq> Some w then Some (s\<lparr>e_broken := True\<rparr>)
           else Some (set_ev_caller c (EvClearing d) (s\<lparr>e_thread := None\<rparr>)))
      | _ \<Rightarrow> None)"
| "ev_step (EvClear c) s =
     (case e_callers s c of
        EvClearing d \<Rightarrow>
          Some (set_ev_caller c (if d then EvDestroying else EvRest) (s\<lparr>e_started := False\<rparr>))
      | _ \<Rightarrow> None)"
| "ev_step (EvDestroy c) s =
     (if e_callers s c \<noteq> EvDestroying then None
      else if e_thread s \<noteq> None then Some (s\<lparr>e_broken := True\<rparr>)
      else Some (set_ev_caller c EvDestroyed s))"
| "ev_step (LoopLock w) s =
     (if e_loops s w = LoopLocking
      then Some (set_ev_loop w (if e_stop s then LoopGone else LoopBlocked) s) else None)"
| "ev_step (LoopTimeout w) s =
     (if e_loops s w = LoopBlocked then Some (set_ev_loop w (LoopWoken True) s) else None)"
| "ev_step (LoopSpurious w) s =
     (if e_loops s w = LoopBlocked then Some (set_ev_loop w (LoopWoken False) s) else None)"
| "ev_step (LoopWake w) s =
     (case e_loops s w of
        LoopWoken timed_out \<Rightarrow>
          (if e_stop s then Some (set_ev_loop w LoopGone s)
           else if timed_out then Some (set_ev_loop w LoopSweeping (s\<lparr>e_sweeps := e_sweeps s + 1\<rparr>))
           else Some (set_ev_loop w LoopBlocked s))
      | _ \<Rightarrow> None)"
| "ev_step (LoopSwept w threw) s =
     (if e_loops s w = LoopSweeping then Some (set_ev_loop w LoopLocking s) else None)"

text \<open>A broken program does nothing more.\<close>

definition ev_exec :: "ev_act \<Rightarrow> ev_state \<Rightarrow> ev_state option" where
  "ev_exec a s = (if e_broken s then None else ev_step a s)"

text \<open>The caller of an action; the steps of the loop have none.\<close>

fun act_caller :: "ev_act \<Rightarrow> nat option" where
  "act_caller (EvStart c) = Some c"
| "act_caller (EvSpawn c _) = Some c"
| "act_caller (EvStop c _) = Some c"
| "act_caller (EvSet c) = Some c"
| "act_caller (EvNotify c) = Some c"
| "act_caller (EvTest c) = Some c"
| "act_caller (EvJoin c) = Some c"
| "act_caller (EvClear c) = Some c"
| "act_caller (EvDestroy c) = Some c"
| "act_caller _ = None"

text \<open>The discipline of \<open>EffectiveSink\<close>: the constructor calls \<open>Start\<close>, the destructor \<open>Stop\<close>, nobody else.\<close>

definition owned_act :: "ev_act \<Rightarrow> bool" where
  "owned_act a \<longleftrightarrow> act_caller a = None \<or> act_caller a = Some 0"

definition owner_exec :: "ev_act \<Rightarrow> ev_state \<Rightarrow> ev_state option" where
  "owner_exec a s = (if owned_act a then ev_exec a s else None)"

section \<open>The invariant of the owned runner\<close>

fun owner_ok :: "ev_caller \<Rightarrow> ev_state \<Rightarrow> bool" where
  "owner_ok EvRest s \<longleftrightarrow> e_started s \<or> e_thread s = None"
| "owner_ok EvSpawning s \<longleftrightarrow> e_started s \<and> e_thread s = None"
| "owner_ok (EvSetting d) s \<longleftrightarrow> e_started s"
| "owner_ok (EvNotifying d) s \<longleftrightarrow> e_started s \<and> e_stop s"
| "owner_ok (EvTesting d) s \<longleftrightarrow> e_started s \<and> e_stop s"
| "owner_ok (EvJoining d w) s \<longleftrightarrow> e_started s \<and> e_stop s \<and> e_thread s = Some w"
| "owner_ok (EvClearing d) s \<longleftrightarrow> e_started s \<and> e_stop s \<and> e_thread s = None"
| "owner_ok EvDestroying s \<longleftrightarrow> \<not> e_started s \<and> e_thread s = None"
| "owner_ok EvDestroyed s \<longleftrightarrow> \<not> e_started s \<and> e_thread s = None"

text \<open>
  Every thread that has not returned is the one in \<open>thread_\<close>; and one that waits although \<open>stop_\<close> is set is about to be
  notified: no wakeup is lost.
\<close>

definition ev_inv :: "ev_state \<Rightarrow> bool" where
  "ev_inv s \<longleftrightarrow>
     \<not> e_broken s
     \<and> (\<forall>c. c \<noteq> 0 \<longrightarrow> e_callers s c = EvRest)
     \<and> (\<forall>w. e_loops s w = LoopAbsent \<longleftrightarrow> e_born s \<le> w)
     \<and> (\<forall>w. e_loops s w \<noteq> LoopAbsent \<longrightarrow> e_loops s w \<noteq> LoopGone \<longrightarrow> e_thread s = Some w)
     \<and> (\<forall>w. e_thread s = Some w \<longrightarrow> w < e_born s)
     \<and> owner_ok (e_callers s 0) s
     \<and> (\<forall>w. e_stop s \<longrightarrow> e_loops s w = LoopBlocked \<longrightarrow> (\<exists>d. e_callers s 0 = EvNotifying d))"

lemma ev_upd_simps [simp]:
  "e_started (set_ev_caller c x s) = e_started s" "e_stop (set_ev_caller c x s) = e_stop s"
  "e_thread (set_ev_caller c x s) = e_thread s" "e_loops (set_ev_caller c x s) = e_loops s"
  "e_born (set_ev_caller c x s) = e_born s" "e_sweeps (set_ev_caller c x s) = e_sweeps s"
  "e_broken (set_ev_caller c x s) = e_broken s" "e_callers (set_ev_caller c x s) = (e_callers s)(c := x)"
  "e_started (set_ev_loop w y s) = e_started s" "e_stop (set_ev_loop w y s) = e_stop s"
  "e_thread (set_ev_loop w y s) = e_thread s" "e_loops (set_ev_loop w y s) = (e_loops s)(w := y)"
  "e_born (set_ev_loop w y s) = e_born s" "e_sweeps (set_ev_loop w y s) = e_sweeps s"
  "e_broken (set_ev_loop w y s) = e_broken s" "e_callers (set_ev_loop w y s) = e_callers s"
  by (simp_all add: set_ev_caller_def set_ev_loop_def)

lemma notify_all_simps [simp]:
  "notify_all f w = LoopAbsent \<longleftrightarrow> f w = LoopAbsent" "notify_all f w = LoopGone \<longleftrightarrow> f w = LoopGone"
  "notify_all f w \<noteq> LoopBlocked"
  by (simp_all add: notify_all_def)

lemma owner_ok_cong:
  "e_started t = e_started s \<Longrightarrow> e_stop t = e_stop s \<Longrightarrow> e_thread t = e_thread s \<Longrightarrow> owner_ok x t = owner_ok x s"
  by (cases x) simp_all

lemma owner_ok_upd [simp]:
  "owner_ok x (set_ev_caller c y s) = owner_ok x s" "owner_ok x (set_ev_loop w z s) = owner_ok x s"
  "owner_ok x (s\<lparr>e_loops := f\<rparr>) = owner_ok x s" "owner_ok x (s\<lparr>e_sweeps := n\<rparr>) = owner_ok x s"
  by (rule owner_ok_cong; simp)+

lemma loop_step_inv:
  assumes "ev_inv s" and "e_loops s w \<noteq> LoopAbsent" and "e_loops s w \<noteq> LoopGone"
    and "x \<noteq> LoopAbsent" and "x = LoopBlocked \<longrightarrow> \<not> e_stop s"
  shows "ev_inv (set_ev_loop w x s)"
proof -
  have w: "\<not> e_born s \<le> w" "e_thread s = Some w" using assms(1-3) by (auto simp: ev_inv_def)
  have "e_stop s \<longrightarrow> (if v = w then x else e_loops s v) = LoopBlocked \<longrightarrow> (\<exists>d. e_callers s 0 = EvNotifying d)" for v
    using assms(1,5) by (cases "v = w") (auto simp: ev_inv_def)
  moreover have "(if v = w then x else e_loops s v) = LoopAbsent \<longleftrightarrow> e_born s \<le> v" for v
    using assms(1,4) w by (simp add: ev_inv_def)
  moreover have "(if v = w then x else e_loops s v) \<noteq> LoopAbsent \<longrightarrow> (if v = w then x else e_loops s v) \<noteq> LoopGone
      \<longrightarrow> e_thread s = Some v" for v
    using assms(1) w by (simp add: ev_inv_def)
  ultimately show ?thesis using assms(1) by (simp add: ev_inv_def fun_upd_apply)
qed

lemma sweep_count_inv: "ev_inv (s\<lparr>e_sweeps := n\<rparr>) \<longleftrightarrow> ev_inv s"
  by (simp add: ev_inv_def)

lemma owner_step_inv:
  assumes "owner_exec a s = Some t" and "ev_inv s"
  shows "ev_inv t"
proof -
  from assms have "owned_act a" and st: "ev_step a s = Some t" and nb: "\<not> e_broken s"
    by (auto simp: owner_exec_def ev_exec_def split: if_splits)
  have i: "\<forall>c. c \<noteq> 0 \<longrightarrow> e_callers s c = EvRest"
      "\<forall>w. e_loops s w = LoopAbsent \<longleftrightarrow> e_born s \<le> w"
      "\<forall>w. e_loops s w \<noteq> LoopAbsent \<longrightarrow> e_loops s w \<noteq> LoopGone \<longrightarrow> e_thread s = Some w"
      "\<forall>w. e_thread s = Some w \<longrightarrow> w < e_born s"
      "owner_ok (e_callers s 0) s"
      "\<forall>w. e_stop s \<longrightarrow> e_loops s w = LoopBlocked \<longrightarrow> (\<exists>d. e_callers s 0 = EvNotifying d)"
    using assms(2) by (simp_all add: ev_inv_def)
  show ?thesis
  proof (cases a)
    case (EvStart c)
    with \<open>owned_act a\<close> st i nb show ?thesis
      by (auto simp: owned_act_def ev_inv_def split: if_splits)
  next
    case (EvSpawn c ok)
    with \<open>owned_act a\<close> st i nb show ?thesis
      by (auto simp: owned_act_def ev_inv_def split: if_splits)
  next
    case (EvStop c d)
    with \<open>owned_act a\<close> st i nb show ?thesis
      by (auto simp: owned_act_def ev_inv_def split: if_splits)
  next
    case (EvSet c)
    with \<open>owned_act a\<close> st i nb show ?thesis
      by (auto simp: owned_act_def ev_inv_def split: ev_caller.splits)
  next
    case (EvNotify c)
    with \<open>owned_act a\<close> st i nb show ?thesis
      by (auto simp: owned_act_def ev_inv_def split: ev_caller.splits)
  next
    case (EvTest c)
    with \<open>owned_act a\<close> st i nb show ?thesis
      by (auto simp: owned_act_def ev_inv_def split: ev_caller.splits option.splits)
  next
    case (EvJoin c)
    with \<open>owned_act a\<close> st i nb show ?thesis
      by (auto simp: owned_act_def ev_inv_def split: ev_caller.splits if_splits)
  next
    case (EvClear c)
    with \<open>owned_act a\<close> st i nb show ?thesis
      by (auto simp: owned_act_def ev_inv_def split: ev_caller.splits if_splits)
  next
    case (EvDestroy c)
    with \<open>owned_act a\<close> st i nb show ?thesis
      by (auto simp: owned_act_def ev_inv_def split: if_splits)
  next
    case (LoopLock w)
    with st loop_step_inv [OF assms(2)] show ?thesis by (auto split: if_splits)
  next
    case (LoopTimeout w)
    with st loop_step_inv [OF assms(2)] show ?thesis by (auto split: if_splits)
  next
    case (LoopSpurious w)
    with st loop_step_inv [OF assms(2)] show ?thesis by (auto split: if_splits)
  next
    case (LoopWake w)
    with st loop_step_inv [OF assms(2)] loop_step_inv [of "s\<lparr>e_sweeps := e_sweeps s + 1\<rparr>" w] assms(2)
    show ?thesis by (auto simp: sweep_count_inv split: ev_loop.splits if_splits)
  next
    case (LoopSwept w thrown)
    with st loop_step_inv [OF assms(2)] show ?thesis by (auto split: if_splits)
  qed
qed

interpretation ev_owned: invariant_system "\<lambda>s. s = EvictionRunner" "acts_step owner_exec" ev_inv
proof unfold_locales
  show "s = EvictionRunner \<Longrightarrow> ev_inv s" for s by (simp add: EvictionRunner_def ev_inv_def)
  show "acts_step owner_exec s t \<Longrightarrow> ev_inv s \<Longrightarrow> ev_inv t" for s t
    by (auto simp: acts_step_def intro: owner_step_inv)
qed

lemma owned_run_inv: "run_acts owner_exec as EvictionRunner = Some s \<Longrightarrow> ev_inv s"
  by (rule ev_owned.reachable_inv [OF refl]) (rule run_acts_steps)

section \<open>Stop returns\<close>

text \<open>In \<open>Stop\<close> after \<open>stop_\<close> has been set, or in the destructor after \<open>Stop\<close>: the steps the caller still has to make.\<close>

fun stop_rank :: "ev_caller \<Rightarrow> nat" where
  "stop_rank (EvNotifying d) = 5"
| "stop_rank (EvTesting d) = 4"
| "stop_rank (EvJoining d w) = 3"
| "stop_rank (EvClearing d) = 2"
| "stop_rank EvDestroying = 1"
| "stop_rank _ = 0"

definition stopping :: "ev_state \<Rightarrow> bool" where
  "stopping s \<longleftrightarrow> 0 < stop_rank (e_callers s 0)"

text \<open>The steps the thread still has to make once \<open>stop_\<close> is set.\<close>

fun loop_rank :: "ev_loop \<Rightarrow> nat" where
  "loop_rank LoopSweeping = 2"
| "loop_rank LoopBlocked = 2"
| "loop_rank LoopLocking = 1"
| "loop_rank (LoopWoken _) = 1"
| "loop_rank _ = 0"

definition stop_measure :: "ev_state \<Rightarrow> nat" where
  "stop_measure s =
     stop_rank (e_callers s 0) + (case e_thread s of None \<Rightarrow> 0 | Some w \<Rightarrow> loop_rank (e_loops s w))"

text \<open>A wait that ends without a notification.\<close>

fun unprompted :: "ev_act \<Rightarrow> bool" where
  "unprompted (LoopTimeout w) = True"
| "unprompted (LoopSpurious w) = True"
| "unprompted _ = False"

lemma ev_invD:
  assumes "ev_inv s"
  shows "\<not> e_broken s" and "c \<noteq> 0 \<Longrightarrow> e_callers s c = EvRest" and "e_loops s w = LoopAbsent \<longleftrightarrow> e_born s \<le> w"
    and "e_loops s w \<noteq> LoopAbsent \<Longrightarrow> e_loops s w \<noteq> LoopGone \<Longrightarrow> e_thread s = Some w"
    and "e_thread s = Some w \<Longrightarrow> w < e_born s" and "owner_ok (e_callers s 0) s"
    and "e_stop s \<Longrightarrow> e_loops s w = LoopBlocked \<Longrightarrow> \<exists>d. e_callers s 0 = EvNotifying d"
  using assms by (auto simp: ev_inv_def)

text \<open>While the owner is stopping, a thread in its loop finds \<open>stop_\<close> set.\<close>

lemma stopping_stop:
  assumes "ev_inv s" and "stopping s" and "e_loops s w \<noteq> LoopAbsent" and "e_loops s w \<noteq> LoopGone"
  shows "e_stop s" and "e_thread s = Some w"
proof -
  show t: "e_thread s = Some w" by (rule ev_invD(4) [OF assms(1,3,4)])
  show "e_stop s" using ev_invD(6) [OF assms(1)] assms(2) t by (cases "e_callers s 0") (simp_all add: stopping_def)
qed

lemma stop_measure_decreases:
  assumes "ev_inv s" and "stopping s" and "owner_exec a s = Some t"
  shows "stop_measure t < stop_measure s"
proof -
  from assms(3) have "owned_act a" and st: "ev_step a s = Some t"
    by (auto simp: owner_exec_def ev_exec_def split: if_splits)
  note alive = stopping_stop [OF assms(1,2)]
  show ?thesis
  proof (cases a)
    case (EvNotify c)
    with \<open>owned_act a\<close> st show ?thesis
      by (auto simp: owned_act_def stop_measure_def notify_all_def split: ev_caller.splits option.splits)
  next
    case (EvTest c)
    with \<open>owned_act a\<close> st show ?thesis
      by (auto simp: owned_act_def stop_measure_def split: ev_caller.splits option.splits)
  next
    case (EvJoin c)
    with \<open>owned_act a\<close> st ev_invD(6) [OF assms(1)] show ?thesis
      by (auto simp: owned_act_def stop_measure_def split: ev_caller.splits if_splits)
  next
    case (EvClear c)
    with \<open>owned_act a\<close> st show ?thesis
      by (auto simp: owned_act_def stop_measure_def split: ev_caller.splits if_splits option.splits)
  next
    case (EvDestroy c)
    with \<open>owned_act a\<close> st ev_invD(6) [OF assms(1)] show ?thesis
      by (auto simp: owned_act_def stop_measure_def split: if_splits)
  next
    case (LoopLock w)
    with st alive [of w] show ?thesis by (auto simp: stop_measure_def split: if_splits)
  next
    case (LoopTimeout w)
    with st alive [of w] show ?thesis by (auto simp: stop_measure_def split: if_splits)
  next
    case (LoopSpurious w)
    with st alive [of w] show ?thesis by (auto simp: stop_measure_def split: if_splits)
  next
    case (LoopWake w)
    with st alive [of w] show ?thesis by (auto simp: stop_measure_def split: ev_loop.splits if_splits)
  next
    case (LoopSwept w thrown)
    with st alive [of w] show ?thesis by (auto simp: stop_measure_def split: if_splits)
  qed (use \<open>owned_act a\<close> st assms(2) in \<open>auto simp: owned_act_def stopping_def split: if_splits ev_caller.splits\<close>)
qed

text \<open>When a step ends \<open>Stop\<close> or the destructor, \<open>started_\<close> is cleared and no thread is left.\<close>

lemma stop_left:
  assumes "ev_inv s" and "stopping s" and "owner_exec a s = Some t" and "\<not> stopping t"
  shows "\<not> e_started t \<and> \<not> e_broken t \<and> (\<forall>w. e_loops t w = LoopAbsent \<or> e_loops t w = LoopGone)"
proof -
  have inv: "ev_inv t" by (rule owner_step_inv [OF assms(3,1)])
  from assms(3) have "owned_act a" and st: "ev_step a s = Some t"
    by (auto simp: owner_exec_def ev_exec_def split: if_splits)
  have "\<not> e_started t"
    by (cases a; use \<open>owned_act a\<close> st assms(2,4) ev_invD(6) [OF assms(1)] in
      \<open>auto simp: owned_act_def stopping_def split: if_splits ev_caller.splits option.splits ev_loop.splits\<close>)
  moreover have "e_thread t = None"
    using ev_invD(6) [OF inv] \<open>\<not> e_started t\<close> by (cases "e_callers t 0") simp_all
  ultimately show ?thesis using ev_invD(1,4) [OF inv] by auto
qed

lemma stop_enabled:
  assumes "ev_inv s" and "stopping s"
  shows "\<exists>a. owner_exec a s \<noteq> None \<and> \<not> unprompted a"
proof -
  have ex: "owner_exec a s = (if owned_act a then ev_step a s else None)" for a
    using ev_invD(1) [OF assms(1)] by (simp add: owner_exec_def ev_exec_def)
  show ?thesis
  proof (cases "e_callers s 0")
    case (EvNotifying d)
    then show ?thesis by (intro exI [of _ "EvNotify 0"]) (simp add: ex owned_act_def)
  next
    case (EvTesting d)
    then show ?thesis by (intro exI [of _ "EvTest 0"]) (simp add: ex owned_act_def)
  next
    case (EvJoining d w)
    then have t: "e_thread s = Some w" and st: "e_stop s" using ev_invD(6) [OF assms(1)] by auto
    have "e_loops s w \<noteq> LoopAbsent" using ev_invD(3,5) [OF assms(1), of w] t by auto
    moreover have "e_loops s w \<noteq> LoopBlocked" using ev_invD(7) [OF assms(1) st, of w] EvJoining by auto
    ultimately consider "e_loops s w = LoopLocking" | b where "e_loops s w = LoopWoken b"
      | "e_loops s w = LoopSweeping" | "e_loops s w = LoopGone" by (cases "e_loops s w") auto
    then show ?thesis
    proof cases
      case 1
      then show ?thesis by (intro exI [of _ "LoopLock w"]) (simp add: ex owned_act_def)
    next
      case 2
      with st show ?thesis by (intro exI [of _ "LoopWake w"]) (simp add: ex owned_act_def)
    next
      case 3
      then show ?thesis by (intro exI [of _ "LoopSwept w False"]) (simp add: ex owned_act_def)
    next
      case 4
      with EvJoining t show ?thesis by (intro exI [of _ "EvJoin 0"]) (simp add: ex owned_act_def)
    qed
  next
    case (EvClearing d)
    then show ?thesis by (intro exI [of _ "EvClear 0"]) (simp add: ex owned_act_def)
  next
    case EvDestroying
    then show ?thesis by (intro exI [of _ "EvDestroy 0"]) (simp add: ex owned_act_def)
  qed (use assms(2) in \<open>simp_all add: stopping_def\<close>)
qed

lemma stop_ends:
  "ev_inv s \<Longrightarrow> stopping s \<Longrightarrow> run_acts owner_exec bs s = Some t \<Longrightarrow> stop_measure s \<le> length bs \<Longrightarrow>
     \<exists>k \<le> stop_measure s. \<exists>u. run_acts owner_exec (take k bs) s = Some u \<and> \<not> stopping u \<and> \<not> e_started u
       \<and> \<not> e_broken u \<and> (\<forall>w. e_loops u w = LoopAbsent \<or> e_loops u w = LoopGone)"
proof (induction bs arbitrary: s)
  case Nil
  then show ?case by (simp add: stop_measure_def stopping_def)
next
  case (Cons a bs)
  from Cons.prems(3) obtain v where v: "owner_exec a s = Some v" and run: "run_acts owner_exec bs v = Some t"
    by (auto split: option.splits)
  have inv: "ev_inv v" by (rule owner_step_inv [OF v Cons.prems(1)])
  have less: "stop_measure v < stop_measure s" by (rule stop_measure_decreases [OF Cons.prems(1,2) v])
  show ?case
  proof (cases "stopping v")
    case True
    have "stop_measure v \<le> length bs" using less Cons.prems(4) by simp
    from Cons.IH [OF inv True run this] obtain k u where k: "k \<le> stop_measure v"
      "run_acts owner_exec (take k bs) v = Some u \<and> \<not> stopping u \<and> \<not> e_started u
       \<and> \<not> e_broken u \<and> (\<forall>w. e_loops u w = LoopAbsent \<or> e_loops u w = LoopGone)" by blast
    show ?thesis
      by (intro exI [of _ "Suc k"] exI [of _ u] conjI) (use k less v in simp_all)
  next
    case False
    show ?thesis
      by (intro exI [of _ "1"] exI [of _ v] conjI)
        (use less v False stop_left [OF Cons.prems(1,2) v False] in simp_all)
  qed
qed

text \<open>
  C15. \<open>Stop\<close> returns. Take any run of the runner in which one thread makes the calls, up to a moment at which
  that thread has set \<open>stop_\<close> in \<open>Stop\<close> (or is in the destructor behind it). Some step is possible then that
  needs neither the time-out nor a spurious wakeup, so the notification is not lost; and however the steps
  of the owner and of the thread are scheduled from there, after at most seven of them the call has returned,
  with \<open>started_\<close> cleared, every thread gone, and nothing terminated.
\<close>

theorem evictor_stop_returns:
  assumes "run_acts owner_exec before EvictionRunner = Some s" and "stopping s"
  shows "(\<exists>a. owner_exec a s \<noteq> None \<and> \<not> unprompted a)
    \<and> (\<forall>bs t. run_acts owner_exec bs s = Some t \<longrightarrow> 7 \<le> length bs \<longrightarrow>
         (\<exists>k \<le> 7. \<exists>u. run_acts owner_exec (take k bs) s = Some u \<and> \<not> stopping u \<and> \<not> e_started u
            \<and> \<not> e_broken u \<and> (\<forall>w. e_loops u w = LoopAbsent \<or> e_loops u w = LoopGone)))"
proof -
  have inv: "ev_inv s" by (rule owned_run_inv [OF assms(1)])
  have "stop_rank (e_callers s 0) \<le> 5" by (cases "e_callers s 0") simp_all
  moreover have "loop_rank x \<le> 2" for x by (cases x) simp_all
  then have "(case e_thread s of None \<Rightarrow> 0 | Some w \<Rightarrow> loop_rank (e_loops s w)) \<le> 2" by (simp split: option.splits)
  ultimately have seven: "stop_measure s \<le> 7" by (simp add: stop_measure_def)
  have "\<exists>k \<le> 7. \<exists>u. run_acts owner_exec (take k bs) s = Some u \<and> \<not> stopping u \<and> \<not> e_started u
      \<and> \<not> e_broken u \<and> (\<forall>w. e_loops u w = LoopAbsent \<or> e_loops u w = LoopGone)"
    if "run_acts owner_exec bs s = Some t" and "7 \<le> length bs" for bs t
    using stop_ends [OF inv assms(2) that(1)] seven that(2) by (meson le_trans)
  with stop_enabled [OF inv assms(2)] show ?thesis by blast
qed

text \<open>A run that sweeps once, is asked to stop during the second sweep, and waits for it.\<close>

definition sweeping_run :: "ev_act list" where
  "sweeping_run =
     [EvStart 0, EvSpawn 0 True, LoopLock 0, LoopTimeout 0, LoopWake 0, LoopSwept 0 True, LoopLock 0,
      LoopTimeout 0, LoopWake 0, EvStop 0 True, EvSet 0]"

lemma evictor_stop_returns_witness:
  "\<exists>s. run_acts owner_exec sweeping_run EvictionRunner = Some s \<and> e_sweeps s = 2
    \<and> (\<exists>a. owner_exec a s \<noteq> None \<and> \<not> unprompted a)"
proof -
  define s where "s = the (run_acts owner_exec sweeping_run EvictionRunner)"
  have run: "run_acts owner_exec sweeping_run EvictionRunner = Some s"
    by (simp add: s_def sweeping_run_def EvictionRunner_def owner_exec_def ev_exec_def owned_act_def)
  have "stopping s" "e_sweeps s = 2"
    by (simp_all add: s_def sweeping_run_def EvictionRunner_def owner_exec_def ev_exec_def owned_act_def stopping_def)
  with run evictor_stop_returns [OF run] show ?thesis by blast
qed

section \<open>The sequential model is what the steps implement\<close>

text \<open>Between \<open>stop_ = true\<close> and the end of \<open>Stop\<close>.\<close>

fun ending_call :: "ev_caller \<Rightarrow> bool" where
  "ending_call (EvNotifying d) = True"
| "ending_call (EvTesting d) = True"
| "ending_call (EvJoining d w) = True"
| "ending_call (EvClearing d) = True"
| "ending_call _ = False"

text \<open>
  The runner of the sequential model: \<open>Start\<close> takes effect when the thread is created, \<open>Stop\<close> when it sets
  \<open>stop_\<close>, a turn of the loop when it is woken by the time-out.
\<close>

definition ev_abs :: "ev_state \<Rightarrow> runner" where
  "ev_abs s =
     \<lparr>started = (e_started s \<and> e_callers s 0 \<noteq> EvSpawning \<and> \<not> ending_call (e_callers s 0)), stop = e_stop s,
      thread = (if e_born s = 0 then NoThread
                else if e_thread s = None \<or> ending_call (e_callers s 0) then Joined else InLoop),
      sweeps = e_sweeps s\<rparr>"

fun call_of :: "ev_act \<Rightarrow> ev_state \<Rightarrow> ev_call list" where
  "call_of (EvStart c) s = (if e_started s then [CallStart] else [])"
| "call_of (EvSpawn c created) s = [CallStart]"
| "call_of (EvStop c d) s = (if e_started s then [] else [CallStop])"
| "call_of (EvSet c) s = [CallStop]"
| "call_of (LoopWake w) s = (if e_loops s w = LoopWoken True \<and> \<not> e_stop s then [Turn] else [])"
| "call_of _ s = []"

text \<open>The calls of a schedule, in the order of their effects.\<close>

fun calls_of :: "ev_act list \<Rightarrow> ev_state \<Rightarrow> ev_call list" where
  "calls_of [] s = []"
| "calls_of (a # as) s = call_of a s @ (case owner_exec a s of None \<Rightarrow> [] | Some t \<Rightarrow> calls_of as t)"

lemma ev_run_append: "ev_run (xs @ ys) r = ev_run ys (ev_run xs r)"
  by (induction xs r rule: ev_run.induct) simp_all

lemma step_refines_call:
  assumes "ev_inv s" and "owner_exec a s = Some t" and "a \<noteq> EvSpawn 0 False"
  shows "ev_run (call_of a s) (ev_abs s) = ev_abs t"
proof -
  from assms(2) have "owned_act a" and st: "ev_step a s = Some t"
    by (auto simp: owner_exec_def ev_exec_def split: if_splits)
  note ok = ev_invD(6) [OF assms(1)]
  note alive = ev_invD(4) [OF assms(1)] and bornD = ev_invD(5) [OF assms(1)]
  show ?thesis
  proof (cases a)
    case (EvStart c)
    with \<open>owned_act a\<close> st ok show ?thesis by (auto simp: owned_act_def ev_abs_def Start_def split: if_splits)
  next
    case (EvSpawn c created)
    with \<open>owned_act a\<close> st ok assms(3) show ?thesis by (auto simp: owned_act_def ev_abs_def Start_def split: if_splits)
  next
    case (EvStop c d)
    with \<open>owned_act a\<close> st ok show ?thesis by (auto simp: owned_act_def ev_abs_def Stop_def split: if_splits)
  next
    case (EvSet c)
    with \<open>owned_act a\<close> st ok show ?thesis by (auto simp: owned_act_def ev_abs_def Stop_def split: ev_caller.splits)
  next
    case (LoopWake w)
    show ?thesis
    proof (cases "e_loops s w = LoopWoken True \<and> \<not> e_stop s")
      case True
      then have th: "e_thread s = Some w" using alive [of w] by simp
      have "\<not> ending_call (e_callers s 0)" "e_callers s 0 \<noteq> EvSpawning"
        using ok th True by (cases "e_callers s 0"; simp)+
      with True th LoopWake st bornD [OF th] show ?thesis by (auto simp: ev_abs_def LoopTurn_def)
    qed (use LoopWake st in \<open>auto simp: ev_abs_def split: ev_loop.splits if_splits\<close>)
  qed (use \<open>owned_act a\<close> st ok in \<open>auto simp: owned_act_def ev_abs_def split: if_splits ev_caller.splits option.splits\<close>)
qed

lemma run_refines_calls:
  "ev_inv s \<Longrightarrow> EvSpawn 0 False \<notin> set as \<Longrightarrow> run_acts owner_exec as s = Some t \<Longrightarrow>
     ev_run (calls_of as s) (ev_abs s) = ev_abs t"
proof (induction as arbitrary: s)
  case (Cons a as)
  from Cons.prems(3) obtain v where v: "owner_exec a s = Some v" and run: "run_acts owner_exec as v = Some t"
    by (auto split: option.splits)
  have "ev_run (calls_of as v) (ev_abs v) = ev_abs t"
    by (rule Cons.IH [OF owner_step_inv [OF v Cons.prems(1)] _ run]) (use Cons.prems(2) in simp)
  moreover have "ev_run (call_of a s) (ev_abs s) = ev_abs v"
    by (rule step_refines_call [OF Cons.prems(1) v]) (use Cons.prems(2) in auto)
  ultimately show ?case by (simp add: v ev_run_append)
qed simp

text \<open>
  C25. The steps of the thread, its mutex and its condition variable implement the sequential model: in
  every run in which one thread makes the calls and the system creates the threads, the runner is, at every
  moment, what the calls of \<open>Start\<close> and \<open>Stop\<close> made so far and the sweeps begun so far make of a
  new runner in the sequential model, in the order in which they took effect.
\<close>

theorem evictor_refines_calls:
  assumes "run_acts owner_exec as EvictionRunner = Some s" and "EvSpawn 0 False \<notin> set as"
  shows "ev_run (calls_of as EvictionRunner) runner_init = ev_abs s"
proof -
  have "ev_abs EvictionRunner = runner_init" by (simp add: ev_abs_def EvictionRunner_def runner_init_def)
  moreover have "ev_inv EvictionRunner" by (rule ev_owned.start_inv) simp
  ultimately show ?thesis using run_refines_calls [OF _ assms(2,1)] by simp
qed

lemma evictor_refines_calls_witness:
  "\<exists>s. run_acts owner_exec sweeping_run EvictionRunner = Some s
    \<and> ev_run [CallStart, Turn, Turn, CallStop] runner_init = ev_abs s"
proof -
  define s where "s = the (run_acts owner_exec sweeping_run EvictionRunner)"
  have run: "run_acts owner_exec sweeping_run EvictionRunner = Some s"
    by (simp add: s_def sweeping_run_def EvictionRunner_def owner_exec_def ev_exec_def owned_act_def)
  have "calls_of sweeping_run EvictionRunner = [CallStart, Turn, Turn, CallStop]"
    by (simp add: sweeping_run_def EvictionRunner_def owner_exec_def ev_exec_def owned_act_def)
  with evictor_refines_calls [OF run] run show ?thesis by (auto simp: sweeping_run_def)
qed

section \<open>Calls that overlap\<close>

text \<open>
  \<open>started_\<close> is atomic and \<open>Start\<close> exchanges it, as if several threads could make the calls, but \<open>thread_\<close> is not guarded.
  If \<open>Stop\<close> runs between the exchange and the creation of the thread, it finds nothing to join and clears
  \<open>started_\<close>; the thread is created after it, the destructor does not join it and terminates the program.
  If two threads call \<open>Stop\<close>, both may find \<open>thread_\<close> joinable, and the second joins it again.
\<close>

theorem overlapping_calls_break:
  "map_option e_broken (run_acts ev_exec
     [EvStart 0, EvStop 1 False, EvSet 1, EvNotify 1, EvTest 1, EvClear 1, EvSpawn 0 True,
      LoopLock 0, EvStop 0 True, EvDestroy 0] EvictionRunner) = Some True
   \<and> map_option e_broken (run_acts ev_exec
     [EvStart 0, EvSpawn 0 True, LoopLock 0, EvStop 0 False, EvStop 1 False, EvSet 0, EvSet 1, EvNotify 0, EvNotify 1,
      EvTest 0, EvTest 1, LoopWake 0, EvJoin 0, EvJoin 1] EvictionRunner) = Some True"
  by (simp add: ev_exec_def EvictionRunner_def notify_all_def)

end
