(* ===== verification/Pool_Reap.thy ===== *)
theory Pool_Reap
  imports Pool_Drain
begin

text \<open>
  The pool with \<open>ReapLocked_\<close> spelled out, and with a system that may fail to create a thread. In Thread_Pool
  a worker that leaves is gone at once, and \<open>Enqueue_\<close> only drops the handles in \<open>reap_\<close>. Here a worker returns some time
  after it has left \<open>workers_\<close>, and \<open>Enqueue_\<close> joins every thread of \<open>reap_\<close> while it holds \<open>mtx_\<close>, so that no other
  critical section can begin meanwhile; \<open>Shutdown\<close> joins threads that have really returned. \<open>std::thread\<close>'s
  constructor may throw: in \<open>SpawnLocked_\<close> called by \<open>Enqueue_\<close>, or by the constructor of the pool.
  Shown: the detailed pool implements that of Thread_Pool, joining under the mutex never
  blocks for good, \<open>Shutdown\<close> still returns, and a failure to create a thread loses no task.
\<close>

section \<open>The detailed pool\<close>

text \<open>
  \<open>rp_reaping\<close> is the caller that holds \<open>mtx_\<close> in \<open>ReapLocked_\<close>, with the threads it has still to join;
  \<open>rp_returned w\<close> says that the function of worker \<open>w\<close> has returned; \<open>rp_threw\<close> lists the callers whose \<open>Enqueue_\<close> has
  thrown.
\<close>

record rpool =
  rp_pool :: pool
  rp_reaping :: "(nat \<times> nat list) option"
  rp_returned :: "nat \<Rightarrow> bool"
  rp_threw :: "nat list"

definition rpool_of :: "pool \<Rightarrow> rpool" where
  "rpool_of p = \<lparr>rp_pool = p, rp_reaping = None, rp_returned = (\<lambda>_. False), rp_threw = []\<rparr>"

datatype ract = PoolStep pact | ReapLock nat | ReapJoin | ReapDone | WorkerReturn nat | SpawnFails nat

text \<open>The steps that are critical sections of \<open>mtx_\<close>.\<close>

fun needs_lock :: "pact \<Rightarrow> bool" where
  "needs_lock (Enqueue c t) = False"
| "needs_lock (ShutJoin c) = False"
| "needs_lock (Finish w) = False"
| "needs_lock a = True"

text \<open>
  The steps that are as before: all but an \<open>Enqueue_\<close> that gets as far as \<open>ReapLocked_\<close>; and the joins of \<open>Shutdown\<close>
  wait for the threads to return.
\<close>

fun as_before :: "pact \<Rightarrow> rpool \<Rightarrow> bool" where
  "as_before (EnqLock c) r = pstopped (rp_pool r)"
| "as_before (ShutJoin c) r =
     (case callers (rp_pool r) c of ShutJoining ws \<Rightarrow> \<forall>w\<in>set ws. rp_returned r w | _ \<Rightarrow> False)"
| "as_before a r = True"

fun reap_exec :: "ract \<Rightarrow> rpool \<Rightarrow> rpool option" where
  "reap_exec (PoolStep a) r =
     (if needs_lock a \<and> rp_reaping r \<noteq> None \<or> \<not> as_before a r then None
      else map_option (\<lambda>p. r\<lparr>rp_pool := p\<rparr>) (pexec a (rp_pool r)))"
| "reap_exec (ReapLock c) r =
     (case callers (rp_pool r) c of
        EnqLocking t \<Rightarrow>
          (if rp_reaping r \<noteq> None \<or> pstopped (rp_pool r) then None
           else Some (r\<lparr>rp_reaping := Some (c, reap (rp_pool r))\<rparr>))
      | _ \<Rightarrow> None)"
| "reap_exec ReapJoin r =
     (case rp_reaping r of
        Some (c, w # ws) \<Rightarrow> (if rp_returned r w then Some (r\<lparr>rp_reaping := Some (c, ws)\<rparr>) else None)
      | _ \<Rightarrow> None)"
| "reap_exec ReapDone r =
     (case rp_reaping r of
        Some (c, []) \<Rightarrow> map_option (\<lambda>p. r\<lparr>rp_pool := p, rp_reaping := None\<rparr>) (pexec (EnqLock c) (rp_pool r))
      | _ \<Rightarrow> None)"
| "reap_exec (WorkerReturn w) r =
     (if threads (rp_pool r) w = Exited \<and> \<not> rp_returned r w
      then Some (r\<lparr>rp_returned := (rp_returned r)(w := True)\<rparr>) else None)"
| "reap_exec (SpawnFails c) r =
     (if callers (rp_pool r) c = EnqSpawning \<and> rp_reaping r = None \<and> \<not> pstopped (rp_pool r) \<and> wants_worker (rp_pool r)
      then Some (r\<lparr>rp_pool := set_caller c Rest (rp_pool r), rp_threw := rp_threw r @ [c]\<rparr>) else None)"

section \<open>The invariant\<close>

text \<open>
  While \<open>mtx_\<close> is held in \<open>ReapLocked_\<close>, the pool cannot be stopped, and what is left to join has left the pool; only
  threads that have left have returned.
\<close>

definition rinv :: "rpool \<Rightarrow> bool" where
  "rinv r \<longleftrightarrow>
     pinv (rp_pool r) \<and> born_ok (rp_pool r)
     \<and> (\<forall>c ws. rp_reaping r = Some (c, ws) \<longrightarrow>
          (\<exists>t. callers (rp_pool r) c = EnqLocking t) \<and> \<not> pstopped (rp_pool r) \<and> set ws \<subseteq> set (reap (rp_pool r)))
     \<and> (\<forall>w. rp_returned r w \<longrightarrow> threads (rp_pool r) w = Exited)"

lemma exited_stays:
  assumes "pexec a p = Some p'" and "shape_ok p" and "threads p w = Exited"
  shows "threads p' w = Exited"
proof -
  have "threads p (born p) = Unborn" using assms(2) by (simp add: shape_ok_def)
  with assms(3) have "w \<noteq> born p" by auto
  with assms(1,3) show ?thesis
    by (cases a) (auto simp: Let_def split: if_splits caller.splits worker.splits list.splits)
qed

text \<open>A step that needs no lock leaves the state that the lock guards, and the callers in \<open>Enqueue_\<close>.\<close>

lemma unlocked_step:
  assumes "pexec a p = Some p'" and "\<not> needs_lock a"
  shows "pstopped p' = pstopped p" and "reap p' = reap p"
    and "callers p c = EnqLocking t \<Longrightarrow> callers p' c = EnqLocking t"
  using assms by (cases a; auto simp: idle_caller_def split: if_splits caller.splits worker.splits)+

lemma reap_step_inv:
  assumes "reap_exec a r = Some r'" and inv: "rinv r"
  shows "rinv r'"
proof (cases a)
  case (PoolStep b)
  with assms(1) obtain p' where p': "pexec b (rp_pool r) = Some p'" "r' = r\<lparr>rp_pool := p'\<rparr>"
    and l: "\<not> needs_lock b \<or> rp_reaping r = None" by (cases "rp_reaping r") (auto split: if_splits)
  have "pinv p'" "born_ok p'" using pool_pinv [OF p'(1)] born_step [OF p'(1)] inv by (simp_all add: rinv_def)
  moreover have "(\<exists>t. callers p' c = EnqLocking t) \<and> \<not> pstopped p' \<and> set ws \<subseteq> set (reap p')"
    if "rp_reaping r = Some (c, ws)" for c ws
  proof -
    have "\<not> needs_lock b" using l that by auto
    with unlocked_step [OF p'(1) this] inv that show ?thesis by (auto simp: rinv_def)
  qed
  moreover have "threads p' w = Exited" if "rp_returned r w" for w
    using exited_stays [OF p'(1)] inv that by (simp add: rinv_def pinv_def)
  ultimately show ?thesis using p'(2) by (simp add: rinv_def)
next
  case (ReapLock c)
  with assms show ?thesis by (auto simp: rinv_def split: caller.splits if_splits)
next
  case ReapJoin
  with assms(1) obtain c w ws where "rp_reaping r = Some (c, w # ws)" "r' = r\<lparr>rp_reaping := Some (c, ws)\<rparr>"
    by (auto split: option.splits list.splits if_splits)
  with inv show ?thesis by (simp add: rinv_def)
next
  case ReapDone
  with assms(1) obtain c p' where p': "pexec (EnqLock c) (rp_pool r) = Some p'"
    "r' = r\<lparr>rp_pool := p', rp_reaping := None\<rparr>" by (auto split: option.splits list.splits)
  have "pinv p'" "born_ok p'" using pool_pinv [OF p'(1)] born_step [OF p'(1)] inv by (simp_all add: rinv_def)
  moreover have "threads p' w = Exited" if "rp_returned r w" for w
    using exited_stays [OF p'(1)] inv that by (simp add: rinv_def pinv_def)
  ultimately show ?thesis using p'(2) by (simp add: rinv_def)
next
  case (WorkerReturn w)
  with assms show ?thesis by (auto simp: rinv_def split: if_splits)
next
  case (SpawnFails c)
  with assms(1) have c: "callers (rp_pool r) c = EnqSpawning" "rp_reaping r = None"
    and r': "r' = r\<lparr>rp_pool := set_caller c Rest (rp_pool r), rp_threw := rp_threw r @ [c]\<rparr>"
    by (auto split: if_splits)
  have "pinv (set_caller c Rest (rp_pool r))" "born_ok (set_caller c Rest (rp_pool r))"
    using rest_pinv c(1) born_caller inv by (auto simp: rinv_def)
  with inv c r' show ?thesis by (simp add: rinv_def)
qed

lemma rinv_start: "rinv (rpool_of (ThreadPool c))"
  by (simp add: rinv_def rpool_of_def pinv_start born_start)

interpretation rp: invariant_system "\<lambda>r. \<exists>c. r = rpool_of (ThreadPool c)" "acts_step reap_exec" rinv
  by unfold_locales (auto simp: acts_step_def rinv_start intro: reap_step_inv)

lemma reap_run_inv: "run_acts reap_exec as (rpool_of (ThreadPool c)) = Some r \<Longrightarrow> rinv r"
  by (rule rp.reachable_inv [OF exI [of _ c, OF refl]]) (rule run_acts_steps)

section \<open>It implements the pool of Thread_Pool\<close>

text \<open>The steps of the abstract pool behind a schedule: those that are not details of reaping.\<close>

fun abs_act :: "ract \<Rightarrow> rpool \<Rightarrow> pact list" where
  "abs_act (PoolStep a) r = [a]"
| "abs_act ReapDone r = (case rp_reaping r of Some (c, ws) \<Rightarrow> [EnqLock c] | None \<Rightarrow> [])"
| "abs_act a r = []"

fun abs_acts :: "ract list \<Rightarrow> rpool \<Rightarrow> pact list" where
  "abs_acts [] r = []"
| "abs_acts (a # as) r = abs_act a r @ (case reap_exec a r of None \<Rightarrow> [] | Some r' \<Rightarrow> abs_acts as r')"

definition spawn_failure :: "ract \<Rightarrow> bool" where
  "spawn_failure a \<longleftrightarrow> (\<exists>c. a = SpawnFails c)"

lemma reap_step_refines:
  assumes "reap_exec a r = Some r'" and "\<not> spawn_failure a"
  shows "run_acts pexec (abs_act a r) (rp_pool r) = Some (rp_pool r')"
  using assms
  by (cases a) (auto simp: spawn_failure_def split: if_splits caller.splits option.splits list.splits)

lemma reap_run_refines:
  assumes "run_acts reap_exec as r = Some r'" and "\<not> list_ex spawn_failure as"
  shows "run_acts pexec (abs_acts as r) (rp_pool r) = Some (rp_pool r')"
  using assms
proof (induction as arbitrary: r)
  case (Cons a as)
  from Cons.prems(1) obtain u where u: "reap_exec a r = Some u" "run_acts reap_exec as u = Some r'"
    by (auto split: option.splits)
  have "run_acts pexec (abs_act a r) (rp_pool r) = Some (rp_pool u)"
    using reap_step_refines [OF u(1)] Cons.prems(2) by simp
  moreover have "run_acts pexec (abs_acts as u) (rp_pool u) = Some (rp_pool r')"
    using Cons.IH [OF u(2)] Cons.prems(2) by simp
  ultimately show ?case by (simp add: u(1) run_acts_append)
qed simp

section \<open>The joins under the mutex end\<close>

text \<open>
  The caller in \<open>ReapLocked_\<close>, and the threads it waits for, need nobody else: every thread it joins has left the pool and
  returns by itself.
\<close>

lemma reaping_moves:
  "rinv r \<Longrightarrow> rp_reaping r = Some (c, ws) \<Longrightarrow>
     \<exists>as r'. run_acts reap_exec as r = Some r' \<and> length as \<le> 2 * length ws + 1 \<and> rp_reaping r' = None
       \<and> callers (rp_pool r') c \<in> {Rest, EnqSpawning}"
proof (induction ws arbitrary: r)
  case Nil
  then obtain t where t: "callers (rp_pool r) c = EnqLocking t" "\<not> pstopped (rp_pool r)" by (auto simp: rinv_def)
  then obtain p' where p': "pexec (EnqLock c) (rp_pool r) = Some p'" "callers p' c \<in> {Rest, EnqSpawning}"
    by (auto simp: Let_def)
  then show ?case
    using Nil.prems(2) by (intro exI [of _ "[ReapDone]"] exI [of _ "r\<lparr>rp_pool := p', rp_reaping := None\<rparr>"]) simp
next
  case (Cons w ws)
  have "set (w # ws) \<subseteq> set (reap (rp_pool r))" using Cons.prems by (auto simp: rinv_def)
  then have ex: "threads (rp_pool r) w = Exited" using Cons.prems(1) by (auto simp: rinv_def pinv_def shape_ok_def)
  define as where "as = (if rp_returned r w then [ReapJoin] else [WorkerReturn w, ReapJoin])"
  define u where "u = r\<lparr>rp_reaping := Some (c, ws), rp_returned := (rp_returned r)(w := True)\<rparr>"
  have "(rp_returned r)(w := True) = rp_returned r" if "rp_returned r w"
    using that by (simp add: fun_upd_idem)
  then have run: "run_acts reap_exec as r = Some u" "length as \<le> 2"
    using Cons.prems(2) ex by (simp_all add: as_def u_def)
  have "rinv u" using rp.steps_inv [OF run_acts_steps [OF run(1)] Cons.prems(1)] .
  from Cons.IH [OF this] obtain bs r' where bs: "run_acts reap_exec bs u = Some r'" "length bs \<le> 2 * length ws + 1"
    "rp_reaping r' = None \<and> callers (rp_pool r') c \<in> {Rest, EnqSpawning}" by (auto simp: u_def)
  have "run_acts reap_exec (as @ bs) r = Some r'" using run(1) bs(1) by (simp add: run_acts_append)
  moreover have "length (as @ bs) \<le> 2 * length (w # ws) + 1" using run(2) bs(2) by simp
  ultimately show ?case using bs(3) by blast
qed

section \<open>Shutdown returns\<close>

definition handles_left :: "rpool \<Rightarrow> nat set" where
  "handles_left r = {w. w < born (rp_pool r) \<and> \<not> rp_returned r w}"

definition reap_work :: "nat \<Rightarrow> rpool \<Rightarrow> nat" where
  "reap_work d r = pool_work d (rp_pool r) + card (handles_left r)"

lemma draining_born: "draining d a \<Longrightarrow> pexec a p = Some p' \<Longrightarrow> born p' = born p"
  by (cases a) (auto split: if_splits caller.splits worker.splits list.splits)

lemma reap_moves:
  assumes inv: "rinv r" and d: "in_shutdown (callers (rp_pool r) d)"
  shows "\<exists>a r'. reap_exec a r = Some r' \<and> reap_work d r' < reap_work d r
    \<and> (in_shutdown (callers (rp_pool r') d) \<or> callers (rp_pool r') d = ShutDone)"
proof -
  let ?p = "rp_pool r"
  have p: "pinv ?p" "born_ok ?p" using inv by (simp_all add: rinv_def)
  have st: "pstopped ?p" using p(1) d by (auto simp: pinv_def shut_ok_def in_shutdown_def)
  then have free: "rp_reaping r = None" using inv by (cases "rp_reaping r") (auto simp: rinv_def)
  obtain a p' where a: "draining d a" "pexec a ?p = Some p'" "pool_work d p' < pool_work d ?p"
    "in_shutdown (callers p' d) \<or> callers p' d = ShutDone" using pool_moves [OF p d] by blast
  show ?thesis
  proof (cases "as_before a r")
    case True
    have "handles_left (r\<lparr>rp_pool := p'\<rparr>) = handles_left r" using draining_born [OF a(1,2)] by (simp add: handles_left_def)
    with True free a show ?thesis
      by (intro exI [of _ "PoolStep a"] exI [of _ "r\<lparr>rp_pool := p'\<rparr>"]) (simp add: reap_work_def)
  next
    case False
    with a(1,2) obtain c ws w where ws: "a = ShutJoin c" "callers ?p c = ShutJoining ws" "w \<in> set ws" "\<not> rp_returned r w"
      by (cases a) (auto split: caller.splits)
    then have ex: "threads ?p w = Exited" using a(2) by (auto split: if_splits)
    define u where "u = r\<lparr>rp_returned := (rp_returned r)(w := True)\<rparr>"
    have "w < born ?p" using p(2) ws(2,3) by (auto simp: born_ok_def)
    with ws(4) have "w \<in> handles_left r" by (simp add: handles_left_def)
    moreover have "handles_left u = handles_left r - {w}" by (auto simp: handles_left_def u_def)
    moreover have "finite (handles_left r)" by (simp add: handles_left_def)
    ultimately have "card (handles_left u) < card (handles_left r)" by (simp only: card_Diff1_less)
    moreover have "reap_exec (WorkerReturn w) r = Some u" using ex ws(4) by (simp add: u_def)
    ultimately show ?thesis
      using d by (intro exI [of _ "WorkerReturn w"] exI [of _ u]) (simp add: reap_work_def u_def)
  qed
qed

lemma reap_shutdown_ends:
  "rinv r \<Longrightarrow> in_shutdown (callers (rp_pool r) d) \<Longrightarrow>
     \<exists>as r'. run_acts reap_exec as r = Some r' \<and> length as \<le> reap_work d r \<and> callers (rp_pool r') d = ShutDone"
proof (induction "reap_work d r" arbitrary: r rule: less_induct)
  case less
  obtain a u where a: "reap_exec a r = Some u" "reap_work d u < reap_work d r"
    "in_shutdown (callers (rp_pool u) d) \<or> callers (rp_pool u) d = ShutDone" using reap_moves [OF less.prems] by blast
  show ?case
  proof (cases "callers (rp_pool u) d = ShutDone")
    case True
    with a show ?thesis by (intro exI [of _ "[a]"] exI [of _ u]) simp
  next
    case False
    with a(3) have "in_shutdown (callers (rp_pool u) d)" by simp
    from less.hyps [OF a(2) reap_step_inv [OF a(1) less.prems(1)] this] obtain as r' where
      "run_acts reap_exec as u = Some r'" "length as \<le> reap_work d u" "callers (rp_pool r') d = ShutDone" by blast
    with a show ?thesis by (intro exI [of _ "a # as"] exI [of _ r']) simp
  qed
qed

section \<open>Properties\<close>


text \<open>A second worker is made, times out and leaves; the next \<open>Enqueue_\<close> finds it in \<open>reap_\<close>.\<close>

definition reap_run :: "ract list" where
  "reap_run =
     [PoolStep (Enqueue 9 100), ReapLock 9, ReapDone, PoolStep (Enqueue 8 101), ReapLock 8, ReapDone, PoolStep (EnqSpawn 8),
      PoolStep (Take 0), PoolStep (Take 1), PoolStep (Finish 1), PoolStep (IdleTimeout 1), PoolStep (Enqueue 9 102), ReapLock 9,
      PoolStep (Finish 0)]"

lemmas reap_eval = pool_eval rpool_of_def reap_run_def


text \<open>
  A failure to create a thread loses no task. \<open>Enqueue_\<close> throws at its caller then, but the task it was given is
  in the queue, and with the workers that exist (there is one at least) it is run: when \<open>Shutdown\<close> is back, every
  task ever submitted has run once, those of the calls that threw included.
\<close>

theorem failed_spawn_loses_no_task:
  assumes "run_acts reap_exec as (rpool_of (ThreadPool c)) = Some r" and "callers (rp_pool r) d = ShutDone"
  shows "tasks (rp_pool r) = []
    \<and> (\<exists>m. entering_sum (callers (rp_pool r)) m \<and> mset (submitted (rp_pool r)) = mset (finished (rp_pool r)) + m)"
proof -
  have "pinv (rp_pool r)" using reap_run_inv [OF assms(1)] by (simp add: rinv_def)
  with assms(2) show ?thesis by (simp add: shut_done_drained)
qed

definition failing_run :: "ract list" where
  "failing_run =
     [PoolStep (Enqueue 9 100), ReapLock 9, ReapDone, PoolStep (Enqueue 8 101), ReapLock 8, ReapDone, SpawnFails 8,
      PoolStep (Take 0), PoolStep (Shutdown 9), PoolStep (ShutTake 9), PoolStep (Finish 0), PoolStep (Take 0), PoolStep (Finish 0),
      PoolStep (ExitStopped 0), WorkerReturn 0, PoolStep (ShutJoin 9)]"

lemma failed_spawn_loses_no_task_witness:
  "\<exists>r. run_acts reap_exec failing_run (rpool_of (ThreadPool small_pool)) = Some r \<and> rp_threw r = [8]
     \<and> finished (rp_pool r) = [100, 101] \<and> tasks (rp_pool r) = []"
proof -
  define r where "r = the (run_acts reap_exec failing_run (rpool_of (ThreadPool small_pool)))"
  have run: "run_acts reap_exec failing_run (rpool_of (ThreadPool small_pool)) = Some r \<and> rp_threw r = [8]
      \<and> finished (rp_pool r) = [100, 101] \<and> callers (rp_pool r) 9 = ShutDone"
    unfolding r_def by (simp add: reap_eval failing_run_def)
  with failed_spawn_loses_no_task [of failing_run small_pool r 9] show ?thesis by blast
qed

section \<open>The constructor\<close>

text \<open>
  \<open>ok i\<close> says whether the system creates the \<open>i\<close>-th thread. When one is not created, \<open>SpawnLocked_\<close> throws and the members built so far are
  destroyed; \<open>workers_\<close> may hold joinable threads, whose destruction terminates the program.
\<close>

datatype construction = Constructed pool | ConstructorThrew | Terminated

fun spawn_try :: "(nat \<Rightarrow> bool) \<Rightarrow> nat \<Rightarrow> pool \<Rightarrow> construction" where
  "spawn_try ok 0 p = Constructed p"
| "spawn_try ok (Suc n) p =
     (if ok (born p) then spawn_try ok n (SpawnLocked p)
      else if workers p = [] then ConstructorThrew else Terminated)"

definition ConstructPool :: "(nat \<Rightarrow> bool) \<Rightarrow> pool_cfg \<Rightarrow> construction" where
  "ConstructPool ok c =
     (let c = fix_cfg c
      in spawn_try ok (min_threads c)
        \<lparr>pcfg = c, tasks = [], workers = [], reap = [], worker_count = 0, pstopped = False,
         threads = (\<lambda>_. Unborn), born = 0, callers = (\<lambda>_. Rest), submitted = [], finished = []\<rparr>)"

lemma spawn_try_outcome:
  "workers p = [] \<longleftrightarrow> born p = 0 \<Longrightarrow>
     spawn_try ok n p =
       (if list_all ok [born p..<born p + n] then Constructed (spawn_n n p)
        else if born p = 0 \<and> \<not> ok 0 then ConstructorThrew else Terminated)"
proof (induction n arbitrary: p)
  case (Suc n)
  have all: "list_all ok [born p..<born p + Suc n] \<longleftrightarrow> ok (born p) \<and> list_all ok [Suc (born p)..<Suc (born p) + n]"
    by (simp add: upt_conv_Cons del: upt_Suc)
  show ?case
  proof (cases "ok (born p)")
    case True
    have "spawn_try ok n (SpawnLocked p) =
        (if list_all ok [Suc (born p)..<Suc (born p) + n] then Constructed (spawn_n n (SpawnLocked p)) else Terminated)"
      using Suc.IH [of "SpawnLocked p"] by simp
    with True show ?thesis unfolding all by (cases "born p = 0") simp_all
  next
    case False
    with Suc.prems show ?thesis unfolding all by (cases "born p = 0") simp_all
  qed
qed simp

text \<open>
  The constructor when the system runs out of threads: it succeeds exactly when every thread asked for is created; if the
  first is not, it throws; if a later one is not, the exception terminates the program instead of reaching the caller.
\<close>

theorem constructor_without_threads:
  "ConstructPool ok c =
     (if \<forall>i < min_threads (fix_cfg c). ok i then Constructed (ThreadPool c)
      else if ok 0 then Terminated else ConstructorThrew)"
  by (auto simp: ConstructPool_def ThreadPool_def Let_def spawn_try_outcome list_all_iff)

lemma constructor_without_threads_witness:
  "ConstructPool (\<lambda>i. i < 3) \<lparr>min_threads = 4, max_threads = 8, scale_factor = 2\<rparr> = Terminated"
proof -
  have "\<not> (\<forall>i < 4. i < (3::nat))" by (auto intro: exI [of _ 3])
  then show ?thesis
    using constructor_without_threads [of "\<lambda>i. i < 3" "\<lparr>min_threads = 4, max_threads = 8, scale_factor = 2\<rparr>"]
    by (simp add: fix_cfg_def)
qed

end
