(* ===== verification/Pool_Futures.thy ===== *)
theory Pool_Futures
  imports Pool_Drain
begin

text \<open>
  \<open>ThreadPool::PostDetached\<close> and \<open>Submit\<close> (context/thread_pool.h): what becomes of the result and of the exceptions of
  a task. The steps are those of Thread_Pool; here every task has a body, and the pool carries the shared states of the
  futures and what has been written to standard error.
\<close>

section \<open>Tasks with a body\<close>

datatype thrown = StdException string | OtherException

text \<open>
  A callable, by what it does when it is called: it throws (\<open>Inl\<close>) or returns. \<open>PostDetached\<close> passes
  the callable itself (a copy, or a shared pointer to it when it cannot be copied); \<open>Submit\<close> passes a \<open>std::packaged_task\<close> around it.
\<close>

datatype 'r job = PostDetached "thrown + unit" | Submit "thrown + 'r"

text \<open>\<open>futures\<close> holds the shared states that are ready; \<open>on_worker\<close>, which no step reads, the tasks run by workers.\<close>

record 'r outputs =
  futures :: "nat \<Rightarrow> (thrown + 'r) option"
  err_lines :: "string list"
  on_worker :: "nat list"

definition no_outputs :: "'r outputs" where
  "no_outputs = \<lparr>futures = (\<lambda>_. None), err_lines = [], on_worker = []\<rparr>"

text \<open>Calling the task: a packaged task stores result or exception in its shared state and does not throw itself.\<close>

fun run_job :: "nat \<Rightarrow> 'r job \<Rightarrow> 'r outputs \<Rightarrow> (thrown + unit) \<times> 'r outputs" where
  "run_job t (PostDetached r) x = (r, x)"
| "run_job t (Submit r) x = (Inr (), x\<lparr>futures := (futures x)(t := Some r)\<rparr>)"

text \<open>The handlers of \<open>WorkerLoop_\<close>.\<close>

fun worker_line :: "thrown + unit \<Rightarrow> string list" where
  "worker_line (Inr ()) = []"
| "worker_line (Inl (StdException what)) = [''[logger::context] task threw: '' @ what]"
| "worker_line (Inl OtherException) = [''[logger::context] task threw unknown exception'']"

definition worker_runs :: "nat \<Rightarrow> 'r job \<Rightarrow> 'r outputs \<Rightarrow> 'r outputs" where
  "worker_runs t j x =
     (case run_job t j x of (r, y) \<Rightarrow> y\<lparr>err_lines := err_lines y @ worker_line r, on_worker := on_worker y @ [t]\<rparr>)"

text \<open>\<open>Enqueue_\<close> of a stopped pool runs the task itself and swallows every exception without a word.\<close>

definition caller_runs :: "nat \<Rightarrow> 'r job \<Rightarrow> 'r outputs \<Rightarrow> 'r outputs" where
  "caller_runs t j x = snd (run_job t j x)"

text \<open>A step of the pool with what the task run in it does, if one is.\<close>

fun step_outputs :: "(nat \<Rightarrow> 'r job) \<Rightarrow> pact \<Rightarrow> pool \<Rightarrow> 'r outputs \<Rightarrow> 'r outputs" where
  "step_outputs body (Enqueue c t) p x = (if pstopped p then caller_runs t (body t) x else x)"
| "step_outputs body (EnqLock c) p x =
     (case callers p c of EnqLocking t \<Rightarrow> if pstopped p then caller_runs t (body t) x else x | _ \<Rightarrow> x)"
| "step_outputs body (Finish w) p x =
     (case threads p w of Running t \<Rightarrow> worker_runs t (body t) x | _ \<Rightarrow> x)"
| "step_outputs body a p x = x"

definition job_exec :: "(nat \<Rightarrow> 'r job) \<Rightarrow> pact \<Rightarrow> pool \<times> 'r outputs \<Rightarrow> (pool \<times> 'r outputs) option" where
  "job_exec body a s = map_option (\<lambda>p. (p, step_outputs body a (fst s) (snd s))) (pexec a (fst s))"

section \<open>The shared states\<close>

fun result_of :: "'r job \<Rightarrow> (thrown + 'r) option" where
  "result_of (PostDetached r) = None"
| "result_of (Submit r) = Some r"

fun escapes :: "'r job \<Rightarrow> string list" where
  "escapes (PostDetached r) = worker_line r"
| "escapes (Submit r) = []"

text \<open>
  Exactly the tasks that have run have given their result; the lines on standard error are those of
  the detached tasks that threw on a worker, in the order in which they ended.
\<close>

definition outputs_ok :: "(nat \<Rightarrow> 'r job) \<Rightarrow> pool \<times> 'r outputs \<Rightarrow> bool" where
  "outputs_ok body s \<longleftrightarrow>
     (\<forall>t. futures (snd s) t = (if t \<in> set (finished (fst s)) then result_of (body t) else None))
     \<and> err_lines (snd s) = concat (map (\<lambda>t. escapes (body t)) (on_worker (snd s)))
     \<and> mset (on_worker (snd s)) \<subseteq># mset (finished (fst s))"

lemma run_job_simps [simp]:
  "futures (snd (run_job t j x)) = (case result_of j of None \<Rightarrow> futures x | Some r \<Rightarrow> (futures x)(t := Some r))"
  "err_lines (snd (run_job t j x)) = err_lines x" "on_worker (snd (run_job t j x)) = on_worker x"
  "worker_line (fst (run_job t j x)) = escapes j"
  by (cases j; simp)+

lemma worker_runs_simps [simp]:
  "futures (worker_runs t j x) = (case result_of j of None \<Rightarrow> futures x | Some r \<Rightarrow> (futures x)(t := Some r))"
  "err_lines (worker_runs t j x) = err_lines x @ escapes j" "on_worker (worker_runs t j x) = on_worker x @ [t]"
  by (cases j; simp add: worker_runs_def)+

lemma caller_runs_simps [simp]:
  "futures (caller_runs t j x) = (case result_of j of None \<Rightarrow> futures x | Some r \<Rightarrow> (futures x)(t := Some r))"
  "err_lines (caller_runs t j x) = err_lines x" "on_worker (caller_runs t j x) = on_worker x"
  by (simp_all add: caller_runs_def)

lemma ran:
  assumes "outputs_ok body (p, x)" and "finished p' = finished p @ [t]"
    and "futures y = (case result_of (body t) of None \<Rightarrow> futures x | Some r \<Rightarrow> (futures x)(t := Some r))"
    and "err_lines y = err_lines x \<and> on_worker y = on_worker x
      \<or> err_lines y = err_lines x @ escapes (body t) \<and> on_worker y = on_worker x @ [t]"
  shows "outputs_ok body (p', y)"
  using assms unfolding outputs_ok_def
  by (intro conjI allI) (auto split: option.splits intro: subset_mset.order_trans mset_subset_eq_add_left)

text \<open>A step either runs one task to its end or none.\<close>

lemma job_step_ok:
  assumes "job_exec body a s = Some s'" and "outputs_ok body s"
  shows "outputs_ok body s'"
proof -
  obtain p x where s: "s = (p, x)" by (cases s)
  from assms(1) obtain p' where p': "pexec a p = Some p'" and s': "s' = (p', step_outputs body a p x)"
    by (auto simp: job_exec_def s)
  have quiet: "outputs_ok body (p', x)" if "finished p' = finished p"
    using assms(2) that by (simp add: outputs_ok_def s)
  note ran = ran [OF assms(2) [unfolded s], of p']
  show ?thesis
  proof (cases a)
    case (Enqueue c t)
    with p' quiet ran show ?thesis by (auto simp: s' split: if_splits)
  next
    case (EnqLock c)
    with p' quiet ran show ?thesis by (auto simp: s' Let_def split: if_splits caller.splits)
  next
    case (Finish w)
    with p' ran show ?thesis by (auto simp: s' split: worker.splits)
  next
    case (ExitStopped w)
    with p' quiet show ?thesis by (auto simp: s' split: if_splits)
  next
    case (IdleTimeout w)
    with p' quiet show ?thesis by (auto simp: s' split: if_splits)
  qed (use p' quiet in \<open>auto simp: s' split: if_splits caller.splits worker.splits list.splits\<close>)
qed

lemma job_exec_pool: "job_exec body a s = Some s' \<Longrightarrow> pexec a (fst s) = Some (fst s')"
  by (auto simp: job_exec_def)

text \<open>What tasks do, exceptions included, does not reach the pool.\<close>

lemma job_run_pool: "map_option fst (run_acts (job_exec body) as s) = run_acts pexec as (fst s)"
proof (induction as arbitrary: s)
  case (Cons a as)
  show ?case
  proof (cases "pexec a (fst s)")
    case None
    then show ?thesis by (simp add: job_exec_def)
  next
    case (Some p)
    then have "job_exec body a s = Some (p, step_outputs body a (fst s) (snd s))" by (simp add: job_exec_def)
    with Some Cons.IH show ?thesis by simp
  qed
qed simp

interpretation jobs: invariant_system "\<lambda>s. \<exists>c. s = (ThreadPool c, no_outputs)" "acts_step (job_exec body)"
    "\<lambda>s. pinv (fst s) \<and> outputs_ok body s" for body
proof unfold_locales
  show "\<exists>c. s = (ThreadPool c, no_outputs) \<Longrightarrow> pinv (fst s) \<and> outputs_ok body s" for s :: "pool \<times> 'a outputs"
    using filled by (fastforce simp: pinv_start outputs_ok_def no_outputs_def filling_def)
  show "acts_step (job_exec body) s t \<Longrightarrow> pinv (fst s) \<and> outputs_ok body s \<Longrightarrow> pinv (fst t) \<and> outputs_ok body t" for s t
    by (auto simp: acts_step_def dest: job_exec_pool intro: pool_pinv job_step_ok)
qed

section \<open>Properties\<close>

text \<open>
  C27. No promise is broken. Give the tasks of a pool any bodies, some of which throw, and run it in any
  schedule until the thread that stopped it is back from \<open>Shutdown\<close> and no caller is inside \<open>Enqueue_\<close>: the future of every submitted task is
  ready with the value or the exception of that task, even of those submitted during or after the shutdown. The
  pool behaves as if no task threw; an exception that escapes a detached task is one line on standard error if a worker ran it, in
  the order in which the tasks ended, and leaves no trace if the caller ran it.
\<close>

theorem no_promise_broken:
  assumes "run_acts (job_exec body) as (ThreadPool c, no_outputs) = Some (p, x)"
    and "callers p d = ShutDone" and "\<forall>e t. callers p e \<noteq> EnqLocking t"
  shows "run_acts pexec as (ThreadPool c) = Some p
    \<and> (\<forall>t \<in> set (submitted p). futures x t = result_of (body t))
    \<and> (\<forall>t. t \<notin> set (submitted p) \<longrightarrow> futures x t = None)
    \<and> err_lines x = concat (map (\<lambda>t. escapes (body t)) (on_worker x)) \<and> mset (on_worker x) \<subseteq># mset (submitted p)"
proof -
  have inv: "pinv p" and ok: "outputs_ok body (p, x)"
    using jobs.reachable_inv [OF exI [of _ c, OF refl] run_acts_steps [OF assms(1)]] by simp_all
  obtain m where m: "entering_sum (callers p) m" "mset (submitted p) = mset (finished p) + m"
    using shut_done_drained [OF inv assms(2)] by blast
  have "entering (callers p e) = []" for e using assms(3) by (cases "callers p e") auto
  with m(1) have "m = {#}" by (auto simp: entering_sum_def)
  with m(2) have eq: "mset (submitted p) = mset (finished p)" by simp
  then have "set (submitted p) = set (finished p)" by (rule mset_eq_setD)
  with ok eq job_run_pool [of body as "(ThreadPool c, no_outputs)"] assms(1) show ?thesis
    by (simp add: outputs_ok_def)
qed

definition job_bodies :: "nat \<Rightarrow> nat job" where
  "job_bodies t =
     (if t = 100 then Submit (Inr 7) else if t = 101 then Submit (Inl (StdException ''bad''))
      else PostDetached (Inl (StdException ''late'')))"

text \<open>The run of Thread_Pool: tasks 100, 101 and 102 run on workers, 103, posted to the stopped pool, in its caller.\<close>

lemma no_promise_broken_witness:
  "\<exists>p x. run_acts (job_exec job_bodies) pool_run (ThreadPool small_pool, no_outputs) = Some (p, x)
    \<and> futures x 100 = Some (Inr 7) \<and> futures x 101 = Some (Inl (StdException ''bad'')) \<and> futures x 103 = None
    \<and> err_lines x = [''[logger::context] task threw: late'']"
proof -
  have all: "\<exists>p x. run_acts (job_exec job_bodies) pool_run (ThreadPool small_pool, no_outputs) = Some (p, x)
      \<and> callers p = (\<lambda>_. Rest)(7 := ShutDone) \<and> submitted p = [100, 101, 102, 103] \<and> on_worker x = [101, 100, 102]"
    by (simp add: pool_eval pool_run_def job_exec_def no_outputs_def job_bodies_def fun_eq_iff)
  then obtain p x where r: "run_acts (job_exec job_bodies) pool_run (ThreadPool small_pool, no_outputs) = Some (p, x)"
    and p: "callers p = (\<lambda>_. Rest)(7 := ShutDone)" "submitted p = [100, 101, 102, 103]" "on_worker x = [101, 100, 102]"
    by blast
  have "callers p 7 = ShutDone" "\<forall>e t. callers p e \<noteq> EnqLocking t" unfolding p by simp_all
  from no_promise_broken [OF r this] p(2,3) show ?thesis using r by (auto simp: job_bodies_def)
qed

end
