(* ===== verification/Strand_Futures.thy ===== *)
theory Strand_Futures
  imports Strand Pool_Futures
begin

text \<open>
  \<open>Strand::PostDetached\<close> and \<open>Submit\<close> (context/strand.h): what becomes of the results and the exceptions of a strand's
  tasks. The steps are those of Strand, the tasks with a body are those of Pool_Futures: both classes wrap a callable in the same way.
  Shown: the strand runs as if no task threw, and results and messages come in the order of submission.
\<close>

section \<open>Tasks with a body on a strand\<close>

text \<open>The handlers of \<open>Drain_\<close>.\<close>

fun strand_line :: "thrown + unit \<Rightarrow> string list" where
  "strand_line (Inr ()) = []"
| "strand_line (Inl (StdException what)) = [''[logger::context::strand] task threw: '' @ what]"
| "strand_line (Inl OtherException) = [''[logger::context::strand] task threw unknown exception'']"

definition strand_runs :: "nat \<Rightarrow> 'r job \<Rightarrow> 'r outputs \<Rightarrow> 'r outputs" where
  "strand_runs t j x = (case run_job t j x of (r, y) \<Rightarrow> y\<lparr>err_lines := err_lines y @ strand_line r\<rparr>)"

fun drain_outputs :: "(nat \<Rightarrow> 'r job) \<Rightarrow> tact \<Rightarrow> strand \<Rightarrow> 'r outputs \<Rightarrow> 'r outputs" where
  "drain_outputs body (SFinish k) s x =
     (case activations s ! k of InTask t \<Rightarrow> strand_runs t (body t) x | _ \<Rightarrow> x)"
| "drain_outputs body a s x = x"

definition strand_job_exec :: "(nat \<Rightarrow> 'r job) \<Rightarrow> tact \<Rightarrow> strand \<times> 'r outputs \<Rightarrow> (strand \<times> 'r outputs) option" where
  "strand_job_exec body a s = map_option (\<lambda>t. (t, drain_outputs body a (fst s) (snd s))) (texec a (fst s))"

section \<open>The tasks that have ended\<close>

text \<open>The task that runs, if one does.\<close>

fun in_task :: "activation \<Rightarrow> nat list" where
  "in_task (InTask t) = [t]"
| "in_task a = []"

definition current :: "strand \<Rightarrow> nat list" where
  "current s = concat (map in_task (activations s))"

fun strand_escapes :: "'r job \<Rightarrow> string list" where
  "strand_escapes (PostDetached r) = strand_line r"
| "strand_escapes (Submit r) = []"

lemma strand_runs_simps [simp]:
  "futures (strand_runs t j x) = (case result_of j of None \<Rightarrow> futures x | Some r \<Rightarrow> (futures x)(t := Some r))"
  "err_lines (strand_runs t j x) = err_lines x @ strand_escapes j"
  by (cases j; simp add: strand_runs_def)+

text \<open>\<open>ts\<close> are the tasks that have ended, in order.\<close>

definition ended :: "(nat \<Rightarrow> 'r job) \<Rightarrow> nat list \<Rightarrow> strand \<times> 'r outputs \<Rightarrow> bool" where
  "ended body ts s \<longleftrightarrow>
     began (fst s) = ts @ current (fst s)
     \<and> (\<forall>t. futures (snd s) t = (if t \<in> set ts then result_of (body t) else None))
     \<and> err_lines (snd s) = concat (map (\<lambda>t. strand_escapes (body t)) ts)"

lemma none_in_task: "list_all (\<lambda>a. a = Returned) as \<Longrightarrow> concat (map in_task as) = []"
  by (induction as) auto

lemma only_in_task:
  "length (filter (\<lambda>a. a \<noteq> Returned) as) \<le> 1 \<Longrightarrow> k < length as \<Longrightarrow> as ! k \<noteq> Returned \<Longrightarrow>
     concat (map in_task (as[k := b])) = in_task b"
proof (induction as arbitrary: k)
  case (Cons a as)
  show ?case
  proof (cases k)
    case 0
    with Cons.prems have "list_all (\<lambda>a. a = Returned) as" by (simp add: filter_empty_conv list_all_iff)
    with 0 show ?thesis by (simp add: none_in_task)
  next
    case (Suc j)
    with Cons.prems have "as ! j \<in> set as" "as ! j \<noteq> Returned" by simp_all
    then have "filter (\<lambda>a. a \<noteq> Returned) as \<noteq> []" by (auto simp: filter_empty_conv)
    with Cons.prems(1) have "a = Returned" "length (filter (\<lambda>a. a \<noteq> Returned) as) \<le> 1"
      by (auto split: if_splits)
    with Suc Cons show ?thesis by simp
  qed
qed simp

text \<open>At most one activation has not returned, so what it does decides which task runs.\<close>

lemma current_after:
  assumes "strand_inv s" and "k < length (activations s)" and "activations s ! k \<noteq> Returned"
  shows "concat (map in_task ((activations s)[k := b])) = in_task b" and "current s = in_task (activations s ! k)"
proof -
  have "length (filter (\<lambda>a. a \<noteq> Returned) (activations s)) \<le> 1"
    using assms(1) by (auto simp: strand_inv_def unreturned_def split: if_splits)
  note only = only_in_task [OF this assms(2,3)]
  show "concat (map in_task ((activations s)[k := b])) = in_task b" by (rule only)
  show "current s = in_task (activations s ! k)" using only [of "activations s ! k"] by (simp add: current_def)
qed

lemma ended_step:
  assumes ex: "strand_job_exec body a s = Some s'" and inv: "strand_inv (fst s)" and en: "ended body ts s"
  shows "\<exists>ts'. ended body ts' s'"
proof -
  obtain q x where s: "s = (q, x)" by (cases s)
  from ex obtain q' where q': "texec a q = Some q'" and s': "s' = (q', drain_outputs body a q x)"
    by (auto simp: strand_job_exec_def s)
  have inv: "strand_inv q" using inv by (simp add: s)
  have same: ?thesis if "began q' = began q" "current q' = current q" "drain_outputs body a q x = x"
    using en that unfolding ended_def s s' by (intro exI [of _ ts]) simp
  show ?thesis
  proof (cases a)
    case (SEnqueue c t)
    with q' show ?thesis by (intro same) (auto simp: Let_def current_def split: if_splits)
  next
    case (SPost c)
    with q' show ?thesis by (intro same) (auto simp: current_def split: if_splits)
  next
    case (SRun k)
    with q' have k: "k < length (activations q)" "activations q ! k = Pending"
      "q' = q\<lparr>activations := (activations q)[k := AtTop]\<rparr>" by (auto split: if_splits)
    have "current q' = []" "current q = []"
      using current_after(1) [OF inv k(1), of AtTop] current_after(2) [OF inv k(1)] k(2) by (simp_all add: k(3) current_def)
    with k(3) show ?thesis using SRun by (intro same) simp_all
  next
    case (SNext k)
    with q' have k: "k < length (activations q)" "activations q ! k = AtTop" by (auto split: if_splits)
    note cur = current_after(1) [OF inv k(1)] current_after(2) [OF inv k(1)]
    show ?thesis
    proof (cases "squeue q")
      case Nil
      with SNext q' k have q2: "q' = q\<lparr>srunning := False, activations := (activations q)[k := Returned]\<rparr>" by simp
      have "current q' = []" "current q = []" using cur(1) [of Returned] cur(2) k by (simp_all add: q2 current_def)
      with q2 show ?thesis using SNext by (intro same) simp_all
    next
      case (Cons t qs)
      with SNext q' k have q2: "q' = q\<lparr>squeue := qs, began := began q @ [t], activations := (activations q)[k := InTask t]\<rparr>"
        by simp
      have "current q' = [t]" "current q = []" using cur(1) [of "InTask t"] cur(2) k by (simp_all add: q2 current_def)
      with en show ?thesis unfolding s s' by (intro exI [of _ ts]) (simp add: ended_def q2 SNext)
    qed
  next
    case (SFinish k)
    with q' obtain t where k: "k < length (activations q)" "activations q ! k = InTask t"
      "q' = q\<lparr>activations := (activations q)[k := AtTop]\<rparr>" by (auto split: if_splits activation.splits)
    have "current q' = []" "current q = [t]"
      using current_after(1) [OF inv k(1), of AtTop] current_after(2) [OF inv k(1)] k(2) by (simp_all add: k(3) current_def)
    with en show ?thesis unfolding s s' SFinish
      by (intro exI [of _ "ts @ [t]"]) (auto simp: ended_def k split: option.splits)
  qed
qed

lemma strand_job_strand: "strand_job_exec body a s = Some s' \<Longrightarrow> texec a (fst s) = Some (fst s')"
  by (auto simp: strand_job_exec_def)

lemma strand_job_run: "map_option fst (run_acts (strand_job_exec body) as s) = run_acts texec as (fst s)"
proof (induction as arbitrary: s)
  case (Cons a as)
  show ?case
  proof (cases "texec a (fst s)")
    case None
    then show ?thesis by (simp add: strand_job_exec_def)
  next
    case (Some q)
    then have "strand_job_exec body a s = Some (q, drain_outputs body a (fst s) (snd s))" by (simp add: strand_job_exec_def)
    with Some Cons.IH show ?thesis by simp
  qed
qed simp

interpretation sj: invariant_system "\<lambda>s. s = (strand_init, no_outputs)" "acts_step (strand_job_exec body)"
    "\<lambda>s. strand_inv (fst s) \<and> (\<exists>ts. ended body ts s)" for body
proof unfold_locales
  show "s = (strand_init, no_outputs) \<Longrightarrow> strand_inv (fst s) \<and> (\<exists>ts. ended body ts s)" for s
    using strand_inv_init by (auto simp: ended_def current_def no_outputs_def strand_init_def intro!: exI [of _ "[]"])
  show "acts_step (strand_job_exec body) s t \<Longrightarrow> strand_inv (fst s) \<and> (\<exists>ts. ended body ts s) \<Longrightarrow>
      strand_inv (fst t) \<and> (\<exists>ts. ended body ts t)" for s t
    unfolding acts_step_def using strand_job_strand strand_inv_step ended_step by metis
qed

section \<open>Properties\<close>

text \<open>
  C28. A strand gives its results in order. Whatever its tasks do and however they are scheduled, the strand takes the same
  steps as if none threw; the tasks submitted are those that have ended, then the one that runs, then those in the queue; exactly
  those that have ended have their future ready, with the value or exception of the task; the lines on standard error are those
  of the detached tasks that threw, in the order of submission; and when no activation is left or about to be posted, every task has ended.
\<close>

theorem strand_results_in_order:
  assumes "run_acts (strand_job_exec body) as (strand_init, no_outputs) = Some (s, x)"
  shows "run_acts texec as strand_init = Some s
    \<and> (\<exists>ts. strand_submitted s = ts @ current s @ squeue s
         \<and> (\<forall>t. futures x t = (if t \<in> set ts then result_of (body t) else None))
         \<and> err_lines x = concat (map (\<lambda>t. strand_escapes (body t)) ts)
         \<and> (posting s = [] \<and> unreturned s = [] \<longrightarrow> ts = strand_submitted s))"
proof -
  from sj.reachable_inv [OF refl run_acts_steps [OF assms]]
  obtain ts where inv: "strand_inv s" and en: "ended body ts (s, x)" by auto
  have "current s = []" if "unreturned s = []"
    using that by (simp add: current_def unreturned_def filter_empty_conv none_in_task list_all_iff)
  moreover have "squeue s = []" if "posting s = []" "unreturned s = []"
    using inv that by (auto simp: strand_inv_def split: if_splits)
  moreover have "strand_submitted s = ts @ current s @ squeue s"
    using inv en by (simp add: strand_inv_def ended_def)
  ultimately have "\<exists>ts. strand_submitted s = ts @ current s @ squeue s
         \<and> (\<forall>t. futures x t = (if t \<in> set ts then result_of (body t) else None))
         \<and> err_lines x = concat (map (\<lambda>t. strand_escapes (body t)) ts)
         \<and> (posting s = [] \<and> unreturned s = [] \<longrightarrow> ts = strand_submitted s)"
    using en by (intro exI [of _ ts]) (auto simp: ended_def)
  with strand_job_run [of body as "(strand_init, no_outputs)"] assms show ?thesis by simp
qed

definition strand_bodies :: "nat \<Rightarrow> nat job" where
  "strand_bodies t =
     (if t = 10 then PostDetached (Inl OtherException) else if t = 20 then Submit (Inl (StdException ''bad''))
      else Submit (Inr 7))"

text \<open>The run of Strand, to its end.\<close>

lemma strand_results_in_order_witness:
  "\<exists>s x. run_acts (strand_job_exec strand_bodies) (strand_run @ [SFinish 0, SNext 0, SFinish 0, SNext 0]) (strand_init, no_outputs)
       = Some (s, x)
    \<and> futures x 10 = None \<and> futures x 20 = Some (Inl (StdException ''bad'')) \<and> futures x 30 = Some (Inr 7)
    \<and> err_lines x = [''[logger::context::strand] task threw unknown exception'']"
proof -
  have "\<exists>s x. run_acts (strand_job_exec strand_bodies) (strand_run @ [SFinish 0, SNext 0, SFinish 0, SNext 0])
        (strand_init, no_outputs) = Some (s, x)
      \<and> posting s = [] \<and> unreturned s = [] \<and> strand_submitted s = [10, 20, 30]"
    by (simp add: strand_run_def strand_init_def strand_job_exec_def Let_def unreturned_def)
  then obtain s x where r: "run_acts (strand_job_exec strand_bodies) (strand_run @ [SFinish 0, SNext 0, SFinish 0, SNext 0])
        (strand_init, no_outputs) = Some (s, x)"
    and s: "posting s = []" "unreturned s = []" "strand_submitted s = [10, 20, 30]" by blast
  from strand_results_in_order [OF r] s show ?thesis using r by (auto simp: strand_bodies_def)
qed

end
