(* ===== verification/Pool_Wakeups.thy ===== *)
theory Pool_Wakeups
  imports Pool_Drain
begin

text \<open>
  The condition variable of the pool. In Thread_Pool a worker whose predicate holds may go on, as if it looked at the queue all the
  time. Here it blocks, and goes on when \<open>notify_one\<close> or \<open>notify_all\<close> picks it, its time-out passes, or for no
  reason; \<open>Enqueue_\<close> notifies one worker after it has released \<open>mtx_\<close>, \<open>Shutdown\<close> all of them.
  Shown: the waits implement the pool of Thread_Pool, no wakeup is lost (a queued task always has somebody on the way to it who
  needs no clock), and \<open>Shutdown\<close> returns without any time-out.
\<close>

section \<open>The pool with its waits\<close>

text \<open>
  A worker in its loop: about to lock \<open>mtx_\<close> and look; blocked in \<open>wait_for\<close>; woken, by the time-out or not, and
  about to lock \<open>mtx_\<close> again.
\<close>

datatype cv_state = Checking | Blocked | Woken bool

text \<open>
  \<open>wp_owed\<close> holds the callers that have pushed a task and have still to call \<open>notify_one\<close>, \<open>wp_owed_all\<close> says that the caller in
  \<open>Shutdown\<close> has still to call \<open>notify_all\<close>.
\<close>

record wpool =
  wp_pool :: pool
  wp_wait :: "nat \<Rightarrow> cv_state"
  wp_owed :: "nat list"
  wp_owed_all :: bool

definition wpool_of :: "pool \<Rightarrow> wpool" where
  "wpool_of p = \<lparr>wp_pool = p, wp_wait = (\<lambda>_. Checking), wp_owed = [], wp_owed_all = False\<rparr>"

datatype wact =
    WEnqueue nat nat
  | WPush nat
  | WNotifyOne nat "nat option"
  | WSpawn nat
  | WShutdown nat
  | WNotifyAll nat
  | WTake nat
  | WJoin nat
  | WLook nat
  | WTimeout nat
  | WSpurious nat
  | WFinish nat

definition blocked :: "wpool \<Rightarrow> nat \<Rightarrow> bool" where
  "blocked r w \<longleftrightarrow> threads (wp_pool r) w = Looping \<and> wp_wait r w = Blocked"

definition with_pool :: "wpool \<Rightarrow> pool option \<Rightarrow> wpool option" where
  "with_pool r p = map_option (\<lambda>p. r\<lparr>wp_pool := p\<rparr>) p"

definition set_wait :: "nat \<Rightarrow> cv_state \<Rightarrow> wpool \<Rightarrow> wpool" where
  "set_wait w x r = r\<lparr>wp_wait := (wp_wait r)(w := x)\<rparr>"

text \<open>
  \<open>WLook\<close> is the code from the moment a worker has \<open>mtx_\<close>, at the beginning of \<open>wait_for\<close> or when it has been woken, up to the next
  wait or the end of the critical section: it takes a task if there is one, leaves if the pool is stopped, and otherwise blocks, unless its
  time is up.
\<close>

fun wexec :: "wact \<Rightarrow> wpool \<Rightarrow> wpool option" where
  "wexec (WEnqueue c t) r =
     (if c \<in> set (wp_owed r) then None else with_pool r (pexec (Enqueue c t) (wp_pool r)))"
| "wexec (WPush c) r =
     map_option (\<lambda>p. r\<lparr>wp_pool := p, wp_owed := (if pstopped (wp_pool r) then wp_owed r else c # wp_owed r)\<rparr>)
       (pexec (EnqLock c) (wp_pool r))"
| "wexec (WNotifyOne c pick) r =
     (if c \<notin> set (wp_owed r) then None
      else case pick of
             Some w \<Rightarrow> if blocked r w then Some (set_wait w (Woken False) (r\<lparr>wp_owed := remove1 c (wp_owed r)\<rparr>)) else None
           | None \<Rightarrow> if \<exists>w<born (wp_pool r). blocked r w then None else Some (r\<lparr>wp_owed := remove1 c (wp_owed r)\<rparr>))"
| "wexec (WSpawn c) r =
     (if c \<in> set (wp_owed r) then None else with_pool r (pexec (EnqSpawn c) (wp_pool r)))"
| "wexec (WShutdown c) r =
     (if c \<in> set (wp_owed r) then None
      else map_option (\<lambda>p. r\<lparr>wp_pool := p, wp_owed_all := (wp_owed_all r \<or> \<not> pstopped (wp_pool r))\<rparr>)
             (pexec (Shutdown c) (wp_pool r)))"
| "wexec (WNotifyAll c) r =
     (if callers (wp_pool r) c = ShutTaking \<and> wp_owed_all r
      then Some (r\<lparr>wp_wait := (\<lambda>w. if wp_wait r w = Blocked then Woken False else wp_wait r w), wp_owed_all := False\<rparr>)
      else None)"
| "wexec (WTake c) r = (if wp_owed_all r then None else with_pool r (pexec (ShutTake c) (wp_pool r)))"
| "wexec (WJoin c) r = with_pool r (pexec (ShutJoin c) (wp_pool r))"
| "wexec (WLook w) r =
     (if threads (wp_pool r) w \<noteq> Looping \<or> wp_wait r w = Blocked then None
      else if tasks (wp_pool r) \<noteq> [] then with_pool (set_wait w Checking r) (pexec (Take w) (wp_pool r))
      else if pstopped (wp_pool r) then with_pool (set_wait w Checking r) (pexec (ExitStopped w) (wp_pool r))
      else if wp_wait r w = Woken True then with_pool (set_wait w Checking r) (pexec (IdleTimeout w) (wp_pool r))
      else Some (set_wait w Blocked r))"
| "wexec (WTimeout w) r = (if blocked r w then Some (set_wait w (Woken True) r) else None)"
| "wexec (WSpurious w) r = (if blocked r w then Some (set_wait w (Woken False) r) else None)"
| "wexec (WFinish w) r = with_pool r (pexec (Finish w) (wp_pool r))"

section \<open>It implements the pool of Thread_Pool\<close>

fun wabs :: "wact \<Rightarrow> wpool \<Rightarrow> pact list" where
  "wabs (WEnqueue c t) r = [Enqueue c t]"
| "wabs (WPush c) r = [EnqLock c]"
| "wabs (WSpawn c) r = [EnqSpawn c]"
| "wabs (WShutdown c) r = [Shutdown c]"
| "wabs (WTake c) r = [ShutTake c]"
| "wabs (WJoin c) r = [ShutJoin c]"
| "wabs (WLook w) r =
     (if tasks (wp_pool r) \<noteq> [] then [Take w] else if pstopped (wp_pool r) then [ExitStopped w]
      else if wp_wait r w = Woken True then [IdleTimeout w] else [])"
| "wabs (WFinish w) r = [Finish w]"
| "wabs a r = []"

fun wabs_run :: "wact list \<Rightarrow> wpool \<Rightarrow> pact list" where
  "wabs_run [] r = []"
| "wabs_run (a # as) r = wabs a r @ (case wexec a r of None \<Rightarrow> [] | Some r' \<Rightarrow> wabs_run as r')"

lemma set_wait_simps [simp]:
  "wp_pool (set_wait w x r) = wp_pool r" "wp_wait (set_wait w x r) = (wp_wait r)(w := x)"
  "wp_owed (set_wait w x r) = wp_owed r" "wp_owed_all (set_wait w x r) = wp_owed_all r"
  by (simp_all add: set_wait_def)

lemma with_pool_Some: "with_pool r p = Some r' \<longleftrightarrow> (\<exists>q. p = Some q \<and> r' = r\<lparr>wp_pool := q\<rparr>)"
  by (auto simp: with_pool_def)

lemma wait_step_refines:
  assumes "wexec a r = Some r'"
  shows "run_acts pexec (wabs a r) (wp_pool r) = Some (wp_pool r')"
  using assms by (cases a) (auto simp: with_pool_Some simp del: pexec.simps split: if_splits option.splits)

lemma wait_run_refines:
  "run_acts wexec as r = Some r' \<Longrightarrow> run_acts pexec (wabs_run as r) (wp_pool r) = Some (wp_pool r')"
proof (induction as arbitrary: r)
  case (Cons a as)
  from Cons.prems obtain u where u: "wexec a r = Some u" "run_acts wexec as u = Some r'"
    by (auto split: option.splits)
  from wait_step_refines [OF u(1)] Cons.IH [OF u(2)] show ?case
    by (simp only: wabs_run.simps u(1) option.case run_acts_append bind.simps)
qed simp

section \<open>No wakeup is lost\<close>

definition woken :: "wpool \<Rightarrow> nat set" where
  "woken r = {w. w < born (wp_pool r) \<and> threads (wp_pool r) w = Looping \<and> (\<exists>b. wp_wait r w = Woken b)}"

text \<open>
  While a worker is blocked and the pool is not stopped, there are no more tasks queued than workers woken and notifications to come; when the
  pool has been stopped, a worker is blocked only until \<open>notify_all\<close>.
\<close>

definition winv :: "wpool \<Rightarrow> bool" where
  "winv r \<longleftrightarrow>
     pinv (wp_pool r) \<and> born_ok (wp_pool r)
     \<and> (\<forall>w. threads (wp_pool r) w \<noteq> Looping \<longrightarrow> wp_wait r w = Checking)
     \<and> (wp_owed_all r \<longrightarrow> pstopped (wp_pool r) \<and> (\<exists>c. callers (wp_pool r) c = ShutTaking))
     \<and> (\<forall>w. pstopped (wp_pool r) \<longrightarrow> blocked r w \<longrightarrow> wp_owed_all r)
     \<and> (\<forall>w. \<not> pstopped (wp_pool r) \<longrightarrow> blocked r w \<longrightarrow> length (tasks (wp_pool r)) \<le> card (woken r) + length (wp_owed r))"

lemma winvI:
  assumes "pinv (wp_pool r)" and "born_ok (wp_pool r)"
    and "\<And>w. threads (wp_pool r) w \<noteq> Looping \<Longrightarrow> wp_wait r w = Checking"
    and "wp_owed_all r \<Longrightarrow> pstopped (wp_pool r) \<and> (\<exists>c. callers (wp_pool r) c = ShutTaking)"
    and "\<And>w. pstopped (wp_pool r) \<Longrightarrow> blocked r w \<Longrightarrow> wp_owed_all r"
    and "\<And>w. \<not> pstopped (wp_pool r) \<Longrightarrow> blocked r w \<Longrightarrow> length (tasks (wp_pool r)) \<le> card (woken r) + length (wp_owed r)"
  shows "winv r"
  using assms unfolding winv_def by blast

lemma winvD:
  assumes "winv r"
  shows "pinv (wp_pool r)" and "born_ok (wp_pool r)"
    and "threads (wp_pool r) w \<noteq> Looping \<Longrightarrow> wp_wait r w = Checking"
    and "wp_owed_all r \<Longrightarrow> pstopped (wp_pool r) \<and> (\<exists>c. callers (wp_pool r) c = ShutTaking)"
    and "pstopped (wp_pool r) \<Longrightarrow> blocked r w \<Longrightarrow> wp_owed_all r"
    and "\<not> pstopped (wp_pool r) \<Longrightarrow> blocked r w \<Longrightarrow> length (tasks (wp_pool r)) \<le> card (woken r) + length (wp_owed r)"
  using assms unfolding winv_def by blast+

lemma woken_finite [simp]: "finite (woken r)"
  by (simp add: woken_def)

text \<open>What a step has to show of the workers, when it keeps the mutex's other business as it was.\<close>

lemma winv_pool_step:
  assumes inv: "winv r" and p: "pexec a (wp_pool r) = Some p"
    and st: "pstopped p = pstopped (wp_pool r)"
    and th: "\<And>w. threads p w = Looping \<longleftrightarrow> threads (wp_pool r) w = Looping \<or> wp_wait r w = Checking \<and> threads p w = Looping"
    and taking: "\<And>c. callers (wp_pool r) c = ShutTaking \<Longrightarrow> wp_owed_all r \<Longrightarrow> callers p c = ShutTaking"
    and count: "length (tasks p) \<le> length (tasks (wp_pool r))"
    and br: "born (wp_pool r) \<le> born p"
  shows "winv (r\<lparr>wp_pool := p\<rparr>)"
proof (rule winvI)
  let ?r = "r\<lparr>wp_pool := p\<rparr>"
  show "pinv (wp_pool ?r)" "born_ok (wp_pool ?r)"
    using pool_pinv [OF p winvD(1) [OF inv]] born_step [OF p winvD(2) [OF inv]] by simp_all
  show "wp_wait ?r w = Checking" if "threads (wp_pool ?r) w \<noteq> Looping" for w
    using that th [of w] winvD(3) [OF inv, of w] by auto
  show "pstopped (wp_pool ?r) \<and> (\<exists>c. callers (wp_pool ?r) c = ShutTaking)" if "wp_owed_all ?r"
    using winvD(4) [OF inv] that taking st by auto
  have b: "blocked r w" if "blocked ?r w" for w using that th [of w] by (auto simp: blocked_def)
  show "wp_owed_all ?r" if "pstopped (wp_pool ?r)" "blocked ?r w" for w
    using winvD(5) [OF inv, of w] that b st by simp
  have "woken r \<subseteq> woken ?r" using br th by (auto simp: woken_def)
  then have "card (woken r) \<le> card (woken ?r)" by (intro card_mono) simp_all
  then show "length (tasks (wp_pool ?r)) \<le> card (woken ?r) + length (wp_owed ?r)"
    if "\<not> pstopped (wp_pool ?r)" "blocked ?r w" for w
    using winvD(6) [OF inv, of w] that b st count by simp
qed

text \<open>A worker is woken: it counts from now on, against one notification at most.\<close>

lemma winv_wake:
  assumes inv: "winv r" and w: "blocked r w" and owed: "length (wp_owed r) \<le> length ow + 1"
  shows "winv (set_wait w (Woken b) (r\<lparr>wp_owed := ow\<rparr>))"
proof (rule winvI)
  let ?r = "set_wait w (Woken b) (r\<lparr>wp_owed := ow\<rparr>)"
  have lw: "threads (wp_pool r) w = Looping" "wp_wait r w = Blocked" using w by (simp_all add: blocked_def)
  then have "w < born (wp_pool r)" using winvD(2) [OF inv] by (simp add: born_ok_def)
  with lw have "woken ?r = insert w (woken r)" "w \<notin> woken r" by (auto simp: woken_def)
  then have card: "card (woken ?r) = card (woken r) + 1" by simp
  have b: "blocked r v" if "blocked ?r v" for v using that by (auto simp: blocked_def split: if_splits)
  show "pinv (wp_pool ?r)" "born_ok (wp_pool ?r)" using winvD(1,2) [OF inv] by simp_all
  show "wp_wait ?r v = Checking" if "threads (wp_pool ?r) v \<noteq> Looping" for v
    using that winvD(3) [OF inv, of v] lw(1) by auto
  show "pstopped (wp_pool ?r) \<and> (\<exists>c. callers (wp_pool ?r) c = ShutTaking)" if "wp_owed_all ?r"
    using winvD(4) [OF inv] that by simp
  show "wp_owed_all ?r" if "pstopped (wp_pool ?r)" "blocked ?r v" for v
    using winvD(5) [OF inv, of v] that b by simp
  show "length (tasks (wp_pool ?r)) \<le> card (woken ?r) + length (wp_owed ?r)"
    if "\<not> pstopped (wp_pool ?r)" "blocked ?r v" for v
    using winvD(6) [OF inv, of v] that b card owed by simp
qed

text \<open>A worker that has \<open>mtx_\<close> looks at the queue.\<close>

lemma winv_look:
  assumes inv: "winv r" and ex: "wexec (WLook w) r = Some r'"
  shows "winv r'"
proof -
  let ?p = "wp_pool r" and ?s = "set_wait w Checking r"
  have w: "threads ?p w = Looping" "wp_wait r w \<noteq> Blocked" using ex by (simp_all split: if_splits)
  have bl: "blocked ?s v \<longleftrightarrow> blocked r v" for v using w by (auto simp: blocked_def)
  show ?thesis
  proof (cases "tasks ?p = [] \<and> \<not> pstopped ?p \<and> wp_wait r w \<noteq> Woken True")
    case True
    then have r': "r' = set_wait w Blocked r" using ex w by simp
    show ?thesis
    proof (rule winvI)
      show "pinv (wp_pool r')" "born_ok (wp_pool r')" using winvD(1,2) [OF inv] by (simp_all add: r')
      show "wp_wait r' v = Checking" if "threads (wp_pool r') v \<noteq> Looping" for v
        using that winvD(3) [OF inv, of v] w by (auto simp: r')
      show "pstopped (wp_pool r') \<and> (\<exists>c. callers (wp_pool r') c = ShutTaking)" if "wp_owed_all r'"
        using winvD(4) [OF inv] that by (simp add: r')
    qed (use True in \<open>simp_all add: r'\<close>)
  next
    case False
    then obtain a p where a: "a \<in> {Take w, ExitStopped w, IdleTimeout w}" "pexec a ?p = Some p" "r' = ?s\<lparr>wp_pool := p\<rparr>"
      using ex w by (auto simp: with_pool_Some simp del: pexec.simps split: if_splits)
    then have p: "pstopped p = pstopped ?p" "callers p = callers ?p" "born p = born ?p"
      "\<And>v. threads p v = Looping \<Longrightarrow> threads ?p v = Looping"
      "\<And>v. v \<noteq> w \<Longrightarrow> threads p v = threads ?p v" "length (tasks p) \<le> length (tasks ?p) - 1"
      by (auto split: if_splits worker.splits list.splits)
    have "woken r - {w} \<subseteq> woken r'" using a(3) p(3,5) by (auto simp: woken_def)
    then have "card (woken r - {w}) \<le> card (woken r')" by (intro card_mono) simp_all
    moreover have "card (woken r) \<le> card (woken r - {w}) + 1" by (auto simp: card_Diff_singleton_if)
    ultimately have card: "card (woken r) \<le> card (woken r') + 1" by simp
    have b: "blocked r v" if "blocked r' v" for v using that p(4) a(3) by (auto simp: blocked_def split: if_splits)
    show ?thesis
    proof (rule winvI)
      show "pinv (wp_pool r')" "born_ok (wp_pool r')"
        using pool_pinv [OF a(2) winvD(1) [OF inv]] born_step [OF a(2) winvD(2) [OF inv]] a(3) by simp_all
      show "wp_wait r' v = Checking" if "threads (wp_pool r') v \<noteq> Looping" for v
        using that winvD(3) [OF inv, of v] p(5) [of v] a(3) by auto
      show "pstopped (wp_pool r') \<and> (\<exists>c. callers (wp_pool r') c = ShutTaking)" if "wp_owed_all r'"
        using winvD(4) [OF inv] that p(1,2) a(3) by simp
      show "wp_owed_all r'" if "pstopped (wp_pool r')" "blocked r' v" for v
        using winvD(5) [OF inv, of v] that b p(1) a(3) by simp
      show "length (tasks (wp_pool r')) \<le> card (woken r') + length (wp_owed r')"
        if "\<not> pstopped (wp_pool r')" "blocked r' v" for v
        using winvD(6) [OF inv, of v] that b p(1,6) a(3) card by simp
    qed
  qed
qed

text \<open>A task is pushed, with a notification to come.\<close>

lemma winv_push:
  assumes inv: "winv r" and ex: "wexec (WPush c) r = Some r'"
  shows "winv r'"
proof (cases "pstopped (wp_pool r)")
  case True
  with ex obtain p where p: "pexec (EnqLock c) (wp_pool r) = Some p" "r' = r\<lparr>wp_pool := p\<rparr>" by auto
  show ?thesis unfolding p(2)
    by (rule winv_pool_step [OF inv p(1)]) (use p(1) True in \<open>auto split: caller.splits\<close>)
next
  case False
  with ex obtain p where p: "pexec (EnqLock c) (wp_pool r) = Some p" "r' = r\<lparr>wp_pool := p, wp_owed := c # wp_owed r\<rparr>"
    by auto
  then have q: "\<not> pstopped p" "threads p = threads (wp_pool r)" "born p = born (wp_pool r)"
    "length (tasks p) = length (tasks (wp_pool r)) + 1"
    using False by (auto simp: Let_def split: caller.splits)
  have b: "blocked r' w = blocked r w" "woken r' = woken r" for w using p(2) q by (simp_all add: blocked_def woken_def)
  show ?thesis
  proof (rule winvI)
    show "pinv (wp_pool r')" "born_ok (wp_pool r')"
      using pool_pinv [OF p(1) winvD(1) [OF inv]] born_step [OF p(1) winvD(2) [OF inv]] p(2) by simp_all
    show "wp_wait r' w = Checking" if "threads (wp_pool r') w \<noteq> Looping" for w
      using that winvD(3) [OF inv, of w] p(2) q by simp
    show "length (tasks (wp_pool r')) \<le> card (woken r') + length (wp_owed r')" if "blocked r' w" for w
      using winvD(6) [OF inv False, of w] that b p(2) q(4) by simp
  qed (use False q(1) p(2) winvD(4) [OF inv] in auto)
qed

lemma winv_shutdown:
  assumes inv: "winv r" and ex: "wexec (WShutdown c) r = Some r'"
  shows "winv r'"
proof (cases "pstopped (wp_pool r)")
  case True
  with ex obtain p where p: "pexec (Shutdown c) (wp_pool r) = Some p" "r' = r\<lparr>wp_pool := p\<rparr>" by (auto split: if_splits)
  show ?thesis unfolding p(2)
    by (rule winv_pool_step [OF inv p(1)]) (use p(1) True in \<open>auto simp: idle_caller_def split: if_splits\<close>)
next
  case False
  with ex obtain p where p: "pexec (Shutdown c) (wp_pool r) = Some p" "r' = r\<lparr>wp_pool := p, wp_owed_all := True\<rparr>"
    by (auto split: if_splits)
  then have q: "pstopped p" "callers p c = ShutTaking" "threads p = threads (wp_pool r)"
    using False by (auto split: if_splits)
  show ?thesis
  proof (rule winvI)
    show "pinv (wp_pool r')" "born_ok (wp_pool r')"
      using pool_pinv [OF p(1) winvD(1) [OF inv]] born_step [OF p(1) winvD(2) [OF inv]] p(2) by simp_all
    show "wp_wait r' w = Checking" if "threads (wp_pool r') w \<noteq> Looping" for w
      using that winvD(3) [OF inv, of w] p(2) q(3) by simp
  qed (use q p(2) in auto)
qed

lemma winv_notify_all:
  assumes inv: "winv r" and ex: "wexec (WNotifyAll c) r = Some r'"
  shows "winv r'"
proof -
  have st: "pstopped (wp_pool r)" using ex winvD(4) [OF inv] by (simp split: if_splits)
  have r': "r' = r\<lparr>wp_wait := (\<lambda>w. if wp_wait r w = Blocked then Woken False else wp_wait r w), wp_owed_all := False\<rparr>"
    using ex by (simp split: if_splits)
  show ?thesis
    by (rule winvI) (use winvD(1-3) [OF inv] st in \<open>auto simp: r' blocked_def split: if_splits\<close>)
qed

lemma winv_step:
  assumes ex: "wexec a r = Some r'" and inv: "winv r"
  shows "winv r'"
proof (cases a)
  case (WEnqueue c t)
  with ex obtain p where p: "pexec (Enqueue c t) (wp_pool r) = Some p" "r' = r\<lparr>wp_pool := p\<rparr>"
    by (auto simp: with_pool_Some simp del: pexec.simps split: if_splits)
  show ?thesis unfolding p(2)
    by (rule winv_pool_step [OF inv p(1)]) (use p(1) in \<open>auto simp: idle_caller_def split: if_splits\<close>)
next
  case (WPush c)
  with ex winv_push [OF inv] show ?thesis by blast
next
  case (WNotifyOne c pick)
  show ?thesis
  proof (cases pick)
    case (Some w)
    with WNotifyOne ex have "blocked r w" "c \<in> set (wp_owed r)"
      "r' = set_wait w (Woken False) (r\<lparr>wp_owed := remove1 c (wp_owed r)\<rparr>)" by (simp_all split: if_splits)
    then show ?thesis using winv_wake [OF inv, of w "remove1 c (wp_owed r)" False] by (simp add: length_remove1)
  next
    case None
    with WNotifyOne ex have no: "\<not> (\<exists>w<born (wp_pool r). blocked r w)" and r': "r' = r\<lparr>wp_owed := remove1 c (wp_owed r)\<rparr>"
      by (simp_all split: if_splits)
    have "\<not> blocked r w" for w using no winvD(2) [OF inv] by (auto simp: blocked_def born_ok_def)
    then have "\<not> blocked r' w" for w by (simp add: r' blocked_def)
    then show ?thesis by (intro winvI) (use winvD(1-4) [OF inv] in \<open>simp_all add: r'\<close>)
  qed
next
  case (WSpawn c)
  with ex obtain p where p: "pexec (EnqSpawn c) (wp_pool r) = Some p" "r' = r\<lparr>wp_pool := p\<rparr>"
    by (auto simp: with_pool_Some simp del: pexec.simps split: if_splits)
  have "threads (wp_pool r) (born (wp_pool r)) = Unborn" using winvD(1) [OF inv] by (simp add: pinv_def shape_ok_def)
  then have "wp_wait r (born (wp_pool r)) = Checking" using winvD(3) [OF inv] by simp
  then show ?thesis unfolding p(2)
    by (intro winv_pool_step [OF inv p(1)]) (use p(1) in \<open>auto split: if_splits\<close>)
next
  case (WShutdown c)
  with ex winv_shutdown [OF inv] show ?thesis by blast
next
  case (WNotifyAll c)
  with ex winv_notify_all [OF inv] show ?thesis by blast
next
  case (WTake c)
  with ex obtain p where p: "pexec (ShutTake c) (wp_pool r) = Some p" "r' = r\<lparr>wp_pool := p\<rparr>" "\<not> wp_owed_all r"
    by (auto simp: with_pool_Some simp del: pexec.simps split: if_splits)
  show ?thesis unfolding p(2)
    by (rule winv_pool_step [OF inv p(1)]) (use p in \<open>auto split: if_splits\<close>)
next
  case (WJoin c)
  with ex obtain p where p: "pexec (ShutJoin c) (wp_pool r) = Some p" "r' = r\<lparr>wp_pool := p\<rparr>"
    by (auto simp: with_pool_Some simp del: pexec.simps)
  show ?thesis unfolding p(2)
    by (rule winv_pool_step [OF inv p(1)]) (use p(1) in \<open>auto split: if_splits caller.splits\<close>)
next
  case (WLook w)
  with ex winv_look [OF inv] show ?thesis by blast
next
  case (WTimeout w)
  with ex winv_wake [OF inv, of w "wp_owed r" True] show ?thesis by (simp split: if_splits)
next
  case (WSpurious w)
  with ex winv_wake [OF inv, of w "wp_owed r" False] show ?thesis by (simp split: if_splits)
next
  case (WFinish w)
  with ex obtain p where p: "pexec (Finish w) (wp_pool r) = Some p" "r' = r\<lparr>wp_pool := p\<rparr>"
    by (auto simp: with_pool_Some simp del: pexec.simps)
  then obtain t where "threads (wp_pool r) w = Running t" by (auto split: worker.splits)
  then have "wp_wait r w = Checking" using winvD(3) [OF inv, of w] by simp
  then show ?thesis unfolding p(2)
    by (intro winv_pool_step [OF inv p(1)]) (use p(1) in \<open>auto split: worker.splits if_splits\<close>)
qed

lemma winv_start: "winv (wpool_of (ThreadPool c))"
  by (rule winvI) (simp_all add: wpool_of_def pinv_start born_start blocked_def)

interpretation wk: invariant_system "\<lambda>r. \<exists>c. r = wpool_of (ThreadPool c)" "acts_step wexec" winv
  by unfold_locales (auto simp: acts_step_def winv_start simp del: wexec.simps intro: winv_step)

lemma wait_run_inv: "run_acts wexec as (wpool_of (ThreadPool c)) = Some r \<Longrightarrow> winv r"
  by (rule wk.reachable_inv [OF exI [of _ c, OF refl]]) (rule run_acts_steps)

section \<open>Shutdown needs no time-out\<close>

fun by_chance :: "wact \<Rightarrow> bool" where
  "by_chance (WTimeout w) = True"
| "by_chance (WSpurious w) = True"
| "by_chance a = False"

definition wait_work :: "nat \<Rightarrow> wpool \<Rightarrow> nat" where
  "wait_work d r = pool_work d (wp_pool r) + (if wp_owed_all r then 1 else 0)"

lemma wait_moves:
  assumes inv: "winv r" and d: "in_shutdown (callers (wp_pool r) d)"
  shows "\<exists>a r'. \<not> by_chance a \<and> wexec a r = Some r' \<and> wait_work d r' < wait_work d r
    \<and> (in_shutdown (callers (wp_pool r') d) \<or> callers (wp_pool r') d = ShutDone)"
proof (cases "wp_owed_all r")
  case True
  then obtain c where c: "callers (wp_pool r) c = ShutTaking" using winvD(4) [OF inv] by blast
  show ?thesis
    by (rule exI [of _ "WNotifyAll c"]) (use c True d in \<open>simp add: wait_work_def\<close>)
next
  case False
  let ?p = "wp_pool r"
  have st: "pstopped ?p" using winvD(1) [OF inv] d by (auto simp: pinv_def shut_ok_def in_shutdown_def)
  have look: "wp_wait r w \<noteq> Blocked" if "threads ?p w = Looping" for w
    using winvD(5) [OF inv st, of w] that False by (auto simp: blocked_def)
  obtain a p' where a: "draining d a" "pexec a ?p = Some p'" "pool_work d p' < pool_work d ?p"
    "in_shutdown (callers p' d) \<or> callers p' d = ShutDone" using pool_moves [OF winvD(1,2) [OF inv] d] by blast
  have "\<exists>b r'. \<not> by_chance b \<and> wexec b r = Some r' \<and> wp_pool r' = p' \<and> \<not> wp_owed_all r'"
  proof (cases a)
    case (Take w)
    then have "threads ?p w = Looping" "tasks ?p \<noteq> []" using a(2) by (auto split: worker.splits list.splits)
    then show ?thesis using look [of w] a(2) Take False
      by (intro exI [of _ "WLook w"] exI [of _ "set_wait w Checking r\<lparr>wp_pool := p'\<rparr>"])
        (simp add: with_pool_Some del: pexec.simps)
  next
    case (ExitStopped w)
    then have "threads ?p w = Looping" "tasks ?p = []" using a(2) by (auto split: if_splits)
    then show ?thesis using look [of w] a(2) ExitStopped False st
      by (intro exI [of _ "WLook w"] exI [of _ "set_wait w Checking r\<lparr>wp_pool := p'\<rparr>"])
        (simp add: with_pool_Some del: pexec.simps)
  next
    case (Finish w)
    with a(2) False show ?thesis
      by (intro exI [of _ "WFinish w"] exI [of _ "r\<lparr>wp_pool := p'\<rparr>"]) (simp add: with_pool_Some del: pexec.simps)
  next
    case (ShutTake c)
    with a(2) False show ?thesis
      by (intro exI [of _ "WTake c"] exI [of _ "r\<lparr>wp_pool := p'\<rparr>"]) (simp add: with_pool_Some del: pexec.simps)
  next
    case (ShutJoin c)
    with a(2) False show ?thesis
      by (intro exI [of _ "WJoin c"] exI [of _ "r\<lparr>wp_pool := p'\<rparr>"]) (simp add: with_pool_Some del: pexec.simps)
  qed (use a(1) in simp_all)
  then obtain b r' where "\<not> by_chance b" "wexec b r = Some r'" "wp_pool r' = p'" "\<not> wp_owed_all r'" by blast
  with a(3,4) False show ?thesis by (intro exI [of _ b] exI [of _ r']) (simp add: wait_work_def)
qed

lemma wait_shutdown_ends:
  "winv r \<Longrightarrow> in_shutdown (callers (wp_pool r) d) \<Longrightarrow>
     \<exists>as r'. run_acts wexec as r = Some r' \<and> \<not> list_ex by_chance as \<and> length as \<le> wait_work d r
       \<and> callers (wp_pool r') d = ShutDone"
proof (induction "wait_work d r" arbitrary: r rule: less_induct)
  case less
  obtain a u where a: "\<not> by_chance a" "wexec a r = Some u" "wait_work d u < wait_work d r"
    "in_shutdown (callers (wp_pool u) d) \<or> callers (wp_pool u) d = ShutDone" using wait_moves [OF less.prems] by blast
  show ?case
  proof (cases "callers (wp_pool u) d = ShutDone")
    case True
    with a show ?thesis by (intro exI [of _ "[a]"] exI [of _ u]) simp
  next
    case False
    with a(4) have "in_shutdown (callers (wp_pool u) d)" by simp
    from less.hyps [OF a(3) winv_step [OF a(2) less.prems(1)] this] obtain as r' where
      "run_acts wexec as u = Some r'" "\<not> list_ex by_chance as" "length as \<le> wait_work d u"
      "callers (wp_pool r') d = ShutDone" by blast
    with a show ?thesis by (intro exI [of _ "a # as"] exI [of _ r']) simp
  qed
qed

section \<open>Properties\<close>

text \<open>Somebody is on the way to the queue: a notification to come, or a worker that is busy or about to look.\<close>

definition on_the_way :: "wpool \<Rightarrow> bool" where
  "on_the_way r \<longleftrightarrow>
     wp_owed r \<noteq> [] \<or> wp_owed_all r
     \<or> (\<exists>w<born (wp_pool r). (\<exists>t. threads (wp_pool r) w = Running t) \<or> threads (wp_pool r) w = Looping \<and> wp_wait r w \<noteq> Blocked)"

lemma on_the_way_ok:
  assumes inv: "winv r" and t: "tasks (wp_pool r) \<noteq> []"
  shows "on_the_way r"
proof (rule ccontr)
  assume no: "\<not> on_the_way r"
  let ?p = "wp_pool r"
  have p: "pinv ?p" by (rule winvD(1) [OF inv])
  have "live ?p \<noteq> {}"
  proof (cases "pstopped ?p")
    case True
    with p t show ?thesis by (simp add: pinv_def shape_ok_def)
  next
    case False
    then have "worker_count ?p = card (live ?p)" "1 \<le> worker_count ?p" using p by (auto simp: pinv_def shape_ok_def)
    then show ?thesis by auto
  qed
  then obtain w where w: "w < born ?p" "threads ?p w \<noteq> Exited" by (auto simp: live_def)
  have "threads ?p w \<noteq> Unborn" using p w(1) by (auto simp: pinv_def shape_ok_def)
  with w no have bw: "blocked r w" by (cases "threads ?p w") (auto simp: on_the_way_def blocked_def)
  have "woken r = {}" using no by (auto simp: on_the_way_def woken_def)
  with no winvD(5,6) [OF inv _ bw] t show False by (cases "pstopped ?p") (auto simp: on_the_way_def)
qed

text \<open>
  C13. No wakeup of the pool is lost. In every run with real waits, in which \<open>notify_one\<close> may pick any blocked worker or find none,
  time-outs and spurious wakeups come at any moment, and new tasks, workers and a shutdown come in between: the pool is
  one that the pool of Thread_Pool reaches by the steps behind the schedule; while a task is queued, somebody who does not wait for the clock
  is on the way to it; and from any moment at which a thread is inside \<open>Shutdown\<close>, it can be brought to its end without one time-out or
  spurious wakeup.
\<close>

theorem pool_wakeups_not_lost:
  assumes "run_acts wexec as (wpool_of (ThreadPool c)) = Some r"
  shows "run_acts pexec (wabs_run as (wpool_of (ThreadPool c))) (ThreadPool c) = Some (wp_pool r)
    \<and> (tasks (wp_pool r) \<noteq> [] \<longrightarrow> on_the_way r)
    \<and> (\<forall>d. in_shutdown (callers (wp_pool r) d) \<longrightarrow>
         (\<exists>bs r'. run_acts wexec bs r = Some r' \<and> \<not> list_ex by_chance bs \<and> length bs \<le> wait_work d r
            \<and> callers (wp_pool r') d = ShutDone))"
proof -
  have inv: "winv r" by (rule wait_run_inv [OF assms])
  have "run_acts pexec (wabs_run as (wpool_of (ThreadPool c))) (ThreadPool c) = Some (wp_pool r)"
    using wait_run_refines [OF assms] by (simp add: wpool_of_def)
  with on_the_way_ok [OF inv] wait_shutdown_ends [OF inv] show ?thesis by blast
qed

text \<open>The one worker blocks; two tasks are pushed before the first notification arrives; a shutdown follows.\<close>

definition wait_run :: "wact list" where
  "wait_run =
     [WLook 0, WEnqueue 9 100, WPush 9, WEnqueue 8 101, WPush 8, WNotifyOne 8 (Some 0), WNotifyOne 9 None, WLook 0,
      WFinish 0, WSpawn 8, WShutdown 7]"

lemma pool_wakeups_not_lost_witness:
  "\<exists>r. run_acts wexec wait_run (wpool_of (ThreadPool small_pool)) = Some r \<and> tasks (wp_pool r) = [101] \<and> on_the_way r
     \<and> (\<exists>bs r'. run_acts wexec bs r = Some r' \<and> \<not> list_ex by_chance bs \<and> callers (wp_pool r') 7 = ShutDone)"
proof -
  define r where "r = the (run_acts wexec wait_run (wpool_of (ThreadPool small_pool)))"
  have run: "run_acts wexec wait_run (wpool_of (ThreadPool small_pool)) = Some r \<and> tasks (wp_pool r) = [101]
      \<and> callers (wp_pool r) 7 = ShutTaking"
    unfolding r_def by (simp add: pool_eval wait_run_def wpool_of_def with_pool_def set_wait_def blocked_def)
  then have "in_shutdown (callers (wp_pool r) 7)" by (simp add: in_shutdown_def)
  with run pool_wakeups_not_lost [of wait_run small_pool r] show ?thesis by fastforce
qed

end
