(* ===== verification/Context.thy ===== *)
theory Context
  imports Thread_Pool
begin

text \<open>
  \<open>context/context.h\<close> and \<open>.cpp\<close>: the process-wide context that creates the thread pool lazily, once. Its
  operations are atomic here: \<open>cfg_mtx_\<close> guards \<open>Configure\<close>, and \<open>std::call_once\<close> runs the
  initialisation exactly once and makes every other caller wait for it (Context_Once takes that apart). \<open>Post\<close> and \<open>MakeStrand\<close> go through
  \<open>Pool\<close>.
\<close>

record ctx =
  pending_cfg :: pool_cfg
  configured :: bool
  ctx_pool :: "pool option"

definition Instance :: "nat \<Rightarrow> ctx" where
  "Instance hw = \<lparr>pending_cfg = Default hw, configured = False, ctx_pool = None\<rparr>"

definition Configure :: "pool_cfg \<Rightarrow> ctx \<Rightarrow> ctx" where
  "Configure c x = (if configured x then x else x\<lparr>pending_cfg := c\<rparr>)"

text \<open>\<open>init_flag_\<close> has fired when the pool exists.\<close>

definition EnsurePool :: "ctx \<Rightarrow> ctx" where
  "EnsurePool x =
     (case ctx_pool x of
        None \<Rightarrow> x\<lparr>configured := True, ctx_pool := Some (ThreadPool (pending_cfg x))\<rparr>
      | Some p \<Rightarrow> x)"

definition Pool :: "ctx \<Rightarrow> pool \<times> ctx" where
  "Pool x = (let x = EnsurePool x in (the (ctx_pool x), x))"

text \<open>\<open>Shutdown\<close> of a pool no thread is in the middle of calling: it stops, its workers drain and exit.\<close>

definition ContextShutdown :: "ctx \<Rightarrow> ctx" where
  "ContextShutdown x =
     (case ctx_pool x of None \<Rightarrow> x | Some p \<Rightarrow> x\<lparr>ctx_pool := Some (p\<lparr>pstopped := True\<rparr>)\<rparr>)"

datatype ctx_call = CallConfigure pool_cfg | CallPool | CallShutdown

fun ctx_run :: "ctx_call list \<Rightarrow> ctx \<Rightarrow> ctx" where
  "ctx_run [] x = x"
| "ctx_run (CallConfigure c # cs) x = ctx_run cs (Configure c x)"
| "ctx_run (CallPool # cs) x = ctx_run cs (snd (Pool x))"
| "ctx_run (CallShutdown # cs) x = ctx_run cs (ContextShutdown x)"

text \<open>The specification: the last configuration given before the pool is first asked for.\<close>

fun effective_cfg :: "pool_cfg \<Rightarrow> ctx_call list \<Rightarrow> pool_cfg option" where
  "effective_cfg d [] = None"
| "effective_cfg d (CallConfigure c # cs) = effective_cfg c cs"
| "effective_cfg d (CallPool # cs) = Some d"
| "effective_cfg d (CallShutdown # cs) = effective_cfg d cs"

lemma ctx_run_made:
  "ctx_pool x = Some p \<Longrightarrow> configured x \<Longrightarrow>
     \<exists>q. ctx_pool (ctx_run cs x) = Some q \<and> pcfg q = pcfg p"
proof (induction cs arbitrary: x p)
  case (Cons c cs)
  then show ?case
    using Cons.IH [of "x\<lparr>ctx_pool := Some (p\<lparr>pstopped := True\<rparr>)\<rparr>" "p\<lparr>pstopped := True\<rparr>"]
    by (cases c) (auto simp: Configure_def Pool_def EnsurePool_def ContextShutdown_def Let_def)
qed simp

lemma ctx_run_cfg:
  assumes "ctx_pool x = None" and "\<not> configured x"
  shows "map_option pcfg (ctx_pool (ctx_run cs x)) = map_option fix_cfg (effective_cfg (pending_cfg x) cs)"
  using assms
proof (induction cs arbitrary: x)
  case (Cons c cs)
  show ?case
  proof (cases c)
    case CallPool
    let ?y = "x\<lparr>configured := True, ctx_pool := Some (ThreadPool (pending_cfg x))\<rparr>"
    obtain q where "ctx_pool (ctx_run cs ?y) = Some q" "pcfg q = pcfg (ThreadPool (pending_cfg x))"
      using ctx_run_made [of ?y "ThreadPool (pending_cfg x)" cs] by auto
    then show ?thesis
      using CallPool Cons.prems filled by (simp add: Pool_def EnsurePool_def)
  qed (use Cons in \<open>simp_all add: Configure_def ContextShutdown_def\<close>)
qed simp

text \<open>
  The context configures its pool once: for every sequence of calls, no pool exists if \<open>Pool\<close> was never called, and
  otherwise the pool that exists was built from the last configuration given before the first such call (the default
  one when none was), normalised; later calls of \<open>Configure\<close> are ignored.
\<close>

theorem context_configures_once:
  "map_option pcfg (ctx_pool (ctx_run cs (Instance hw))) = map_option fix_cfg (effective_cfg (Default hw) cs)"
  using ctx_run_cfg [of "Instance hw" cs] by (simp add: Instance_def)

end
