(* ===== verification/Context_Once.thy ===== *)
theory Context_Once
  imports Context Pool_Drain
begin

text \<open>
  \<open>Context\<close> (context/context.cpp) used by several threads at once. In Context an operation is one step; here
  \<open>std::call_once\<close>, the critical section of \<open>cfg_mtx_\<close> inside it, the construction of the pool and the assignment of
  \<open>pool_\<close> are steps of their own, so that \<open>Configure\<close> and \<open>Shutdown\<close> may run in between; and the construction may throw,
  after which \<open>call_once\<close> lets the next caller try again.
  Shown: one pool at most is ever made, every caller gets that one, and its configuration is the last one accepted by
  \<open>Configure\<close>; and a shutdown that comes while the pool is being made is lost.
\<close>

section \<open>State\<close>

text \<open>\<open>init_flag_\<close>: not yet called, being called by a thread, done.\<close>

datatype once = OnceFresh | OnceRunning | OnceDone

text \<open>
  A thread: outside; in \<open>call_once\<close>, waiting for the thread that runs the function; running it before and after
  the critical section, in which it has copied the configuration.
\<close>

datatype once_pc = OutOfCall | AwaitOnce | InCritical | Building pool_cfg

record shared_ctx =
  sc_pending :: pool_cfg
  sc_configured :: bool
  sc_once :: once
  sc_pool :: "pool option"
  sc_pcs :: "nat \<Rightarrow> once_pc"
  sc_built :: nat

text \<open>\<open>sc_built\<close>, which no step reads, counts the pools constructed.\<close>

definition fresh_ctx :: "nat \<Rightarrow> shared_ctx" where
  "fresh_ctx hw =
     \<lparr>sc_pending = Default hw, sc_configured = False, sc_once = OnceFresh, sc_pool = None, sc_pcs = (\<lambda>_. OutOfCall),
      sc_built = 0\<rparr>"

definition set_once_pc :: "nat \<Rightarrow> once_pc \<Rightarrow> shared_ctx \<Rightarrow> shared_ctx" where
  "set_once_pc t x s = s\<lparr>sc_pcs := (sc_pcs s)(t := x)\<rparr>"

section \<open>Steps\<close>

datatype once_act =
    OnceConfigure nat pool_cfg
  | OncePool nat
  | OnceAwake nat
  | OnceCopy nat
  | OnceBuild nat bool
  | OnceShutdown nat

text \<open>
  \<open>OnceBuild\<close> carries whether the constructor of \<open>ThreadPool\<close> succeeds. \<open>Shutdown\<close> reads \<open>pool_\<close> without any
  synchronisation; what the pool's own \<open>Shutdown\<close> does is in Thread_Pool.
\<close>

fun once_exec :: "once_act \<Rightarrow> shared_ctx \<Rightarrow> shared_ctx option" where
  "once_exec (OnceConfigure t c) s =
     (if sc_pcs s t \<noteq> OutOfCall then None
      else Some (if sc_configured s then s else s\<lparr>sc_pending := c\<rparr>))"
| "once_exec (OncePool t) s =
     (if sc_pcs s t \<noteq> OutOfCall then None
      else case sc_once s of
             OnceFresh \<Rightarrow> Some (set_once_pc t InCritical (s\<lparr>sc_once := OnceRunning\<rparr>))
           | OnceRunning \<Rightarrow> Some (set_once_pc t AwaitOnce s)
           | OnceDone \<Rightarrow> Some s)"
| "once_exec (OnceAwake t) s =
     (if sc_pcs s t \<noteq> AwaitOnce then None
      else case sc_once s of
             OnceFresh \<Rightarrow> Some (set_once_pc t InCritical (s\<lparr>sc_once := OnceRunning\<rparr>))
           | OnceRunning \<Rightarrow> None
           | OnceDone \<Rightarrow> Some (set_once_pc t OutOfCall s))"
| "once_exec (OnceCopy t) s =
     (if sc_pcs s t \<noteq> InCritical then None
      else Some (set_once_pc t (Building (sc_pending s)) (s\<lparr>sc_configured := True\<rparr>)))"
| "once_exec (OnceBuild t ok) s =
     (case sc_pcs s t of
        Building c \<Rightarrow>
          Some (set_once_pc t OutOfCall
            (if ok then s\<lparr>sc_pool := Some (ThreadPool c), sc_once := OnceDone, sc_built := sc_built s + 1\<rparr>
             else s\<lparr>sc_once := OnceFresh\<rparr>))
      | _ \<Rightarrow> None)"
| "once_exec (OnceShutdown t) s =
     (if sc_pcs s t \<noteq> OutOfCall then None
      else Some (case sc_pool s of None \<Rightarrow> s | Some p \<Rightarrow> s\<lparr>sc_pool := Some (p\<lparr>pstopped := True\<rparr>)\<rparr>))"

section \<open>The invariant\<close>

definition runs_once :: "once_pc \<Rightarrow> bool" where
  "runs_once x \<longleftrightarrow> x = InCritical \<or> (\<exists>c. x = Building c)"

text \<open>
  One thread at most runs the function, and one does exactly when the flag says so; what it has copied is
  what is pending, since nothing is accepted any more; the pool exists exactly when the flag is done.
\<close>

definition once_inv :: "shared_ctx \<Rightarrow> bool" where
  "once_inv s \<longleftrightarrow>
     (sc_once s = OnceRunning \<longleftrightarrow> (\<exists>t. runs_once (sc_pcs s t)))
     \<and> (\<forall>t u. runs_once (sc_pcs s t) \<longrightarrow> runs_once (sc_pcs s u) \<longrightarrow> t = u)
     \<and> (\<forall>t c. sc_pcs s t = Building c \<longrightarrow> sc_configured s \<and> c = sc_pending s)
     \<and> (sc_once s = OnceDone \<longleftrightarrow> sc_pool s \<noteq> None)
     \<and> (\<forall>p. sc_pool s = Some p \<longrightarrow> sc_configured s \<and> pcfg p = fix_cfg (sc_pending s))
     \<and> sc_built s = (if sc_pool s = None then 0 else 1)"

lemma set_once_simps [simp]:
  "sc_pending (set_once_pc t x s) = sc_pending s" "sc_configured (set_once_pc t x s) = sc_configured s"
  "sc_once (set_once_pc t x s) = sc_once s" "sc_pool (set_once_pc t x s) = sc_pool s"
  "sc_pcs (set_once_pc t x s) = (sc_pcs s)(t := x)" "sc_built (set_once_pc t x s) = sc_built s"
  by (simp_all add: set_once_pc_def)

lemma runs_once_simps [simp]:
  "runs_once InCritical" "runs_once (Building c)" "\<not> runs_once OutOfCall" "\<not> runs_once AwaitOnce"
  by (simp_all add: runs_once_def)

lemma once_invD:
  assumes "once_inv s"
  shows "sc_once s = OnceRunning \<longleftrightarrow> (\<exists>t. runs_once (sc_pcs s t))"
    and "runs_once (sc_pcs s t) \<Longrightarrow> runs_once (sc_pcs s u) \<Longrightarrow> t = u"
    and "sc_pcs s t = Building c \<Longrightarrow> sc_configured s \<and> c = sc_pending s"
    and "sc_once s = OnceDone \<longleftrightarrow> sc_pool s \<noteq> None"
    and "sc_pool s = Some p \<Longrightarrow> sc_configured s \<and> pcfg p = fix_cfg (sc_pending s)"
    and "sc_built s = (if sc_pool s = None then 0 else 1)"
  using assms unfolding once_inv_def by blast+

lemma once_invI:
  assumes "sc_once s = OnceRunning \<longleftrightarrow> (\<exists>t. runs_once (sc_pcs s t))"
    and "\<And>t u. runs_once (sc_pcs s t) \<Longrightarrow> runs_once (sc_pcs s u) \<Longrightarrow> t = u"
    and "\<And>t c. sc_pcs s t = Building c \<Longrightarrow> sc_configured s \<and> c = sc_pending s"
    and "sc_once s = OnceDone \<longleftrightarrow> sc_pool s \<noteq> None"
    and "\<And>p. sc_pool s = Some p \<Longrightarrow> sc_configured s \<and> pcfg p = fix_cfg (sc_pending s)"
    and "sc_built s = (if sc_pool s = None then 0 else 1)"
  shows "once_inv s"
  unfolding once_inv_def using assms by blast

text \<open>A thread becomes the one that runs the function.\<close>

lemma once_enter:
  assumes "once_inv s" and "sc_once s = OnceFresh"
  shows "once_inv (set_once_pc t InCritical (s\<lparr>sc_once := OnceRunning\<rparr>))"
proof -
  have none: "\<not> runs_once (sc_pcs s u)" for u using once_invD(1) [OF assms(1)] assms(2) by auto
  have pool: "sc_pool s = None" using once_invD(4) [OF assms(1)] assms(2) by auto
  have nb: "sc_pcs s u \<noteq> Building c" for u c using none [of u] by auto
  show ?thesis
  proof (rule once_invI)
    show "v = w" if "runs_once (sc_pcs (set_once_pc t InCritical (s\<lparr>sc_once := OnceRunning\<rparr>)) v)"
      "runs_once (sc_pcs (set_once_pc t InCritical (s\<lparr>sc_once := OnceRunning\<rparr>)) w)" for v w
      using that none by (simp split: if_splits)
  qed (use nb pool once_invD(6) [OF assms(1)] in \<open>simp_all add: exI [of _ t] split: if_splits\<close>)
qed

text \<open>A thread that does not run the function moves without starting to.\<close>

lemma once_move:
  assumes "once_inv s" and "\<not> runs_once (sc_pcs s t)" and "\<not> runs_once x"
  shows "once_inv (set_once_pc t x s)"
proof -
  have same: "runs_once (((sc_pcs s)(t := x)) u) = runs_once (sc_pcs s u)" for u using assms(2,3) by auto
  have b: "sc_pcs s u = Building c" if "((sc_pcs s)(t := x)) u = Building c" for u c
    using assms(3) that by (auto split: if_splits)
  show ?thesis
  proof (rule once_invI)
    show "v = w" if "runs_once (sc_pcs (set_once_pc t x s) v)" "runs_once (sc_pcs (set_once_pc t x s) w)" for v w
      using that once_invD(2) [OF assms(1), of v w] by (simp only: set_once_simps same)
    show "sc_configured (set_once_pc t x s) \<and> c = sc_pending (set_once_pc t x s)"
      if "sc_pcs (set_once_pc t x s) u = Building c" for u c
      using that b once_invD(3) [OF assms(1), of u c] by (simp only: set_once_simps)
  qed (use once_invD(1,4,5,6) [OF assms(1)] in \<open>simp_all only: set_once_simps same\<close>)
qed

lemma once_step_inv:
  assumes "once_exec a s = Some s'" and inv: "once_inv s"
  shows "once_inv s'"
proof (cases a)
  case (OnceConfigure t c)
  show ?thesis
  proof (cases "sc_configured s")
    case True
    with assms OnceConfigure show ?thesis by (simp split: if_splits)
  next
    case False
    then have "sc_pool s = None" using once_invD(5) [OF inv] by (meson not_None_eq)
    moreover have nb: "sc_pcs s u \<noteq> Building d" for u d using once_invD(3) [OF inv] False by blast
    moreover have s': "s' = s\<lparr>sc_pending := c\<rparr>" using assms(1) OnceConfigure False by (simp split: if_splits)
    ultimately show ?thesis
      by (intro once_invI) (use once_invD(1,4,6) [OF inv] in \<open>simp_all add: once_invD(2) [OF inv]\<close>)
  qed
next
  case (OncePool t)
  then have "sc_pcs s t = OutOfCall" using assms(1) by (simp split: if_splits)
  with assms OncePool once_enter [OF inv, of t] once_move [OF inv, of t AwaitOnce] show ?thesis
    by (cases "sc_once s") simp_all
next
  case (OnceAwake t)
  then have "sc_pcs s t = AwaitOnce" using assms(1) by (simp split: if_splits)
  with assms OnceAwake once_enter [OF inv, of t] once_move [OF inv, of t OutOfCall] show ?thesis
    by (cases "sc_once s") simp_all
next
  case (OnceCopy t)
  with assms(1) have t: "sc_pcs s t = InCritical"
    and s': "s' = set_once_pc t (Building (sc_pending s)) (s\<lparr>sc_configured := True\<rparr>)" by (auto split: if_splits)
  have run: "runs_once (sc_pcs s t)" using t by simp
  then have once: "sc_once s = OnceRunning" using once_invD(1) [OF inv] by blast
  then have "sc_pool s = None" using once_invD(4) [OF inv] by auto
  moreover have "runs_once (sc_pcs s u) \<Longrightarrow> u = t" for u using once_invD(2) [OF inv _ run] .
  moreover have "sc_pcs s u \<noteq> Building c" if "u \<noteq> t" for u c using calculation(2) [of u] that by auto
  ultimately show ?thesis
    by (intro once_invI) (use once once_invD(6) [OF inv] in \<open>auto simp: s' split: if_splits\<close>)
next
  case (OnceBuild t ok)
  with assms(1) obtain c where t: "sc_pcs s t = Building c"
    and s': "s' = set_once_pc t OutOfCall (if ok then s\<lparr>sc_pool := Some (ThreadPool c), sc_once := OnceDone, sc_built := sc_built s + 1\<rparr>
             else s\<lparr>sc_once := OnceFresh\<rparr>)" by (auto split: once_pc.splits)
  have run: "runs_once (sc_pcs s t)" using t by simp
  then have "sc_once s = OnceRunning" using once_invD(1) [OF inv] by blast
  then have none: "sc_pool s = None" using once_invD(4) [OF inv] by auto
  have gone: "\<not> runs_once (((sc_pcs s)(t := OutOfCall)) u)" for u
    using once_invD(2) [OF inv _ run, of u] by auto
  then have nb: "((sc_pcs s)(t := OutOfCall)) u \<noteq> Building d" for u d by (metis runs_once_simps(2))
  have "sc_configured s" "c = sc_pending s" using once_invD(3) [OF inv t] by simp_all
  moreover have "pcfg (ThreadPool c) = fix_cfg c" using filled by blast
  ultimately show ?thesis
    by (cases ok; intro once_invI)
      (use none gone nb once_invD(6) [OF inv] in \<open>simp_all add: s' del: fun_upd_apply\<close>)
next
  case (OnceShutdown t)
  show ?thesis
  proof (cases "sc_pool s")
    case None
    with assms OnceShutdown show ?thesis by (simp split: if_splits)
  next
    case (Some p)
    with assms(1) OnceShutdown have "s' = s\<lparr>sc_pool := Some (p\<lparr>pstopped := True\<rparr>)\<rparr>" by (simp split: if_splits)
    moreover have "sc_configured s" "pcfg p = fix_cfg (sc_pending s)" using once_invD(5) [OF inv Some] by simp_all
    moreover have "sc_once s = OnceDone" "sc_built s = 1" using once_invD(4,6) [OF inv] Some by simp_all
    moreover have "\<not> runs_once (sc_pcs s u)" for u using once_invD(1) [OF inv] calculation(4) by auto
    moreover have "sc_pcs s u \<noteq> Building c" for u c using calculation(6) [of u] by auto
    ultimately show ?thesis by (intro once_invI) auto
  qed
qed

interpretation oc: invariant_system "\<lambda>s. \<exists>hw. s = fresh_ctx hw" "acts_step once_exec" once_inv
proof unfold_locales
  show "\<exists>hw. s = fresh_ctx hw \<Longrightarrow> once_inv s" for s by (auto intro!: once_invI simp: fresh_ctx_def)
  show "acts_step once_exec s t \<Longrightarrow> once_inv s \<Longrightarrow> once_inv t" for s t
    unfolding acts_step_def by (elim exE) (rule once_step_inv)
qed

lemma once_run_inv: "run_acts once_exec as (fresh_ctx hw) = Some s \<Longrightarrow> once_inv s"
  by (rule oc.reachable_inv [OF exI [of _ hw, OF refl]]) (rule run_acts_steps)

section \<open>Accepted configurations\<close>

text \<open>The last \<open>Configure\<close> of a schedule before the first copy of the configuration, if there is one; else the default.\<close>

fun accepted_cfg :: "pool_cfg \<Rightarrow> once_act list \<Rightarrow> pool_cfg" where
  "accepted_cfg d [] = d"
| "accepted_cfg d (OnceConfigure t c # as) = accepted_cfg c as"
| "accepted_cfg d (OnceCopy t # as) = d"
| "accepted_cfg d (a # as) = accepted_cfg d as"

lemma pending_frozen:
  "run_acts once_exec as s = Some s' \<Longrightarrow> sc_configured s \<Longrightarrow> sc_configured s' \<and> sc_pending s' = sc_pending s"
proof (induction as arbitrary: s)
  case (Cons a as)
  from Cons.prems(1) obtain u where u: "once_exec a s = Some u" "run_acts once_exec as u = Some s'"
    by (auto split: option.splits)
  have "sc_configured u \<and> sc_pending u = sc_pending s"
    using u(1) Cons.prems(2) by (cases a) (auto split: if_splits once.splits once_pc.splits option.splits)
  with Cons.IH [OF u(2)] show ?case by simp
qed simp

lemma pending_accepted:
  "run_acts once_exec as s = Some s' \<Longrightarrow> \<not> sc_configured s \<Longrightarrow> sc_pending s' = accepted_cfg (sc_pending s) as"
proof (induction as arbitrary: s)
  case (Cons a as)
  from Cons.prems(1) obtain u where u: "once_exec a s = Some u" "run_acts once_exec as u = Some s'"
    by (auto split: option.splits)
  show ?case
  proof (cases a)
    case (OnceConfigure t c)
    then have "u = s\<lparr>sc_pending := c\<rparr>" using u(1) Cons.prems(2) by (simp split: if_splits)
    with Cons.IH [OF u(2)] Cons.prems(2) OnceConfigure show ?thesis by simp
  next
    case (OnceCopy t)
    then have "sc_configured u" "sc_pending u = sc_pending s" using u(1) by (auto split: if_splits)
    with pending_frozen [OF u(2)] OnceCopy show ?thesis by simp
  next
    case (OncePool t)
    then have "\<not> sc_configured u" "sc_pending u = sc_pending s"
      using u(1) Cons.prems(2) by (auto split: if_splits once.splits)
    with Cons.IH [OF u(2)] OncePool show ?thesis by simp
  next
    case (OnceAwake t)
    then have "\<not> sc_configured u" "sc_pending u = sc_pending s"
      using u(1) Cons.prems(2) by (auto split: if_splits once.splits)
    with Cons.IH [OF u(2)] OnceAwake show ?thesis by simp
  next
    case (OnceBuild t ok)
    then have "\<not> sc_configured u" "sc_pending u = sc_pending s"
      using u(1) Cons.prems(2) by (auto split: once_pc.splits if_splits)
    with Cons.IH [OF u(2)] OnceBuild show ?thesis by simp
  next
    case (OnceShutdown t)
    then have "\<not> sc_configured u" "sc_pending u = sc_pending s"
      using u(1) Cons.prems(2) by (auto split: if_splits option.splits)
    with Cons.IH [OF u(2)] OnceShutdown show ?thesis by simp
  qed
qed simp

section \<open>Properties\<close>

text \<open>
  C29. The pool of the process is made once, whoever asks for it first and however the calls interleave, also when making it
  has failed before. In every run: the number of pools constructed is one if there is a pool and zero otherwise;
  the pool has the last configuration that was set before any thread copied it, normalised, and calls of
  \<open>Configure\<close> after that change nothing; when no thread is left inside, a pool exists or the next caller makes
  it; and a thread that waits in \<open>call_once\<close> goes on as soon as the one inside has finished.
\<close>

theorem pool_made_once:
  assumes "run_acts once_exec as (fresh_ctx hw) = Some s"
  shows "sc_built s = (if sc_pool s = None then 0 else 1)
    \<and> (\<forall>p. sc_pool s = Some p \<longrightarrow> pcfg p = fix_cfg (accepted_cfg (Default hw) as))
    \<and> (\<forall>t. sc_pcs s t = AwaitOnce \<longrightarrow>
         once_exec (OnceAwake t) s \<noteq> None \<or> (\<exists>u. once_exec (OnceCopy u) s \<noteq> None \<or> once_exec (OnceBuild u True) s \<noteq> None))
    \<and> (\<forall>t u. once_exec (OncePool t) s = Some u \<longrightarrow>
         sc_pcs u t = OutOfCall \<and> sc_pool u \<noteq> None \<or> sc_pcs u t = InCritical \<or> sc_pcs u t = AwaitOnce)"
proof -
  have inv: "once_inv s" by (rule once_run_inv [OF assms])
  have "\<not> sc_configured (fresh_ctx hw)" "sc_pending (fresh_ctx hw) = Default hw" by (simp_all add: fresh_ctx_def)
  with pending_accepted [OF assms] have pend: "sc_pending s = accepted_cfg (Default hw) as" by simp
  have "once_exec (OnceAwake t) s \<noteq> None \<or> (\<exists>u. once_exec (OnceCopy u) s \<noteq> None \<or> once_exec (OnceBuild u True) s \<noteq> None)"
    if "sc_pcs s t = AwaitOnce" for t
  proof (cases "sc_once s")
    case OnceRunning
    then obtain u where "runs_once (sc_pcs s u)" using once_invD(1) [OF inv] by blast
    then have "sc_pcs s u = InCritical \<or> (\<exists>c. sc_pcs s u = Building c)" by (simp add: runs_once_def)
    then have "once_exec (OnceCopy u) s \<noteq> None \<or> once_exec (OnceBuild u True) s \<noteq> None" by auto
    then show ?thesis by blast
  qed (use that in simp_all)
  moreover have "sc_pcs u t = OutOfCall \<and> sc_pool u \<noteq> None \<or> sc_pcs u t = InCritical \<or> sc_pcs u t = AwaitOnce"
    if "once_exec (OncePool t) s = Some u" for t u
    using that once_invD(4) [OF inv] by (auto split: if_splits once.splits)
  moreover have "\<forall>p. sc_pool s = Some p \<longrightarrow> pcfg p = fix_cfg (accepted_cfg (Default hw) as)"
    using once_invD(5) [OF inv] pend by simp
  ultimately show ?thesis using once_invD(6) [OF inv] by blast
qed

text \<open>Two threads ask at once; the first attempt fails; the one that waited makes the pool; a late \<open>Configure\<close> is ignored.\<close>

definition once_run :: "once_act list" where
  "once_run =
     [OnceConfigure 0 small_pool, OncePool 0, OncePool 1, OnceCopy 0, OnceConfigure 2 (Default 8), OnceBuild 0 False,
      OnceAwake 1, OnceCopy 1, OncePool 0, OnceBuild 1 True, OnceAwake 0]"

lemma pool_made_once_witness:
  "\<exists>s p. run_acts once_exec once_run (fresh_ctx 1) = Some s \<and> sc_pool s = Some p \<and> pcfg p = small_pool \<and> sc_built s = 1"
proof -
  define s where "s = the (run_acts once_exec once_run (fresh_ctx 1))"
  have run: "run_acts once_exec once_run (fresh_ctx 1) = Some s \<and> sc_pool s \<noteq> None"
    unfolding s_def by (simp add: once_run_def fresh_ctx_def set_once_pc_def)
  moreover have "fix_cfg (accepted_cfg (Default 1) once_run) = small_pool"
    by (simp add: once_run_def small_pool_def fix_cfg_def)
  ultimately show ?thesis using pool_made_once [of once_run 1 s] by (cases "sc_pool s") auto
qed

text \<open>
  \<open>Shutdown\<close> reads \<open>pool_\<close> without synchronisation. One that comes while a pool is being made, after \<open>Configure\<close>
  has begun to refuse, finds nothing to shut down; the pool made after it runs on.
\<close>

theorem shutdown_misses_pool:
  "\<exists>s p. run_acts once_exec [OncePool 0, OnceCopy 0, OnceShutdown 1, OnceBuild 0 True] (fresh_ctx hw) = Some s
     \<and> sc_pool s = Some p \<and> \<not> Stopped p \<and> 1 \<le> WorkerCount p"
proof -
  have "filling (ThreadPool (Default hw)) (min_threads (fix_cfg (Default hw)))" using filled by blast
  then have "\<not> Stopped (ThreadPool (Default hw))" "1 \<le> WorkerCount (ThreadPool (Default hw))"
    using fix_cfg_bounds [of "Default hw"] by (simp_all add: filling_def Stopped_def WorkerCount_def)
  then show ?thesis by (simp add: fresh_ctx_def set_once_pc_def)
qed

section \<open>Forwarding\<close>

text \<open>
  \<open>PostDetached\<close> and \<open>Submit\<close> of the context pass the task on to the pool, which they make if need be; here the call of
  \<open>Enqueue_\<close> by thread \<open>c\<close> up to its first check. The destructor shuts the pool down, and the destructor of the pool
  finds it stopped.
\<close>

definition ContextPost :: "nat \<Rightarrow> nat \<Rightarrow> ctx \<Rightarrow> ctx option" where
  "ContextPost c t x =
     (case Context.Pool x of (p, y) \<Rightarrow> map_option (\<lambda>q. y\<lparr>ctx_pool := Some q\<rparr>) (pexec (Enqueue c t) p))"

definition DestroyPool :: "pool \<Rightarrow> pool" where
  "DestroyPool p = p\<lparr>pstopped := True\<rparr>"

definition DestroyContext :: "ctx \<Rightarrow> pool option" where
  "DestroyContext x = map_option DestroyPool (ctx_pool (ContextShutdown x))"

text \<open>A task posted before anything else is accepted by a new pool of the default size, or of the configured one.\<close>

theorem context_post:
  assumes "ctx_pool x = None"
  shows "\<exists>y p. ContextPost c t x = Some y \<and> ctx_pool y = Some p \<and> submitted p = [t] \<and> callers p c = EnqLocking t
    \<and> pcfg p = fix_cfg (pending_cfg x) \<and> configured y"
proof -
  have f: "filling (ThreadPool (pending_cfg x)) (min_threads (fix_cfg (pending_cfg x)))"
    and c: "pcfg (ThreadPool (pending_cfg x)) = fix_cfg (pending_cfg x)" using filled by blast+
  from f have "callers (ThreadPool (pending_cfg x)) c = Rest" "\<not> pstopped (ThreadPool (pending_cfg x))"
    "submitted (ThreadPool (pending_cfg x)) = []" by (simp_all add: filling_def)
  with assms c show ?thesis
    by (simp add: ContextPost_def Context.Pool_def EnsurePool_def idle_caller_def)
qed

lemma context_post_witness:
  "\<exists>y p. ContextPost 3 7 (Instance 4) = Some y \<and> ctx_pool y = Some p \<and> submitted p = [7] \<and> callers p 3 = EnqLocking 7
    \<and> pcfg p = fix_cfg (Default 4) \<and> configured y"
  using context_post [of "Instance 4" 3 7] by (simp add: Instance_def)

end
