(* ===== verification/Log_Handle.thy ===== *)
theory Log_Handle
  imports Logger_Prelude
begin

text \<open>
  The front end: levels (utils/log_level.h), records (handle/log_msg.h, utils/source_location.h), the
  level filter and the fan-out to the sinks (handle/log_handle.h and .cpp), the text and the
  protobuf formatter (formatter/), the console sink (sinks/console_sink.cpp) and the
  library's own error channel (utils/internal_log.cpp). The clock, the calendar, the process and
  thread ids and protobuf's serialisation are arguments.
\<close>

section \<open>Levels\<close>

datatype LogLevel = trace | debug | info | warn | error | critical | off

primrec level_value :: "LogLevel \<Rightarrow> nat" where
  "level_value trace = 0"
| "level_value debug = 1"
| "level_value info = 2"
| "level_value warn = 3"
| "level_value error = 4"
| "level_value critical = 5"
| "level_value off = 6"

lemma level_value_inj: "level_value a = level_value b \<longleftrightarrow> a = b"
  by (cases a; cases b) simp_all

text \<open>The code compares levels with the built-in comparison of a scoped enumeration: by value.\<close>

instantiation LogLevel :: linorder
begin

definition less_eq_LogLevel :: "LogLevel \<Rightarrow> LogLevel \<Rightarrow> bool" where
  "a \<le> b \<longleftrightarrow> level_value a \<le> level_value b"

definition less_LogLevel :: "LogLevel \<Rightarrow> LogLevel \<Rightarrow> bool" where
  "a < b \<longleftrightarrow> level_value a < level_value b"

instance
  by standard (auto simp: less_eq_LogLevel_def less_LogLevel_def level_value_inj)

end

primrec ToString :: "LogLevel \<Rightarrow> string" where
  "ToString trace = ''trace''"
| "ToString debug = ''debug''"
| "ToString info = ''info''"
| "ToString warn = ''warn''"
| "ToString error = ''error''"
| "ToString critical = ''critical''"
| "ToString off = ''off''"

section \<open>Records\<close>

text \<open>A null pointer is \<open>None\<close>.\<close>

record SourceLocation =
  loc_file :: "string option"
  loc_line :: int
  loc_func :: "string option"

definition loc_empty :: "SourceLocation \<Rightarrow> bool" where
  "loc_empty l \<longleftrightarrow> loc_file l = None"

text \<open>\<open>msg_time\<close> is nanoseconds since the epoch.\<close>

record LogMsg =
  msg_level :: LogLevel
  msg_time :: int
  msg_logger :: string
  msg_loc :: SourceLocation
  msg_text :: string

section \<open>The text formatter\<close>

fun base_loop :: "string \<Rightarrow> string \<Rightarrow> string" where
  "base_loop [] base = base"
| "base_loop (c # p) base = base_loop p (if c = CHR ''/'' \<or> c = CHR 0x5C then p else base)"

definition BaseName :: "string option \<Rightarrow> string" where
  "BaseName path = (case path of None \<Rightarrow> [] | Some p \<Rightarrow> base_loop p p)"

text \<open>C++ division of signed integers truncates towards zero.\<close>

definition trunc_div :: "int \<Rightarrow> int \<Rightarrow> int" where
  "trunc_div a b = sgn a * sgn b * (\<bar>a\<bar> div \<bar>b\<bar>)"

definition trunc_mod :: "int \<Rightarrow> int \<Rightarrow> int" where
  "trunc_mod a b = a - trunc_div a b * b"

record tm =
  tm_year :: int
  tm_mon :: int
  tm_mday :: int
  tm_hour :: int
  tm_min :: int
  tm_sec :: int

text \<open>\<open>localtime\<close> is \<open>localtime_r\<close>: seconds since the epoch to calendar fields.\<close>

definition DefaultFormat :: "(int \<Rightarrow> tm) \<Rightarrow> nat \<Rightarrow> nat \<Rightarrow> LogMsg \<Rightarrow> string \<Rightarrow> string" where
  "DefaultFormat localtime pid tid msg out =
     (let secs = trunc_div (msg_time msg) (10 ^ 9);
          millis = trunc_div (msg_time msg - secs * 10 ^ 9) (10 ^ 6);
          t = localtime secs;
          fname = (if loc_empty (msg_loc msg) then [] else BaseName (loc_file (msg_loc msg)));
          line = (if loc_empty (msg_loc msg) then 0 else loc_line (msg_loc msg))
      in out @ ''['' @ pad_dec 4 (tm_year t + 1900) @ ''-'' @ pad_dec 2 (tm_mon t + 1) @ ''-''
           @ pad_dec 2 (tm_mday t) @ '' '' @ pad_dec 2 (tm_hour t) @ '':'' @ pad_dec 2 (tm_min t) @ '':''
           @ pad_dec 2 (tm_sec t) @ ''.'' @ pad_dec 3 millis @ ''] ['' @ ToString (msg_level msg) @ ''] [''
           @ msg_logger msg @ ''] ['' @ dec_digits pid @ '':'' @ dec_digits tid @ ''] '' @ msg_text msg
           @ '' ('' @ fname @ '':'' @ dec_int line @ '')'')"

section \<open>The protobuf formatter\<close>

record LogRecord =
  rec_level :: u32
  rec_time_ns :: int
  rec_logger :: string
  rec_file :: string
  rec_line :: u32
  rec_func :: string
  rec_message :: string
  rec_pid :: nat
  rec_tid :: nat

definition make_record :: "nat \<Rightarrow> nat \<Rightarrow> LogMsg \<Rightarrow> LogRecord" where
  "make_record pid tid msg =
     (let l = msg_loc msg; e = loc_empty l
      in \<lparr>rec_level = of_nat (level_value (msg_level msg)), rec_time_ns = msg_time msg,
          rec_logger = msg_logger msg,
          rec_file = (if e then [] else case loc_file l of None \<Rightarrow> [] | Some f \<Rightarrow> f),
          rec_line = (if e then 0 else of_int (loc_line l)),
          rec_func = (if e then [] else case loc_func l of None \<Rightarrow> [] | Some f \<Rightarrow> f),
          rec_message = msg_text msg, rec_pid = pid, rec_tid = tid\<rparr>)"

text \<open>\<open>ser\<close> is \<open>SerializeToString\<close>, \<open>None\<close> when it returns false.\<close>

definition EffectiveFormat ::
  "(LogRecord \<Rightarrow> bytes option) \<Rightarrow> nat \<Rightarrow> nat \<Rightarrow> LogMsg \<Rightarrow> bytes \<Rightarrow> bytes \<times> unit res" where
  "EffectiveFormat ser pid tid msg out =
     (case ser (make_record pid tid msg) of
        None \<Rightarrow> (out, Inl (RuntimeError ''EffectiveFormatter: SerializeToString failed''))
      | Some body \<Rightarrow> (out @ body, Inr ()))"

section \<open>The handle\<close>

text \<open>
  A sink is a state with a log and a flush operation, which may throw; the loops over the
  sinks stop at the first exception.
\<close>

fun log_sinks :: "('s \<Rightarrow> LogMsg \<Rightarrow> 's \<times> unit res) \<Rightarrow> LogMsg \<Rightarrow> 's list \<Rightarrow> 's list \<times> unit res" where
  "log_sinks slog msg [] = ([], Inr ())"
| "log_sinks slog msg (s # ss) =
     (case slog s msg of
        (s', Inl e) \<Rightarrow> (s' # ss, Inl e)
      | (s', Inr _) \<Rightarrow> (case log_sinks slog msg ss of (ss', r) \<Rightarrow> (s' # ss', r)))"

fun flush_sinks :: "('s \<Rightarrow> 's \<times> unit res) \<Rightarrow> 's list \<Rightarrow> 's list \<times> unit res" where
  "flush_sinks sflush [] = ([], Inr ())"
| "flush_sinks sflush (s # ss) =
     (case sflush s of
        (s', Inl e) \<Rightarrow> (s' # ss, Inl e)
      | (s', Inr _) \<Rightarrow> (case flush_sinks sflush ss of (ss', r) \<Rightarrow> (s' # ss', r)))"

record 's handle =
  hlevel :: LogLevel
  hflush_level :: LogLevel
  hname :: string
  hsinks :: "'s list"

definition LogHandle :: "string \<Rightarrow> 's list \<Rightarrow> 's handle" where
  "LogHandle name sinks = \<lparr>hlevel = info, hflush_level = off, hname = name, hsinks = sinks\<rparr>"

text \<open>The constructor with one sink drops a null pointer.\<close>

definition LogHandle1 :: "string \<Rightarrow> 's option \<Rightarrow> 's handle" where
  "LogHandle1 name sink = LogHandle name (case sink of None \<Rightarrow> [] | Some s \<Rightarrow> [s])"

definition ShouldLog :: "LogLevel \<Rightarrow> 's handle \<Rightarrow> bool" where
  "ShouldLog level h \<longleftrightarrow> hlevel h \<le> level \<and> hsinks h \<noteq> []"

definition ShouldFlush :: "LogLevel \<Rightarrow> 's handle \<Rightarrow> bool" where
  "ShouldFlush level h \<longleftrightarrow> hflush_level h \<le> level"

definition HandleFlush :: "('s \<Rightarrow> 's \<times> unit res) \<Rightarrow> 's handle \<Rightarrow> 's handle \<times> unit res" where
  "HandleFlush sflush h =
     (case flush_sinks sflush (hsinks h) of (ss, r) \<Rightarrow> (h\<lparr>hsinks := ss\<rparr>, r))"

text \<open>\<open>now\<close> is the clock's answer; one that is not asked is not used.\<close>

definition HandleLog ::
  "('s \<Rightarrow> LogMsg \<Rightarrow> 's \<times> unit res) \<Rightarrow> ('s \<Rightarrow> 's \<times> unit res) \<Rightarrow>
     int \<Rightarrow> LogLevel \<Rightarrow> SourceLocation \<Rightarrow> string \<Rightarrow> 's handle \<Rightarrow> 's handle \<times> unit res" where
  "HandleLog slog sflush now level loc text h =
     (if \<not> ShouldLog level h then (h, Inr ())
      else
        (case log_sinks slog \<lparr>msg_level = level, msg_time = now, msg_logger = hname h,
                msg_loc = loc, msg_text = text\<rparr> (hsinks h) of
           (ss, Inl e) \<Rightarrow> (h\<lparr>hsinks := ss\<rparr>, Inl e)
         | (ss, Inr _) \<Rightarrow>
             (let h' = h\<lparr>hsinks := ss\<rparr>
              in if ShouldFlush level h then HandleFlush sflush h' else (h', Inr ()))))"

section \<open>The console sink\<close>

text \<open>What has been written to standard output, and how much of it has been flushed.\<close>

record console =
  written :: string
  flushed :: nat

definition ConsoleLog :: "(LogMsg \<Rightarrow> string \<Rightarrow> string) \<Rightarrow> console \<Rightarrow> LogMsg \<Rightarrow> console \<times> unit res" where
  "ConsoleLog format c msg =
     (let buf = format msg [] in (c\<lparr>written := written c @ buf @ [CHR 0x0A]\<rparr>, Inr ()))"

definition ConsoleFlush :: "console \<Rightarrow> console \<times> unit res" where
  "ConsoleFlush c = (c\<lparr>flushed := length (written c)\<rparr>, Inr ())"

section \<open>The internal log\<close>

text \<open>
  \<open>busy\<close> is the thread-local flag, \<open>prints\<close> whether \<open>fmt::print\<close> succeeds; the result is the flag and what goes
  to standard error. The call never throws.
\<close>

definition InternalLog :: "bool \<Rightarrow> LogLevel \<Rightarrow> string \<Rightarrow> string \<Rightarrow> bool \<Rightarrow> bool \<times> string" where
  "InternalLog prints lv tag msg busy =
     (if busy then (busy, [])
      else (False, if prints then ''[logger-high]['' @ ToString lv @ ''][''  @ tag @ ''] '' @ msg @ [CHR 0x0A] else []))"

section \<open>The interface of a sink\<close>

text \<open>A call of the handle: the clock's answer, the level, the place and the text.\<close>

type_synonym log_call = "int \<times> LogLevel \<times> SourceLocation \<times> string"

fun handle_calls ::
  "('s \<Rightarrow> LogMsg \<Rightarrow> 's \<times> unit res) \<Rightarrow> ('s \<Rightarrow> 's \<times> unit res) \<Rightarrow> log_call list \<Rightarrow> 's handle \<Rightarrow> 's handle" where
  "handle_calls slog sflush [] h = h"
| "handle_calls slog sflush ((now, level, loc, body) # cs) h =
     handle_calls slog sflush cs (fst (HandleLog slog sflush now level loc body h))"

text \<open>The records that pass the level of a handle, as the sinks get them.\<close>

definition passing :: "LogLevel \<Rightarrow> string \<Rightarrow> log_call list \<Rightarrow> LogMsg list" where
  "passing lev name cs =
     map (\<lambda>(now, level, loc, body). \<lparr>msg_level = level, msg_time = now, msg_logger = name,
            msg_loc = loc, msg_text = body\<rparr>)
         (filter (\<lambda>(now, level, loc, body). lev \<le> level) cs)"

lemma passing_simps [simp]:
  "passing lev name [] = []"
  "passing lev name ((now, level, loc, body) # cs) =
     (if lev \<le> level then \<lparr>msg_level = level, msg_time = now, msg_logger = name,
            msg_loc = loc, msg_text = body\<rparr> # passing lev name cs else passing lev name cs)"
  by (simp_all add: passing_def)

text \<open>
  What the handle relies on: logging appends the record's image to what the sink holds and
  does not throw, flushing changes nothing of it.
\<close>

locale log_sink =
  fixes slog :: "'s \<Rightarrow> LogMsg \<Rightarrow> 's \<times> unit res" and sflush :: "'s \<Rightarrow> 's \<times> unit res"
    and view :: "'s \<Rightarrow> 'v list" and image :: "LogMsg \<Rightarrow> 'v list"
  assumes slog_appends: "\<exists>s'. slog s m = (s', Inr ()) \<and> view s' = view s @ image m"
    and sflush_keeps: "\<exists>s'. sflush s = (s', Inr ()) \<and> view s' = view s"
begin

lemma log_all: "\<exists>ss'. log_sinks slog m ss = (ss', Inr ()) \<and> map view ss' = map (\<lambda>s. view s @ image m) ss"
proof (induction ss)
  case (Cons s ss)
  obtain s' where "slog s m = (s', Inr ())" "view s' = view s @ image m" using slog_appends by blast
  with Cons show ?case by auto
qed simp

lemma flush_all: "\<exists>ss'. flush_sinks sflush ss = (ss', Inr ()) \<and> map view ss' = map view ss"
proof (induction ss)
  case (Cons s ss)
  obtain s' where "sflush s = (s', Inr ())" "view s' = view s" using sflush_keeps by blast
  with Cons show ?case by auto
qed simp

lemma log_call:
  "\<exists>h'. HandleLog slog sflush now level loc body h = (h', Inr ())
     \<and> hlevel h' = hlevel h \<and> hname h' = hname h
     \<and> map view (hsinks h') = map (\<lambda>s. view s @ concat (map image (passing (hlevel h) (hname h)
          [(now, level, loc, body)]))) (hsinks h)"
proof (cases "ShouldLog level h")
  case True
  let ?m = "\<lparr>msg_level = level, msg_time = now, msg_logger = hname h, msg_loc = loc, msg_text = body\<rparr>"
  obtain ss where ss: "log_sinks slog ?m (hsinks h) = (ss, Inr ())"
    and v: "map view ss = map (\<lambda>s. view s @ image ?m) (hsinks h)" using log_all by blast
  obtain ss' where "flush_sinks sflush ss = (ss', Inr ())" "map view ss' = map view ss"
    using flush_all by blast
  moreover have "hlevel h \<le> level" using True by (simp add: ShouldLog_def)
  ultimately show ?thesis
    using True ss v by (simp add: HandleLog_def HandleFlush_def Let_def)
next
  case False
  then have "hsinks h = [] \<or> \<not> hlevel h \<le> level" by (auto simp: ShouldLog_def)
  with False show ?thesis by (auto simp: HandleLog_def)
qed

lemma calls_reach_all:
  "map view (hsinks (handle_calls slog sflush cs h)) =
     map (\<lambda>s. view s @ concat (map image (passing (hlevel h) (hname h) cs))) (hsinks h)"
proof (induction cs arbitrary: h)
  case (Cons c cs)
  obtain now level loc body where c: "c = (now, level, loc, body)" by (cases c)
  obtain h' where h': "HandleLog slog sflush now level loc body h = (h', Inr ())"
    "hlevel h' = hlevel h" "hname h' = hname h"
    and v: "map view (hsinks h') = map (\<lambda>s. view s @ concat (map image (passing (hlevel h) (hname h)
          [(now, level, loc, body)]))) (hsinks h)" using log_call by blast
  have "map (\<lambda>s. view s @ concat (map image (passing (hlevel h) (hname h) cs))) (hsinks h') =
      map (\<lambda>v. v @ concat (map image (passing (hlevel h) (hname h) cs))) (map view (hsinks h'))" by simp
  with Cons.IH [of h'] h' show ?case unfolding v by (auto simp: c)
qed simp

end

interpretation console_sink: log_sink "ConsoleLog format" ConsoleFlush written "\<lambda>m. format m [] @ [CHR 0x0A]"
  for format
  by unfold_locales (simp_all add: ConsoleLog_def ConsoleFlush_def)

definition path_sep :: "char \<Rightarrow> bool" where
  "path_sep c \<longleftrightarrow> c = CHR ''/'' \<or> c = CHR 0x5C"

lemma base_loop_split:
  "base_loop p base = r \<Longrightarrow>
     r = base \<and> list_all (\<lambda>c. \<not> path_sep c) p
     \<or> (\<exists>d c. path_sep c \<and> p = d @ c # r \<and> list_all (\<lambda>c. \<not> path_sep c) r)"
proof (induction p arbitrary: base)
  case (Cons c p)
  show ?case
  proof (cases "path_sep c")
    case True
    then have "base_loop p p = r" using Cons.prems by (auto simp: path_sep_def)
    from Cons.IH [OF this] show ?thesis
    proof (elim disjE exE conjE)
      assume "r = p" and "list_all (\<lambda>c. \<not> path_sep c) p"
      with True show ?thesis by blast
    next
      fix d x
      assume "path_sep x" and "p = d @ x # r" and "list_all (\<lambda>c. \<not> path_sep c) r"
      then show ?thesis by (intro disjI2 exI [of _ "c # d"] exI [of _ x]) simp
    qed
  next
    case False
    then have "base_loop p base = r" using Cons.prems by (auto simp: path_sep_def)
    from Cons.IH [OF this] show ?thesis
    proof (elim disjE exE conjE)
      assume "r = base" and "list_all (\<lambda>c. \<not> path_sep c) p"
      with False show ?thesis by simp
    next
      fix d x
      assume "path_sep x" and "p = d @ x # r" and "list_all (\<lambda>c. \<not> path_sep c) r"
      then show ?thesis by (intro disjI2 exI [of _ "c # d"] exI [of _ x]) simp
    qed
  qed
qed simp

section \<open>Properties\<close>

text \<open>
  C40. The level filter and the fan-out: after any sequence of calls every console sink of a handle has
  received exactly the lines of the records whose level is at least the handle's, in the
  order of the calls; the other calls leave no trace.
\<close>

theorem handle_filters_and_fans_out:
  "map written (hsinks (handle_calls (ConsoleLog format) ConsoleFlush cs h)) =
     map (\<lambda>c. written c @ concat (map (\<lambda>m. format m [] @ [CHR 0x0A]) (passing (hlevel h) (hname h) cs)))
       (hsinks h)"
  by (rule console_sink.calls_reach_all)

text \<open>
  An exception cuts the fan-out short: when a sink throws, the sinks before it have the record,
  those after it do not, nothing is flushed and the caller of \<open>Log\<close> gets the exception.
\<close>

theorem throwing_sink_starves_the_rest:
  assumes "hsinks h = before @ s # after" and "hlevel h \<le> level"
    and "\<forall>b \<in> set before. snd (slog b \<lparr>msg_level = level, msg_time = now, msg_logger = hname h,
            msg_loc = loc, msg_text = body\<rparr>) = Inr ()"
    and "slog s \<lparr>msg_level = level, msg_time = now, msg_logger = hname h, msg_loc = loc, msg_text = body\<rparr>
           = (s', Inl e)"
  shows "HandleLog slog sflush now level loc body h =
    (h\<lparr>hsinks := map (\<lambda>b. fst (slog b \<lparr>msg_level = level, msg_time = now, msg_logger = hname h,
            msg_loc = loc, msg_text = body\<rparr>)) before @ s' # after\<rparr>, Inl e)"
proof -
  let ?m = "\<lparr>msg_level = level, msg_time = now, msg_logger = hname h, msg_loc = loc, msg_text = body\<rparr>"
  have "log_sinks slog ?m (before @ s # after) = (map (\<lambda>b. fst (slog b ?m)) before @ s' # after, Inl e)"
    using assms(3)
  proof (induction before)
    case (Cons b bs)
    obtain b' where "slog b ?m = (b', Inr ())" using Cons.prems by (cases "slog b ?m") auto
    with Cons show ?case by simp
  qed (simp add: assms(4))
  with assms(1,2) show ?thesis by (simp add: HandleLog_def ShouldLog_def)
qed

lemma throwing_sink_starves_the_rest_witness:
  "HandleLog (\<lambda>s m. if s = 0 then (s, Inl (RuntimeError ''full'')) else (s + 1, Inr ())) (\<lambda>s. (s, Inr ()))
     5 warn \<lparr>loc_file = None, loc_line = 0, loc_func = None\<rparr> ''x'' (LogHandle ''app'' [7, 0, 3 :: nat])
   = (LogHandle ''app'' [8, 0, 3], Inl (RuntimeError ''full''))"
  using throwing_sink_starves_the_rest
    [of "LogHandle ''app'' [7, 0, 3 :: nat]" "[7]" 0 "[3]" warn
        "\<lambda>s m. if s = 0 then (s, Inl (RuntimeError ''full'')) else (s + 1, Inr ())" 5
        "\<lparr>loc_file = None, loc_line = 0, loc_func = None\<rparr>" "''x''"
        0 "RuntimeError ''full''" "\<lambda>s. (s, Inr ())"]
  by (simp add: LogHandle_def less_eq_LogLevel_def)

text \<open>
  \<open>BaseName\<close> cuts a path behind its last slash or backslash: what it returns has neither, and
  the path is that behind a directory part that is empty or ends in one of them.
\<close>

theorem basename_after_last_separator:
  "BaseName None = []
   \<and> list_all (\<lambda>c. \<not> path_sep c) (BaseName (Some p))
   \<and> (\<exists>d. p = d @ BaseName (Some p) \<and> (d = [] \<or> path_sep (last d)))"
proof -
  define r where "r = BaseName (Some p)"
  then have "base_loop p p = r" by (simp add: BaseName_def)
  from base_loop_split [OF this]
  have "list_all (\<lambda>c. \<not> path_sep c) r \<and> (\<exists>d. p = d @ r \<and> (d = [] \<or> path_sep (last d)))"
  proof (elim disjE exE conjE)
    assume "r = p" and "list_all (\<lambda>c. \<not> path_sep c) p"
    then show ?thesis by simp
  next
    fix d c
    assume "path_sep c" and "p = d @ c # r" and "list_all (\<lambda>c. \<not> path_sep c) r"
    then show ?thesis by (intro conjI exI [of _ "d @ [c]"]) simp_all
  qed
  then show ?thesis by (simp add: r_def) (simp add: BaseName_def)
qed

end
