(* ===== verification/System_Info.thy ===== *)
theory System_Info
  imports Mmap_Region Log_Handle
begin

text \<open>
  \<open>utils/system_info.cpp\<close>, the Linux branch: the process id, the thread id and the page size, as casts of what \<open>getpid\<close>,
  \<open>syscall(SYS_gettid)\<close> and \<open>sysconf(_SC_PAGESIZE)\<close> answer; and what the casts mean for the callers, the formatter
  and the mapped region.
\<close>

text \<open>\<open>pid_t\<close> has 32 bits and a sign, \<open>long\<close> has 64.\<close>

definition GetPid :: "32 word \<Rightarrow> 64 word" where
  "GetPid getpid = scast getpid"

definition GetTid :: "64 word \<Rightarrow> 64 word" where
  "GetTid gettid = gettid"

definition GetPageSize :: "64 word \<Rightarrow> nat" where
  "GetPageSize sysconf = unat sysconf"

text \<open>
  The ids of the record are those of the system: \<open>getpid\<close> never fails, and the cast of a non-negative \<open>pid_t\<close> keeps its
  value. The page size is what the system says, but the error value of \<open>sysconf\<close> is not looked at: as a size it
  is 2^64 - 1, every region of two bytes or more is then rounded to 0, and \<open>mmap\<close> is asked for an empty mapping.
\<close>

theorem system_values:
  "(0 \<le> sint getpid \<longrightarrow> uint (GetPid getpid) = sint getpid)
   \<and> rec_pid (make_record (unat (GetPid getpid)) (unat (GetTid gettid)) msg) = unat (GetPid getpid)
   \<and> rec_tid (make_record (unat (GetPid getpid)) (unat (GetTid gettid)) msg) = unat gettid
   \<and> (0 < n \<longrightarrow> n \<le> 2 ^ 63 \<longrightarrow> 0 < unat sysconf \<longrightarrow> unat sysconf \<le> 2 ^ 63 \<longrightarrow> n \<le> RoundUpToPage (GetPageSize sysconf) n)
   \<and> (2 \<le> n \<longrightarrow> n < 2 ^ 64 \<longrightarrow> RoundUpToPage (GetPageSize (-1)) n = 0)"
proof (intro conjI impI)
  assume "0 \<le> sint getpid"
  moreover have "sint getpid < 2 ^ 31" using sint_lt [of getpid] by simp
  ultimately have "sint getpid mod 2 ^ 64 = sint getpid" by (intro mod_pos_pos_trivial) simp_all
  then show "uint (GetPid getpid) = sint getpid"
    by (simp only: GetPid_def scast_eq uint_word_of_int len_num0 len_bit0 len_num1) simp
next
  assume pos: "0 < unat sysconf" and le: "unat sysconf \<le> 2 ^ 63" "n \<le> 2 ^ 63"
  have "n + unat sysconf \<le> 2 ^ 63 + 2 ^ 63" by (rule add_mono [OF le(2,1)])
  also have "(2::nat) ^ 63 + 2 ^ 63 = 2 ^ 64" by simp
  finally show "n \<le> RoundUpToPage (GetPageSize sysconf) n"
    unfolding GetPageSize_def by (rule round_up_bounds(2) [OF pos])
next
  assume n: "2 \<le> n" "n < 2 ^ 64"
  have m: "unat (-1 :: 64 word) = 2 ^ 64 - 1" by (simp add: unsigned_minus_1_eq_mask mask_eq_exp_minus_1)
  have "(n + (2 ^ 64 - 1) - 1) mod 2 ^ 64 = n - 2" using n by (simp add: mod_if)
  then show "RoundUpToPage (GetPageSize (-1)) n = 0"
    using n unfolding RoundUpToPage_def GetPageSize_def m by simp
qed (simp_all add: make_record_def GetTid_def Let_def)

lemma system_values_witness: "RoundUpToPage (GetPageSize (-1)) 4096 = 0 \<and> uint (GetPid 77) = 77"
  using system_values [of 77 0 undefined 4096 0] by simp

end
