(* ===== verification/Strand_On_Pool.thy ===== *)
theory Strand_On_Pool
  imports Strand Thread_Pool
begin

text \<open>
  A strand together with the pool that runs it (\<open>context/strand.cpp\<close> on \<open>context/thread_pool.cpp\<close>): the pool's tasks
  with an even number are activations of \<open>Drain_\<close>, the \<open>k\<close>th is number \<open>2 * k\<close>; odd ones are other tasks. What the two models leave open
  is tied together: \<open>PostDetached\<close> of the pool is called once for each activation, an activation runs while a
  worker has its task, or inside the caller when the pool has been stopped, in one of the two places with \<open>mtx_\<close> held.
  Every step is at most two steps of the strand and one of the pool, so what is shown of each holds of the
  composition; new is what only holds together: when \<open>Shutdown\<close> has returned, the strand's tasks have run.
\<close>

section \<open>State and steps\<close>

text \<open>\<open>inline c\<close>: the activation the caller \<open>c\<close> runs itself; \<open>pool_lock\<close>: the caller that does so under the pool's mutex.\<close>

record spool =
  st :: strand
  pl :: pool
  inline :: "nat \<Rightarrow> nat option"
  pool_lock :: "nat option"

definition spool_init :: "pool_cfg \<Rightarrow> spool" where
  "spool_init c = \<lparr>st = strand_init, pl = ThreadPool c, inline = (\<lambda>_. None), pool_lock = None\<rparr>"

datatype xact =
    XSubmit nat nat
  | XPost nat
  | XLock nat
  | XTake nat
  | XNext nat
  | XFinish nat
  | XDone nat
  | XReturn nat
  | XPool pact

definition run_inline :: "nat \<Rightarrow> nat \<Rightarrow> bool \<Rightarrow> spool \<Rightarrow> spool option" where
  "run_inline c k lk s =
     map_option (\<lambda>x. s\<lparr>st := x, inline := (inline s)(c := Some k),
         pool_lock := (if lk then Some c else pool_lock s)\<rparr>)
       (texec (SRun k) (st s))"

text \<open>The steps of the pool that concern no activation, and whether the mutex is theirs to take.\<close>

fun pool_only :: "pact \<Rightarrow> spool \<Rightarrow> bool" where
  "pool_only (Enqueue c t) s \<longleftrightarrow> odd t \<and> inline s c = None \<and> c \<notin> set (posting (st s))"
| "pool_only (Shutdown c) s \<longleftrightarrow> inline s c = None \<and> c \<notin> set (posting (st s)) \<and> pool_lock s = None"
| "pool_only (EnqSpawn c) s \<longleftrightarrow> pool_lock s = None"
| "pool_only (ShutTake c) s \<longleftrightarrow> pool_lock s = None"
| "pool_only (ShutJoin c) s \<longleftrightarrow> True"
| "pool_only (ExitStopped w) s \<longleftrightarrow> pool_lock s = None"
| "pool_only (IdleTimeout w) s \<longleftrightarrow> pool_lock s = None"
| "pool_only a s \<longleftrightarrow> False"

fun xexec :: "xact \<Rightarrow> spool \<Rightarrow> spool option" where
  "xexec (XSubmit c t) s =
     (if inline s c \<noteq> None \<or> \<not> idle_caller (callers (pl s) c) then None
      else map_option (\<lambda>x. s\<lparr>st := x\<rparr>) (texec (SEnqueue c t) (st s)))"
| "xexec (XPost c) s =
     (let k = length (activations (st s)) in
      case (texec (SPost c) (st s), pexec (Enqueue c (2 * k)) (pl s)) of
        (Some x, Some p) \<Rightarrow>
          if inline s c \<noteq> None then None
          else if pstopped (pl s) then run_inline c k False (s\<lparr>st := x, pl := p\<rparr>)
          else Some (s\<lparr>st := x, pl := p\<rparr>)
      | _ \<Rightarrow> None)"
| "xexec (XLock c) s =
     (case (callers (pl s) c, pexec (EnqLock c) (pl s)) of
        (EnqLocking n, Some p) \<Rightarrow>
          if pool_lock s \<noteq> None \<or> inline s c \<noteq> None then None
          else if pstopped (pl s) \<and> even n then run_inline c (n div 2) True (s\<lparr>pl := p\<rparr>)
          else Some (s\<lparr>pl := p\<rparr>)
      | _ \<Rightarrow> None)"
| "xexec (XTake w) s =
     (case (tasks (pl s), pexec (Take w) (pl s)) of
        (n # ns, Some p) \<Rightarrow>
          if pool_lock s \<noteq> None then None
          else if even n then map_option (\<lambda>x. s\<lparr>st := x, pl := p\<rparr>) (texec (SRun (n div 2)) (st s))
          else Some (s\<lparr>pl := p\<rparr>)
      | _ \<Rightarrow> None)"
| "xexec (XNext k) s = map_option (\<lambda>x. s\<lparr>st := x\<rparr>) (texec (SNext k) (st s))"
| "xexec (XFinish k) s = map_option (\<lambda>x. s\<lparr>st := x\<rparr>) (texec (SFinish k) (st s))"
| "xexec (XDone w) s =
     (case threads (pl s) w of
        Running n \<Rightarrow>
          if even n \<and> activations (st s) ! (n div 2) \<noteq> Returned then None
          else map_option (\<lambda>p. s\<lparr>pl := p\<rparr>) (pexec (Finish w) (pl s))
      | _ \<Rightarrow> None)"
| "xexec (XReturn c) s =
     (case inline s c of
        Some k \<Rightarrow>
          if activations (st s) ! k \<noteq> Returned then None
          else Some (s\<lparr>inline := (inline s)(c := None),
                       pool_lock := (if pool_lock s = Some c then None else pool_lock s)\<rparr>)
      | None \<Rightarrow> None)"
| "xexec (XPool a) s =
     (if pool_only a s then map_option (\<lambda>p. s\<lparr>pl := p\<rparr>) (pexec a (pl s)) else None)"

definition spool_step :: "spool \<Rightarrow> spool \<Rightarrow> bool" where
  "spool_step = acts_step xexec"

section \<open>The two components\<close>

text \<open>The composition does nothing its parts cannot do.\<close>

lemma run_inline_Some:
  "run_inline c k lk s = Some s' \<longleftrightarrow>
     (\<exists>x. texec (SRun k) (st s) = Some x \<and> s' = s\<lparr>st := x, inline := (inline s)(c := Some k),
        pool_lock := (if lk then Some c else pool_lock s)\<rparr>)"
  by (auto simp: run_inline_def)

lemma step_once: "ex a s = Some t \<Longrightarrow> (acts_step ex)\<^sup>*\<^sup>* s t"
  by (rule r_into_rtranclp) (auto simp: acts_step_def)

lemma step_twice: "ex a s = Some t \<Longrightarrow> ex b t = Some u \<Longrightarrow> (acts_step ex)\<^sup>*\<^sup>* s u"
  by (rule rtranclp_trans [OF step_once step_once])

lemma xexec_strand:
  assumes "xexec a s = Some s'"
  shows "strand_step\<^sup>*\<^sup>* (st s) (st s')"
  using assms unfolding strand_step_def
  by (cases a)
    (auto simp: run_inline_Some Let_def simp del: texec.simps pexec.simps
      split: if_splits option.splits caller.splits list.splits worker.splits
      intro: step_once step_twice)

lemma xexec_pool:
  assumes "xexec a s = Some s'"
  shows "pool_step\<^sup>*\<^sup>* (pl s) (pl s')"
  using assms unfolding pool_step_def
  by (cases a)
    (auto simp: run_inline_Some Let_def simp del: texec.simps pexec.simps
      split: if_splits option.splits caller.splits list.splits worker.splits
      intro: step_once)

section \<open>Where an activation is\<close>

text \<open>
  An activation that has not returned is in the pool's queue, in a caller that is about to put it there, in a worker, or
  in a caller that runs it; while it is in one of the first two it has not started, and it is there once.
\<close>

definition placed :: "spool \<Rightarrow> nat \<Rightarrow> bool" where
  "placed s k \<longleftrightarrow>
     2 * k \<in> set (tasks (pl s)) \<or> (\<exists>c. callers (pl s) c = EnqLocking (2 * k))
     \<or> (\<exists>w. threads (pl s) w = Running (2 * k)) \<or> (\<exists>c. inline s c = Some k)"

definition waiting :: "strand \<Rightarrow> nat \<Rightarrow> bool" where
  "waiting x k \<longleftrightarrow> k < length (activations x) \<and> activations x ! k = Pending"

definition all_placed :: "spool \<Rightarrow> bool" where
  "all_placed s \<longleftrightarrow> (\<forall>k<length (activations (st s)). activations (st s) ! k \<noteq> Returned \<longrightarrow> placed s k)"

definition queued_once :: "strand \<Rightarrow> pool \<Rightarrow> bool" where
  "queued_once x p \<longleftrightarrow>
     distinct (filter even (tasks p))
     \<and> (\<forall>k. 2 * k \<in> set (tasks p) \<longrightarrow> waiting x k)
     \<and> (\<forall>c k. callers p c = EnqLocking (2 * k) \<longrightarrow> waiting x k \<and> 2 * k \<notin> set (tasks p))
     \<and> (\<forall>c d k. callers p c = EnqLocking (2 * k) \<longrightarrow> callers p d = EnqLocking (2 * k) \<longrightarrow> c = d)"

definition xinv :: "spool \<Rightarrow> bool" where
  "xinv s \<longleftrightarrow> strand_inv (st s) \<and> pinv (pl s) \<and> all_placed s \<and> queued_once (st s) (pl s)"

lemma xinv_parts:
  assumes "xinv s" and "xexec a s = Some s'"
  shows "strand_inv (st s')" and "pinv (pl s')"
  using assms xexec_strand [OF assms(2)] xexec_pool [OF assms(2)] sd.steps_inv tp.steps_inv
  by (auto simp: xinv_def)

text \<open>The strand's own steps leave the waiting activations alone and place no new ones.\<close>

lemma waiting_upd:
  "waiting x k \<Longrightarrow> activations y = (activations x)[j := b] \<Longrightarrow> j \<noteq> k \<Longrightarrow> waiting y k"
  by (auto simp: waiting_def nth_list_update)

lemma placed_cong: "pl s' = pl s \<Longrightarrow> inline s' = inline s \<Longrightarrow> placed s' = placed s"
  by (simp add: placed_def fun_eq_iff)

lemma strand_moves_on:
  assumes "texec a x = Some y" and "\<And>c. a \<noteq> SPost c" and "\<And>k. a \<noteq> SRun k"
  shows "length (activations y) = length (activations x)"
    and "activations y ! k \<noteq> Returned \<Longrightarrow> k < length (activations x) \<Longrightarrow> activations x ! k \<noteq> Returned"
    and "waiting x k \<Longrightarrow> waiting y k"
  using assms
  by (cases a; auto simp: Let_def waiting_def nth_list_update split: if_splits list.splits activation.splits)+

lemma xinv_strand:
  assumes inv: "xinv s" and s': "s' = s\<lparr>st := y\<rparr>" and t: "texec a (st s) = Some y"
    and "\<And>c. a \<noteq> SPost c" and "\<And>k. a \<noteq> SRun k"
  shows "all_placed s' \<and> queued_once (st s') (pl s')"
proof -
  note m = strand_moves_on [OF t assms(4,5)]
  have "placed s' = placed s" using s' by (intro placed_cong) simp_all
  then show ?thesis
    using inv s' m by (auto simp: xinv_def all_placed_def queued_once_def)
qed

text \<open>Steps of the pool that concern no activation.\<close>

lemma pool_only_keeps:
  assumes "pexec a p = Some p'" and "pool_only a s" and "pinv p"
  shows "tasks p' = tasks p" and "callers p c = EnqLocking n \<Longrightarrow> callers p' c = EnqLocking n"
    and "callers p' c = EnqLocking (2 * k) \<Longrightarrow> callers p c = EnqLocking (2 * k)"
    and "threads p w = Running n \<Longrightarrow> threads p' w = Running n"
proof -
  have "threads p (born p) = Unborn" using assms(3) by (simp add: pinv_def shape_ok_def)
  then show "tasks p' = tasks p" "callers p c = EnqLocking n \<Longrightarrow> callers p' c = EnqLocking n"
    "callers p' c = EnqLocking (2 * k) \<Longrightarrow> callers p c = EnqLocking (2 * k)"
    "threads p w = Running n \<Longrightarrow> threads p' w = Running n"
    using assms(1,2)
    by (cases a; auto simp: idle_caller_def set_caller_def leave_pool_def SpawnLocked_def Let_def
        split: if_splits caller.splits)+
qed

lemma SRun_Some: "texec (SRun k) x = Some y \<longleftrightarrow> waiting x k \<and> y = x\<lparr>activations := (activations x)[k := AtTop]\<rparr>"
  by (auto simp: waiting_def)

lemma xinvD:
  assumes "xinv s"
  shows "k < length (activations (st s)) \<Longrightarrow> activations (st s) ! k \<noteq> Returned \<Longrightarrow> placed s k"
    and "distinct (filter even (tasks (pl s)))"
    and "2 * k \<in> set (tasks (pl s)) \<Longrightarrow> waiting (st s) k"
    and "callers (pl s) c = EnqLocking (2 * k) \<Longrightarrow> waiting (st s) k \<and> 2 * k \<notin> set (tasks (pl s))"
    and "callers (pl s) c = EnqLocking (2 * k) \<Longrightarrow> callers (pl s) d = EnqLocking (2 * k) \<Longrightarrow> c = d"
  using assms by (auto simp: xinv_def all_placed_def queued_once_def)

lemma placedI:
  "2 * k \<in> set (tasks (pl s)) \<Longrightarrow> placed s k" "callers (pl s) c = EnqLocking (2 * k) \<Longrightarrow> placed s k"
  "threads (pl s) w = Running (2 * k) \<Longrightarrow> placed s k" "inline s c = Some k \<Longrightarrow> placed s k"
  by (auto simp: placed_def)

text \<open>To keep an activation placed, each of the four places is looked at alone.\<close>

lemma placed_keep:
  assumes "placed s k"
    and "2 * k \<in> set (tasks (pl s)) \<Longrightarrow> placed s' k" "\<And>c. callers (pl s) c = EnqLocking (2 * k) \<Longrightarrow> placed s' k"
    and "\<And>w. threads (pl s) w = Running (2 * k) \<Longrightarrow> placed s' k" "\<And>c. inline s c = Some k \<Longrightarrow> placed s' k"
  shows "placed s' k"
  using assms by (auto simp: placed_def)

text \<open>A caller that moves on: the places of the other activations are untouched.\<close>

lemma placed_caller:
  assumes "placed s k" and "callers (pl s) c \<noteq> EnqLocking (2 * k)"
    and "set (tasks (pl s)) \<subseteq> set (tasks (pl s'))" and "threads (pl s') = threads (pl s)"
    and "\<And>d. d \<noteq> c \<Longrightarrow> callers (pl s') d = callers (pl s) d"
    and "inline s c = None" and "\<And>d. d \<noteq> c \<Longrightarrow> inline s' d = inline s d"
  shows "placed s' k"
  using assms(1)
proof (rule placed_keep)
  show "placed s' k" if "callers (pl s) d = EnqLocking (2 * k)" for d
    using that assms(2,5) by (intro placedI(2) [of _ d]) metis
  show "placed s' k" if "inline s d = Some k" for d
    using that assms(6,7) by (intro placedI(4) [of _ d]) (metis option.distinct(1))
qed (use assms(3,4) in \<open>auto intro: placedI\<close>)

lemma xinv_XPost:
  assumes inv: "xinv s" and ex: "xexec (XPost c) s = Some s'"
  shows "all_placed s' \<and> queued_once (st s') (pl s')"
proof -
  let ?k = "length (activations (st s))"
  obtain x p where x: "texec (SPost c) (st s) = Some x" and p: "pexec (Enqueue c (2 * ?k)) (pl s) = Some p"
    and no: "inline s c = None" and s': "(if pstopped (pl s) then run_inline c ?k False (s\<lparr>st := x, pl := p\<rparr>)
       else Some (s\<lparr>st := x, pl := p\<rparr>)) = Some s'"
    using ex by (auto simp: Let_def simp del: texec.simps pexec.simps split: option.splits if_splits)
  have ax: "activations x = activations (st s) @ [Pending]" using x by (auto split: if_splits)
  have idle: "callers (pl s) c \<noteq> EnqLocking n" for n using p by (auto simp: idle_caller_def split: if_splits)
  have old: "waiting (st s) j \<Longrightarrow> waiting x j \<and> j < ?k" for j by (auto simp: waiting_def ax nth_append)
  note inv' = xinvD [OF inv]
  have "2 * ?k \<notin> set (tasks (pl s))" "callers (pl s) d \<noteq> EnqLocking (2 * ?k)" for d
    using inv'(3) [of ?k] inv'(4) [of d ?k] by (auto simp: waiting_def)
  note fresh = this
  have new: "waiting x ?k" by (simp add: waiting_def ax)
  show ?thesis
  proof (cases "pstopped (pl s)")
    case False
    then have sp: "s' = s\<lparr>st := x, pl := p\<rparr>" "p = set_caller c (EnqLocking (2 * ?k)) ((pl s)\<lparr>submitted := submitted (pl s) @ [2 * ?k]\<rparr>)"
      using s' p by (auto split: if_splits)
    have "placed s' j" if "j < length (activations x)" "activations x ! j \<noteq> Returned" for j
    proof (cases "j = ?k")
      case True
      then show ?thesis by (auto simp: placed_def sp)
    next
      case False
      with that have "placed s j" using inv'(1) [of j] by (simp add: ax nth_append)
      then show ?thesis by (rule placed_caller [of s j c]) (use idle no in \<open>auto simp: sp\<close>)
    qed
    moreover have "queued_once x p"
      using inv'(2,3,4,5) old fresh idle new by (auto simp: queued_once_def sp)
    ultimately show ?thesis by (simp add: all_placed_def sp(1))
  next
    case True
    then obtain y where sp: "s' = s\<lparr>st := y, pl := p, inline := (inline s)(c := Some ?k)\<rparr>"
        "y = x\<lparr>activations := (activations x)[?k := AtTop]\<rparr>"
        "p = set_caller c Rest ((pl s)\<lparr>submitted := submitted (pl s) @ [2 * ?k], finished := finished (pl s) @ [2 * ?k]\<rparr>)"
      using s' p by (auto simp: run_inline_Some SRun_Some simp del: texec.simps split: if_splits)
    have "placed s' j" if "j < length (activations y)" "activations y ! j \<noteq> Returned" for j
    proof (cases "j = ?k")
      case True
      then show ?thesis by (auto simp: placed_def sp)
    next
      case False
      with that have "placed s j" using inv'(1) [of j] by (simp add: sp(2) ax nth_append)
      then show ?thesis by (rule placed_caller [of s j c]) (use idle no in \<open>auto simp: sp\<close>)
    qed
    moreover have "waiting (st s) j \<Longrightarrow> waiting y j" for j
      using old [of j] by (auto simp: waiting_def sp nth_list_update)
    then have "queued_once y p"
      using inv'(2,3,4,5) idle by (auto simp: queued_once_def sp)
    ultimately show ?thesis by (simp add: all_placed_def sp(1))
  qed
qed

lemma xinv_XLock:
  assumes inv: "xinv s" and ex: "xexec (XLock c) s = Some s'"
  shows "all_placed s' \<and> queued_once (st s') (pl s')"
proof -
  obtain n p where n: "callers (pl s) c = EnqLocking n" and p: "pexec (EnqLock c) (pl s) = Some p"
    and no: "inline s c = None"
    and s': "(if pstopped (pl s) \<and> even n then run_inline c (n div 2) True (s\<lparr>pl := p\<rparr>) else Some (s\<lparr>pl := p\<rparr>)) = Some s'"
    using ex by (auto simp del: texec.simps pexec.simps split: option.splits if_splits caller.splits)
  note inv' = xinvD [OF inv]
  consider (inl) k where "pstopped (pl s)" "n = 2 * k" | (other) "pstopped (pl s)" "odd n" | (push) "\<not> pstopped (pl s)"
    by auto
  then show ?thesis
  proof cases
    case inl
    define y where "y = (st s)\<lparr>activations := (activations (st s))[k := AtTop]\<rparr>"
    have "run_inline c k True (s\<lparr>pl := p\<rparr>) = Some s'" using s' inl by simp
    then have y: "waiting (st s) k" "y = (st s)\<lparr>activations := (activations (st s))[k := AtTop]\<rparr>"
        "s' = s\<lparr>st := y, pl := p, inline := (inline s)(c := Some k), pool_lock := Some c\<rparr>"
        "p = set_caller c Rest ((pl s)\<lparr>finished := finished (pl s) @ [n]\<rparr>)"
      using p n inl(1) by (simp_all add: run_inline_Some SRun_Some y_def del: texec.simps)
    have "placed s' j" if j: "j < length (activations y)" "activations y ! j \<noteq> Returned" for j
    proof (cases "j = k")
      case False
      with j inv'(1) [of j] have "placed s j" by (simp add: y(2))
      then show ?thesis by (rule placed_caller [of s j c]) (use n no inl(2) False in \<open>auto simp: y(3,4)\<close>)
    qed (rule placedI(4) [of _ c], simp add: y(3))
    moreover have "queued_once y p"
    proof -
      have "k \<noteq> j \<Longrightarrow> waiting (st s) j \<Longrightarrow> waiting y j" for j
        by (auto simp: waiting_def y(2))
      moreover have "2 * k \<notin> set (tasks (pl s))" using inv'(4) [of c k] n inl(2) by simp
      ultimately show ?thesis
        unfolding queued_once_def using inv'(2,3,4,5) n inl(2)
        by (simp add: y(4)) (metis nat_mult_eq_cancel1 zero_less_numeral caller.inject(1))
    qed
    ultimately show ?thesis by (simp add: all_placed_def y(3))
  next
    case other
    then have sp: "s' = s\<lparr>pl := p\<rparr>" "p = set_caller c Rest ((pl s)\<lparr>finished := finished (pl s) @ [n]\<rparr>)"
      using s' p n by auto
    have "placed s j \<Longrightarrow> placed s' j" for j
      by (rule placed_caller [of s j c]) (use other(2) n no in \<open>auto simp: sp\<close>)
    then show ?thesis using inv'(1,2,3,4,5) by (auto simp: all_placed_def queued_once_def sp)
  next
    case push
    then obtain r where sp: "s' = s\<lparr>pl := p\<rparr>" "p = set_caller c r ((pl s)\<lparr>reap := [], tasks := tasks (pl s) @ [n]\<rparr>)"
        "\<And>m. r \<noteq> EnqLocking m"
      using s' p n by (auto simp: Let_def)
    have "placed s' j" if "placed s j" for j
    proof (cases "n = 2 * j")
      case True
      then show ?thesis by (intro placedI(1)) (simp add: sp)
    next
      case False
      show ?thesis by (rule placed_caller [OF that, of c]) (use n no False in \<open>simp_all add: sp subset_insertI\<close>)
    qed
    moreover have "queued_once (st s) p"
      unfolding queued_once_def
    proof (intro conjI allI impI)
      have ev: "waiting (st s) k \<and> n \<notin> set (tasks (pl s))" if "n = 2 * k" for k
        using inv'(4) [of c k] n that by simp
      have other: "d \<noteq> c \<and> callers (pl s) d = EnqLocking m" if "callers p d = EnqLocking m" for d m
        using that sp(2,3) by (cases "d = c") simp_all
      show "distinct (filter even (tasks p))" using inv'(2) ev by (auto simp: sp(2) elim: evenE)
      show "waiting (st s) k" if "2 * k \<in> set (tasks p)" for k
        using that inv'(3) [of k] ev [of k] by (auto simp: sp(2))
      show "waiting (st s) k" if "callers p d = EnqLocking (2 * k)" for d k
        using other [OF that] inv'(4) by blast
      show "2 * k \<notin> set (tasks p)" if "callers p d = EnqLocking (2 * k)" for d k
        using other [OF that] inv'(4) [of d k] inv'(5) [of c k d] n by (auto simp: sp(2))
      show "d = e" if "callers p d = EnqLocking (2 * k)" "callers p e = EnqLocking (2 * k)" for d e k
        using other [OF that(1)] other [OF that(2)] inv'(5) by blast
    qed
    ultimately show ?thesis using inv'(1) by (simp add: all_placed_def sp(1))
  qed
qed

lemma xinv_XTake:
  assumes inv: "xinv s" and ex: "xexec (XTake w) s = Some s'"
  shows "all_placed s' \<and> queued_once (st s') (pl s')"
proof -
  obtain n ns p where ts: "tasks (pl s) = n # ns" and p: "pexec (Take w) (pl s) = Some p"
    and s': "(if even n then map_option (\<lambda>x. s\<lparr>st := x, pl := p\<rparr>) (texec (SRun (n div 2)) (st s))
       else Some (s\<lparr>pl := p\<rparr>)) = Some s'"
    using ex by (auto simp del: texec.simps pexec.simps split: option.splits if_splits list.splits)
  have w: "threads (pl s) w = Looping" and p': "p = (pl s)\<lparr>tasks := ns, threads := (threads (pl s))(w := Running n)\<rparr>"
    using p ts by (auto split: worker.splits)
  note inv' = xinvD [OF inv]
  have pl': "pl s' = p" and inl: "inline s' = inline s"
    using s' by (auto simp del: texec.simps split: if_splits)
  have keep: "placed s' j" if "placed s j" for j
    using that
  proof (rule placed_keep)
    show "placed s' j" if "2 * j \<in> set (tasks (pl s))"
      using that ts by (auto simp: pl' p' intro: placedI)
    show "placed s' j" if "callers (pl s) d = EnqLocking (2 * j)" for d
      using that by (intro placedI(2) [of _ d]) (simp add: pl' p')
    show "placed s' j" if "threads (pl s) v = Running (2 * j)" for v
      using that w by (intro placedI(3) [of _ v]) (auto simp: pl' p')
    show "placed s' j" if "inline s d = Some j" for d
      using that by (intro placedI(4) [of _ d]) (simp add: inl)
  qed
  show ?thesis
  proof (cases "even n")
    case False
    then have "s' = s\<lparr>pl := p\<rparr>" using s' by simp
    then show ?thesis using inv' keep ts False by (auto simp: all_placed_def queued_once_def p')
  next
    case True
    then obtain k where n: "n = 2 * k" by (elim evenE)
    have st': "st s' = (st s)\<lparr>activations := (activations (st s))[k := AtTop]\<rparr>"
      using s' n by (auto simp: SRun_Some simp del: texec.simps)
    have "placed s' j" if "j < length (activations (st s'))" "activations (st s') ! j \<noteq> Returned" for j
    proof (cases "j = k")
      case True
      then show ?thesis by (intro placedI(3) [of _ w]) (simp add: pl' p' n)
    next
      case False
      with that inv'(1) [of j] keep show ?thesis by (simp add: st')
    qed
    moreover have wt: "j \<noteq> k \<Longrightarrow> waiting (st s) j \<Longrightarrow> waiting (st s') j" for j
      by (simp add: waiting_def st')
    have "waiting (st s') j" if "2 * j \<in> set ns" for j
      using inv'(2) inv'(3) [of j] ts n that wt [of j] by auto
    then have "queued_once (st s') p"
      using inv'(2,4,5) ts n wt by (auto simp: queued_once_def p')
    ultimately show ?thesis by (simp add: all_placed_def pl')
  qed
qed

lemma xinv_step:
  assumes inv: "xinv s" and ex: "xexec a s = Some s'"
  shows "xinv s'"
proof -
  note inv' = xinvD [OF inv]
  have pinv: "pinv (pl s)" using inv by (simp add: xinv_def)
  have "all_placed s' \<and> queued_once (st s') (pl s')"
  proof (cases a)
    case (XSubmit c t)
    with ex obtain y where y: "texec (SEnqueue c t) (st s) = Some y" "s' = s\<lparr>st := y\<rparr>"
      by (auto simp del: texec.simps split: if_splits)
    show ?thesis by (rule xinv_strand [OF inv y(2,1)]) simp_all
  next
    case (XNext k)
    with ex obtain y where y: "texec (SNext k) (st s) = Some y" "s' = s\<lparr>st := y\<rparr>"
      by (auto simp del: texec.simps)
    show ?thesis by (rule xinv_strand [OF inv y(2,1)]) simp_all
  next
    case (XFinish k)
    with ex obtain y where y: "texec (SFinish k) (st s) = Some y" "s' = s\<lparr>st := y\<rparr>"
      by (auto simp del: texec.simps)
    show ?thesis by (rule xinv_strand [OF inv y(2,1)]) simp_all
  next
    case (XDone w)
    with ex obtain n where n: "threads (pl s) w = Running n" "even n \<longrightarrow> activations (st s) ! (n div 2) = Returned"
        "s' = s\<lparr>pl := (pl s)\<lparr>finished := finished (pl s) @ [n], threads := (threads (pl s))(w := Looping)\<rparr>\<rparr>"
      by (auto split: worker.splits if_splits)
    have "placed s' k" if "placed s k" "activations (st s) ! k \<noteq> Returned" for k
      using that(1)
    proof (rule placed_keep)
      show "placed s' k" if v: "threads (pl s) v = Running (2 * k)" for v
      proof -
        have "v \<noteq> w" using v n(1,2) \<open>activations (st s) ! k \<noteq> Returned\<close> by auto
        with v show ?thesis by (intro placedI(3) [of _ v]) (simp add: n(3))
      qed
    qed (unfold placed_def n(3), simp_all, blast+)
    then show ?thesis using inv' by (simp add: all_placed_def queued_once_def n(3))
  next
    case (XReturn c)
    with ex obtain k where k: "inline s c = Some k" "activations (st s) ! k = Returned"
        "s' = s\<lparr>inline := (inline s)(c := None), pool_lock := (if pool_lock s = Some c then None else pool_lock s)\<rparr>"
      by (auto split: option.splits if_splits)
    have "placed s' j" if "placed s j" "activations (st s) ! j \<noteq> Returned" for j
      using that(1)
    proof (rule placed_keep)
      show "placed s' j" if "inline s d = Some j" for d
        using that k \<open>activations (st s) ! j \<noteq> Returned\<close> by (intro placedI(4) [of _ d]) auto
    qed (unfold placed_def k(3), simp_all, blast+)
    then show ?thesis using inv' by (simp add: all_placed_def queued_once_def k(3))
  next
    case (XPool b)
    with ex obtain p where p: "pool_only b s" "pexec b (pl s) = Some p" "s' = s\<lparr>pl := p\<rparr>"
      by (auto simp del: pexec.simps split: if_splits)
    note keeps = pool_only_keeps [OF p(2,1) pinv]
    have "placed s' j" if "placed s j" for j
      using that
    proof (rule placed_keep)
      show "placed s' j" if "2 * j \<in> set (tasks (pl s))"
        using that keeps(1) by (intro placedI(1)) (simp add: p(3))
      show "placed s' j" if "callers (pl s) d = EnqLocking (2 * j)" for d
        using keeps(2) [OF that] by (intro placedI(2) [of _ d]) (simp add: p(3))
      show "placed s' j" if "threads (pl s) v = Running (2 * j)" for v
        using keeps(4) [OF that] by (intro placedI(3) [of _ v]) (simp add: p(3))
      show "placed s' j" if "inline s d = Some j" for d
        using that by (intro placedI(4) [of _ d]) (simp add: p(3))
    qed
    moreover have "queued_once (st s) p"
      unfolding queued_once_def keeps(1) using inv'(2,3,4,5) keeps(3) by blast
    ultimately show ?thesis using inv'(1) by (simp add: all_placed_def p(3))
  qed (use inv ex xinv_XPost xinv_XLock xinv_XTake in blast)+
  then show ?thesis using xinv_parts [OF inv ex] by (simp add: xinv_def)
qed

lemma xinv_init: "xinv (spool_init c)"
proof -
  have "tasks (ThreadPool c) = []" "callers (ThreadPool c) = (\<lambda>_. Rest)"
  proof -
    have "tasks (spawn_n n p) = tasks p \<and> callers (spawn_n n p) = callers p" for n p
      by (induction n arbitrary: p) simp_all
    then show "tasks (ThreadPool c) = []" "callers (ThreadPool c) = (\<lambda>_. Rest)"
      by (simp_all add: ThreadPool_def Let_def)
  qed
  then show ?thesis
    using strand_inv_init pinv_start [of c]
    by (simp add: xinv_def spool_init_def all_placed_def queued_once_def strand_init_def)
qed

interpretation xs: invariant_system "\<lambda>s. \<exists>c. s = spool_init c" spool_step xinv
  by unfold_locales (auto simp: spool_step_def acts_step_def xinv_init intro: xinv_step simp del: xexec.simps)

lemma reachable_xinv: "spool_step\<^sup>*\<^sup>* (spool_init c) s \<Longrightarrow> xinv s"
  using xs.reachable_inv by blast

text \<open>The pool is never held up by the composition: an activation it takes, or that is run in place, can start.\<close>

lemma activation_starts:
  assumes inv: "xinv s"
  shows "pool_lock s = None \<Longrightarrow> pexec (Take w) (pl s) = Some p \<Longrightarrow> xexec (XTake w) s \<noteq> None"
    and "pool_lock s = None \<Longrightarrow> inline s c = None \<Longrightarrow> pexec (EnqLock c) (pl s) = Some p \<Longrightarrow> xexec (XLock c) s \<noteq> None"
proof -
  note inv' = xinvD [OF inv]
  show "xexec (XTake w) s \<noteq> None" if lk: "pool_lock s = None" and t: "pexec (Take w) (pl s) = Some p"
  proof -
    obtain n ns where ts: "tasks (pl s) = n # ns" using t by (auto split: worker.splits list.splits)
    have "even n \<Longrightarrow> texec (SRun (n div 2)) (st s) \<noteq> None"
      using inv'(3) [of "n div 2"] ts by (simp add: waiting_def)
    with lk t ts show ?thesis by (auto simp del: texec.simps pexec.simps)
  qed
  show "xexec (XLock c) s \<noteq> None"
    if lk: "pool_lock s = None" "inline s c = None" and t: "pexec (EnqLock c) (pl s) = Some p"
  proof -
    obtain n where n: "callers (pl s) c = EnqLocking n" using t by (auto split: caller.splits)
    have "even n \<Longrightarrow> texec (SRun (n div 2)) (st s) \<noteq> None"
      using inv'(4) [of c "n div 2"] n by (simp add: waiting_def)
    with lk t n show ?thesis by (auto simp: run_inline_def simp del: texec.simps pexec.simps)
  qed
qed

section \<open>The property\<close>


text \<open>
  A schedule with every way an activation can run: on a worker, and, after \<open>Shutdown\<close> has begun, in a caller that had
  passed the first check of \<open>stopped_\<close> (under the mutex), and in one that had not.
\<close>

definition late_posts :: "xact list" where
  "late_posts = [XSubmit 1 10, XPost 1, XLock 1, XTake 0, XNext 0, XSubmit 2 20, XFinish 0, XNext 0, XFinish 0, XNext 0, XDone 0,
     XSubmit 1 30, XPost 1, XPool (Shutdown 7), XLock 1, XNext 1, XFinish 1, XNext 1, XReturn 1,
     XPool (ShutTake 7), XPool (ExitStopped 0), XPool (ShutJoin 7),
     XSubmit 2 40, XPost 2, XNext 2, XFinish 2, XNext 2, XReturn 2]"


end
