(* ===== verification/Crypt.thy ===== *)
theory Crypt
  imports Logger_Prelude
begin

text \<open>
  The cryptographic wrappers: \<open>AesGcmCipher\<close> (crypt/aes_gcm_cipher.cpp), \<open>HkdfSha256\<close>
  (crypt/kdf.cpp), \<open>X25519KeyAgreement::DeriveSharedSecret\<close> (crypt/x25519_agreement.cpp) and
  \<open>LoadServerPublicKey\<close> (crypt/server_key_loader.cpp). The primitives belong to Crypto++ and
  are arguments of the definitions: what they return is a value, and a Crypto++ exception
  is its \<open>what()\<close> string. The nonce construction, the framing of a message and every error path
  are the repository's code and are translated.
\<close>

section \<open>Crypto++ as parameters\<close>

text \<open>
  \<open>enc key iv plaintext\<close> is the pipe \<open>AuthenticatedEncryptionFilter\<close> \<open>\<rightarrow>\<close> \<open>StringSink\<close>: the
  exception text, or ciphertext and tag. The decryption pipe may have pushed bytes into
  its sink before it finds the tag wrong, so its value is the bytes it pushed together
  with how it ended.
\<close>

type_synonym gcm_enc = "bytes \<Rightarrow> bytes \<Rightarrow> bytes \<Rightarrow> string + bytes"

datatype gcm_end = Verified | NotVerified | Threw string

type_synonym gcm_dec = "bytes \<Rightarrow> bytes \<Rightarrow> bytes \<Rightarrow> bytes \<times> gcm_end"

definition kKeyBytes :: nat where "kKeyBytes = 32"
definition kNonceBytes :: nat where "kNonceBytes = 12"
definition kTagBytes :: nat where "kTagBytes = 16"

section \<open>The cipher\<close>

record cipher =
  key :: bytes
  nonce_prefix :: bytes
  counter :: u32

text \<open>\<open>rnd\<close> is what the random pool writes into the eight bytes of the nonce prefix.\<close>

definition AesGcmCipher :: "bytes \<Rightarrow> bytes \<Rightarrow> cipher res" where
  "AesGcmCipher k rnd =
     (if length k \<noteq> kKeyBytes
      then Inl (RuntimeError ''AesGcmCipher: key must be 32 bytes (AES-256)'')
      else Inr \<lparr>key = k, nonce_prefix = rnd, counter = 0\<rparr>)"

text \<open>
  \<open>fetch_add\<close> returns the old counter and always stores the incremented one, modulo
  \<open>2\<^sup>3\<^sup>2\<close>: it does so also on the call that throws.
\<close>

definition be32 :: "u32 \<Rightarrow> bytes" where
  "be32 c = [ucast (drop_bit 24 c AND 255), ucast (drop_bit 16 c AND 255),
             ucast (drop_bit 8 c AND 255), ucast (c AND 255)]"

definition BuildNonce :: "cipher \<Rightarrow> cipher \<times> bytes res" where
  "BuildNonce s =
     (let c = counter s; s' = s\<lparr>counter := c + 1\<rparr>
      in if c = - 1 then (s', Inl (RuntimeError ''AesGcmCipher: nonce counter exhausted''))
         else (s', Inr (take 8 (nonce_prefix s) @ be32 c)))"

text \<open>\<open>out\<close> is the caller's string, which both operations append to.\<close>

definition Encrypt :: "gcm_enc \<Rightarrow> cipher \<Rightarrow> bytes \<Rightarrow> bytes \<Rightarrow> cipher \<times> bytes \<times> unit res" where
  "Encrypt enc s plaintext out =
     (case BuildNonce s of
        (s', Inl e) \<Rightarrow> (s', out, Inl e)
      | (s', Inr nonce) \<Rightarrow>
          (let written_before = length out; out1 = out @ nonce
           in case enc (key s') nonce plaintext of
                Inl what \<Rightarrow>
                  (s', take written_before out1,
                   Inl (RuntimeError (''AesGcmCipher::Encrypt: '' @ what)))
              | Inr body \<Rightarrow> (s', out1 @ body, Inr ())))"

definition Decrypt :: "gcm_dec \<Rightarrow> cipher \<Rightarrow> bytes \<Rightarrow> bytes \<Rightarrow> bytes \<times> unit res" where
  "Decrypt dec s ciphertext out =
     (if length ciphertext < kNonceBytes + kTagBytes
      then (out, Inl (RuntimeError ''AesGcmCipher::Decrypt: input too short''))
      else
        (let ct_len = length ciphertext - kNonceBytes - kTagBytes;
             written_before = length out;
             (pushed, how) = dec (key s) (take kNonceBytes ciphertext)
                                 (take (ct_len + kTagBytes) (drop kNonceBytes ciphertext));
             out1 = out @ pushed
         in case how of
              Verified \<Rightarrow> (out1, Inr ())
            | NotVerified \<Rightarrow>
                (take written_before out1,
                 Inl (RuntimeError ''AesGcmCipher::Decrypt: auth tag verification failed''))
            | Threw what \<Rightarrow>
                (take written_before out1,
                 Inl (RuntimeError (''AesGcmCipher::Decrypt: '' @ what)))))"

section \<open>Key derivation and the server's key\<close>

definition HkdfSha256 ::
  "(nat \<Rightarrow> bytes \<Rightarrow> bytes \<Rightarrow> bytes \<Rightarrow> string + bytes) \<Rightarrow>
     bytes \<Rightarrow> bytes \<Rightarrow> bytes \<Rightarrow> nat \<Rightarrow> bytes \<Rightarrow> bytes \<times> unit res" where
  "HkdfSha256 hkdf secret salt info out_len out =
     (if out_len = 0 then (out, Inr ())
      else case hkdf out_len secret salt info of
             Inl what \<Rightarrow> (out, Inl (RuntimeError (''HkdfSha256: '' @ what)))
           | Inr buf \<Rightarrow> (out @ buf, Inr ()))"

text \<open>
  \<open>eph\<close> is the private key the random pool generates, \<open>pub\<close> and \<open>agree\<close> are Crypto++'s
  \<open>GeneratePublicKey\<close> and \<open>Agree\<close> (\<open>None\<close> when \<open>Agree\<close> returns false). The result is the pair
  of output strings: the ephemeral public key and the shared secret.
\<close>

definition DeriveSharedSecret ::
  "(bytes \<Rightarrow> bytes) \<Rightarrow> (bytes \<Rightarrow> bytes \<Rightarrow> bytes option) \<Rightarrow> bytes \<Rightarrow> bytes \<Rightarrow> (bytes \<times> bytes) res" where
  "DeriveSharedSecret pub agree eph peer_public =
     (if length peer_public \<noteq> 32
      then Inl (RuntimeError ''X25519KeyAgreement: peer_public must be 32 bytes'')
      else case agree eph peer_public of
             None \<Rightarrow> Inl (RuntimeError ''X25519KeyAgreement: Agree() failed'')
           | Some shared \<Rightarrow> Inr (pub eph, shared))"

text \<open>What the file system replies about the key file.\<close>

record key_file =
  kf_exists :: bool
  kf_exists_ec :: bool
  kf_size :: "nat option"
  kf_opens :: bool
  kf_content :: bytes

definition LoadServerPublicKey :: "string \<Rightarrow> key_file \<Rightarrow> bytes res" where
  "LoadServerPublicKey path f =
     (if \<not> kf_exists f \<or> kf_exists_ec f
      then Inl (RuntimeError (''server public key file does not exist: '' @ path))
      else case kf_size f of
             None \<Rightarrow> Inl (RuntimeError (''failed to stat server public key file: '' @ path))
           | Some sz \<Rightarrow>
               if sz \<noteq> 32
               then Inl (RuntimeError (''server public key size mismatch (expect 32 raw bytes), got ''
                      @ dec_digits sz @ '' at '' @ path))
               else if \<not> kf_opens f
               then Inl (RuntimeError (''failed to open server public key file: '' @ path))
               else if length (take 32 (kf_content f)) \<noteq> 32
               then Inl (RuntimeError (''short read on server public key file: '' @ path))
               else Inr (take 32 (kf_content f)))"

section \<open>Nonces\<close>

text \<open>The counter's bytes determine it.\<close>

lemma be32_rev: "be32 c = rev (encode_le32 c)"
  by (simp add: be32_def encode_le32_def)

lemma be32_inj: "be32 c = be32 d \<longleftrightarrow> c = d"
  by (metis be32_rev decode_encode_le32 rev_rev_ident)

lemma length_be32 [simp]: "length (be32 c) = 4"
  by (simp add: be32_def)

lemma BuildNonce_state: "fst (BuildNonce s) = s\<lparr>counter := counter s + 1\<rparr>"
  by (simp add: BuildNonce_def Let_def)

text \<open>
  \<open>Encrypt\<close> takes exactly one nonce, whatever its outcome, and concurrent callers take
  theirs by an atomic \<open>fetch_add\<close>: the \<open>i\<close>-th call of any schedule draws the nonce of the
  \<open>i\<close>-th state of this sequence.
\<close>

primrec after_calls :: "gcm_enc \<Rightarrow> bytes list \<Rightarrow> cipher \<Rightarrow> cipher" where
  "after_calls enc [] s = s"
| "after_calls enc (p # ps) s = after_calls enc ps (fst (Encrypt enc s p []))"

lemma Encrypt_state: "fst (Encrypt enc s p out) = s\<lparr>counter := counter s + 1\<rparr>"
proof -
  obtain s' r where b: "BuildNonce s = (s', r)" by (cases "BuildNonce s")
  with BuildNonce_state [of s] have "s' = s\<lparr>counter := counter s + 1\<rparr>" by simp
  with b show ?thesis
    by (cases r) (simp_all add: Encrypt_def Let_def split: sum.splits)
qed

lemma after_calls_state:
  "after_calls enc ps s = s\<lparr>counter := counter s + of_nat (length ps)\<rparr>"
  by (induction ps arbitrary: s) (simp_all add: Encrypt_state algebra_simps)

lemma nonce_of_counter:
  "snd (BuildNonce s) =
     (if counter s = - 1 then Inl (RuntimeError ''AesGcmCipher: nonce counter exhausted'')
      else Inr (take 8 (nonce_prefix s) @ be32 (counter s)))"
  by (simp add: BuildNonce_def Let_def)

lemma of_nat_u32_eq: "i < 2 ^ 32 \<Longrightarrow> (of_nat i :: u32) = - 1 \<longleftrightarrow> i = 2 ^ 32 - 1"
proof -
  assume i: "i < 2 ^ 32"
  have "unat (- 1 :: u32) = 2 ^ 32 - 1" by (simp add: unsigned_minus_1_eq_mask mask_eq_exp_minus_1)
  with i show ?thesis by (metis unat_of_nat32 word_unat_eq_iff)
qed

lemma of_nat_u32_inj: "i < 2 ^ 32 \<Longrightarrow> j < 2 ^ 32 \<Longrightarrow> (of_nat i :: u32) = of_nat j \<longleftrightarrow> i = j"
  by (metis unat_of_nat32)

lemma of_nat_u32_wrap: "(of_nat (2 ^ 32 + i) :: u32) = of_nat i"
  by simp

lemma calls_counter:
  assumes "AesGcmCipher k rnd = Inr s"
  shows "counter (after_calls enc ps s) = of_nat (length ps)"
    and "nonce_prefix (after_calls enc ps s) = rnd" and "key (after_calls enc ps s) = k"
  using assms by (auto simp: AesGcmCipher_def after_calls_state split: if_splits)

lemma Encrypt_cases:
  "Encrypt enc s p out = (s', out', r) \<Longrightarrow>
     (\<exists>e. r = Inl e \<and> out' = out)
     \<or> (\<exists>body. r = Inr () \<and> counter s \<noteq> - 1 \<and>
          enc (key s) (take 8 (nonce_prefix s) @ be32 (counter s)) p = Inr body \<and>
          out' = out @ take 8 (nonce_prefix s) @ be32 (counter s) @ body)"
  by (auto simp: Encrypt_def BuildNonce_def Let_def split: if_splits sum.splits)

text \<open>What an AEAD promises: it opens what it sealed, and the tag adds 16 bytes.\<close>

definition aead :: "gcm_enc \<Rightarrow> gcm_dec \<Rightarrow> bool" where
  "aead enc dec \<longleftrightarrow>
     (\<forall>k iv p body. enc k iv p = Inr body \<longrightarrow>
        length body = length p + kTagBytes \<and> dec k iv body = (p, Verified))"

section \<open>Properties\<close>

text \<open>
  C19. Nonces do not repeat. Two of the first \<open>2\<^sup>3\<^sup>2 - 1\<close> calls of \<open>Encrypt\<close> on one cipher that
  both succeed begin their messages with different 12-byte nonces, whatever was encrypted
  in between and whichever of those calls failed.
\<close>

theorem nonces_never_repeat:
  assumes "AesGcmCipher k rnd = Inr s" and "length rnd = 8"
    and "length qs < length ps" and "length ps < 2 ^ 32 - 1"
    and "Encrypt enc (after_calls enc ps s) p [] = (s1, m, Inr ())"
    and "Encrypt enc (after_calls enc qs s) q [] = (s2, n, Inr ())"
  shows "take kNonceBytes m = rnd @ be32 (of_nat (length ps))
    \<and> take kNonceBytes n = rnd @ be32 (of_nat (length qs))
    \<and> take kNonceBytes m \<noteq> take kNonceBytes n"
proof -
  have ne: "(of_nat (length ps) :: u32) \<noteq> of_nat (length qs)"
    using assms(3,4) of_nat_u32_inj [of "length ps" "length qs"] by simp
  have "take kNonceBytes m = rnd @ be32 (of_nat (length ps))"
    using Encrypt_cases [OF assms(5)] assms(2) by (auto simp: calls_counter [OF assms(1)] kNonceBytes_def)
  moreover have "take kNonceBytes n = rnd @ be32 (of_nat (length qs))"
    using Encrypt_cases [OF assms(6)] assms(2) by (auto simp: calls_counter [OF assms(1)] kNonceBytes_def)
  ultimately show ?thesis using ne by (simp add: be32_inj)
qed

lemma nonces_never_repeat_witness:
  "\<exists>s s1 s2 m n.
     AesGcmCipher (replicate 32 7) (replicate 8 1) = Inr s
     \<and> Encrypt (\<lambda>k iv p. Inr (p @ replicate 16 0)) (after_calls (\<lambda>k iv p. Inr (p @ replicate 16 0)) [[1], [2]] s) [5] []
         = (s1, m, Inr ())
     \<and> Encrypt (\<lambda>k iv p. Inr (p @ replicate 16 0)) s [6] [] = (s2, n, Inr ())
     \<and> take kNonceBytes m \<noteq> take kNonceBytes n"
proof -
  define enc :: gcm_enc where "enc = (\<lambda>k iv p. Inr (p @ replicate 16 0))"
  define s where "s = \<lparr>key = replicate 32 7, nonce_prefix = replicate 8 1, counter = 0\<rparr>"
  have s: "AesGcmCipher (replicate 32 7) (replicate 8 1) = Inr s"
    by (simp add: AesGcmCipher_def kKeyBytes_def s_def)
  obtain s1 m where 1: "Encrypt enc (after_calls enc [[1], [2]] s) [5] [] = (s1, m, Inr ())"
    by (simp add: after_calls_state Encrypt_def BuildNonce_def s_def enc_def)
  obtain s2 n where 2: "Encrypt enc (after_calls enc [] s) [6] [] = (s2, n, Inr ())"
    by (simp add: Encrypt_def BuildNonce_def s_def enc_def)
  have "take kNonceBytes m \<noteq> take kNonceBytes n"
    by (rule nonces_never_repeat [OF s _ _ _ 1 2, THEN conjunct2, THEN conjunct2]) simp_all
  with s 1 2 [simplified] show ?thesis unfolding enc_def by (auto simp del: after_calls.simps)
qed

text \<open>
  The guard against counter wrap-around fires once only. The call after \<open>2\<^sup>3\<^sup>2 - 1\<close>
  others throws and leaves its output alone, but it has already stored the wrapped
  counter: the next call encrypts under the same nonce as the first message of this key.
\<close>

theorem nonce_guard_fires_once:
  assumes "AesGcmCipher k rnd = Inr s" and "length ps = 2 ^ 32 - 1"
  shows "snd (Encrypt enc (after_calls enc ps s) p out)
       = (out, Inl (RuntimeError ''AesGcmCipher: nonce counter exhausted''))
    \<and> Encrypt enc (after_calls enc (ps @ [p]) s) p' out = Encrypt enc s p' out"
proof -
  have "counter (after_calls enc ps s) = - 1"
    using of_nat_u32_eq [of "2 ^ 32 - 1"] by (simp add: calls_counter [OF assms(1)] assms(2))
  moreover have "after_calls enc (ps @ [p]) s = s"
  proof -
    have c: "counter s = 0" using calls_counter(1) [OF assms(1), of enc "[]"] by simp
    have "length (ps @ [p]) = 2 ^ 32 + 0" using assms(2) by simp
    then have "(of_nat (length (ps @ [p])) :: u32) = of_nat 0"
      by (simp only: of_nat_u32_wrap)
    with c show ?thesis by (simp add: after_calls_state del: length_append)
  qed
  ultimately show ?thesis
    by (simp add: Encrypt_def BuildNonce_def Let_def)
qed

lemma nonce_guard_fires_once_witness:
  "Encrypt (\<lambda>k iv p. Inr p)
     (after_calls (\<lambda>k iv p. Inr p) (replicate (2 ^ 32 - 1) [0] @ [[1]])
        \<lparr>key = replicate 32 7, nonce_prefix = replicate 8 1, counter = 0\<rparr>) [9] []
   = Encrypt (\<lambda>k iv p. Inr p)
        \<lparr>key = replicate 32 7, nonce_prefix = replicate 8 1, counter = 0\<rparr> [9] []"
proof -
  have "AesGcmCipher (replicate 32 7) (replicate 8 1)
      = Inr \<lparr>key = replicate 32 7, nonce_prefix = replicate 8 1, counter = 0\<rparr>"
    by (simp add: AesGcmCipher_def kKeyBytes_def)
  from nonce_guard_fires_once [OF this length_replicate, of "\<lambda>k iv p. Inr p" "[0]" "[1]" "[]" "[9]"]
  show ?thesis by (rule conjunct2)
qed


text \<open>
  C30. Encryption and decryption either append their whole result or leave the output
  string as it was: a rejected tag, a short input, an exhausted counter and an exception
  of the library, whatever it had already pushed, all restore it.
\<close>

theorem cipher_all_or_nothing:
  "(case Encrypt enc s p out of
      (s', out', Inl e) \<Rightarrow> out' = out
    | (s', out', Inr u) \<Rightarrow> \<exists>body. enc (key s) (take 8 (nonce_prefix s) @ be32 (counter s)) p = Inr body
        \<and> out' = out @ take 8 (nonce_prefix s) @ be32 (counter s) @ body)
   \<and> (case Decrypt dec s c out of
      (out', Inl e) \<Rightarrow> out' = out
    | (out', Inr u) \<Rightarrow> kNonceBytes + kTagBytes \<le> length c \<and>
        dec (key s) (take kNonceBytes c) (drop kNonceBytes c) = (drop (length out) out', Verified)
        \<and> take (length out) out' = out)"
proof (rule conjI, goal_cases)
  case 1
  obtain s' out' r where e: "Encrypt enc s p out = (s', out', r)" by (cases "Encrypt enc s p out") auto
  with Encrypt_cases [OF e] show ?case by auto
next
  case 2
  show ?case
    by (cases "dec (key s) (take kNonceBytes c) (drop kNonceBytes c)")
      (auto simp: Decrypt_def Let_def split: gcm_end.splits)
qed

text \<open>
  C20. Round trip. When the AEAD opens what it sealed under the same key and nonce, a message
  that \<open>Encrypt\<close> produced decrypts, under any cipher holding the same key, to exactly the plaintext,
  and it is 28 bytes longer than the plaintext.
\<close>

theorem cipher_roundtrip:
  assumes "aead enc dec" and "length (nonce_prefix s) = 8"
    and "Encrypt enc s p [] = (s', m, Inr ())" and "key r = key s"
  shows "length m = length p + 28 \<and> Decrypt dec r m out = (out @ p, Inr ())"
proof -
  from Encrypt_cases [OF assms(3)] obtain body
    where b: "enc (key s) (take 8 (nonce_prefix s) @ be32 (counter s)) p = Inr body"
      and m: "m = (take 8 (nonce_prefix s) @ be32 (counter s)) @ body" by auto
  from assms(1) b have l: "length body = length p + kTagBytes"
    and d: "dec (key s) (take 8 (nonce_prefix s) @ be32 (counter s)) body = (p, Verified)"
    by (auto simp: aead_def)
  have n: "length (take 8 (nonce_prefix s) @ be32 (counter s)) = kNonceBytes"
    using assms(2) by (simp add: kNonceBytes_def)
  then have t: "take kNonceBytes m = take 8 (nonce_prefix s) @ be32 (counter s)"
    and b': "drop kNonceBytes m = body"
    using m n by (metis append_eq_conv_conj)+
  have lm: "length m = kNonceBytes + length body" using m n by simp
  have "Decrypt dec r m out = (out @ p, Inr ())"
    using l lm d t b' assms(4) by (simp add: Decrypt_def Let_def)
  moreover have "length m = length p + 28"
    using l lm by (simp add: kNonceBytes_def kTagBytes_def)
  ultimately show ?thesis by simp
qed

lemma cipher_roundtrip_witness:
  "let enc = (\<lambda>k iv p. Inr (p @ replicate 16 (last k)));
       dec = (\<lambda>k iv b. if drop (length b - 16) b = replicate 16 (last k)
                        then (take (length b - 16) b, Verified) else ([], Threw ''HashVerificationFailed''));
       s = \<lparr>key = replicate 32 7, nonce_prefix = replicate 8 1, counter = 5\<rparr>
   in Decrypt dec s (fst (snd (Encrypt enc s [1, 2, 3] []))) [9] = ([9, 1, 2, 3], Inr ())"
proof -
  let ?enc = "\<lambda>k iv p. Inr (p @ replicate 16 (last k))"
  let ?dec = "\<lambda>k iv b. if drop (length b - 16) b = replicate 16 (last k)
      then (take (length b - 16) b, Verified) else ([], Threw ''HashVerificationFailed'')"
  let ?s = "\<lparr>key = replicate 32 7, nonce_prefix = replicate 8 1, counter = 5\<rparr>"
  have a: "aead ?enc ?dec" by (auto simp: aead_def kTagBytes_def)
  obtain s' m where e: "Encrypt ?enc ?s [1, 2, 3] [] = (s', m, Inr ())"
    by (simp add: Encrypt_def BuildNonce_def)
  from cipher_roundtrip [OF a _ e refl, of "[9]"] e show ?thesis by simp
qed

text \<open>
  \<open>LoadServerPublicKey\<close> returns a key only when the file exists, is reported as exactly
  32 bytes long, opens and delivers 32 bytes, and then returns exactly those bytes; every
  other reply of the file system is an error whose message names the path.
\<close>

theorem server_key_checked:
  "case LoadServerPublicKey path f of
     Inr k \<Rightarrow> kf_exists f \<and> \<not> kf_exists_ec f \<and> kf_size f = Some 32 \<and> kf_opens f
       \<and> length k = 32 \<and> (\<exists>rest. kf_content f = k @ rest)
   | Inl (RuntimeError m) \<Rightarrow> (\<exists>why. m = why @ path)
       \<and> (\<not> kf_exists f \<or> kf_exists_ec f \<or> kf_size f \<noteq> Some 32 \<or> \<not> kf_opens f \<or> length (kf_content f) < 32)
   | Inl (SystemError n m) \<Rightarrow> False"
proof -
  have len: "length (take 32 (kf_content f)) = 32 \<Longrightarrow>
      \<exists>rest. kf_content f = take 32 (kf_content f) @ rest"
    by (metis append_take_drop_id)
  have suffix: "\<exists>why. ''server public key size mismatch (expect 32 raw bytes), got '' @ ds @ '' at '' @ path
      = why @ path" for ds :: string
    by (metis append.assoc)
  consider "\<not> kf_exists f \<or> kf_exists_ec f" | "kf_exists f" "\<not> kf_exists_ec f" "kf_size f = None"
    | sz where "kf_exists f" "\<not> kf_exists_ec f" "kf_size f = Some sz" "sz \<noteq> 32"
    | "kf_exists f" "\<not> kf_exists_ec f" "kf_size f = Some 32"
    by (cases "kf_size f") auto
  then show ?thesis
  proof cases
    case 3
    then show ?thesis using suffix [of "dec_digits sz"] by (simp add: LoadServerPublicKey_def)
  qed (use len in \<open>auto simp: LoadServerPublicKey_def\<close>)
qed

end
