(* ===== verification/Zlib.thy ===== *)
theory Zlib
  imports Logger_Prelude
begin

text \<open>
  \<open>ZlibCompressor\<close> (compress/zlib_compressor.cpp). zlib's \<open>deflate\<close> and \<open>inflate\<close> are arguments: a
  call maps the stream state, the bytes available at \<open>next_in\<close> and the room at \<open>next_out\<close> to
  the new state, the number of bytes it consumed, the bytes it produced and its return code.
  What the repository adds around them, the feeding of the input and of the output buffer
  in pieces of at most 1 GiB, the growth of the output and the loop that stops on a
  return code, is translated; the two loops may run for ever and are partial functions.
\<close>

section \<open>zlib as parameters\<close>

type_synonym 'z inflate = "'z \<Rightarrow> bytes \<Rightarrow> nat \<Rightarrow> 'z \<times> nat \<times> bytes \<times> int"
type_synonym 'z deflate = "'z \<Rightarrow> bool \<Rightarrow> bytes \<Rightarrow> nat \<Rightarrow> 'z \<times> nat \<times> bytes \<times> int"

definition Z_OK :: int where "Z_OK = 0"
definition Z_STREAM_END :: int where "Z_STREAM_END = 1"
definition Z_BUF_ERROR :: int where "Z_BUF_ERROR = - 5"

lemma z_codes [simp]:
  "Z_OK \<noteq> Z_STREAM_END" "Z_BUF_ERROR \<noteq> Z_STREAM_END" "Z_STREAM_END \<noteq> Z_OK" "Z_STREAM_END \<noteq> Z_BUF_ERROR"
  by (simp_all add: Z_OK_def Z_STREAM_END_def Z_BUF_ERROR_def)

section \<open>The compressor\<close>

definition ThrowZlib :: "string \<Rightarrow> int \<Rightarrow> exn" where
  "ThrowZlib what ret = RuntimeError (''ZlibCompressor: '' @ what @ '' failed, ret='' @ dec_int ret)"

definition kChunkLimit :: nat where "kChunkLimit = 2 ^ 30"

lemma kChunkLimit_pos [simp]: "0 < kChunkLimit"
  by (simp add: kChunkLimit_def)

definition chunk :: "nat \<Rightarrow> nat" where
  "chunk n = (if n > kChunkLimit then kChunkLimit else n)"

lemma chunk_le: "chunk n \<le> n"
  by (simp add: chunk_def)

lemma chunk_0 [simp]: "chunk n = 0 \<longleftrightarrow> n = 0"
  by (simp add: chunk_def)

definition ZlibCompressor :: "int \<Rightarrow> int res" where
  "ZlibCompressor lvl =
     (if lvl < 1 \<or> lvl > 9 then Inl (RuntimeError ''ZlibCompressor: level out of range (1..9)'')
      else Inr lvl)"

text \<open>\<open>std::string::resize\<close>.\<close>

definition resize :: "nat \<Rightarrow> bytes \<Rightarrow> bytes" where
  "resize n xs = take n xs @ replicate (n - length xs) 0"

text \<open>
  The locals of the two functions: the \<open>z_stream\<close> with its pointers as indices into \<open>in\<close> and
  \<open>out\<close>, what is still to be handed over, and the caller's string. \<open>out_left\<close> and \<open>zfinish\<close>
  belong to \<open>Compress\<close>, \<open>out_cap\<close> to \<open>Decompress\<close>.
\<close>

record 'z zloop =
  zs :: 'z
  next_in :: nat
  avail_in :: nat
  in_left :: nat
  zout :: bytes
  next_out :: nat
  avail_out :: nat
  total_out :: nat
  out_left :: nat
  out_cap :: nat
  zfinish :: bool

text \<open>One call of the library: it advances both pointers by what it used.\<close>

definition zcall ::
  "('z \<Rightarrow> bytes \<Rightarrow> nat \<Rightarrow> 'z \<times> nat \<times> bytes \<times> int) \<Rightarrow> bytes \<Rightarrow> 'z zloop \<Rightarrow> 'z zloop \<times> int" where
  "zcall f inp s =
     (case f (zs s) (take (avail_in s) (drop (next_in s) inp)) (avail_out s) of
        (z', k, produced, ret) \<Rightarrow>
          (s\<lparr>zs := z', next_in := next_in s + k, avail_in := avail_in s - k,
             zout := mem_write (zout s) (next_out s) produced,
             next_out := next_out s + length produced,
             avail_out := avail_out s - length produced,
             total_out := total_out s + length produced\<rparr>, ret))"

definition refill_in :: "bytes \<Rightarrow> 'z zloop \<Rightarrow> 'z zloop" where
  "refill_in inp s =
     (if avail_in s = 0 \<and> in_left s > 0
      then s\<lparr>next_in := length inp - in_left s, avail_in := chunk (in_left s),
             in_left := in_left s - chunk (in_left s)\<rparr>
      else s)"

subsection \<open>Decompress\<close>

definition decomp_start :: "'z \<Rightarrow> bytes \<Rightarrow> bytes \<Rightarrow> 'z zloop" where
  "decomp_start z inp out =
     (let cap = (if length inp = 0 then 64 else length inp * 4)
      in \<lparr>zs = z, next_in = 0, avail_in = chunk (length inp),
          in_left = length inp - chunk (length inp),
          zout = resize (length out + cap) out, next_out = length out, avail_out = chunk cap,
          total_out = 0, out_left = 0, out_cap = cap, zfinish = False\<rparr>)"

definition grow_out :: "nat \<Rightarrow> 'z zloop \<Rightarrow> 'z zloop" where
  "grow_out written_before s =
     (if avail_out s = 0
      then s\<lparr>out_cap := out_cap s * 2,
             zout := resize (written_before + out_cap s * 2) (zout s),
             next_out := written_before + total_out s,
             avail_out := chunk (out_cap s * 2 - total_out s)\<rparr>
      else s)"

partial_function (option) decomp_loop ::
  "'z inflate \<Rightarrow> bytes \<Rightarrow> nat \<Rightarrow> 'z zloop \<Rightarrow> (bytes \<times> unit res) option" where
  "decomp_loop infl inp written_before s =
     (case zcall infl inp s of (s1, ret) \<Rightarrow>
        if ret = Z_STREAM_END
        then Some (resize (written_before + total_out s1) (zout s1), Inr ())
        else if ret \<noteq> Z_OK \<and> ret \<noteq> Z_BUF_ERROR
        then Some (zout s1, Inl (ThrowZlib ''inflate'' ret))
        else decomp_loop infl inp written_before (grow_out written_before (refill_in inp s1)))"

text \<open>\<open>init\<close> is the return code and the stream state of \<open>inflateInit2\<close>; \<open>None\<close> is a call that does not return.\<close>

definition Decompress ::
  "'z inflate \<Rightarrow> int \<times> 'z \<Rightarrow> bytes \<Rightarrow> bytes \<Rightarrow> (bytes \<times> unit res) option" where
  "Decompress infl init inp out =
     (if fst init \<noteq> Z_OK then Some (out, Inl (ThrowZlib ''inflateInit2'' (fst init)))
      else decomp_loop infl inp (length out) (decomp_start (snd init) inp out))"

subsection \<open>Compress\<close>

definition comp_start :: "'z \<Rightarrow> nat \<Rightarrow> bytes \<Rightarrow> bytes \<Rightarrow> 'z zloop" where
  "comp_start z bound inp out =
     \<lparr>zs = z, next_in = 0, avail_in = chunk (length inp),
      in_left = length inp - chunk (length inp),
      zout = resize (length out + bound) out, next_out = length out, avail_out = chunk bound,
      total_out = 0, out_left = bound - chunk bound, out_cap = 0,
      zfinish = (length inp - chunk (length inp) = 0)\<rparr>"

text \<open>The last piece of input switches the flush argument to \<open>Z_FINISH\<close>.\<close>

definition refill_comp :: "bytes \<Rightarrow> 'z zloop \<Rightarrow> 'z zloop" where
  "refill_comp inp s =
     (if avail_in s = 0 \<and> in_left s > 0
      then (let s1 = refill_in inp s in if in_left s1 = 0 then s1\<lparr>zfinish := True\<rparr> else s1)
      else s)"

definition refill_out :: "'z zloop \<Rightarrow> 'z zloop" where
  "refill_out s =
     (if avail_out s = 0 \<and> out_left s > 0
      then s\<lparr>next_out := length (zout s) - out_left s, avail_out := chunk (out_left s),
             out_left := out_left s - chunk (out_left s)\<rparr>
      else s)"

partial_function (option) comp_loop ::
  "'z deflate \<Rightarrow> bytes \<Rightarrow> nat \<Rightarrow> 'z zloop \<Rightarrow> (bytes \<times> unit res) option" where
  "comp_loop defl inp written_before s =
     (case zcall (\<lambda>z. defl z (zfinish s)) inp s of (s1, ret) \<Rightarrow>
        if ret = Z_STREAM_END
        then Some (resize (written_before + total_out s1) (zout s1), Inr ())
        else if ret \<noteq> Z_OK \<and> ret \<noteq> Z_BUF_ERROR
        then Some (zout s1, Inl (ThrowZlib ''deflate'' ret))
        else comp_loop defl inp written_before (refill_out (refill_comp inp s1)))"

text \<open>\<open>bound\<close> is \<open>deflateBound\<close> as a function of the input's length.\<close>

definition Compress ::
  "'z deflate \<Rightarrow> (nat \<Rightarrow> nat) \<Rightarrow> int \<times> 'z \<Rightarrow> bytes \<Rightarrow> bytes \<Rightarrow> (bytes \<times> unit res) option" where
  "Compress defl bound init inp out =
     (if fst init \<noteq> Z_OK then Some (out, Inl (ThrowZlib ''deflateInit2'' (fst init)))
      else comp_loop defl inp (length out) (comp_start (snd init) (bound (length inp)) inp out))"

section \<open>What zlib documents\<close>

text \<open>
  \<open>inflates infl R\<close>: \<open>R z cs ps\<close> reads "the rest of the stream is \<open>cs\<close> and it still decompresses to
  \<open>ps\<close>". A call consumes a prefix of what it is given and produces the next bytes; it
  reports the end only at the end, and it stops early only when the room is used up or when
  it has used all the input given and the stream goes on.
\<close>

definition inflates :: "'z inflate \<Rightarrow> ('z \<Rightarrow> bytes \<Rightarrow> bytes \<Rightarrow> bool) \<Rightarrow> bool" where
  "inflates infl R \<longleftrightarrow>
     (\<forall>z w rest ps room z' k p ret. R z (w @ rest) ps \<longrightarrow> infl z w room = (z', k, p, ret) \<longrightarrow>
        k \<le> length w \<and> length p \<le> room \<and> ret \<in> {Z_OK, Z_STREAM_END, Z_BUF_ERROR} \<and>
        (\<exists>ps'. ps = p @ ps' \<and>
           (if ret = Z_STREAM_END then drop k (w @ rest) = [] \<and> ps' = []
            else R z' (drop k (w @ rest)) ps')) \<and>
        (length p = room \<or> k = length w \<and> rest \<noteq> [] \<or> ret = Z_STREAM_END))"

lemma inflatesD:
  assumes "inflates infl R" and "R z (w @ rest) ps" and "infl z w room = (z', k, p, ret)"
  obtains ps' where "k \<le> length w" "length p \<le> room" "ret \<in> {Z_OK, Z_STREAM_END, Z_BUF_ERROR}"
    "ps = p @ ps'" "ret \<noteq> Z_STREAM_END \<Longrightarrow> R z' (drop k (w @ rest)) ps'"
    "ret = Z_STREAM_END \<Longrightarrow> drop k (w @ rest) = [] \<and> ps' = []"
    "length p = room \<or> k = length w \<and> rest \<noteq> [] \<or> ret = Z_STREAM_END"
proof -
  from assms have "k \<le> length w \<and> length p \<le> room \<and> ret \<in> {Z_OK, Z_STREAM_END, Z_BUF_ERROR} \<and>
        (\<exists>ps'. ps = p @ ps' \<and>
           (if ret = Z_STREAM_END then drop k (w @ rest) = [] \<and> ps' = []
            else R z' (drop k (w @ rest)) ps')) \<and>
        (length p = room \<or> k = length w \<and> rest \<noteq> [] \<or> ret = Z_STREAM_END)"
    unfolding inflates_def by blast
  then show ?thesis by (elim conjE exE) (rule that; simp)
qed

text \<open>
  \<open>deflates defl bound R\<close>: \<open>R z fed made\<close> reads "\<open>z\<close> has been given \<open>fed\<close> and has produced \<open>made\<close>";
  when the end is reported the whole of \<open>made\<close> is a compressed form of the whole of \<open>fed\<close>
  (\<open>zipped\<close>). With \<open>Z_FINISH\<close> a call ends early only for want of room, and never when the room
  makes up \<open>deflateBound\<close> bytes, which grow with the input. Nothing is promised after the end.
\<close>

definition deflate_promise ::
  "(nat \<Rightarrow> nat) \<Rightarrow> (bytes \<Rightarrow> bytes \<Rightarrow> bool) \<Rightarrow> ('z \<Rightarrow> bytes \<Rightarrow> bytes \<Rightarrow> bool) \<Rightarrow>
     bytes \<Rightarrow> bytes \<Rightarrow> bool \<Rightarrow> bytes \<Rightarrow> nat \<Rightarrow> 'z \<times> nat \<times> bytes \<times> int \<Rightarrow> bool" where
  "deflate_promise bound zipped R fed made fin w room reply \<longleftrightarrow>
     (case reply of (z', k, p, ret) \<Rightarrow>
        k \<le> length w \<and> length p \<le> room \<and> ret \<in> {Z_OK, Z_STREAM_END, Z_BUF_ERROR} \<and>
        (if ret = Z_STREAM_END then fin \<and> k = length w \<and> zipped (fed @ w) (made @ p)
         else R z' (fed @ take k w) (made @ p) \<and>
           (length p = room \<and> length (made @ p) < bound (length (fed @ w)) \<or> \<not> fin \<and> k = length w)))"

definition deflates ::
  "'z deflate \<Rightarrow> (nat \<Rightarrow> nat) \<Rightarrow> (bytes \<Rightarrow> bytes \<Rightarrow> bool) \<Rightarrow> ('z \<Rightarrow> bytes \<Rightarrow> bytes \<Rightarrow> bool) \<Rightarrow> bool" where
  "deflates defl bound zipped R \<longleftrightarrow>
     (\<forall>m n. m \<le> n \<longrightarrow> bound m \<le> bound n) \<and>
     (\<forall>z fed made fin w room. R z fed made \<longrightarrow>
        deflate_promise bound zipped R fed made fin w room (defl z fin w room))"

lemma deflatesD:
  assumes "deflates defl bound zipped R" and "R z fed made" and "defl z fin w room = (z', k, p, ret)"
  shows "k \<le> length w" "length p \<le> room" "ret \<in> {Z_OK, Z_STREAM_END, Z_BUF_ERROR}"
    "ret \<noteq> Z_STREAM_END \<Longrightarrow> R z' (fed @ take k w) (made @ p)" "m \<le> n \<Longrightarrow> bound m \<le> bound n"
    "ret = Z_STREAM_END \<Longrightarrow> fin \<and> k = length w \<and> zipped (fed @ w) (made @ p)"
    "ret \<noteq> Z_STREAM_END \<Longrightarrow>
       length p = room \<and> length (made @ p) < bound (length (fed @ w)) \<or> \<not> fin \<and> k = length w"
proof -
  from assms(1,2) have "deflate_promise bound zipped R fed made fin w room (defl z fin w room)"
    and "m \<le> n \<Longrightarrow> bound m \<le> bound n" unfolding deflates_def by blast+
  then show "k \<le> length w" "length p \<le> room" "ret \<in> {Z_OK, Z_STREAM_END, Z_BUF_ERROR}"
    "ret \<noteq> Z_STREAM_END \<Longrightarrow> R z' (fed @ take k w) (made @ p)" "m \<le> n \<Longrightarrow> bound m \<le> bound n"
    "ret = Z_STREAM_END \<Longrightarrow> fin \<and> k = length w \<and> zipped (fed @ w) (made @ p)"
    "ret \<noteq> Z_STREAM_END \<Longrightarrow>
       length p = room \<and> length (made @ p) < bound (length (fed @ w)) \<or> \<not> fin \<and> k = length w"
    by (simp_all add: deflate_promise_def assms(3))
qed

section \<open>The decompression loop\<close>

text \<open>
  The state of the input side between two calls: the stream still to be read is what lies at
  \<open>next_in\<close>, and the window is empty only when nothing is left to hand over.
\<close>

definition feeding :: "bytes \<Rightarrow> 'z zloop \<Rightarrow> bool" where
  "feeding inp s \<longleftrightarrow> next_in s + avail_in s + in_left s = length inp"

definition window :: "bytes \<Rightarrow> 'z zloop \<Rightarrow> bytes" where
  "window inp s = take (avail_in s) (drop (next_in s) inp)"

lemma feeding_window:
  "feeding inp s \<Longrightarrow> length (window inp s) = avail_in s
     \<and> drop (next_in s) inp = window inp s @ drop (next_in s + avail_in s) inp"
  by (simp add: feeding_def window_def add.commute) (metis append_take_drop_id drop_drop add.commute)

lemma refill_feeding:
  assumes "feeding inp s"
  shows "feeding inp (refill_in inp s)" and "next_in (refill_in inp s) = next_in s"
    and "avail_in (refill_in inp s) = 0 \<Longrightarrow> in_left (refill_in inp s) = 0"
    and "avail_in (refill_in inp s) = 0 \<Longrightarrow> next_in s = length inp"
proof -
  have "chunk (in_left s) \<le> in_left s" by (rule chunk_le)
  with assms show "feeding inp (refill_in inp s)" and "next_in (refill_in inp s) = next_in s"
    by (auto simp: feeding_def refill_in_def)
  show "avail_in (refill_in inp s) = 0 \<Longrightarrow> in_left (refill_in inp s) = 0"
    by (auto simp: refill_in_def split: if_splits)
  show "avail_in (refill_in inp s) = 0 \<Longrightarrow> next_in s = length inp"
    using assms by (auto simp: feeding_def refill_in_def split: if_splits)
qed

text \<open>The output side: the bytes made so far stand behind the old contents of the string.\<close>

definition holding :: "bytes \<Rightarrow> bytes \<Rightarrow> 'z zloop \<Rightarrow> bool" where
  "holding out made s \<longleftrightarrow>
     (\<exists>pad. zout s = out @ made @ pad \<and> avail_out s \<le> length pad)
     \<and> next_out s = length out + length made \<and> total_out s = length made"

lemma zcall_fields:
  assumes "zcall f inp s = (s1, ret)"
  obtains z' k p where "f (zs s) (window inp s) (avail_out s) = (z', k, p, ret)"
    and "s1 = s\<lparr>zs := z', next_in := next_in s + k, avail_in := avail_in s - k,
             zout := mem_write (zout s) (next_out s) p,
             next_out := next_out s + length p, avail_out := avail_out s - length p,
             total_out := total_out s + length p\<rparr>"
  using assms by (auto simp: zcall_def window_def split: prod.splits)

lemma zcall_holding:
  assumes "holding out made s" and "length p \<le> avail_out s"
    and "s1 = s\<lparr>zs := z', next_in := i, avail_in := a,
             zout := mem_write (zout s) (next_out s) p,
             next_out := next_out s + length p, avail_out := avail_out s - length p,
             total_out := total_out s + length p\<rparr>"
  shows "holding out (made @ p) s1"
proof -
  from assms(1) obtain pad where z: "zout s = out @ made @ pad" and a: "avail_out s \<le> length pad"
    and n: "next_out s = length out + length made" and t: "total_out s = length made"
    by (auto simp: holding_def)
  have "mem_write (zout s) (next_out s) p = out @ (made @ p) @ drop (length p) pad"
    by (simp add: mem_write_def z n)
  moreover have "avail_out s - length p \<le> length (drop (length p) pad)" using a by simp
  ultimately show ?thesis using n t assms(3) by (auto simp: holding_def)
qed

lemma resize_holding: "holding out made s \<Longrightarrow> resize (length out + total_out s) (zout s) = out @ made"
  by (auto simp: holding_def resize_def)

lemma grow_holding:
  assumes "holding out made s" and "length (zout s) = length out + out_cap s" and "0 < out_cap s"
  shows "holding out made (grow_out (length out) s)"
    and "length (zout (grow_out (length out) s)) = length out + out_cap (grow_out (length out) s)"
    and "0 < avail_out (grow_out (length out) s)" and "0 < out_cap (grow_out (length out) s)"
    and "zs (grow_out (length out) s) = zs s" and "next_in (grow_out (length out) s) = next_in s"
    and "avail_in (grow_out (length out) s) = avail_in s"
    and "in_left (grow_out (length out) s) = in_left s"
proof -
  from assms(1) obtain pad where z: "zout s = out @ made @ pad" and a: "avail_out s \<le> length pad"
    and n: "next_out s = length out + length made" and t: "total_out s = length made"
    by (auto simp: holding_def)
  from z assms(2) have cap: "length made + length pad = out_cap s" by simp
  have l: "length (resize (length out + out_cap s * 2) (zout s)) = length out + out_cap s * 2"
    using assms(2) by (simp add: resize_def)
  have ext: "resize (length out + out_cap s * 2) (zout s)
      = out @ made @ pad @ replicate (out_cap s) 0"
    using z cap by (simp add: resize_def)
  have ch: "chunk (out_cap s * 2 - length made) \<le> length pad + out_cap s"
    using chunk_le [of "out_cap s * 2 - length made"] cap by linarith
  show "holding out made (grow_out (length out) s)"
  proof (cases "avail_out s = 0")
    case True
    then have "grow_out (length out) s = s\<lparr>out_cap := out_cap s * 2,
             zout := resize (length out + out_cap s * 2) (zout s),
             next_out := length out + total_out s,
             avail_out := chunk (out_cap s * 2 - total_out s)\<rparr>" by (simp add: grow_out_def)
    then show ?thesis using ext ch t by (simp add: holding_def)
  qed (simp add: grow_out_def assms(1))
  show "length (zout (grow_out (length out) s)) = length out + out_cap (grow_out (length out) s)"
    using assms(2) l by (simp add: grow_out_def)
  show "0 < avail_out (grow_out (length out) s)"
    using assms(3) cap t by (auto simp: grow_out_def zero_less_iff_neq_zero simp del: neq0_conv)
qed (use assms(3) in \<open>simp_all add: grow_out_def\<close>)

text \<open>The loop's invariant; \<open>missing\<close> is the part of the stream that the caller's string lacks.\<close>

definition decomp_inv ::
  "('z \<Rightarrow> bytes \<Rightarrow> bytes \<Rightarrow> bool) \<Rightarrow> bytes \<Rightarrow> bytes \<Rightarrow> bytes \<Rightarrow> bytes \<Rightarrow> bytes \<Rightarrow> 'z zloop \<Rightarrow> bool" where
  "decomp_inv R inp missing out made ps s \<longleftrightarrow>
     feeding inp s \<and> (avail_in s = 0 \<longrightarrow> next_in s = length inp) \<and> holding out made s \<and>
     length (zout s) = length out + out_cap s \<and> 0 < out_cap s \<and> 0 < avail_out s \<and>
     R (zs s) (drop (next_in s) inp @ missing) ps"

lemma decomp_start_inv:
  assumes "R z (inp @ missing) P"
  shows "decomp_inv R inp missing out [] P (decomp_start z inp out)"
proof -
  let ?cap = "if length inp = 0 then 64 else length inp * 4"
  have "0 < ?cap" by simp
  moreover have "chunk ?cap \<le> ?cap" and "chunk (length inp) \<le> length inp"
    by (rule chunk_le)+
  moreover have "0 < chunk ?cap" using \<open>0 < ?cap\<close> chunk_0 [of ?cap] by linarith
  ultimately show ?thesis
    using assms
    by (simp add: decomp_inv_def decomp_start_def Let_def feeding_def holding_def resize_def
        del: replicate.simps split del: if_split)
qed

lemma decomp_step:
  assumes c: "inflates infl R" and i: "decomp_inv R inp missing out made ps s"
    and z: "zcall infl inp s = (s1, ret)"
  defines "s2 \<equiv> grow_out (length out) (refill_in inp s1)"
  obtains p ps' where "ps = p @ ps'" "ret \<in> {Z_OK, Z_STREAM_END, Z_BUF_ERROR}"
    "holding out (made @ p) s1"
    "ret = Z_STREAM_END \<Longrightarrow> missing = [] \<and> ps' = []"
    "ret \<noteq> Z_STREAM_END \<Longrightarrow> decomp_inv R inp missing out (made @ p) ps' s2"
    "missing = [] \<Longrightarrow> ret \<noteq> Z_STREAM_END \<Longrightarrow>
       (length inp - next_in s2) + length ps' < (length inp - next_in s) + length ps"
proof -
  from i have fe: "feeding inp s" and e: "avail_in s = 0 \<longrightarrow> next_in s = length inp"
    and h: "holding out made s" and lz: "length (zout s) = length out + out_cap s"
    and cap: "0 < out_cap s" and room: "0 < avail_out s"
    and R: "R (zs s) (drop (next_in s) inp @ missing) ps" by (auto simp: decomp_inv_def)
  obtain z' k p where f: "infl (zs s) (window inp s) (avail_out s) = (z', k, p, ret)"
    and s1: "s1 = s\<lparr>zs := z', next_in := next_in s + k, avail_in := avail_in s - k,
             zout := mem_write (zout s) (next_out s) p,
             next_out := next_out s + length p, avail_out := avail_out s - length p,
             total_out := total_out s + length p\<rparr>"
    using zcall_fields [OF z] .
  let ?rest = "drop (next_in s + avail_in s) inp @ missing"
  have w: "length (window inp s) = avail_in s" and d: "drop (next_in s) inp @ missing = window inp s @ ?rest"
    using feeding_window [OF fe] by simp_all
  from R have "R (zs s) (window inp s @ ?rest) ps" by (simp add: d)
  from inflatesD [OF c this f] obtain ps' where k: "k \<le> length (window inp s)"
    and p: "length p \<le> avail_out s" and ret: "ret \<in> {Z_OK, Z_STREAM_END, Z_BUF_ERROR}"
    and ps: "ps = p @ ps'" and R': "ret \<noteq> Z_STREAM_END \<Longrightarrow> R z' (drop k (window inp s @ ?rest)) ps'"
    and fin: "ret = Z_STREAM_END \<Longrightarrow> drop k (window inp s @ ?rest) = [] \<and> ps' = []"
    and prog: "length p = avail_out s \<or> k = length (window inp s) \<and> ?rest \<noteq> [] \<or> ret = Z_STREAM_END"
    by blast
  from k w have k': "k \<le> avail_in s" by simp
  from fe have nk: "next_in s + k \<le> length inp" using k' by (simp add: feeding_def)
  have dk: "drop k (window inp s @ ?rest) = drop (next_in s + k) inp @ missing"
    using k' nk unfolding d [symmetric] by (simp add: add.commute)
  have h1: "holding out (made @ p) s1" using zcall_holding [OF h p] s1 by blast
  have fe1: "feeding inp s1" using fe k' s1 by (simp add: feeding_def)
  have lz1: "length (zout s1) = length out + out_cap s1"
  proof -
    from h obtain pad where "zout s = out @ made @ pad" "avail_out s \<le> length pad"
      "next_out s = length out + length made" by (auto simp: holding_def)
    then show ?thesis using lz p s1 by simp
  qed
  let ?r = "refill_in inp s1"
  have r: "zs ?r = z'" "zout ?r = zout s1" "out_cap ?r = out_cap s1" "next_in ?r = next_in s + k"
    "holding out (made @ p) ?r" "total_out ?r = total_out s1"
    using s1 h1 refill_feeding(2) [OF fe1] by (auto simp: refill_in_def holding_def)
  have cap1: "0 < out_cap ?r" and lzr: "length (zout ?r) = length out + out_cap ?r"
    using cap lz1 r s1 by simp_all
  note g = grow_holding [OF r(5) lzr cap1, folded s2_def]
  have fe2: "feeding inp s2"
    using refill_feeding(1) [OF fe1] g(6-8) by (simp add: feeding_def)
  have n2: "next_in s2 = next_in s + k" using g(6) r(4) by simp
  have e2: "avail_in s2 = 0 \<longrightarrow> next_in s2 = length inp"
    using refill_feeding(4) [OF fe1] refill_feeding(2) [OF fe1] g(6,7) by simp
  have inv2: "decomp_inv R inp missing out (made @ p) ps' s2" if "ret \<noteq> Z_STREAM_END"
  proof -
    have "R z' (drop (next_in s + k) inp @ missing) ps'" using R' [OF that] by (simp only: dk)
    then show ?thesis
      unfolding decomp_inv_def using fe2 e2 g(1-5) r(1) n2 by simp
  qed
  have less: "(length inp - next_in s2) + length ps' < (length inp - next_in s) + length ps"
    if m: "missing = []" and ne: "ret \<noteq> Z_STREAM_END"
  proof (cases "length p = avail_out s")
    case True
    then show ?thesis using room ps n2 by simp
  next
    case False
    with prog ne have "k = avail_in s" and rest: "drop (next_in s + avail_in s) inp \<noteq> []"
      using w m by auto
    moreover have "0 < avail_in s" using e rest by auto
    ultimately show ?thesis using nk ps n2 by simp
  qed
  have "missing = [] \<and> ps' = []" if "ret = Z_STREAM_END"
    using fin [OF that] by (simp only: dk append_is_Nil_conv)
  then show ?thesis
    by (rule that [OF ps ret h1 _ inv2 less])
qed

lemma decomp_terminates:
  assumes c: "inflates infl R"
  shows "decomp_inv R inp [] out made ps s \<Longrightarrow>
     decomp_loop infl inp (length out) s = Some (out @ made @ ps, Inr ())"
proof (induction "(length inp - next_in s) + length ps" arbitrary: s made ps rule: less_induct)
  case less
  obtain s1 ret where z: "zcall infl inp s = (s1, ret)" by (cases "zcall infl inp s")
  show ?case
  proof (rule decomp_step [OF c less.prems z])
    fix p ps'
    assume ps: "ps = p @ ps'" and ret: "ret \<in> {Z_OK, Z_STREAM_END, Z_BUF_ERROR}"
      and h1: "holding out (made @ p) s1" and fin: "ret = Z_STREAM_END \<Longrightarrow> [] = ([] :: bytes) \<and> ps' = []"
      and inv: "ret \<noteq> Z_STREAM_END \<Longrightarrow>
        decomp_inv R inp [] out (made @ p) ps' (grow_out (length out) (refill_in inp s1))"
      and dec: "[] = ([] :: bytes) \<Longrightarrow> ret \<noteq> Z_STREAM_END \<Longrightarrow>
         (length inp - next_in (grow_out (length out) (refill_in inp s1))) + length ps'
           < (length inp - next_in s) + length ps"
    show ?thesis
    proof (cases "ret = Z_STREAM_END")
      case True
      then show ?thesis
        using z fin ps resize_holding [OF h1] by (simp add: decomp_loop.simps [of _ _ _ s])
    next
      case False
      then have "decomp_loop infl inp (length out) s
          = decomp_loop infl inp (length out) (grow_out (length out) (refill_in inp s1))"
        using z ret by (auto simp: decomp_loop.simps [of _ _ _ s])
      with less.hyps [OF dec [OF refl False] inv [OF False]] ps show ?thesis by simp
    qed
  qed
qed

lemma decomp_never_ends:
  "decomp_loop infl inp n s = Some y \<Longrightarrow>
     inflates infl R \<Longrightarrow> missing \<noteq> [] \<Longrightarrow> n = length out \<Longrightarrow>
     \<not> decomp_inv R inp missing out made ps s"
proof (induction infl inp n s y arbitrary: made ps
    rule: decomp_loop.raw_induct [rotated, consumes 1, case_names step])
  case (step loop infl inp n s y)
  note c = step.prems(1) and n = step.prems(3)
  show ?case
  proof
    assume i: "decomp_inv R inp missing out made ps s"
    obtain s1 ret where z: "zcall infl inp s = (s1, ret)" by (cases "zcall infl inp s")
    show False
    proof (rule decomp_step [OF c i z])
      fix p ps'
      assume ret: "ret \<in> {Z_OK, Z_STREAM_END, Z_BUF_ERROR}"
        and fin: "ret = Z_STREAM_END \<Longrightarrow> missing = [] \<and> ps' = []"
        and inv: "ret \<noteq> Z_STREAM_END \<Longrightarrow>
          decomp_inv R inp missing out (made @ p) ps' (grow_out (length out) (refill_in inp s1))"
      from fin step.prems(2) have ne: "ret \<noteq> Z_STREAM_END" by fast
      then have "loop infl inp n (grow_out n (refill_in inp s1)) = Some y"
        using step.hyps ret by (simp add: z split: if_splits)
      from step.IH [OF this step.prems] inv [OF ne] show False unfolding n by fast
    qed
  qed
qed


section \<open>The compression loop\<close>

definition comp_inv ::
  "('z \<Rightarrow> bytes \<Rightarrow> bytes \<Rightarrow> bool) \<Rightarrow> nat \<Rightarrow> bytes \<Rightarrow> bytes \<Rightarrow> bytes \<Rightarrow> 'z zloop \<Rightarrow> bool" where
  "comp_inv R bound inp out made s \<longleftrightarrow>
     feeding inp s \<and> (avail_in s = 0 \<longrightarrow> in_left s = 0) \<and> zfinish s = (in_left s = 0) \<and>
     holding out made s \<and> length (zout s) = length out + bound \<and>
     next_out s + avail_out s + out_left s = length out + bound \<and>
     (avail_out s = 0 \<longrightarrow> out_left s = 0) \<and> R (zs s) (take (next_in s) inp) made"

lemma comp_start_inv:
  assumes "R z [] []"
  shows "comp_inv R bound inp out [] (comp_start z bound inp out)"
proof -
  have "chunk bound \<le> bound" and "chunk (length inp) \<le> length inp" by (rule chunk_le)+
  then show ?thesis
    using assms by (simp add: comp_inv_def comp_start_def feeding_def holding_def resize_def)
qed

lemma refill_comp_fields:
  assumes "feeding inp s" and "zfinish s = (in_left s = 0)"
  shows "feeding inp (refill_comp inp s)"
    and "avail_in (refill_comp inp s) = 0 \<longrightarrow> in_left (refill_comp inp s) = 0"
    and "zfinish (refill_comp inp s) = (in_left (refill_comp inp s) = 0)"
    and "next_in (refill_comp inp s) = next_in s" and "zs (refill_comp inp s) = zs s"
    and "zout (refill_comp inp s) = zout s" and "next_out (refill_comp inp s) = next_out s"
    and "avail_out (refill_comp inp s) = avail_out s" and "total_out (refill_comp inp s) = total_out s"
    and "out_left (refill_comp inp s) = out_left s"
  using refill_feeding(1,2) [OF assms(1)] assms(2)
  by (auto simp: refill_comp_def refill_in_def feeding_def Let_def)

lemma refill_out_holding:
  assumes "holding out made s" and "length (zout s) = length out + bound"
    and "next_out s + avail_out s + out_left s = length out + bound"
  shows "holding out made (refill_out s)"
    and "next_out (refill_out s) + avail_out (refill_out s) + out_left (refill_out s) = length out + bound"
    and "avail_out (refill_out s) = 0 \<longrightarrow> out_left (refill_out s) = 0"
    and "zout (refill_out s) = zout s" and "zs (refill_out s) = zs s"
    and "next_in (refill_out s) = next_in s" and "avail_in (refill_out s) = avail_in s"
    and "in_left (refill_out s) = in_left s" and "zfinish (refill_out s) = zfinish s"
proof -
  have "chunk (out_left s) \<le> out_left s" by (rule chunk_le)
  with assms show "holding out made (refill_out s)"
    and "next_out (refill_out s) + avail_out (refill_out s) + out_left (refill_out s) = length out + bound"
    by (auto simp: holding_def refill_out_def)
qed (auto simp: refill_out_def)

lemma comp_step:
  assumes c: "deflates defl bnd zipped R" and i: "comp_inv R (bnd (length inp)) inp out made s"
    and z: "zcall (\<lambda>z. defl z (zfinish s)) inp s = (s1, ret)"
  defines "s2 \<equiv> refill_out (refill_comp inp s1)"
  obtains p where "ret \<in> {Z_OK, Z_STREAM_END, Z_BUF_ERROR}" "holding out (made @ p) s1"
    "ret = Z_STREAM_END \<Longrightarrow> zipped inp (made @ p)"
    "ret \<noteq> Z_STREAM_END \<Longrightarrow> comp_inv R (bnd (length inp)) inp out (made @ p) s2"
    "ret \<noteq> Z_STREAM_END \<Longrightarrow>
       (length inp - next_in s2) + (bnd (length inp) - length (made @ p))
         < (length inp - next_in s) + (bnd (length inp) - length made)"
proof -
  let ?b = "bnd (length inp)"
  from i have fe: "feeding inp s" and e: "avail_in s = 0 \<longrightarrow> in_left s = 0"
    and fin: "zfinish s = (in_left s = 0)" and h: "holding out made s"
    and lz: "length (zout s) = length out + ?b"
    and sum: "next_out s + avail_out s + out_left s = length out + ?b"
    and eo: "avail_out s = 0 \<longrightarrow> out_left s = 0"
    and R: "R (zs s) (take (next_in s) inp) made" by (auto simp: comp_inv_def)
  obtain z' k p where f: "defl (zs s) (zfinish s) (window inp s) (avail_out s) = (z', k, p, ret)"
    and s1: "s1 = s\<lparr>zs := z', next_in := next_in s + k, avail_in := avail_in s - k,
             zout := mem_write (zout s) (next_out s) p,
             next_out := next_out s + length p, avail_out := avail_out s - length p,
             total_out := total_out s + length p\<rparr>"
    using zcall_fields [OF z] .
  note d = deflatesD [OF c R f]
  have w: "length (window inp s) = avail_in s"
    and split: "drop (next_in s) inp = window inp s @ drop (next_in s + avail_in s) inp"
    using feeding_window [OF fe] by simp_all
  have k: "k \<le> avail_in s" using d(1) w by simp
  have le: "next_in s + avail_in s \<le> length inp" using fe by (simp add: feeding_def)
  have tk: "take (next_in s) inp @ take k (window inp s) = take (next_in s + k) inp"
    using k by (simp add: window_def take_add)
  have fed: "length (take (next_in s) inp @ window inp s) = next_in s + avail_in s"
    using le w by simp
  have n: "next_out s = length out + length made" using h by (simp add: holding_def)
  have h1: "holding out (made @ p) s1" using zcall_holding [OF h d(2)] s1 by blast
  have lz1: "length (zout s1) = length out + ?b"
  proof -
    from h obtain pad where "zout s = out @ made @ pad" "avail_out s \<le> length pad"
      by (auto simp: holding_def)
    then show ?thesis using lz n d(2) s1 by simp
  qed
  have fe1: "feeding inp s1" and fin1: "zfinish s1 = (in_left s1 = 0)"
    using fe fin k s1 by (simp_all add: feeding_def)
  have sum1: "next_out s1 + avail_out s1 + out_left s1 = length out + ?b"
    using sum s1 d(2) by simp
  note rc = refill_comp_fields [OF fe1 fin1]
  have hr: "holding out (made @ p) (refill_comp inp s1)"
    using h1 rc(6-9) by (simp add: holding_def)
  have sumr: "next_out (refill_comp inp s1) + avail_out (refill_comp inp s1)
      + out_left (refill_comp inp s1) = length out + ?b" using sum1 rc(7,8,10) by simp
  have lzr: "length (zout (refill_comp inp s1)) = length out + ?b" using lz1 rc(6) by simp
  note ro = refill_out_holding [OF hr lzr sumr, folded s2_def]
  have n2: "next_in s2 = next_in s + k" using ro(6) rc(4) s1 by simp
  have inv: "comp_inv R ?b inp out (made @ p) s2" if ne: "ret \<noteq> Z_STREAM_END"
  proof -
    have "R (zs s2) (take (next_in s2) inp) (made @ p)"
      using d(4) [OF ne] tk ro(5) rc(5) s1 n2 by simp
    then show ?thesis
      using rc(1-3) ro(1-4) ro(6-9) lzr by (simp add: comp_inv_def feeding_def)
  qed
  have less: "(length inp - next_in s2) + (?b - length (made @ p))
      < (length inp - next_in s) + (?b - length made)" if ne: "ret \<noteq> Z_STREAM_END"
  proof (cases "\<not> zfinish s \<and> k = length (window inp s)")
    case True
    with fin e have "0 < avail_in s" by auto
    with True n2 w le show ?thesis by simp
  next
    case False
    with d(7) [OF ne] have p: "length p = avail_out s"
      and b: "length (made @ p) < bnd (next_in s + avail_in s)" using fed by auto
    from b d(5) [OF le] have "length (made @ p) < ?b" by simp
    moreover have "0 < length p"
    proof (rule ccontr)
      assume "\<not> 0 < length p"
      with p eo sum n have "length made = ?b" by simp
      with \<open>length (made @ p) < ?b\<close> show False by simp
    qed
    ultimately show ?thesis unfolding n2 length_append by linarith
  qed
  have "zipped inp (made @ p)" if "ret = Z_STREAM_END"
  proof -
    from d(6) [OF that] fin have "in_left s = 0"
      and zip: "zipped (take (next_in s) inp @ window inp s) (made @ p)" by auto
    with fe have "window inp s = drop (next_in s) inp" by (simp add: feeding_def window_def)
    with zip show ?thesis by simp
  qed
  then show ?thesis by (rule that [OF d(3) h1 _ inv less])
qed

lemma comp_terminates:
  assumes c: "deflates defl bnd zipped R"
  shows "comp_inv R (bnd (length inp)) inp out made s \<Longrightarrow>
     \<exists>y. zipped inp y \<and> comp_loop defl inp (length out) s = Some (out @ y, Inr ())"
proof (induction "(length inp - next_in s) + (bnd (length inp) - length made)"
    arbitrary: s made rule: less_induct)
  case less
  obtain s1 ret where z: "zcall (\<lambda>z. defl z (zfinish s)) inp s = (s1, ret)"
    by (cases "zcall (\<lambda>z. defl z (zfinish s)) inp s")
  show ?case
  proof (rule comp_step [OF c less.prems z])
    fix p
    assume ret: "ret \<in> {Z_OK, Z_STREAM_END, Z_BUF_ERROR}" and h1: "holding out (made @ p) s1"
      and fin: "ret = Z_STREAM_END \<Longrightarrow> zipped inp (made @ p)"
      and inv: "ret \<noteq> Z_STREAM_END \<Longrightarrow>
        comp_inv R (bnd (length inp)) inp out (made @ p) (refill_out (refill_comp inp s1))"
      and dec: "ret \<noteq> Z_STREAM_END \<Longrightarrow>
        (length inp - next_in (refill_out (refill_comp inp s1))) + (bnd (length inp) - length (made @ p))
          < (length inp - next_in s) + (bnd (length inp) - length made)"
    show ?case
    proof (cases "ret = Z_STREAM_END")
      case True
      then show ?thesis
        using z fin resize_holding [OF h1] by (auto simp: comp_loop.simps [of _ _ _ s])
    next
      case False
      then have "comp_loop defl inp (length out) s
          = comp_loop defl inp (length out) (refill_out (refill_comp inp s1))"
        using z ret by (auto simp: comp_loop.simps [of _ _ _ s])
      with less.hyps [OF dec [OF False] inv [OF False]] show ?thesis by simp
    qed
  qed
qed

section \<open>A codec that keeps these promises\<close>

text \<open>
  To show that the hypotheses can hold: a format that puts a one in front of each byte and
  ends with a zero. The compressor's state is its pending output, the decompressor's
  whether it has just read a one.
\<close>

fun flagged :: "bytes \<Rightarrow> bytes" where
  "flagged [] = []"
| "flagged (b # bs) = 1 # b # flagged bs"

definition flag_zip :: "bytes \<Rightarrow> bytes \<Rightarrow> bool" where
  "flag_zip x y \<longleftrightarrow> y = flagged x @ [0]"

definition flag_deflate :: "bytes deflate" where
  "flag_deflate pend fin w room =
     (let q = pend @ flagged w
      in if fin \<and> length q < room then ([], length w, q @ [0], Z_STREAM_END)
         else (drop room q, length w, take room q, Z_OK))"

fun flag_inflate :: "bool inflate" where
  "flag_inflate st w 0 = (st, 0, [], Z_BUF_ERROR)"
| "flag_inflate st [] (Suc r) = (st, 0, [], Z_BUF_ERROR)"
| "flag_inflate False (f # w) (Suc r) =
     (if f = 0 then (False, 1, [], Z_STREAM_END)
      else case flag_inflate True w (Suc r) of (st, k, p, ret) \<Rightarrow> (st, Suc k, p, ret))"
| "flag_inflate True (b # w) (Suc r) =
     (case flag_inflate False w r of (st, k, p, ret) \<Rightarrow> (st, Suc k, b # p, ret))"

fun flag_rest :: "bool \<Rightarrow> bytes \<Rightarrow> bytes \<Rightarrow> bool" where
  "flag_rest False cs ps = (cs = flagged ps @ [0])"
| "flag_rest True cs ps = (\<exists>b qs. ps = b # qs \<and> cs = b # flagged qs @ [0])"

lemma flagged_append: "flagged (xs @ ys) = flagged xs @ flagged ys"
  by (induction xs) simp_all

lemma length_flagged: "length (flagged xs) = 2 * length xs"
  by (induction xs) simp_all

lemma flag_deflates:
  "deflates flag_deflate (\<lambda>n. 2 * n + 1) flag_zip (\<lambda>pend fed made. made @ pend = flagged fed)"
proof -
  have "deflate_promise (\<lambda>n. 2 * n + 1) flag_zip (\<lambda>pend fed made. made @ pend = flagged fed)
      fed made fin w room (flag_deflate pend fin w room)"
    if R: "made @ pend = flagged fed" for pend fed made fin w room
  proof -
    have all: "made @ pend @ flagged w = flagged (fed @ w)" using R by (simp add: flagged_append)
    then have "length made + (length pend + length (flagged w)) = 2 * (length fed + length w)"
      by (metis length_append length_flagged)
    then show ?thesis
      using all by (auto simp: deflate_promise_def flag_deflate_def Let_def flag_zip_def
        simp del: take_append drop_append)
  qed
  then show ?thesis by (simp add: deflates_def)
qed

lemma flag_inflate_ok:
  "flag_rest st (w @ rest) ps \<Longrightarrow> flag_inflate st w room = (st', k, p, ret) \<Longrightarrow>
     k \<le> length w \<and> length p \<le> room \<and> ret \<in> {Z_OK, Z_STREAM_END, Z_BUF_ERROR} \<and>
     (\<exists>ps'. ps = p @ ps' \<and>
        (if ret = Z_STREAM_END then drop k (w @ rest) = [] \<and> ps' = []
         else flag_rest st' (drop k (w @ rest)) ps')) \<and>
     (length p = room \<or> k = length w \<and> rest \<noteq> [] \<or> ret = Z_STREAM_END)"
proof (induction st w room arbitrary: ps st' k p ret rule: flag_inflate.induct)
  case (1 st w)
  then show ?case by auto
next
  case (2 st r)
  then show ?case by (cases st) auto
next
  case (3 f w r)
  from "3.prems"(1) have cs: "f # w @ rest = flagged ps @ [0]" by simp
  show ?case
  proof (cases ps)
    case Nil
    with cs "3.prems"(2) show ?thesis by auto
  next
    case (Cons b qs)
    with cs have f: "f = 1" and w: "flag_rest True (w @ rest) ps" by auto
    obtain st2 k2 p2 ret2 where r: "flag_inflate True w (Suc r) = (st2, k2, p2, ret2)"
      by (metis prod_cases4)
    with f "3.prems"(2) have "st' = st2" "k = Suc k2" "p = p2" "ret = ret2" by simp_all
    with "3.IH" [OF _ w r] f show ?thesis
      by (auto simp del: drop_append split: if_splits)
  qed
next
  case (4 b w r)
  from "4.prems"(1) obtain qs where ps: "ps = b # qs" and w: "flag_rest False (w @ rest) qs" by auto
  obtain st2 k2 p2 ret2 where r: "flag_inflate False w r = (st2, k2, p2, ret2)"
    by (metis prod_cases4)
  with "4.prems"(2) have "st' = st2" "k = Suc k2" "p = b # p2" "ret = ret2" by simp_all
  with "4.IH" [OF w r] ps show ?case
    by (auto simp del: drop_append split: if_splits)
qed

lemma flag_inflates: "inflates flag_inflate flag_rest"
  unfolding inflates_def using flag_inflate_ok by blast

section \<open>Properties\<close>



text \<open>
  C31. A truncated stream is never refused: whatever proper prefix of a compressed stream
  (the empty string included) \<open>Decompress\<close> is given, it does not return, because the loop treats
  \<open>Z_BUF_ERROR\<close>, the answer to having no input left, as progress.
\<close>

theorem truncated_input_hangs:
  assumes "inflates infl R" and "R i0 (inp @ missing) x" and "missing \<noteq> []"
  shows "Decompress infl (Z_OK, i0) inp out = None"
proof (cases "Decompress infl (Z_OK, i0) inp out")
  case (Some y)
  then have "decomp_loop infl inp (length out) (decomp_start i0 inp out) = Some y"
    by (simp add: Decompress_def)
  from decomp_never_ends [OF this assms(1,3) refl] decomp_start_inv [of R i0 inp missing, OF assms(2)]
  show ?thesis by blast
qed

lemma truncated_input_hangs_witness:
  "Decompress flag_inflate (Z_OK, False) [1, 7, 1] [] = None
   \<and> Decompress flag_inflate (Z_OK, False) [] [] = None"
proof
  show "Decompress flag_inflate (Z_OK, False) [1, 7, 1] [] = None"
    by (rule truncated_input_hangs [OF flag_inflates, of _ _ "[8, 0]" "[7, 8]"]) simp_all
  show "Decompress flag_inflate (Z_OK, False) [] [] = None"
    by (rule truncated_input_hangs [OF flag_inflates, of _ _ "[0]" "[]"]) simp_all
qed

end
