(* ===== verification/Shard_Reader.thy ===== *)
theory Shard_Reader
  imports Shard_Writer Crypt Zlib "HOL-Library.Multiset"
begin

text \<open>
  The audit side, audit/shard_reader.cpp: reading a shard's header, deriving the key from the
  server's private key, and decoding every frame of a file and every file of a directory.
  A file is the list of its bytes; \<open>in.read\<close> takes what is left of it. Crypto++ and zlib are
  arguments as in \<open>Crypt\<close> and \<open>Zlib\<close>, and so is protobuf's \<open>ParseFromString\<close>. A result is
  \<open>None\<close> when the call does not return, \<open>Some (Inl e)\<close> when it throws.
\<close>

section \<open>The header\<close>

definition DecodeLEU32 :: "bytes \<Rightarrow> u32" where
  "DecodeLEU32 p =
     ucast (p ! 0) OR push_bit 8 (ucast (p ! 1)) OR
     push_bit 16 (ucast (p ! 2)) OR push_bit 24 (ucast (p ! 3))"

record shard_header =
  algo_id :: u32
  client_eph_pub :: bytes

text \<open>The header and what is left of the stream.\<close>

definition ReadShardHeader :: "bytes \<Rightarrow> (shard_header \<times> bytes) res" where
  "ReadShardHeader inp =
     (let hdr = take kHeaderBytes inp
      in if length hdr \<noteq> kHeaderBytes
         then Inl (RuntimeError ''audit: short shard header (file truncated?)'')
         else if take 8 hdr \<noteq> kMagic
         then Inl (RuntimeError ''audit: shard magic mismatch (not an LGRH shard)'')
         else let algo = DecodeLEU32 (drop 8 hdr)
              in if algo \<noteq> kAlgoId
                 then Inl (RuntimeError (''audit: unsupported algo_id '' @ dec_digits (unat algo)))
                 else Inr (\<lparr>algo_id = algo, client_eph_pub = take 32 (drop 12 hdr)\<rparr>,
                           drop kHeaderBytes inp))"

text \<open>The info string \<open>"logger-high aes-256-gcm"\<close>, which the sink uses too.\<close>

definition kdf_info :: bytes where
  "kdf_info = map (\<lambda>c. of_nat (of_char c)) ''logger-high aes-256-gcm''"

definition DeriveAesKey ::
  "(bytes \<Rightarrow> bytes \<Rightarrow> bytes option) \<Rightarrow> (nat \<Rightarrow> bytes \<Rightarrow> bytes \<Rightarrow> bytes \<Rightarrow> string + bytes) \<Rightarrow>
     bytes \<Rightarrow> bytes \<Rightarrow> bytes res" where
  "DeriveAesKey agree hkdf server_priv eph =
     (if length server_priv \<noteq> 32
      then Inl (RuntimeError ''audit: server private key must be 32 bytes'')
      else if length eph \<noteq> 32
      then Inl (RuntimeError ''audit: client ephemeral public key must be 32 bytes'')
      else case agree server_priv eph of
             None \<Rightarrow> Inl (RuntimeError ''audit: X25519 Agree failed (peer key invalid?)'')
           | Some shared \<Rightarrow>
               (case HkdfSha256 hkdf shared [] kdf_info 32 [] of
                  (out, Inl e) \<Rightarrow> Inl e
                | (out, Inr _) \<Rightarrow> Inr out))"

section \<open>The frames of a file\<close>

definition kFrameMinBytes :: nat where "kFrameMinBytes = 12 + 16"

text \<open>The body of a frame: decrypt, decompress, parse.\<close>

definition decode_body ::
  "gcm_dec \<Rightarrow> 'z inflate \<Rightarrow> int \<times> 'z \<Rightarrow> (bytes \<Rightarrow> 'r option) \<Rightarrow> cipher \<Rightarrow> bytes \<Rightarrow> 'r res option" where
  "decode_body dec infl init parse c encrypted =
     (case Decrypt dec c encrypted [] of
        (_, Inl e) \<Rightarrow> Some (Inl e)
      | (compressed, Inr _) \<Rightarrow>
          (case Decompress infl init compressed [] of
             None \<Rightarrow> None
           | Some (_, Inl e) \<Rightarrow> Some (Inl e)
           | Some (proto, Inr _) \<Rightarrow>
               (case parse proto of
                  None \<Rightarrow> Some (Inl (RuntimeError ''audit: protobuf parse failed''))
                | Some r \<Rightarrow> Some (Inr r))))"

text \<open>
  The loop of \<open>DecodeShardFile\<close>; \<open>records\<close> is the vector built so far. It ends because every round
  takes at least a length field from the stream.
\<close>

function decode_frames :: "(bytes \<Rightarrow> 'r res option) \<Rightarrow> bytes \<Rightarrow> 'r list \<Rightarrow> 'r list res option" where
  "decode_frames body inp records =
     (let lenbuf = take 4 inp; got = length lenbuf
      in if got = 0 then Some (Inr records)
         else if got \<noteq> 4 then Some (Inl (RuntimeError ''audit: truncated frame length''))
         else let flen = unat (DecodeLEU32 lenbuf); encrypted = take flen (drop 4 inp)
              in if flen < kFrameMinBytes
                 then Some (Inl (RuntimeError ''audit: frame too small (corrupt or wrong format)''))
                 else if length encrypted \<noteq> flen
                 then Some (Inl (RuntimeError ''audit: short frame body read''))
                 else case body encrypted of
                        None \<Rightarrow> None
                      | Some (Inl e) \<Rightarrow> Some (Inl e)
                      | Some (Inr r) \<Rightarrow> decode_frames body (drop flen (drop 4 inp)) (records @ [r]))"
  by pat_completeness auto
termination by (relation "measure (\<lambda>(body, inp, records). length inp)") auto

declare decode_frames.simps [simp del]

text \<open>\<open>content\<close> is \<open>None\<close> when the file cannot be opened; \<open>rnd\<close> is the nonce prefix of the auditor's cipher, which is never used.\<close>

definition DecodeShardFile ::
  "(bytes \<Rightarrow> bytes \<Rightarrow> bytes option) \<Rightarrow> (nat \<Rightarrow> bytes \<Rightarrow> bytes \<Rightarrow> bytes \<Rightarrow> string + bytes) \<Rightarrow>
     gcm_dec \<Rightarrow> 'z inflate \<Rightarrow> int \<times> 'z \<Rightarrow> (bytes \<Rightarrow> 'r option) \<Rightarrow> bytes \<Rightarrow>
     string \<Rightarrow> bytes option \<Rightarrow> bytes \<Rightarrow> 'r list res option" where
  "DecodeShardFile agree hkdf dec infl init parse rnd shard content server_priv =
     (case content of
        None \<Rightarrow> Some (Inl (RuntimeError (''audit: cannot open shard '' @ shard)))
      | Some inp \<Rightarrow>
          (case ReadShardHeader inp of
             Inl e \<Rightarrow> Some (Inl e)
           | Inr (hdr, rest) \<Rightarrow>
               (case DeriveAesKey agree hkdf server_priv (client_eph_pub hdr) of
                  Inl e \<Rightarrow> Some (Inl e)
                | Inr aes_key \<Rightarrow>
                    (case AesGcmCipher aes_key rnd of
                       Inl e \<Rightarrow> Some (Inl e)
                     | Inr c \<Rightarrow> decode_frames (decode_body dec infl init parse c) rest []))))"

section \<open>The directory\<close>

definition IsShardFilename :: "string \<Rightarrow> bool" where
  "IsShardFilename name \<longleftrightarrow>
     length name > 8 \<and> take 4 name = ''log-'' \<and> drop (length name - 4) name = ''.bin''"

record dir_entry =
  de_name :: string
  de_regular :: bool
  de_content :: "bytes option"

text \<open>
  \<open>read_shard\<close> decodes one file, given its path and content. All paths lie in one directory, so
  \<open>std::sort\<close> orders them by their file names.
\<close>

fun read_shards :: "(string \<Rightarrow> bytes option \<Rightarrow> 'r list res option) \<Rightarrow> string \<Rightarrow>
    dir_entry list \<Rightarrow> 'r list \<Rightarrow> 'r list res option" where
  "read_shards read_shard dir [] out = Some (Inr out)"
| "read_shards read_shard dir (e # es) out =
     (case read_shard (path_join dir (de_name e)) (de_content e) of
        None \<Rightarrow> None
      | Some (Inl err) \<Rightarrow> Some (Inl err)
      | Some (Inr recs) \<Rightarrow> read_shards read_shard dir es (out @ recs))"

definition shard_entries :: "dir_entry list \<Rightarrow> dir_entry list" where
  "shard_entries es = sort_key de_name (filter (\<lambda>e. de_regular e \<and> IsShardFilename (de_name e)) es)"

definition DecodeShardDir ::
  "(string \<Rightarrow> bytes option \<Rightarrow> 'r list res option) \<Rightarrow> string \<Rightarrow> dir_entry list option \<Rightarrow> 'r list res option" where
  "DecodeShardDir read_shard dir listing =
     (case listing of
        None \<Rightarrow> Some (Inl (RuntimeError (''audit: not a directory: '' @ dir)))
      | Some es \<Rightarrow> read_shards read_shard dir (shard_entries es) [])"

section \<open>What the reader accepts\<close>

lemma DecodeLEU32_eq: "DecodeLEU32 p = decode_le32 p"
  by (simp add: DecodeLEU32_def decode_le32_def)

lemma header_roundtrip:
  assumes "length pub = 32"
  shows "ReadShardHeader (header_bytes pub @ rest) = Inr (\<lparr>algo_id = kAlgoId, client_eph_pub = pub\<rparr>, rest)"
proof -
  have m: "length kMagic = 8" by (simp add: kMagic_def)
  have l: "length (header_bytes pub) = kHeaderBytes" using assms by (rule length_header)
  have h: "header_bytes pub = kMagic @ encode_le32 kAlgoId @ pub @ replicate 4 0"
    using assms by (rule header_layout)
  have "take 8 (header_bytes pub) = kMagic" "drop 8 (header_bytes pub) = encode_le32 kAlgoId @ pub @ replicate 4 0"
    "take 32 (drop 12 (header_bytes pub)) = pub"
    using m assms unfolding h by (simp_all add: encode_le32_def)
  then show ?thesis using l by (simp add: ReadShardHeader_def Let_def DecodeLEU32_eq)
qed

text \<open>A frame as the sink writes it: a length field in front of an encrypted record.\<close>

definition framed :: "bytes \<Rightarrow> bytes" where
  "framed e = encode_le32 (of_nat (length e)) @ e"

lemma decode_frame_step:
  assumes "kFrameMinBytes \<le> length e" and "length e < 2 ^ 32"
  shows "decode_frames body (framed e @ rest) records =
     (case body e of None \<Rightarrow> None | Some (Inl err) \<Rightarrow> Some (Inl err)
      | Some (Inr r) \<Rightarrow> decode_frames body rest (records @ [r]))"
  using assms
  by (subst decode_frames.simps)
    (simp add: framed_def DecodeLEU32_eq Let_def unat_of_nat32 split: option.split sum.split)

lemma decode_frames_all:
  assumes "list_all2 (\<lambda>e r. kFrameMinBytes \<le> length e \<and> length e < 2 ^ 32 \<and> body e = Some (Inr r)) es rs"
  shows "decode_frames body (concat (map framed es) @ rest) records = decode_frames body rest (records @ rs)"
  using assms by (induction es rs arbitrary: records rule: list_all2_induct) (simp_all add: decode_frame_step)

lemma decode_frames_end [simp]: "decode_frames body [] records = Some (Inr records)"
  by (simp add: decode_frames.simps)

lemma read_shards_all:
  "read_shards read_shard dir es out = Some (Inr res) \<longleftrightarrow>
     (\<exists>rss. list_all2 (\<lambda>e rs. read_shard (path_join dir (de_name e)) (de_content e) = Some (Inr rs)) es rss
        \<and> res = out @ concat rss)"
proof (induction es arbitrary: out)
  case (Cons e es)
  then show ?case
    by (auto simp: list_all2_Cons1 split: option.splits sum.splits)
qed auto

section \<open>Properties\<close>

text \<open>
  C38. What the header check accepts: exactly the files that begin with the magic, the little-endian
  algorithm id 1, a 32-byte key and four bytes, whatever these are; the key is what stands
  there and the frames are what follows.
\<close>

theorem header_gate:
  "ReadShardHeader inp = Inr (h, rest) \<longleftrightarrow>
     (\<exists>pub reserved. length pub = 32 \<and> length reserved = 4
        \<and> inp = kMagic @ encode_le32 kAlgoId @ pub @ reserved @ rest
        \<and> h = \<lparr>algo_id = kAlgoId, client_eph_pub = pub\<rparr>)"
proof
  assume r: "ReadShardHeader inp = Inr (h, rest)"
  let ?hdr = "take kHeaderBytes inp"
  have l: "48 \<le> length inp" and m: "take 8 ?hdr = kMagic" and a: "DecodeLEU32 (drop 8 ?hdr) = kAlgoId"
    and h: "h = \<lparr>algo_id = kAlgoId, client_eph_pub = take 32 (drop 12 ?hdr)\<rparr>"
    and rest: "rest = drop 48 inp"
    using r by (auto simp: ReadShardHeader_def Let_def kHeaderBytes_def min_def split: if_splits)
  have algo: "take 4 (drop 8 ?hdr) = encode_le32 kAlgoId"
    using a l encode_decode_le32 [of "take 4 (drop 8 ?hdr)"]
    by (simp add: DecodeLEU32_eq kHeaderBytes_def)
  have "inp = take 8 inp @ take 4 (drop 8 inp) @ take 32 (drop 12 inp) @ take 4 (drop 44 inp) @ drop 48 inp"
    by (simp flip: take_add append_assoc add: take_add)
  with m algo rest h l show "\<exists>pub reserved. length pub = 32 \<and> length reserved = 4
        \<and> inp = kMagic @ encode_le32 kAlgoId @ pub @ reserved @ rest
        \<and> h = \<lparr>algo_id = kAlgoId, client_eph_pub = pub\<rparr>"
    by (intro exI [of _ "take 32 (drop 12 inp)"] exI [of _ "take 4 (drop 44 inp)"])
      (simp add: kHeaderBytes_def drop_take)
next
  assume "\<exists>pub reserved. length pub = 32 \<and> length reserved = 4
        \<and> inp = kMagic @ encode_le32 kAlgoId @ pub @ reserved @ rest
        \<and> h = \<lparr>algo_id = kAlgoId, client_eph_pub = pub\<rparr>"
  then obtain pub reserved where p: "length pub = 32" and q: "length reserved = 4"
    and i: "inp = kMagic @ encode_le32 kAlgoId @ pub @ reserved @ rest"
    and h: "h = \<lparr>algo_id = kAlgoId, client_eph_pub = pub\<rparr>" by blast
  show "ReadShardHeader inp = Inr (h, rest)"
    using p q by (simp add: ReadShardHeader_def i h Let_def kHeaderBytes_def kMagic_def
        DecodeLEU32_def encode_le32_def kAlgoId_def)
qed

text \<open>
  C39. A torn tail costs the whole shard: when a file of readable frames ends in part of a
  frame, as an interrupted or short write leaves it, \<open>DecodeShardFile\<close>'s loop throws, and none of
  the records before it is returned.
\<close>

theorem torn_tail_loses_shard:
  assumes "list_all2 (\<lambda>e r. kFrameMinBytes \<le> length e \<and> length e < 2 ^ 32 \<and> body e = Some (Inr r)) es rs"
    and "kFrameMinBytes \<le> length e" and "length e < 2 ^ 32"
    and "0 < n" and "n < length (framed e)"
  shows "decode_frames body (concat (map framed es) @ take n (framed e)) [] =
     Some (Inl (RuntimeError (if n < 4 then ''audit: truncated frame length''
                              else ''audit: short frame body read'')))"
proof -
  have l: "length (framed e) = 4 + length e" by (simp add: framed_def)
  have "decode_frames body (take n (framed e)) rs =
     Some (Inl (RuntimeError (if n < 4 then ''audit: truncated frame length''
                              else ''audit: short frame body read'')))"
  proof (cases "n < 4")
    case True
    then show ?thesis
      using assms(4) l by (subst decode_frames.simps) (auto simp: Let_def min_def)
  next
    case False
    then have "take n (framed e) = encode_le32 (of_nat (length e)) @ take (n - 4) e"
      by (simp add: framed_def)
    moreover have "\<not> length e \<le> n - 4" using False assms(5) l by simp
    ultimately show ?thesis
      using False assms(2,3,5) l
      by (subst decode_frames.simps) (simp add: DecodeLEU32_eq Let_def unat_of_nat32 min_def)
  qed
  with decode_frames_all [OF assms(1), of "take n (framed e)" "[]"] show ?thesis by simp
qed

text \<open>
  A directory is decoded in the order of the file names or not at all: \<open>DecodeShardDir\<close> returns
  records exactly when every regular file with a shard name decodes, and then it returns
  theirs, file after file in lexicographic order; no other entry plays a part.
\<close>

theorem directory_in_name_order:
  "sorted (map de_name (shard_entries es))
   \<and> mset (shard_entries es) = mset (filter (\<lambda>e. de_regular e \<and> IsShardFilename (de_name e)) es)
   \<and> (DecodeShardDir read_shard dir (Some es) = Some (Inr out) \<longleftrightarrow>
       (\<exists>rss. list_all2 (\<lambda>e rs. read_shard (path_join dir (de_name e)) (de_content e) = Some (Inr rs))
                (shard_entries es) rss \<and> out = concat rss))"
  by (simp add: DecodeShardDir_def read_shards_all shard_entries_def)

lemma torn_tail_loses_shard_witness:
  "decode_frames (\<lambda>e. Some (Inr (last e)))
     (concat (map framed [replicate 30 5]) @ take 7 (framed (replicate 28 6))) []
   = Some (Inl (RuntimeError ''audit: short frame body read''))"
  using torn_tail_loses_shard [of "\<lambda>e. Some (Inr (last e))" "[replicate 30 5]" "[5]" "replicate 28 6" 7]
  by (simp add: kFrameMinBytes_def framed_def del: replicate.simps)

end
