(* ===== verification/Smoke_Decoder.thy ===== *)
theory Smoke_Decoder
  imports Shard_Reader
begin

text \<open>
  The decoder of examples/effective_sink_smoke.cpp: the end-to-end test does not use
  audit/shard_reader.cpp but decodes the shards with code of its own, which the README names as the description of
  offline decoding. It is modelled as the reference that \<open>ShardReader\<close> is compared with: the two accept the
  same directories and return the same records; they differ only in how they fail.
\<close>

section \<open>Failing checks\<close>

text \<open>\<open>CHECK\<close> prints its message and exits with status 1; a library call may also throw.\<close>

datatype stopped = Exit string | Thrown exn

type_synonym 'a checked = "(stopped + 'a) option"

section \<open>The reference decoder\<close>

definition RefDecodeLEU32 :: "bytes \<Rightarrow> u32" where
  "RefDecodeLEU32 p =
     ucast (p ! 0) OR push_bit 8 (ucast (p ! 1)) OR
     push_bit 16 (ucast (p ! 2)) OR push_bit 24 (ucast (p ! 3))"

text \<open>Length and magic are checked, the algorithm is not.\<close>

definition RefReadShardHeader :: "bytes \<Rightarrow> stopped + (shard_header \<times> bytes)" where
  "RefReadShardHeader inp =
     (let hdr = take kHeaderBytes inp
      in if length hdr \<noteq> kHeaderBytes then Inl (Exit ''short header read'')
         else if take 8 hdr \<noteq> [0x4C, 0x47, 0x52, 0x48, 1, 0, 0, 0] then Inl (Exit ''shard magic mismatch'')
         else Inr (\<lparr>algo_id = RefDecodeLEU32 (drop 8 hdr), client_eph_pub = take 32 (drop 12 hdr)\<rparr>,
                   drop kHeaderBytes inp))"

function ref_frames ::
  "gcm_dec \<Rightarrow> 'z inflate \<Rightarrow> int \<times> 'z \<Rightarrow> (bytes \<Rightarrow> 'r option) \<Rightarrow> cipher \<Rightarrow> bytes \<Rightarrow> 'r list \<Rightarrow> 'r list checked" where
  "ref_frames dec infl init parse c inp records =
     (let lenbuf = take 4 inp
      in if length lenbuf = 0 then Some (Inr records)
         else if length lenbuf \<noteq> 4 then Some (Inl (Exit ''truncated frame length''))
         else let flen = unat (RefDecodeLEU32 lenbuf); encrypted = take flen (drop 4 inp)
              in if flen < 28 then Some (Inl (Exit ''frame too small to contain nonce+tag''))
                 else if length encrypted \<noteq> flen then Some (Inl (Exit ''short frame read''))
                 else case Decrypt dec c encrypted [] of
                        (_, Inl e) \<Rightarrow> Some (Inl (Thrown e))
                      | (compressed, Inr _) \<Rightarrow>
                          (case Decompress infl init compressed [] of
                             None \<Rightarrow> None
                           | Some (_, Inl e) \<Rightarrow> Some (Inl (Thrown e))
                           | Some (proto, Inr _) \<Rightarrow>
                               (case parse proto of
                                  None \<Rightarrow> Some (Inl (Exit ''protobuf parse failed''))
                                | Some r \<Rightarrow>
                                    ref_frames dec infl init parse c (drop flen (drop 4 inp)) (records @ [r]))))"
  by pat_completeness auto
termination by (relation "measure (\<lambda>(_, _, _, _, _, inp, _). length inp)") auto

declare ref_frames.simps [simp del]

text \<open>\<open>priv\<close> is the 32-byte private key of the test's key pair.\<close>

definition RefDecodeShard ::
  "(bytes \<Rightarrow> bytes \<Rightarrow> bytes option) \<Rightarrow> (nat \<Rightarrow> bytes \<Rightarrow> bytes \<Rightarrow> bytes \<Rightarrow> string + bytes) \<Rightarrow>
     gcm_dec \<Rightarrow> 'z inflate \<Rightarrow> int \<times> 'z \<Rightarrow> (bytes \<Rightarrow> 'r option) \<Rightarrow> bytes \<Rightarrow>
     bytes option \<Rightarrow> bytes \<Rightarrow> 'r list checked" where
  "RefDecodeShard agree hkdf dec infl init parse rnd content priv =
     (case content of
        None \<Rightarrow> Some (Inl (Exit ''cannot open shard for read''))
      | Some inp \<Rightarrow>
          (case RefReadShardHeader inp of
             Inl e \<Rightarrow> Some (Inl e)
           | Inr (hdr, rest) \<Rightarrow>
               if algo_id hdr \<noteq> 1 then Some (Inl (Exit ''shard algo_id mismatch''))
               else case agree priv (client_eph_pub hdr) of
                      None \<Rightarrow> Some (Inl (Exit ''audit-side Agree failed''))
                    | Some shared \<Rightarrow>
                        (case HkdfSha256 hkdf shared [] kdf_info 32 [] of
                           (_, Inl e) \<Rightarrow> Some (Inl (Thrown e))
                         | (aes_key, Inr _) \<Rightarrow>
                             (case AesGcmCipher aes_key rnd of
                                Inl e \<Rightarrow> Some (Inl (Thrown e))
                              | Inr c \<Rightarrow> ref_frames dec infl init parse c rest []))))"

definition IsShardFile :: "string \<Rightarrow> bool" where
  "IsShardFile name \<longleftrightarrow>
     length name > 8 \<and> take 4 name = ''log-'' \<and> drop (length name - 4) name = ''.bin''"

definition ListShards :: "dir_entry list \<Rightarrow> dir_entry list" where
  "ListShards es = sort_key de_name (filter (\<lambda>e. de_regular e \<and> IsShardFile (de_name e)) es)"

fun decode_each :: "(bytes option \<Rightarrow> 'r list checked) \<Rightarrow> dir_entry list \<Rightarrow> 'r list \<Rightarrow> 'r list checked" where
  "decode_each one [] out = Some (Inr out)"
| "decode_each one (e # es) out =
     (case one (de_content e) of
        None \<Rightarrow> None
      | Some (Inl x) \<Rightarrow> Some (Inl x)
      | Some (Inr recs) \<Rightarrow> decode_each one es (out @ recs))"

definition DecodeAllShards :: "(bytes option \<Rightarrow> 'r list checked) \<Rightarrow> dir_entry list \<Rightarrow> 'r list checked" where
  "DecodeAllShards one es = decode_each one (ListShards es) []"

section \<open>Agreement\<close>

text \<open>Two outcomes agree when both do not return, both fail, or both return the same.\<close>

fun agrees :: "('d + 'a) option \<Rightarrow> ('e + 'a) option \<Rightarrow> bool" where
  "agrees None None = True"
| "agrees (Some (Inl d)) (Some (Inl e)) = True"
| "agrees (Some (Inr x)) (Some (Inr y)) = (x = y)"
| "agrees _ _ = False"

lemma ref_le32: "RefDecodeLEU32 p = DecodeLEU32 p"
  by (simp add: RefDecodeLEU32_def DecodeLEU32_def)

lemma ref_frames_end [simp]: "ref_frames dec infl init parse c [] records = Some (Inr records)"
  by (simp add: ref_frames.simps)

lemma frames_agree:
  "agrees (ref_frames dec infl init parse c inp records) (decode_frames (decode_body dec infl init parse c) inp records)"
proof (induction "length inp" arbitrary: inp records rule: less_induct)
  case less
  show ?case
    by (subst ref_frames.simps, subst decode_frames.simps)
      (use less in \<open>auto simp: Let_def ref_le32 kFrameMinBytes_def decode_body_def split: prod.split sum.split option.split\<close>)
qed

lemma header_agrees:
  "(case RefReadShardHeader inp of
      Inl _ \<Rightarrow> \<exists>e. ReadShardHeader inp = Inl e
    | Inr (hdr, rest) \<Rightarrow> length (client_eph_pub hdr) = 32 \<and>
        (if algo_id hdr = 1 then ReadShardHeader inp = Inr (hdr, rest) else \<exists>e. ReadShardHeader inp = Inl e))"
  by (auto simp: RefReadShardHeader_def ReadShardHeader_def Let_def ref_le32 kMagic_def kAlgoId_def kHeaderBytes_def)

lemma shard_agrees:
  assumes "length priv = 32"
  shows "agrees (RefDecodeShard agree hkdf dec infl init parse rnd content priv)
           (DecodeShardFile agree hkdf dec infl init parse rnd shard content priv)"
proof (cases content)
  case (Some inp)
  show ?thesis
  proof (cases "RefReadShardHeader inp")
    case (Inl e)
    with Some header_agrees [of inp] show ?thesis
      by (auto simp: RefDecodeShard_def DecodeShardFile_def)
  next
    case (Inr hr)
    then obtain hdr rest where h: "RefReadShardHeader inp = Inr (hdr, rest)" by (cases hr) auto
    with header_agrees [of inp] have len: "length (client_eph_pub hdr) = 32"
      and hd: "if algo_id hdr = 1 then ReadShardHeader inp = Inr (hdr, rest) else \<exists>e. ReadShardHeader inp = Inl e"
      by simp_all
    show ?thesis
    proof (cases "algo_id hdr = 1")
      case False
      with Some h hd show ?thesis by (auto simp: RefDecodeShard_def DecodeShardFile_def)
    next
      case True
      with Some h hd len assms show ?thesis
        by (auto simp: RefDecodeShard_def DecodeShardFile_def DeriveAesKey_def frames_agree
            split: option.split sum.split prod.split)
    qed
  qed
qed (simp add: RefDecodeShard_def DecodeShardFile_def)

lemma each_agrees:
  assumes "\<And>p b. agrees (one b) (read_shard p b)"
  shows "agrees (decode_each one es out) (read_shards read_shard dir es out)"
proof (induction es arbitrary: out)
  case (Cons e es)
  from assms [of "de_content e" "path_join dir (de_name e)"] show ?case
    using Cons by (cases "one (de_content e)"; cases "read_shard (path_join dir (de_name e)) (de_content e)")
      (auto split: sum.splits)
qed simp

lemma dir_agrees:
  assumes "length priv = 32"
  shows "agrees (DecodeAllShards (\<lambda>b. RefDecodeShard agree hkdf dec infl init parse rnd b priv) es)
    (DecodeShardDir (\<lambda>p b. DecodeShardFile agree hkdf dec infl init parse rnd p b priv) dir (Some es))"
proof -
  have "ListShards es = shard_entries es"
    by (simp add: ListShards_def shard_entries_def IsShardFile_def IsShardFilename_def)
  then show ?thesis
    by (simp add: DecodeAllShards_def DecodeShardDir_def each_agrees shard_agrees [OF assms])
qed

section \<open>Properties\<close>

text \<open>
  C37. The library's decoder and the test's own decoder are equivalent: on every directory, with a 32-byte private
  key, either both do not return, or both fail, or both return the same records in the same order, whatever
  bytes the files hold.
\<close>

theorem reference_decoder_agrees:
  assumes "length priv = 32"
  shows "agrees (DecodeAllShards (\<lambda>b. RefDecodeShard agree hkdf dec infl init parse rnd b priv) es)
    (DecodeShardDir (\<lambda>p b. DecodeShardFile agree hkdf dec infl init parse rnd p b priv) dir (Some es))"
  by (rule dir_agrees [OF assms])

text \<open>On a directory with one shard, cut in its header, and one file that is none.\<close>

theorem reference_decoder_agrees_witness:
  "agrees (DecodeAllShards (\<lambda>b. RefDecodeShard (\<lambda>_ _. None) (\<lambda>_ _ _ _. Inl []) (\<lambda>_ _ _. ([], NotVerified))
        flag_inflate (Z_OK, False) (\<lambda>b. Some b) [] b (replicate 32 1))
        [\<lparr>de_name = ''log-1.bin'', de_regular = True, de_content = Some kMagic\<rparr>,
         \<lparr>de_name = ''server.pub'', de_regular = True, de_content = None\<rparr>])
     (Some (Inl (RuntimeError ''audit: short shard header (file truncated?)'')))"
  using reference_decoder_agrees [of "replicate 32 1" "\<lambda>_ _. None" "\<lambda>_ _ _ _. Inl []" "\<lambda>_ _ _. ([], NotVerified)"
      flag_inflate "(Z_OK, False)" "\<lambda>b. Some b" "[]"
      "[\<lparr>de_name = ''log-1.bin'', de_regular = True, de_content = Some kMagic\<rparr>,
         \<lparr>de_name = ''server.pub'', de_regular = True, de_content = None\<rparr>]" "''logs''"]
  by (simp add: DecodeShardDir_def shard_entries_def IsShardFilename_def DecodeShardFile_def ReadShardHeader_def
      kMagic_def kHeaderBytes_def)

end
