(* ===== verification/Smoke_Tests.thy ===== *)
theory Smoke_Tests
  imports Smoke_Decoder Log_Handle
begin

text \<open>
  The smoke tests of the pure layers, examples/compress_smoke.cpp, proto_smoke.cpp and crypt_smoke.cpp, run on the
  model: each case is a definition in terms of the modelled operations, with every \<open>assert\<close> a check
  that stops the program. The properties say which documented facts about zlib, protobuf and Crypto++ make all
  cases pass, and what is left to luck (fresh keys, a compression ratio).
\<close>

section \<open>Checked programs\<close>

definition bindc :: "'a checked \<Rightarrow> ('a \<Rightarrow> 'b checked) \<Rightarrow> 'b checked" where
  "bindc c f = (case c of None \<Rightarrow> None | Some (Inl e) \<Rightarrow> Some (Inl e) | Some (Inr x) \<Rightarrow> f x)"

definition require :: "bool \<Rightarrow> string \<Rightarrow> unit checked" where
  "require b what = (if b then Some (Inr ()) else Some (Inl (Exit what)))"

text \<open>A call that appends to an output string and may throw; nobody catches.\<close>

definition called :: "bytes \<times> unit res \<Rightarrow> bytes checked" where
  "called r = (case r of (out, Inl e) \<Rightarrow> Some (Inl (Thrown e)) | (out, Inr _) \<Rightarrow> Some (Inr out))"

definition returned :: "'a res \<Rightarrow> 'a checked" where
  "returned r = (case r of Inl e \<Rightarrow> Some (Inl (Thrown e)) | Inr x \<Rightarrow> Some (Inr x))"

lemma bindc_simps [simp]:
  "bindc None f = None" "bindc (Some (Inl e)) f = Some (Inl e)" "bindc (Some (Inr x)) f = f x"
  by (simp_all add: bindc_def)

lemma require_simps [simp]:
  "require True what = Some (Inr ())" "require False what = Some (Inl (Exit what))"
  by (simp_all add: require_def)

lemma called_simps [simp]:
  "called (out, Inr u) = Some (Inr out)" "called (out, Inl e) = Some (Inl (Thrown e))"
  by (simp_all add: called_def)

lemma returned_simps [simp]: "returned (Inr x) = Some (Inr x)" "returned (Inl e) = Some (Inl (Thrown e))"
  by (simp_all add: returned_def)

lemma bindc_if: "bindc (require b what) f = (if b then f () else Some (Inl (Exit what)))"
  by (simp add: bindc_def require_def)

section \<open>compress_smoke\<close>

text \<open>
  \<open>press\<close> and \<open>unpress\<close> are \<open>Compress\<close> and \<open>Decompress\<close> of one \<open>ZlibCompressor\<close>, whose constructor does not throw at its default
  level; \<open>rnd n seed\<close> is \<open>MakeRandom\<close>.
\<close>

type_synonym zip_call = "bytes \<Rightarrow> bytes \<Rightarrow> (bytes \<times> unit res) option"

definition zcalled :: "(bytes \<times> unit res) option \<Rightarrow> bytes checked" where
  "zcalled r = (case r of None \<Rightarrow> None | Some x \<Rightarrow> called x)"

definition zip_case1 :: "zip_call \<Rightarrow> zip_call \<Rightarrow> bytes \<Rightarrow> unit checked" where
  "zip_case1 press unpress inp =
     bindc (zcalled (press inp [])) (\<lambda>compressed.
     bindc (require (compressed \<noteq> []) ''!compressed.empty()'') (\<lambda>_.
     bindc (zcalled (unpress compressed [])) (\<lambda>decompressed.
     require (decompressed = inp) ''decompressed == in'')))"

definition zip_case2 :: "zip_call \<Rightarrow> zip_call \<Rightarrow> bytes \<Rightarrow> unit checked" where
  "zip_case2 press unpress inp =
     bindc (zcalled (press inp [])) (\<lambda>compressed.
     bindc (zcalled (unpress compressed [])) (\<lambda>decompressed.
     require (decompressed = inp) ''decompressed == in''))"

definition of_string :: "string \<Rightarrow> bytes" where
  "of_string s = map (\<lambda>c. of_nat (of_char c)) s"

definition zip_case3 :: "zip_call \<Rightarrow> zip_call \<Rightarrow> unit checked" where
  "zip_case3 press unpress =
     bindc (zcalled (press [] [])) (\<lambda>compressed.
     bindc (zcalled (unpress compressed [])) (\<lambda>decompressed.
     bindc (require (decompressed = []) ''decompressed.empty()'') (\<lambda>_.
     bindc (zcalled (press (of_string ''X'') [])) (\<lambda>compressed.
     bindc (zcalled (unpress compressed [])) (\<lambda>decompressed.
     bindc (require (decompressed = of_string ''X'') ''decompressed == in'') (\<lambda>_.
     bindc (zcalled (press (of_string ''hello world'') (of_string ''PREFIX:''))) (\<lambda>compressed.
     bindc (require (7 < length compressed) ''compressed.size() > 7'') (\<lambda>_.
     bindc (require (take 7 compressed = of_string ''PREFIX:'') ''prefix'') (\<lambda>_.
     bindc (zcalled (unpress (drop 7 compressed) [])) (\<lambda>decompressed.
     require (decompressed = of_string ''hello world'') ''decompressed == in''))))))))))"

definition zip_case4 :: "zip_call \<Rightarrow> zip_call \<Rightarrow> unit checked" where
  "zip_case4 press unpress =
     (let inp = replicate (64 * 1024) 0x41 in
     bindc (zcalled (press inp [])) (\<lambda>compressed.
     bindc (require (10 * length compressed < length inp) ''ratio < 0.1'') (\<lambda>_.
     bindc (zcalled (unpress compressed [])) (\<lambda>decompressed.
     require (decompressed = inp) ''decompressed == in''))))"

definition compress_smoke :: "zip_call \<Rightarrow> zip_call \<Rightarrow> (nat \<Rightarrow> nat \<Rightarrow> bytes) \<Rightarrow> unit checked" where
  "compress_smoke press unpress rnd =
     bindc (zip_case1 press unpress (rnd 4096 1)) (\<lambda>_.
     bindc (zip_case2 press unpress (rnd (1024 * 1024) 2)) (\<lambda>_.
     bindc (zip_case3 press unpress) (\<lambda>_.
     zip_case4 press unpress)))"

text \<open>What the round trip gives for the calls of the test.\<close>

definition round_trips :: "(bytes \<Rightarrow> bytes \<Rightarrow> bool) \<Rightarrow> zip_call \<Rightarrow> zip_call \<Rightarrow> bool" where
  "round_trips zipped press unpress \<longleftrightarrow>
     (\<forall>inp out. \<exists>y. zipped inp y \<and> zcalled (press inp out) = Some (Inr (out @ y))
        \<and> zcalled (unpress y []) = Some (Inr inp))"

lemma zlib_round_trips:
  assumes "deflates defl bound zipped D" and "D z0 [] []" and "inflates infl R" and "\<And>x y. zipped x y \<Longrightarrow> R i0 y x"
  shows "round_trips zipped (Compress defl bound (Z_OK, z0)) (Decompress infl (Z_OK, i0))"
  unfolding round_trips_def
proof (intro allI)
  fix inp out
  obtain y where y: "zipped inp y"
    and c: "comp_loop defl inp (length out) (comp_start z0 (bound (length inp)) inp out) = Some (out @ y, Inr ())"
    using comp_terminates [OF assms(1) comp_start_inv [of D z0, OF assms(2)]] by blast
  have "R i0 (y @ []) inp" using assms(4) [OF y] by simp
  from decomp_terminates [OF assms(3) decomp_start_inv [of R i0 y "[]", OF this], of "[]"] y c
  show "\<exists>y. zipped inp y \<and> zcalled (Compress defl bound (Z_OK, z0) inp out) = Some (Inr (out @ y))
      \<and> zcalled (Decompress infl (Z_OK, i0) y []) = Some (Inr inp)"
    by (intro exI [of _ y]) (simp add: Compress_def Decompress_def zcalled_def)
qed

lemma zip_cases:
  assumes rt: "round_trips zipped press unpress" and ne: "\<And>x y. zipped x y \<Longrightarrow> y \<noteq> []"
  shows "zip_case1 press unpress inp = Some (Inr ())" and "zip_case2 press unpress inp = Some (Inr ())"
    and "zip_case3 press unpress = Some (Inr ())"
    and "\<exists>y. zipped (replicate (64 * 1024) 0x41) y
      \<and> zip_case4 press unpress = require (10 * length y < 64 * 1024) ''ratio < 0.1''"
proof -
  have one: "\<exists>y. zipped i y \<and> zcalled (press i out) = Some (Inr (out @ y)) \<and> zcalled (unpress y []) = Some (Inr i)" for i out
    using rt by (simp add: round_trips_def)
  from one [of inp "[]"] ne show "zip_case1 press unpress inp = Some (Inr ())" "zip_case2 press unpress inp = Some (Inr ())"
    by (auto simp: zip_case1_def zip_case2_def bindc_if)
  from one [of "[]" "[]"] obtain a where a: "zcalled (press [] []) = Some (Inr a)" "zcalled (unpress a []) = Some (Inr [])"
    by auto
  from one [of "of_string ''X''" "[]"] obtain b where b: "zcalled (press (of_string ''X'') []) = Some (Inr b)"
    "zcalled (unpress b []) = Some (Inr (of_string ''X''))" by auto
  let ?pre = "of_string ''PREFIX:''" and ?hw = "of_string ''hello world''"
  have pre: "length ?pre = 7" by (simp add: of_string_def)
  from one [of ?hw ?pre] obtain c where c: "zipped ?hw c" "zcalled (press ?hw ?pre) = Some (Inr (?pre @ c))"
    "zcalled (unpress c []) = Some (Inr ?hw)" by auto
  have "7 < length (?pre @ c)" "take 7 (?pre @ c) = ?pre" "drop 7 (?pre @ c) = c"
    using ne [OF c(1)] pre by simp_all
  with a b c show "zip_case3 press unpress = Some (Inr ())"
    by (simp add: zip_case3_def bindc_if)
  let ?A = "replicate (64 * 1024) 0x41 :: bytes"
  from one [of ?A "[]"] obtain y where y: "zipped ?A y" "zcalled (press ?A []) = Some (Inr y)"
    "zcalled (unpress y []) = Some (Inr ?A)" by auto
  then have "zip_case4 press unpress = require (10 * length y < 64 * 1024) ''ratio < 0.1''"
    unfolding zip_case4_def Let_def by (simp only: y bindc_simps bindc_if length_replicate) simp
  with y(1) show "\<exists>y. zipped ?A y \<and> zip_case4 press unpress = require (10 * length y < 64 * 1024) ''ratio < 0.1''"
    by blast
qed

lemma compress_smoke_outcome:
  assumes "round_trips zipped press unpress" and "\<And>x y. zipped x y \<Longrightarrow> y \<noteq> []"
  shows "\<exists>y. zipped (replicate (64 * 1024) 0x41) y
    \<and> compress_smoke press unpress rnd = require (10 * length y < 64 * 1024) ''ratio < 0.1''"
  using zip_cases [OF assms] by (simp only: compress_smoke_def bindc_simps)

section \<open>proto_smoke\<close>

text \<open>A message of \<open>MakeMsg\<close>; the clock and \<open>__LINE__\<close> are arguments.\<close>

definition MakeMsg :: "int \<Rightarrow> int \<Rightarrow> string \<Rightarrow> string \<Rightarrow> bool \<Rightarrow> LogMsg" where
  "MakeMsg now line name message with_loc =
     \<lparr>msg_level = LogLevel.info, msg_time = now, msg_logger = name,
      msg_loc = (if with_loc
        then \<lparr>loc_file = Some ''proto_smoke.cpp'', loc_line = line, loc_func = Some ''MakeMsg''\<rparr>
        else \<lparr>loc_file = None, loc_line = 0, loc_func = None\<rparr>),
      msg_text = message\<rparr>"

text \<open>\<open>fmt\<close> is \<open>Format\<close> of the formatter, \<open>parse\<close> is \<open>ParseFromString\<close>.\<close>

definition parsed :: "(bytes \<Rightarrow> LogRecord option) \<Rightarrow> bytes \<Rightarrow> LogRecord checked" where
  "parsed parse b = (case parse b of None \<Rightarrow> Some (Inl (Exit ''ParseFromString'')) | Some r \<Rightarrow> Some (Inr r))"

definition proto_case1 :: "(LogMsg \<Rightarrow> bytes \<Rightarrow> bytes \<times> unit res) \<Rightarrow> LogMsg \<Rightarrow> unit checked" where
  "proto_case1 fmt m =
     bindc (called (fmt m [])) (\<lambda>b. require (b \<noteq> []) ''!bytes.empty()'')"

definition proto_case2 ::
  "(LogMsg \<Rightarrow> bytes \<Rightarrow> bytes \<times> unit res) \<Rightarrow> (bytes \<Rightarrow> LogRecord option) \<Rightarrow> nat \<Rightarrow> nat \<Rightarrow> LogMsg \<Rightarrow> unit checked" where
  "proto_case2 fmt parse pid tid m =
     bindc (called (fmt m [])) (\<lambda>b.
     bindc (parsed parse b) (\<lambda>r.
     bindc (require (rec_level r = of_nat (level_value (msg_level m))) ''level'') (\<lambda>_.
     bindc (require (rec_logger r = ''audit'') ''logger_name'') (\<lambda>_.
     bindc (require (rec_message r = ''user did X'') ''message'') (\<lambda>_.
     bindc (require (rec_pid r = pid) ''pid'') (\<lambda>_.
     bindc (require (rec_tid r = tid) ''tid'') (\<lambda>_.
     bindc (require (rec_line r = of_int (loc_line (msg_loc m))) ''line'') (\<lambda>_.
     bindc (require (Some (rec_file r) = loc_file (msg_loc m)) ''file'') (\<lambda>_.
     bindc (require (Some (rec_func r) = loc_func (msg_loc m)) ''func'') (\<lambda>_.
     require (rec_time_ns r = msg_time m) ''time_ns''))))))))))"

definition utf8_text :: string where
  "utf8_text = [CHR 0xE4, CHR 0xB8, CHR 0xAD, CHR 0xE6, CHR 0x96, CHR 0x87, CHR '' '',
                CHR 0xF0, CHR 0x9F, CHR 0x9A, CHR 0x80] @ '' ok''"

definition proto_case3 ::
  "(LogMsg \<Rightarrow> bytes \<Rightarrow> bytes \<times> unit res) \<Rightarrow> (bytes \<Rightarrow> LogRecord option) \<Rightarrow> LogMsg \<Rightarrow> unit checked" where
  "proto_case3 fmt parse m =
     bindc (called (fmt m [])) (\<lambda>b.
     bindc (parsed parse b) (\<lambda>r.
     require (rec_message r = utf8_text) ''message''))"

definition proto_case4 ::
  "(LogMsg \<Rightarrow> bytes \<Rightarrow> bytes \<times> unit res) \<Rightarrow> (bytes \<Rightarrow> LogRecord option) \<Rightarrow> LogMsg \<Rightarrow> unit checked" where
  "proto_case4 fmt parse m =
     bindc (called (fmt m [])) (\<lambda>b.
     bindc (parsed parse b) (\<lambda>r.
     bindc (require (rec_file r = []) ''file'') (\<lambda>_.
     bindc (require (rec_line r = 0) ''line'') (\<lambda>_.
     bindc (require (rec_func r = []) ''func'') (\<lambda>_.
     require (rec_message r = ''no source info'') ''message'')))))"

definition proto_smoke ::
  "(LogRecord \<Rightarrow> bytes option) \<Rightarrow> (bytes \<Rightarrow> LogRecord option) \<Rightarrow> nat \<Rightarrow> nat \<Rightarrow> int \<Rightarrow> int \<Rightarrow> unit checked" where
  "proto_smoke ser parse pid tid now line =
     (let fmt = EffectiveFormat ser pid tid
      in bindc (proto_case1 fmt (MakeMsg now line ''test1'' ''hello, world'' True)) (\<lambda>_.
         bindc (proto_case2 fmt parse pid tid (MakeMsg now line ''audit'' ''user did X'' True)) (\<lambda>_.
         bindc (proto_case3 fmt parse (MakeMsg now line ''unicode'' utf8_text True)) (\<lambda>_.
         proto_case4 fmt parse (MakeMsg now line ''noloc'' ''no source info'' False)))))"

text \<open>The four messages, and what the serialiser has to do with them.\<close>

definition proto_msgs :: "int \<Rightarrow> int \<Rightarrow> LogMsg list" where
  "proto_msgs now line =
     [MakeMsg now line ''test1'' ''hello, world'' True, MakeMsg now line ''audit'' ''user did X'' True,
      MakeMsg now line ''unicode'' utf8_text True, MakeMsg now line ''noloc'' ''no source info'' False]"

definition serialises :: "(LogRecord \<Rightarrow> bytes option) \<Rightarrow> (bytes \<Rightarrow> LogRecord option) \<Rightarrow> LogRecord list \<Rightarrow> bool" where
  "serialises ser parse rs \<longleftrightarrow> (\<forall>r \<in> set rs. \<exists>b. ser r = Some b \<and> b \<noteq> [] \<and> parse b = Some r)"

lemma proto_smoke_passes:
  assumes "serialises ser parse (map (make_record pid tid) (proto_msgs now line))"
  shows "proto_smoke ser parse pid tid now line = Some (Inr ())"
proof -
  have f: "\<exists>b. EffectiveFormat ser pid tid m [] = (b, Inr ()) \<and> b \<noteq> [] \<and> parse b = Some (make_record pid tid m)"
    if "m \<in> set (proto_msgs now line)" for m
    using assms that by (auto simp: serialises_def EffectiveFormat_def)
  let ?m = "proto_msgs now line"
  have 1: "proto_case1 (EffectiveFormat ser pid tid) (?m ! 0) = Some (Inr ())"
    using f [of "?m ! 0"] by (auto simp: proto_case1_def proto_msgs_def)
  have 2: "proto_case2 (EffectiveFormat ser pid tid) parse pid tid (?m ! 1) = Some (Inr ())"
    using f [of "?m ! 1"]
    by (auto simp: proto_case2_def parsed_def make_record_def MakeMsg_def loc_empty_def Let_def proto_msgs_def)
  have 3: "proto_case3 (EffectiveFormat ser pid tid) parse (?m ! 2) = Some (Inr ())"
    using f [of "?m ! 2"] by (auto simp: proto_case3_def parsed_def make_record_def MakeMsg_def Let_def proto_msgs_def)
  have 4: "proto_case4 (EffectiveFormat ser pid tid) parse (?m ! 3) = Some (Inr ())"
    using f [of "?m ! 3"]
    by (auto simp: proto_case4_def parsed_def make_record_def MakeMsg_def loc_empty_def Let_def proto_msgs_def)
  show ?thesis using 1 2 3 4 by (simp add: proto_smoke_def Let_def proto_msgs_def)
qed

section \<open>crypt_smoke\<close>

text \<open>
  What the test takes from Crypto++, and what its random sources give: \<open>dr_bytes n seed\<close> is \<open>MakeRandom\<close>, \<open>dr_prefix i\<close> the nonce
  prefix of the \<open>i\<close>-th cipher, \<open>dr_priv i\<close> the \<open>i\<close>-th generated private key.
\<close>

record crypto_lib =
  c_enc :: gcm_enc
  c_dec :: gcm_dec
  c_hkdf :: "nat \<Rightarrow> bytes \<Rightarrow> bytes \<Rightarrow> bytes \<Rightarrow> string + bytes"
  c_pub :: "bytes \<Rightarrow> bytes"
  c_agree :: "bytes \<Rightarrow> bytes \<Rightarrow> bytes option"

record draws =
  dr_bytes :: "nat \<Rightarrow> nat \<Rightarrow> bytes"
  dr_prefix :: "nat \<Rightarrow> bytes"
  dr_priv :: "nat \<Rightarrow> bytes"

definition seals :: "crypto_lib \<Rightarrow> cipher \<Rightarrow> bytes \<Rightarrow> (cipher \<times> bytes) checked" where
  "seals c s p =
     (case Encrypt (c_enc c) s p [] of (s', out, r) \<Rightarrow> bindc (called (out, r)) (\<lambda>m. Some (Inr (s', m))))"

definition opens :: "crypto_lib \<Rightarrow> cipher \<Rightarrow> bytes \<Rightarrow> bytes checked" where
  "opens c s m = called (Decrypt (c_dec c) s m [])"

definition derives :: "crypto_lib \<Rightarrow> bytes \<Rightarrow> bytes \<Rightarrow> (bytes \<times> bytes) checked" where
  "derives c eph peer = returned (DeriveSharedSecret (c_pub c) (c_agree c) eph peer)"

definition kdf :: "crypto_lib \<Rightarrow> bytes \<Rightarrow> bytes \<Rightarrow> bytes checked" where
  "kdf c secret salt = called (HkdfSha256 (c_hkdf c) secret salt kdf_info 32 [])"

definition crypt_case1 :: "crypto_lib \<Rightarrow> draws \<Rightarrow> unit checked" where
  "crypt_case1 c dr =
     (let key = dr_bytes dr 32 1; plaintext = of_string ''the quick brown fox jumps over the lazy dog''
      in bindc (returned (AesGcmCipher key (dr_prefix dr 0))) (\<lambda>e.
         bindc (returned (AesGcmCipher key (dr_prefix dr 1))) (\<lambda>d.
         bindc (seals c e plaintext) (\<lambda>(_, m).
         bindc (require (length m = 12 + length plaintext + 16) ''sealed.size()'') (\<lambda>_.
         bindc (opens c d m) (\<lambda>out.
         require (out = plaintext) ''opened == plaintext''))))))"

text \<open>The exception is caught; every exception of the library is a \<open>std::runtime_error\<close>.\<close>

definition crypt_case2 :: "crypto_lib \<Rightarrow> draws \<Rightarrow> unit checked" where
  "crypt_case2 c dr =
     (let key = dr_bytes dr 32 2; plaintext = of_string ''important audit record''
      in bindc (returned (AesGcmCipher key (dr_prefix dr 2))) (\<lambda>e.
         bindc (returned (AesGcmCipher key (dr_prefix dr 3))) (\<lambda>d.
         bindc (seals c e plaintext) (\<lambda>(_, m).
         case Decrypt (c_dec c) d (m[20 := (m ! 20) XOR 1]) [] of (out, r) \<Rightarrow>
         bindc (require (isl r) ''threw'') (\<lambda>_.
         require (out = []) ''opened.empty()'')))))"

fun nonce_loop :: "crypto_lib \<Rightarrow> nat \<Rightarrow> cipher \<Rightarrow> bytes list \<Rightarrow> unit checked" where
  "nonce_loop c 0 s nonces = Some (Inr ())"
| "nonce_loop c (Suc n) s nonces =
     bindc (seals c s (of_string ''same plaintext'')) (\<lambda>(s', m).
     bindc (require (take 12 m \<notin> set nonces) ''ins.second'') (\<lambda>_.
     nonce_loop c n s' (take 12 m # nonces)))"

definition crypt_case3 :: "crypto_lib \<Rightarrow> draws \<Rightarrow> unit checked" where
  "crypt_case3 c dr =
     bindc (returned (AesGcmCipher (dr_bytes dr 32 3) (dr_prefix dr 4))) (\<lambda>e. nonce_loop c 1000 e [])"

definition crypt_case4 :: "crypto_lib \<Rightarrow> draws \<Rightarrow> unit checked" where
  "crypt_case4 c dr =
     (let peer = c_pub c (dr_priv dr 0)
      in bindc (derives c (dr_priv dr 1) peer) (\<lambda>(eph1, shared1).
         bindc (require (length eph1 = 32) ''eph1.size()'') (\<lambda>_.
         bindc (require (length shared1 = 32) ''shared1.size()'') (\<lambda>_.
         bindc (derives c (dr_priv dr 2) peer) (\<lambda>(eph2, shared2).
         bindc (require (eph2 \<noteq> eph1) ''eph2 != eph1'') (\<lambda>_.
         require (shared2 \<noteq> shared1) ''shared2 != shared1''))))))"

definition crypt_case5 :: "crypto_lib \<Rightarrow> draws \<Rightarrow> unit checked" where
  "crypt_case5 c dr =
     (let secret = dr_bytes dr 32 5; salt = dr_bytes dr 16 6
      in bindc (kdf c secret salt) (\<lambda>a.
         bindc (kdf c secret salt) (\<lambda>b.
         bindc (require (a = b) ''a == b'') (\<lambda>_.
         bindc (require (length a = 32) ''a.size()'') (\<lambda>_.
         bindc (kdf c (dr_bytes dr 32 7) salt) (\<lambda>x.
         require (x \<noteq> a) ''c != a''))))))"

definition crypt_case6 :: "crypto_lib \<Rightarrow> draws \<Rightarrow> unit checked" where
  "crypt_case6 c dr =
     (let priv = dr_priv dr 3; pub = c_pub c priv;
          record1 = of_string ''audit: user login at 2026-05-21T10:00:00Z''
      in bindc (derives c (dr_priv dr 4) pub) (\<lambda>(eph, shared).
         bindc (kdf c shared []) (\<lambda>key.
         bindc (returned (AesGcmCipher key (dr_prefix dr 5))) (\<lambda>e.
         bindc (seals c e record1) (\<lambda>(_, m).
         case c_agree c priv eph of
           None \<Rightarrow> Some (Inl (Exit ''ok''))
         | Some shared2 \<Rightarrow>
         bindc (require (shared2 = shared) ''shared_audit_str == shared_logger'') (\<lambda>_.
         bindc (kdf c shared2 []) (\<lambda>key2.
         bindc (require (key2 = key) ''aes_key_audit == aes_key_logger'') (\<lambda>_.
         bindc (returned (AesGcmCipher key2 (dr_prefix dr 6))) (\<lambda>d.
         bindc (opens c d m) (\<lambda>out.
         require (out = record1) ''recovered == record''))))))))))"

definition crypt_smoke :: "crypto_lib \<Rightarrow> draws \<Rightarrow> unit checked" where
  "crypt_smoke c dr =
     bindc (crypt_case1 c dr) (\<lambda>_. bindc (crypt_case2 c dr) (\<lambda>_. bindc (crypt_case3 c dr) (\<lambda>_.
     bindc (crypt_case4 c dr) (\<lambda>_. bindc (crypt_case5 c dr) (\<lambda>_. crypt_case6 c dr)))))"

text \<open>
  What Crypto++ documents of these algorithms, as far as the test relies on it: sealing succeeds under a 32-byte key and
  opens again, a flipped bit is detected, HKDF gives as many bytes as asked for, public keys and shared secrets have 32 bytes and
  the agreement is symmetric.
\<close>

definition crypto_documented :: "crypto_lib \<Rightarrow> bool" where
  "crypto_documented c \<longleftrightarrow>
     aead (c_enc c) (c_dec c)
     \<and> (\<forall>k iv p. length k = 32 \<longrightarrow> (\<exists>body. c_enc c k iv p = Inr body))
     \<and> (\<forall>k iv p body i. c_enc c k iv p = Inr body \<longrightarrow> i < length body \<longrightarrow>
          snd (c_dec c k iv (body[i := (body ! i) XOR 1])) \<noteq> Verified)
     \<and> (\<forall>n s t i. \<exists>x. c_hkdf c n s t i = Inr x \<and> length x = n)
     \<and> (\<forall>k. length (c_pub c k) = 32)
     \<and> (\<forall>j k. \<exists>x. c_agree c j (c_pub c k) = Some x \<and> c_agree c k (c_pub c j) = Some x \<and> length x = 32)"

definition draws_ok :: "draws \<Rightarrow> bool" where
  "draws_ok dr \<longleftrightarrow> (\<forall>n s. length (dr_bytes dr n s) = n) \<and> (\<forall>i. length (dr_prefix dr i) = 8)"

lemma documentedD:
  assumes "crypto_documented c"
  shows "aead (c_enc c) (c_dec c)"
    and "length k = 32 \<Longrightarrow> \<exists>body. c_enc c k iv p = Inr body"
    and "c_enc c k iv p = Inr body \<Longrightarrow> i < length body \<Longrightarrow>
           snd (c_dec c k iv (body[i := (body ! i) XOR 1])) \<noteq> Verified"
    and "\<exists>x. c_hkdf c n s t u = Inr x \<and> length x = n"
    and "length (c_pub c k) = 32"
    and "\<exists>x. c_agree c j (c_pub c k) = Some x \<and> c_agree c k (c_pub c j) = Some x \<and> length x = 32"
  using assms unfolding crypto_documented_def by blast+

lemma drawsD: "draws_ok dr \<Longrightarrow> length (dr_bytes dr n s) = n" "draws_ok dr \<Longrightarrow> length (dr_prefix dr i) = 8"
  by (simp_all add: draws_ok_def)

text \<open>One sealed message: its shape, and that the key opens it.\<close>

lemma seals_ok:
  assumes "crypto_documented c" and "length (key s) = 32" and "counter s \<noteq> - 1" and "length (nonce_prefix s) = 8"
  obtains body where "c_enc c (key s) (nonce_prefix s @ be32 (counter s)) p = Inr body"
    and "length body = length p + 16"
    and "seals c s p = Some (Inr (s\<lparr>counter := counter s + 1\<rparr>, nonce_prefix s @ be32 (counter s) @ body))"
proof -
  obtain body where b: "c_enc c (key s) (nonce_prefix s @ be32 (counter s)) p = Inr body"
    using documentedD(2) [OF assms(1,2)] by blast
  moreover have "length body = length p + 16"
    using b documentedD(1) [OF assms(1)] by (auto simp: aead_def kTagBytes_def)
  moreover have "seals c s p = Some (Inr (s\<lparr>counter := counter s + 1\<rparr>, nonce_prefix s @ be32 (counter s) @ body))"
    using b assms(3,4) by (simp add: seals_def Encrypt_def BuildNonce_def Let_def)
  ultimately show thesis by (rule that)
qed

lemma opens_ok:
  assumes "crypto_documented c" and "c_enc c (key d) (n @ m) p = Inr body" and "length n = 8" and "length m = 4"
  shows "opens c d (n @ m @ body) = Some (Inr p)"
proof -
  have "length body = length p + 16 \<and> c_dec c (key d) (n @ m) body = (p, Verified)"
    using documentedD(1) [OF assms(1)] assms(2) by (auto simp: aead_def kTagBytes_def)
  with assms(3,4) show ?thesis
    by (simp add: opens_def Decrypt_def kNonceBytes_def kTagBytes_def Let_def)
qed

lemma cipher_made:
  "length k = 32 \<Longrightarrow> AesGcmCipher k r = Inr \<lparr>key = k, nonce_prefix = r, counter = 0\<rparr>"
  by (simp add: AesGcmCipher_def kKeyBytes_def)

text \<open>The first message of a new cipher.\<close>

lemma seals_first:
  assumes "crypto_documented c" and "length k = 32" and "length r = 8"
  obtains body s where "c_enc c k (r @ be32 0) p = Inr body" and "length body = length p + 16"
    and "seals c \<lparr>key = k, nonce_prefix = r, counter = 0\<rparr> p = Some (Inr (s, r @ be32 0 @ body))"
proof (rule seals_ok [OF assms(1), of "\<lparr>key = k, nonce_prefix = r, counter = 0\<rparr>" p], goal_cases)
  case (4 body)
  then show ?case using that by simp
qed (simp_all add: assms(2,3))

lemma crypt_case1_passes:
  assumes c: "crypto_documented c" and d: "draws_ok dr"
  shows "crypt_case1 c dr = Some (Inr ())"
proof -
  let ?p = "of_string ''the quick brown fox jumps over the lazy dog''"
  note l = drawsD [OF d]
  obtain body s where b: "c_enc c (dr_bytes dr 32 1) (dr_prefix dr 0 @ be32 0) ?p = Inr body" "length body = length ?p + 16"
    "seals c \<lparr>key = dr_bytes dr 32 1, nonce_prefix = dr_prefix dr 0, counter = 0\<rparr> ?p
       = Some (Inr (s, dr_prefix dr 0 @ be32 0 @ body))"
    using seals_first [OF c l(1) l(2)] .
  have o: "opens c \<lparr>key = dr_bytes dr 32 1, nonce_prefix = dr_prefix dr 1, counter = 0\<rparr>
      (dr_prefix dr 0 @ be32 0 @ body) = Some (Inr ?p)"
    by (rule opens_ok [OF c]) (use b(1) l in simp_all)
  show ?thesis
    unfolding crypt_case1_def Let_def by (simp only: cipher_made [OF l(1)] returned_simps bindc_simps b(3) prod.case o bindc_if)
      (simp add: l b(2))
qed

lemma crypt_case2_passes:
  assumes c: "crypto_documented c" and d: "draws_ok dr"
  shows "crypt_case2 c dr = Some (Inr ())"
proof -
  let ?p = "of_string ''important audit record''"
  note l = drawsD [OF d]
  let ?iv = "dr_prefix dr 2 @ be32 0" and ?k = "dr_bytes dr 32 2"
  obtain body s where b: "c_enc c ?k ?iv ?p = Inr body" "length body = length ?p + 16"
    "seals c \<lparr>key = ?k, nonce_prefix = dr_prefix dr 2, counter = 0\<rparr> ?p = Some (Inr (s, dr_prefix dr 2 @ be32 0 @ body))"
    using seals_first [OF c l(1) l(2)] .
  have len: "length body = 38" using b(2) by (simp add: of_string_def)
  let ?flip = "body[8 := (body ! 8) XOR 1]" and ?m = "dr_prefix dr 2 @ be32 0 @ body"
  have m: "?m[20 := (?m ! 20) XOR 1] = ?iv @ ?flip"
    using l by (simp add: list_update_append nth_append)
  have "snd (c_dec c ?k ?iv ?flip) \<noteq> Verified"
    by (rule documentedD(3) [OF c b(1)]) (simp add: len)
  then have "\<exists>e. Decrypt (c_dec c) \<lparr>key = ?k, nonce_prefix = dr_prefix dr 3, counter = 0\<rparr> (?iv @ ?flip) [] = ([], Inl e)"
    using l len
    by (cases "c_dec c ?k ?iv ?flip")
      (auto simp: Decrypt_def kNonceBytes_def kTagBytes_def Let_def split: gcm_end.split)
  then obtain e where "Decrypt (c_dec c) \<lparr>key = ?k, nonce_prefix = dr_prefix dr 3, counter = 0\<rparr> (?iv @ ?flip) [] = ([], Inl e)" ..
  then show ?thesis
    unfolding crypt_case2_def Let_def
    by (simp only: cipher_made [OF l(1)] returned_simps bindc_simps b(3) prod.case m) simp
qed

lemma nonce_loop_passes:
  assumes c: "crypto_documented c" and "i + n < 2 ^ 32"
    and "set nonces \<subseteq> {r @ be32 (of_nat j) |j. j < i}" and r: "length r = 8" and k: "length k = 32"
  shows "nonce_loop c n \<lparr>key = k, nonce_prefix = r, counter = of_nat i\<rparr> nonces = Some (Inr ())"
  using assms(2,3)
proof (induction n arbitrary: i nonces)
  case (Suc n)
  let ?s = "\<lparr>key = k, nonce_prefix = r, counter = of_nat i\<rparr>"
  have i: "i < 2 ^ 32" "i \<noteq> 2 ^ 32 - 1" using Suc.prems(1) by simp_all
  have "counter ?s \<noteq> - 1" using of_nat_u32_eq [OF i(1)] i(2) by simp
  then obtain body where b: "seals c ?s (of_string ''same plaintext'')
      = Some (Inr (?s\<lparr>counter := counter ?s + 1\<rparr>, nonce_prefix ?s @ be32 (counter ?s) @ body))"
    using seals_ok [OF c, of ?s] r k by (metis cipher.select_convs(1,2))
  have fresh: "r @ be32 (of_nat i) \<notin> set nonces"
  proof
    assume "r @ be32 (of_nat i) \<in> set nonces"
    with Suc.prems(2) obtain j where j: "j < i" "be32 (of_nat i) = be32 (of_nat j)" by auto
    with i(1) show False by (simp add: be32_inj of_nat_u32_inj)
  qed
  have "nonce_loop c n \<lparr>key = k, nonce_prefix = r, counter = of_nat (Suc i)\<rparr> ((r @ be32 (of_nat i)) # nonces) = Some (Inr ())"
    by (rule Suc.IH) (use Suc.prems in \<open>auto simp: less_Suc_eq\<close>)
  with b fresh r show ?case by (simp add: add.commute)
qed simp

lemma crypt_case3_passes:
  assumes c: "crypto_documented c" and d: "draws_ok dr"
  shows "crypt_case3 c dr = Some (Inr ())"
  using nonce_loop_passes [OF c, of 0 1000 "[]" "dr_prefix dr 4" "dr_bytes dr 32 3"]
  by (simp add: crypt_case3_def cipher_made drawsD [OF d])

lemma derives_ok:
  assumes "crypto_documented c"
  shows "\<exists>x. derives c j (c_pub c k) = Some (Inr (c_pub c j, x)) \<and> c_agree c j (c_pub c k) = Some x
    \<and> c_agree c k (c_pub c j) = Some x \<and> length x = 32"
  using documentedD(6) [OF assms, of j k] documentedD(5) [OF assms, of k]
  by (auto simp: derives_def DeriveSharedSecret_def)

text \<open>What the fourth and the fifth case leave to luck: fresh keys, and a hash that tells two secrets apart.\<close>

definition keys_differ :: "crypto_lib \<Rightarrow> draws \<Rightarrow> bool" where
  "keys_differ c dr \<longleftrightarrow> c_pub c (dr_priv dr 2) \<noteq> c_pub c (dr_priv dr 1)
     \<and> c_agree c (dr_priv dr 2) (c_pub c (dr_priv dr 0)) \<noteq> c_agree c (dr_priv dr 1) (c_pub c (dr_priv dr 0))"

definition hash_differs :: "crypto_lib \<Rightarrow> draws \<Rightarrow> bool" where
  "hash_differs c dr \<longleftrightarrow>
     c_hkdf c 32 (dr_bytes dr 32 7) (dr_bytes dr 16 6) kdf_info \<noteq> c_hkdf c 32 (dr_bytes dr 32 5) (dr_bytes dr 16 6) kdf_info"

lemma crypt_case4_outcome:
  assumes c: "crypto_documented c"
  shows "crypt_case4 c dr = Some (Inr ()) \<longleftrightarrow> keys_differ c dr"
proof -
  obtain x y where x: "derives c (dr_priv dr 1) (c_pub c (dr_priv dr 0)) = Some (Inr (c_pub c (dr_priv dr 1), x))"
      "c_agree c (dr_priv dr 1) (c_pub c (dr_priv dr 0)) = Some x" "length x = 32"
    and y: "derives c (dr_priv dr 2) (c_pub c (dr_priv dr 0)) = Some (Inr (c_pub c (dr_priv dr 2), y))"
      "c_agree c (dr_priv dr 2) (c_pub c (dr_priv dr 0)) = Some y"
    using derives_ok [OF c] by meson
  have "length (c_pub c (dr_priv dr 1)) = 32" using documentedD(5) [OF c] .
  with x y show ?thesis
    unfolding crypt_case4_def Let_def keys_differ_def by (simp add: bindc_if require_def)
qed

lemma kdf_ok:
  assumes "crypto_documented c"
  shows "\<exists>x. kdf c secret salt = Some (Inr x) \<and> c_hkdf c 32 secret salt kdf_info = Inr x \<and> length x = 32"
  using documentedD(4) [OF assms, of 32 secret salt kdf_info] by (auto simp: kdf_def HkdfSha256_def)

lemma crypt_case5_outcome:
  assumes c: "crypto_documented c"
  shows "crypt_case5 c dr = Some (Inr ()) \<longleftrightarrow> hash_differs c dr"
proof -
  obtain a b where a: "kdf c (dr_bytes dr 32 5) (dr_bytes dr 16 6) = Some (Inr a)"
      "c_hkdf c 32 (dr_bytes dr 32 5) (dr_bytes dr 16 6) kdf_info = Inr a" "length a = 32"
    and b: "kdf c (dr_bytes dr 32 7) (dr_bytes dr 16 6) = Some (Inr b)"
      "c_hkdf c 32 (dr_bytes dr 32 7) (dr_bytes dr 16 6) kdf_info = Inr b"
    using kdf_ok [OF c] by meson
  then show ?thesis
    unfolding crypt_case5_def Let_def hash_differs_def by (simp add: bindc_if require_def)
qed

lemma crypt_case6_passes:
  assumes c: "crypto_documented c" and d: "draws_ok dr"
  shows "crypt_case6 c dr = Some (Inr ())"
proof -
  let ?p = "of_string ''audit: user login at 2026-05-21T10:00:00Z''"
  let ?pub = "c_pub c (dr_priv dr 3)" and ?eph = "c_pub c (dr_priv dr 4)"
  note l = drawsD [OF d]
  obtain x where x: "derives c (dr_priv dr 4) ?pub = Some (Inr (?eph, x))" "c_agree c (dr_priv dr 3) ?eph = Some x"
    using derives_ok [OF c] by meson
  obtain k where k: "kdf c x [] = Some (Inr k)" "length k = 32" using kdf_ok [OF c] by meson
  obtain body s where b: "c_enc c k (dr_prefix dr 5 @ be32 0) ?p = Inr body"
    "seals c \<lparr>key = k, nonce_prefix = dr_prefix dr 5, counter = 0\<rparr> ?p = Some (Inr (s, dr_prefix dr 5 @ be32 0 @ body))"
    using seals_first [OF c k(2) l(2)] .
  have o: "opens c \<lparr>key = k, nonce_prefix = dr_prefix dr 6, counter = 0\<rparr> (dr_prefix dr 5 @ be32 0 @ body) = Some (Inr ?p)"
    by (rule opens_ok [OF c]) (use b(1) l in simp_all)
  show ?thesis
    unfolding crypt_case6_def Let_def
    by (simp only: x k(1) cipher_made [OF k(2)] returned_simps bindc_simps b(2) prod.case o option.case require_simps refl)
qed

lemma crypt_smoke_result:
  assumes "crypto_documented c" and "draws_ok dr"
  shows "crypt_smoke c dr = Some (Inr ()) \<longleftrightarrow> keys_differ c dr \<and> hash_differs c dr"
proof -
  have bind_passes: "bindc r (\<lambda>_. q) = Some (Inr ()) \<longleftrightarrow> r = Some (Inr ()) \<and> q = Some (Inr ())"
    for r q :: "unit checked"
    by (cases r) (auto simp: bindc_def split: sum.split)
  show ?thesis
    using assms by (simp add: crypt_smoke_def bind_passes crypt_case1_passes crypt_case2_passes crypt_case3_passes
        crypt_case4_outcome crypt_case5_outcome crypt_case6_passes)
qed

section \<open>A concrete library\<close>

text \<open>
  Stand-ins that satisfy the documented behaviour: encryption appends the sum of the bytes as a tag, the public key
  is the private one and the agreement the bitwise exclusive or.
\<close>

definition sum_tag :: "bytes \<Rightarrow> bytes" where
  "sum_tag p = sum_list p # replicate 15 0"

definition pad32 :: "bytes \<Rightarrow> bytes" where
  "pad32 k = take 32 (k @ replicate 32 0)"

definition toy_crypto :: crypto_lib where
  "toy_crypto =
     \<lparr>c_enc = (\<lambda>k iv p. Inr (p @ sum_tag p)),
      c_dec = (\<lambda>k iv b. let n = length b - 16 in
        if 16 \<le> length b \<and> drop n b = sum_tag (take n b) then (take n b, Verified) else ([], NotVerified)),
      c_hkdf = (\<lambda>n s t u. Inr (take n (s @ replicate n 0))),
      c_pub = pad32,
      c_agree = (\<lambda>j p. Some (map2 (XOR) (pad32 j) p))\<rparr>"

definition toy_draws :: draws where
  "toy_draws = \<lparr>dr_bytes = (\<lambda>n seed. replicate n (of_nat seed)), dr_prefix = (\<lambda>i. replicate 8 (of_nat i)),
     dr_priv = (\<lambda>i. [of_nat i])\<rparr>"

lemma sum_update:
  fixes xs :: bytes
  shows "i < length xs \<Longrightarrow> sum_list (xs[i := y]) + xs ! i = sum_list xs + y"
proof (induction xs arbitrary: i)
  case (Cons x xs)
  then show ?case by (cases i) (auto simp: algebra_simps)
qed simp

lemma flip_differs: "(x :: byte) XOR 1 \<noteq> x"
proof
  assume "x XOR 1 = x"
  then have "x XOR (x XOR 1) = x XOR x" by simp
  then show False by (simp flip: xor.assoc)
qed

lemma toy_flip:
  assumes "i < length (p @ sum_tag p)"
  shows "snd (c_dec toy_crypto k iv ((p @ sum_tag p)[i := ((p @ sum_tag p) ! i) XOR 1])) \<noteq> Verified"
proof (cases "i < length p")
  case True
  let ?q = "p[i := (p ! i) XOR 1]"
  have "sum_list ?q \<noteq> sum_list p"
  proof
    assume "sum_list ?q = sum_list p"
    with sum_update [OF True, of "(p ! i) XOR 1"] have "p ! i = (p ! i) XOR 1" by simp
    with flip_differs show False by metis
  qed
  with True show ?thesis
    by (simp add: toy_crypto_def sum_tag_def list_update_append nth_append Let_def)
next
  case False
  let ?j = "i - length p"
  have "(sum_tag p)[?j := (sum_tag p ! ?j) XOR 1] \<noteq> sum_tag p"
  proof
    assume e: "(sum_tag p)[?j := (sum_tag p ! ?j) XOR 1] = sum_tag p"
    have "?j < length (sum_tag p)" using assms False by simp
    then have "(sum_tag p)[?j := (sum_tag p ! ?j) XOR 1] ! ?j = (sum_tag p ! ?j) XOR 1" by simp
    with e flip_differs show False by metis
  qed
  moreover have "length (sum_tag p) = 16" by (simp add: sum_tag_def)
  ultimately show ?thesis using False
    by (simp add: toy_crypto_def list_update_append nth_append Let_def)
qed

lemma toy_documented: "crypto_documented toy_crypto"
proof -
  have tag: "length (sum_tag p) = 16" for p by (simp add: sum_tag_def)
  have pad: "length (pad32 k) = 32" for k by (simp add: pad32_def)
  have sym: "map2 (XOR) xs ys = map2 (XOR) ys xs" for xs ys :: bytes
    by (induction xs ys rule: list_induct2') (simp_all add: xor.commute)
  have enc: "c_enc toy_crypto k iv p = Inr body \<longleftrightarrow> body = p @ sum_tag p" for k iv p body
    by (auto simp: toy_crypto_def)
  show ?thesis
    unfolding crypto_documented_def aead_def
    using toy_flip
    by (auto simp: enc tag kTagBytes_def) (simp_all add: toy_crypto_def tag pad Let_def, metis sym)
qed

lemma toy_luck: "draws_ok toy_draws" "keys_differ toy_crypto toy_draws" "hash_differs toy_crypto toy_draws"
proof -
  show "draws_ok toy_draws" by (simp add: draws_ok_def toy_draws_def)
  show "keys_differ toy_crypto toy_draws" by (simp add: keys_differ_def toy_crypto_def toy_draws_def pad32_def)
  show "hash_differs toy_crypto toy_draws" by (simp add: hash_differs_def toy_crypto_def toy_draws_def)
qed

definition toy_ser :: "LogRecord \<Rightarrow> bytes option" where
  "toy_ser r = Some [of_nat (length (rec_logger r) + length (rec_message r))]"

definition toy_parse :: "bytes \<Rightarrow> LogRecord option" where
  "toy_parse b = find (\<lambda>r. toy_ser r = Some b) (map (make_record 1 2) (proto_msgs 5 23))"

lemma toy_serialises: "serialises toy_ser toy_parse (map (make_record 1 2) (proto_msgs 5 23))"
  by (simp add: serialises_def toy_parse_def toy_ser_def proto_msgs_def MakeMsg_def make_record_def utf8_text_def Let_def)

section \<open>Properties\<close>

text \<open>
  The smoke tests of the pure layers pass on the model, for every choice of random data: under the documented behaviour of
  zlib, protobuf and Crypto++, proto_smoke passes; crypt_smoke passes exactly when the two ephemeral keys and
  the two hashed secrets of its fourth and fifth case turn out different; and compress_smoke comes down to its
  one quantitative check, that 64 KiB of one letter shrink to less than a tenth.
\<close>

theorem smoke_tests_outcome:
  assumes "deflates defl bound zipped D" and "D z0 [] []" and "inflates infl R" and "\<And>x y. zipped x y \<Longrightarrow> R i0 y x"
    and "\<And>x y. zipped x y \<Longrightarrow> y \<noteq> []"
    and "serialises ser parse (map (make_record pid tid) (proto_msgs now line))"
    and "crypto_documented c" and "draws_ok dr"
  shows "proto_smoke ser parse pid tid now line = Some (Inr ())
    \<and> (crypt_smoke c dr = Some (Inr ()) \<longleftrightarrow> keys_differ c dr \<and> hash_differs c dr)
    \<and> (\<exists>y. zipped (replicate (64 * 1024) 0x41) y
         \<and> compress_smoke (Compress defl bound (Z_OK, z0)) (Decompress infl (Z_OK, i0)) (dr_bytes dr)
           = require (10 * length y < 64 * 1024) ''ratio < 0.1'')"
  by (intro conjI proto_smoke_passes [OF assms(6)] crypt_smoke_result [OF assms(7,8)]
      compress_smoke_outcome [OF zlib_round_trips [OF assms(1-4)] assms(5)])

theorem smoke_tests_outcome_witness:
  "proto_smoke toy_ser toy_parse 1 2 5 23 = Some (Inr ()) \<and> crypt_smoke toy_crypto toy_draws = Some (Inr ())
    \<and> (\<exists>y. flag_zip (replicate (64 * 1024) 0x41) y
         \<and> compress_smoke (Compress flag_deflate (\<lambda>n. 2 * n + 1) (Z_OK, [])) (Decompress flag_inflate (Z_OK, False))
             (dr_bytes toy_draws) = require (10 * length y < 64 * 1024) ''ratio < 0.1'')"
proof -
  have "proto_smoke toy_ser toy_parse 1 2 5 23 = Some (Inr ())
    \<and> (crypt_smoke toy_crypto toy_draws = Some (Inr ()) \<longleftrightarrow> keys_differ toy_crypto toy_draws \<and> hash_differs toy_crypto toy_draws)
    \<and> (\<exists>y. flag_zip (replicate (64 * 1024) 0x41) y
         \<and> compress_smoke (Compress flag_deflate (\<lambda>n. 2 * n + 1) (Z_OK, [])) (Decompress flag_inflate (Z_OK, False))
             (dr_bytes toy_draws) = require (10 * length y < 64 * 1024) ''ratio < 0.1'')"
    by (rule smoke_tests_outcome [OF flag_deflates _ flag_inflates _ _ toy_serialises toy_documented toy_luck(1)])
      (simp_all add: flag_zip_def)
  then show ?thesis using toy_luck(2,3) by (elim conjE) (intro conjI, simp_all only: simp_thms)
qed

end
