(* ===== verification/Context_Tests.thy ===== *)
theory Context_Tests
  imports Strand_On_Pool Pool_Drain Context Smoke_Tests
begin

text \<open>
  \<open>examples/context_smoke.cpp\<close>: the tests of the thread pool, the strand and the context, run on their models. The test thread is
  caller 0; each test is the state its calls lead to and the checks it makes there. The properties say that
  the checks hold in every schedule, but for the two that depend on time: that the pool has grown after 150 ms and has shrunk
  back after 800 ms.
\<close>

section \<open>The thread pool\<close>

definition submit_cfg :: pool_cfg where
  "submit_cfg = \<lparr>min_threads = 2, max_threads = 8, scale_factor = 2\<rparr>"

text \<open>
  The future of task \<open>i\<close> has a value, \<open>i * 2\<close>, when the task has run; \<open>get\<close> blocks until then. The test makes its calls in
  order, from one thread, and looks when \<open>Shutdown\<close> is back.
\<close>

definition future_of :: "pool \<Rightarrow> nat \<Rightarrow> int option" where
  "future_of p i = (if i \<in> set (finished p) then Some (int i * 2) else None)"

definition back_from_shutdown :: "nat \<Rightarrow> pool \<Rightarrow> bool" where
  "back_from_shutdown N p \<longleftrightarrow> submitted p = [0..<N] \<and> callers p = (\<lambda>_. Rest)(0 := ShutDone)"

definition submit_checks :: "nat \<Rightarrow> pool \<Rightarrow> unit checked" where
  "submit_checks N p =
     (case those (map (future_of p) [0..<N]) of
        None \<Rightarrow> None
      | Some vs \<Rightarrow>
          bindc (require (sum_list vs = (int N - 1) * int N) ''submit 1k sum mismatch'') (\<lambda>_.
          require (WorkerCount p = 0) ''WorkerCount != 0 after Shutdown''))"

definition scale_cfg :: pool_cfg where
  "scale_cfg = \<lparr>min_threads = 2, max_threads = 6, scale_factor = 1\<rparr>"

definition scaling_initial :: "pool \<Rightarrow> unit checked" where
  "scaling_initial p = require (WorkerCount p = 2) ''initial worker count != min_threads''"

definition scaling_peak :: "pool \<Rightarrow> unit checked" where
  "scaling_peak p =
     bindc (require (2 < WorkerCount p) ''did not scale up beyond min_threads'') (\<lambda>_.
     require (WorkerCount p \<le> 6) ''scaled past max_threads'')"

definition scaling_settled :: "pool \<Rightarrow> unit checked" where
  "scaling_settled p = require (WorkerCount p = 2) ''worker count did not shrink back to min_threads''"

definition drain_cfg :: pool_cfg where
  "drain_cfg = \<lparr>min_threads = 2, max_threads = 4, scale_factor = 2\<rparr>"

text \<open>Every task adds one to \<open>done\<close>.\<close>

definition drain_checks :: "nat \<Rightarrow> pool \<Rightarrow> unit checked" where
  "drain_checks N p = require (length (finished p) = N) ''Shutdown did not drain queued tasks''"

lemma entering_none: "entering_sum ((\<lambda>_. Rest)(c := ShutDone)) m \<Longrightarrow> m = {#}"
  by (auto simp: entering_sum_def intro!: sum.neutral)

lemma drained_pool:
  assumes "pool_step\<^sup>*\<^sup>* (ThreadPool c) p" and b: "back_from_shutdown N p"
  shows "mset (finished p) = mset [0..<N] \<and> WorkerCount p = 0 \<and> QueueSize p = 0"
proof -
  have inv: "pinv p" using assms(1) by (rule reachable_pinv)
  have cl: "callers p = (\<lambda>_. Rest)(0 := ShutDone)" "submitted p = [0..<N]" using b by (simp_all add: back_from_shutdown_def)
  then have "callers p 0 = ShutDone" by simp
  with inv have lv: "live p = {}" "pstopped p" by (auto simp: pinv_def shut_ok_def)
  then have t: "tasks p = []" "worker_count p = 0" using inv by (auto simp: pinv_def shape_ok_def)
  have "held (threads p w) = []" if "w < born p" for w using lv(1) that by (auto simp: live_def)
  then have "held_sum p = {#}" by (simp add: held_sum_def)
  moreover obtain m where "entering_sum (callers p) m"
      "mset (submitted p) = mset (finished p) + mset (tasks p) + held_sum p + m"
    using inv by (auto simp: pinv_def tasks_ok_def)
  moreover have "m = {#}" using \<open>entering_sum (callers p) m\<close> entering_none unfolding cl(1) by blast
  ultimately show ?thesis using t cl(2) by (simp add: WorkerCount_def QueueSize_def)
qed

lemma those_map: "(\<And>x. x \<in> set xs \<Longrightarrow> f x = Some (g x)) \<Longrightarrow> those (map f xs) = Some (map g xs)"
  by (induction xs) simp_all

lemma double_sum: "sum_list (map (\<lambda>i. int i * 2) [0..<N]) = (int N - 1) * int N"
  by (induction N) (simp_all add: algebra_simps)

lemma submit_result:
  assumes "mset (finished p) = mset [0..<N]" and "WorkerCount p = 0"
  shows "submit_checks N p = Some (Inr ())"
proof -
  have "set (finished p) = {0..<N}" using mset_eq_setD [OF assms(1)] by simp
  then have "those (map (future_of p) [0..<N]) = Some (map (\<lambda>i. int i * 2) [0..<N])"
    by (intro those_map) (simp add: future_of_def)
  then show ?thesis using assms(2) by (simp add: submit_checks_def double_sum)
qed

text \<open>
  The tests of the pool. When the test's \<open>N\<close> calls and its \<open>Shutdown\<close> have returned, in whatever way
  workers and calls interleaved: every future has its value and their sum is \<open>(N - 1) * N\<close>, no worker is left, and all tasks have run
  exactly once. At any moment before \<open>Shutdown\<close> the scaling test's pool has between two and six workers, two of them from the start.
\<close>

theorem pool_tests_pass:
  assumes "pool_step\<^sup>*\<^sup>* (ThreadPool submit_cfg) p" and "back_from_shutdown N p"
    and "pool_step\<^sup>*\<^sup>* (ThreadPool drain_cfg) q" and "back_from_shutdown M q"
    and "pool_step\<^sup>*\<^sup>* (ThreadPool scale_cfg) r" and "\<not> Stopped r"
  shows "submit_checks N p = Some (Inr ()) \<and> drain_checks M q = Some (Inr ())
    \<and> scaling_initial (ThreadPool scale_cfg) = Some (Inr ()) \<and> 2 \<le> WorkerCount r
    \<and> (2 < WorkerCount r \<longrightarrow> scaling_peak r = Some (Inr ())) \<and> (WorkerCount r = 2 \<longrightarrow> scaling_settled r = Some (Inr ()))"
proof (intro conjI)
  show "submit_checks N p = Some (Inr ())"
    using submit_result drained_pool [OF assms(1,2)] by blast
  have "length (finished q) = M"
    using drained_pool [OF assms(3,4)] by (metis length_upt diff_zero size_mset)
  then show "drain_checks M q = Some (Inr ())" by (simp add: drain_checks_def)
  have c: "fix_cfg scale_cfg = scale_cfg" by (simp add: fix_cfg_def scale_cfg_def)
  have "worker_count (ThreadPool scale_cfg) = min_threads scale_cfg"
    using filled [of scale_cfg] unfolding c by (simp add: filling_def)
  then show "scaling_initial (ThreadPool scale_cfg) = Some (Inr ())"
    by (simp add: scaling_initial_def WorkerCount_def scale_cfg_def)
  have "pcfg r = scale_cfg" using reachable_cfg [OF assms(5)] c by simp
  then have b: "2 \<le> WorkerCount r" "WorkerCount r \<le> 6"
    using reachable_pinv [OF assms(5)] assms(6)
    by (simp_all add: pinv_def shape_ok_def WorkerCount_def Stopped_def) (simp_all add: scale_cfg_def)
  show "2 \<le> WorkerCount r" by (rule b(1))
  show "2 < WorkerCount r \<longrightarrow> scaling_peak r = Some (Inr ())"
    using b by (simp add: scaling_peak_def)
  show "WorkerCount r = 2 \<longrightarrow> scaling_settled r = Some (Inr ())" by (simp add: scaling_settled_def)
qed

definition submit_run :: "pact list" where
  "submit_run = [Enqueue 0 0, EnqLock 0, Enqueue 0 1, EnqLock 0, Take 1, Enqueue 0 2, EnqLock 0, Take 0, Finish 0, Take 0,
     Finish 1, Finish 0, Shutdown 0, ShutTake 0, ExitStopped 0, ExitStopped 1, ShutJoin 0]"

definition scale_run :: "pact list" where
  "scale_run = [Enqueue 0 0, EnqLock 0, Enqueue 0 1, EnqLock 0, Enqueue 0 2, EnqLock 0, EnqSpawn 0, Take 2]"

lemmas test_eval = pool_eval submit_cfg_def drain_cfg_def scale_cfg_def submit_run_def scale_run_def numeral_2_eq_2

theorem pool_tests_pass_witness:
  "\<exists>p q r. run_acts pexec submit_run (ThreadPool submit_cfg) = Some p \<and> run_acts pexec submit_run (ThreadPool drain_cfg) = Some q
     \<and> run_acts pexec scale_run (ThreadPool scale_cfg) = Some r \<and> WorkerCount r = 3
     \<and> submit_checks 3 p = Some (Inr ()) \<and> drain_checks 3 q = Some (Inr ()) \<and> scaling_peak r = Some (Inr ())"
proof -
  obtain p where p: "run_acts pexec submit_run (ThreadPool submit_cfg) = Some p" "back_from_shutdown 3 p"
    by (simp add: test_eval back_from_shutdown_def numeral_3_eq_3 fun_eq_iff)
  obtain q where q: "run_acts pexec submit_run (ThreadPool drain_cfg) = Some q" "back_from_shutdown 3 q"
    by (simp add: test_eval back_from_shutdown_def numeral_3_eq_3 fun_eq_iff)
  obtain r where r: "run_acts pexec scale_run (ThreadPool scale_cfg) = Some r" "\<not> Stopped r" "WorkerCount r = 3"
    by (simp add: test_eval Stopped_def WorkerCount_def)
  have steps: "pool_step\<^sup>*\<^sup>* (ThreadPool submit_cfg) p" "pool_step\<^sup>*\<^sup>* (ThreadPool drain_cfg) q"
      "pool_step\<^sup>*\<^sup>* (ThreadPool scale_cfg) r"
    unfolding pool_step_def using p(1) q(1) r(1) by (blast intro: run_acts_steps)+
  from pool_tests_pass [OF steps(1) p(2) steps(2) q(2) steps(3) r(2)] p(1) q(1) r show ?thesis by auto
qed

section \<open>The strand\<close>

definition strand_cfg :: pool_cfg where
  "strand_cfg = \<lparr>min_threads = 2, max_threads = 8, scale_factor = 2\<rparr>"

text \<open>What the tasks of the test share: they set \<open>inside\<close>, look whether it was set, count, and reset it.\<close>

record watch =
  inside :: bool
  overlap_seen :: bool
  counter :: nat

definition watch_init :: watch where
  "watch_init = \<lparr>inside = False, overlap_seen = False, counter = 0\<rparr>"

fun observe :: "xact \<Rightarrow> spool \<Rightarrow> watch \<Rightarrow> watch" where
  "observe (XNext k) s w =
     (if squeue (st s) = [] then w else w\<lparr>overlap_seen := overlap_seen w \<or> inside w, inside := True\<rparr>)"
| "observe (XFinish k) s w = w\<lparr>counter := counter w + 1, inside := False\<rparr>"
| "observe a s w = w"

definition watched_exec :: "xact \<Rightarrow> spool \<times> watch \<Rightarrow> (spool \<times> watch) option" where
  "watched_exec a sw = (case sw of (s, w) \<Rightarrow> map_option (\<lambda>s'. (s', observe a s w)) (xexec a s))"

text \<open>A future is ready when its task has begun and is not running any more.\<close>

definition task_ready :: "strand \<Rightarrow> nat \<Rightarrow> bool" where
  "task_ready x i \<longleftrightarrow> i \<in> set (began x) \<and> InTask i \<notin> set (activations x)"

definition strand_checks :: "nat \<Rightarrow> spool \<Rightarrow> watch \<Rightarrow> unit checked" where
  "strand_checks N s w =
     (if list_all (task_ready (st s)) [0..<N] then
        bindc (require (\<not> overlap_seen w) ''strand allowed overlapping execution'') (\<lambda>_.
        require (counter w = N) ''strand counter lost increments'')
      else None)"

definition singleton_checks :: "nat \<Rightarrow> spool \<Rightarrow> watch \<Rightarrow> unit checked" where
  "singleton_checks N s w =
     (if list_all (task_ready (st s)) [0..<N] then
        require (counter w = N) ''context singleton strand lost increments''
      else None)"

definition tasks_in :: "strand \<Rightarrow> nat" where
  "tasks_in x = length (filter (\<lambda>a. \<exists>t. a = InTask t) (activations x))"

definition watch_ok :: "strand \<Rightarrow> watch \<Rightarrow> bool" where
  "watch_ok x w \<longleftrightarrow>
     \<not> overlap_seen w \<and> tasks_in x = (if inside w then 1 else 0)
     \<and> length (began x) = counter w + tasks_in x
     \<and> (\<forall>t. InTask t \<in> set (activations x) \<longrightarrow> t \<in> set (began x))"

lemma tasks_in_upd:
  "k < length as \<Longrightarrow>
     length (filter (\<lambda>a. \<exists>t. a = InTask t) (as[k := x])) + (if \<exists>t. as ! k = InTask t then 1 else 0) =
      length (filter (\<lambda>a. \<exists>t. a = InTask t) as) + (if \<exists>t. x = InTask t then 1 else 0)"
proof (induction as arbitrary: k)
  case (Cons a as)
  show ?case
  proof (cases k)
    case (Suc j)
    with Cons.IH [of j] Cons.prems show ?thesis by (simp split: if_splits)
  qed simp
qed simp

text \<open>A step of the strand, seen from its tasks.\<close>

lemma watch_strand:
  assumes ok: "watch_ok x w" and inv: "strand_inv x" and t: "texec a x = Some y"
  shows "watch_ok y (case a of
       SNext k \<Rightarrow> if squeue x = [] then w else w\<lparr>overlap_seen := overlap_seen w \<or> inside w, inside := True\<rparr>
     | SFinish k \<Rightarrow> w\<lparr>counter := counter w + 1, inside := False\<rparr>
     | _ \<Rightarrow> w)"
proof (cases a)
  case (SNext k)
  then have k: "k < length (activations x)" "activations x ! k = AtTop" using t by (auto split: if_splits)
  note up = tasks_in_upd [OF k(1)]
  show ?thesis
  proof (cases "squeue x")
    case Nil
    then have "y = x\<lparr>srunning := False, activations := (activations x)[k := Returned]\<rparr>" using t SNext k by simp
    then show ?thesis
      using ok up [of Returned] k SNext Nil by (auto simp: watch_ok_def tasks_in_def dest!: set_update_subset_insert [THEN subsetD])
  next
    case (Cons u us)
    then have y: "y = x\<lparr>squeue := us, began := began x @ [u], activations := (activations x)[k := InTask u]\<rparr>"
      using t SNext k by simp
    have "tasks_in x = 0"
    proof (rule ccontr)
      assume "tasks_in x \<noteq> 0"
      then obtain v where "InTask v \<in> set (activations x)" by (auto simp: tasks_in_def filter_empty_conv)
      then obtain j where j: "j < length (activations x)" "activations x ! j = InTask v" by (auto simp: in_set_conv_nth)
      then have "j \<noteq> k" using k by auto
      then have "2 \<le> length (unreturned x)"
        using two_unreturned [of j "activations x" k] two_unreturned [of k "activations x" j] j k
        by (cases "j < k") (auto simp: unreturned_def)
      with inv show False by (auto simp: strand_inv_def split: if_splits)
    qed
    then show ?thesis
      using ok up [of "InTask u"] k SNext Cons y
      by (auto simp: watch_ok_def tasks_in_def dest!: set_update_subset_insert [THEN subsetD] split: if_splits)
  qed
next
  case (SFinish k)
  then obtain u where k: "k < length (activations x)" "activations x ! k = InTask u"
      and y: "y = x\<lparr>activations := (activations x)[k := AtTop]\<rparr>"
    using t by (auto split: if_splits activation.splits)
  show ?thesis
    using ok tasks_in_upd [OF k(1), of AtTop] k SFinish y
    by (auto simp: watch_ok_def tasks_in_def dest!: set_update_subset_insert [THEN subsetD] split: if_splits)
next
  case (SRun k)
  then have k: "k < length (activations x)" "activations x ! k = Pending"
      and y: "y = x\<lparr>activations := (activations x)[k := AtTop]\<rparr>"
    using t by (auto split: if_splits)
  show ?thesis
    using ok tasks_in_upd [OF k(1), of AtTop] k SRun y
    by (auto simp: watch_ok_def tasks_in_def dest!: set_update_subset_insert [THEN subsetD])
qed (use ok t in \<open>auto simp: watch_ok_def tasks_in_def Let_def split: if_splits\<close>)

lemma watch_other:
  assumes "watch_ok x w" and "strand_inv x" and "texec a x = Some y"
    and "\<And>k. a \<noteq> SNext k" and "\<And>k. a \<noteq> SFinish k"
  shows "watch_ok y w"
  using watch_strand [OF assms(1-3)] assms(4,5) by (cases a) auto

lemma watch_step:
  assumes ex: "xexec a s = Some s'" and ok: "watch_ok (st s) w" and inv: "strand_inv (st s)"
  shows "watch_ok (st s') (observe a s w)"
proof (cases a)
  case (XPost c)
  let ?k = "length (activations (st s))"
  obtain x p where x: "texec (SPost c) (st s) = Some x" and alt: "(if pstopped (pl s)
      then run_inline c ?k False (s\<lparr>st := x, pl := p\<rparr>) else Some (s\<lparr>st := x, pl := p\<rparr>)) = Some s'"
    using ex XPost by (auto simp: Let_def simp del: texec.simps pexec.simps split: option.splits if_splits)
  from alt have al: "st s' = x \<or> texec (SRun ?k) x = Some (st s')"
    by (auto simp: run_inline_Some simp del: texec.simps split: if_splits)
  have "watch_ok x w" by (rule watch_other [OF ok inv x]) simp_all
  moreover from this have "watch_ok (st s') w" if "texec (SRun ?k) x = Some (st s')"
    by (rule watch_other [OF _ strand_inv_step [OF x inv] that]) simp_all
  ultimately show ?thesis using al XPost by auto
next
  case (XNext k)
  then obtain x where "texec (SNext k) (st s) = Some x" "s' = s\<lparr>st := x\<rparr>"
    using ex by (auto simp del: texec.simps)
  with XNext watch_strand [OF ok inv this(1)] show ?thesis by simp
next
  case (XFinish k)
  then obtain x where "texec (SFinish k) (st s) = Some x" "s' = s\<lparr>st := x\<rparr>"
    using ex by (auto simp del: texec.simps)
  with XFinish watch_strand [OF ok inv this(1)] show ?thesis by simp
qed (use ex ok watch_other [OF ok inv] in
  \<open>auto simp: run_inline_Some simp del: texec.simps pexec.simps split: option.splits if_splits caller.splits list.splits worker.splits\<close>)

lemma watch_run:
  assumes "run_acts watched_exec as (s, w) = Some (s', w')" and "watch_ok (st s) w" and "xinv s"
  shows "watch_ok (st s') w' \<and> xinv s'"
  using assms
proof (induction as arbitrary: s w)
  case (Cons a as)
  then obtain s1 where s1: "xexec a s = Some s1" "run_acts watched_exec as (s1, observe a s w) = Some (s', w')"
    by (cases "xexec a s") (simp_all add: watched_exec_def [of a])
  have "watch_ok (st s1) (observe a s w)" using watch_step [OF s1(1) Cons.prems(2)] Cons.prems(3) by (simp add: xinv_def)
  moreover have "xinv s1" using xinv_step [OF Cons.prems(3) s1(1)] .
  ultimately show ?case using Cons.IH [OF s1(2)] by blast
qed simp

lemma watch_start: "watch_ok (st (spool_init c)) watch_init \<and> xinv (spool_init c)"
  by (simp add: watch_ok_def watch_init_def tasks_in_def spool_init_def strand_init_def xinv_init [unfolded spool_init_def strand_init_def])

text \<open>When every future is ready, every task has run to its end, alone.\<close>

lemma ready_counts:
  assumes "watch_ok x w" and "strand_inv x" and "strand_submitted x = [0..<N]" and "list_all (task_ready x) [0..<N]"
  shows "\<not> overlap_seen w \<and> counter w = N"
proof -
  have pre: "[0..<N] = began x @ squeue x" using assms(2,3) by (simp add: strand_inv_def)
  have all: "\<forall>i<N. i \<in> set (began x) \<and> InTask i \<notin> set (activations x)"
    using assms(4) by (simp add: list_all_iff task_ready_def)
  have sub: "set (began x) \<subseteq> {0..<N}" using pre by (metis Un_upper1 set_append set_upt)
  then have "InTask i \<notin> set (activations x)" for i
    using assms(1) all by (auto simp: watch_ok_def)
  then have "tasks_in x = 0" by (auto simp: tasks_in_def filter_empty_conv)
  moreover have "distinct (began x)" using pre by (metis distinct_append distinct_upt)
  then have "length (began x) = card {0..<N}" using sub all by (metis atLeastLessThan_iff distinct_card subsetI subset_antisym)
  ultimately show ?thesis using assms(1) by (auto simp: watch_ok_def)
qed

definition singleton_cfg :: pool_cfg where
  "singleton_cfg = \<lparr>min_threads = 2, max_threads = 4, scale_factor = 2\<rparr>"

text \<open>The strand of the last test is made by \<open>MakeStrand\<close>, on the pool the context makes for it.\<close>

definition MakeStrand :: "ctx \<Rightarrow> spool \<times> ctx" where
  "MakeStrand x =
     (let (p, x) = Pool x in (\<lparr>st = strand_init, pl = p, inline = (\<lambda>_. None), pool_lock = None\<rparr>, x))"

lemma MakeStrand_fresh:
  "fst (MakeStrand (Configure c (Instance hw))) = spool_init c"
  by (simp add: MakeStrand_def Pool_def EnsurePool_def Configure_def Instance_def spool_init_def)

text \<open>
  The tests of the strand. However the pool's threads and the test interleave, once all \<open>N\<close> futures of the
  serial test are ready no two tasks have overlapped and the counter, a plain \<open>int\<close>, has seen every increment; the same count holds on a
  strand made by a context that was configured first.
\<close>

theorem strand_tests_pass:
  assumes "run_acts watched_exec as (spool_init strand_cfg, watch_init) = Some (s, w)"
    and "strand_submitted (st s) = [0..<N]" and "list_all (task_ready (st s)) [0..<N]"
    and "run_acts watched_exec bs (fst (MakeStrand (Configure singleton_cfg (Instance hw))), watch_init) = Some (t, v)"
    and "strand_submitted (st t) = [0..<M]" and "list_all (task_ready (st t)) [0..<M]"
  shows "strand_checks N s w = Some (Inr ()) \<and> singleton_checks M t v = Some (Inr ())"
proof -
  have "watch_ok (st s) w" "strand_inv (st s)" "watch_ok (st t) v" "strand_inv (st t)"
    using watch_run [OF assms(1)] watch_run [OF assms(4) [unfolded MakeStrand_fresh]] watch_start by (auto simp: xinv_def)
  then have "\<not> overlap_seen w \<and> counter w = N" "\<not> overlap_seen v \<and> counter v = M"
    using ready_counts assms(2,3,5,6) by blast+
  then show ?thesis using assms(3,6) by (simp add: strand_checks_def singleton_checks_def)
qed

definition strand_test_run :: "xact list" where
  "strand_test_run = [XSubmit 0 0, XPost 0, XLock 0, XTake 1, XSubmit 0 1, XNext 0, XFinish 0, XNext 0, XSubmit 0 2, XFinish 0,
     XNext 0, XFinish 0, XNext 0, XDone 1]"

theorem strand_tests_pass_witness:
  "\<exists>s w t v. run_acts watched_exec strand_test_run (spool_init strand_cfg, watch_init) = Some (s, w)
     \<and> run_acts watched_exec strand_test_run (fst (MakeStrand (Configure singleton_cfg (Instance 8))), watch_init) = Some (t, v)
     \<and> strand_checks 3 s w = Some (Inr ()) \<and> singleton_checks 3 t v = Some (Inr ())"
proof -
  obtain s w where s: "run_acts watched_exec strand_test_run (spool_init strand_cfg, watch_init) = Some (s, w)"
      "strand_submitted (st s) = [0..<3]" "list_all (task_ready (st s)) [0..<3]"
    by (simp add: pool_eval strand_cfg_def strand_test_run_def watched_exec_def spool_init_def strand_init_def watch_init_def
        run_inline_def task_ready_def numeral_2_eq_2 numeral_3_eq_3)
  obtain t v where t: "run_acts watched_exec strand_test_run (spool_init singleton_cfg, watch_init) = Some (t, v)"
      "strand_submitted (st t) = [0..<3]" "list_all (task_ready (st t)) [0..<3]"
    by (simp add: pool_eval singleton_cfg_def strand_test_run_def watched_exec_def spool_init_def strand_init_def watch_init_def
        run_inline_def task_ready_def numeral_2_eq_2 numeral_3_eq_3)
  have t': "run_acts watched_exec strand_test_run (fst (MakeStrand (Configure singleton_cfg (Instance 8))), watch_init) = Some (t, v)"
    using t(1) by (simp add: MakeStrand_fresh)
  from strand_tests_pass [OF s t' t(2,3)] s(1) t' show ?thesis by blast
qed

end
