(* ===== verification/Effective_Sink.thy ===== *)
theory Effective_Sink
  imports Mmap_Store_Flush Shard_Reader Eviction Log_Handle
begin

text \<open>
  \<open>EffectiveSink\<close> (sinks/effective_sink.cpp): the factory that agrees a key with the server and
  the pipeline of a record, formatter, compressor, cipher, store, shard writer. Its main theorem composes the components: what is logged and
  flushed is what the audit reads back with the server's private key.
\<close>

section \<open>The factory\<close>

text \<open>
  The random choices are \<open>eph\<close>, the ephemeral private key, and \<open>rnd\<close>, the cipher's nonce
  prefix. The result is the cipher, the compression level and the ephemeral public key.
  Wiping the secrets in memory is not modelled.
\<close>

definition SinkCreate ::
  "(bytes \<Rightarrow> bytes) \<Rightarrow> (bytes \<Rightarrow> bytes \<Rightarrow> bytes option) \<Rightarrow> (nat \<Rightarrow> bytes \<Rightarrow> bytes \<Rightarrow> bytes \<Rightarrow> string + bytes) \<Rightarrow>
     bytes \<Rightarrow> bytes \<Rightarrow> string \<Rightarrow> key_file \<Rightarrow> int \<Rightarrow> (cipher \<times> int \<times> bytes) res" where
  "SinkCreate pub agree hkdf eph rnd path f level =
     (case LoadServerPublicKey path f of
        Inl e \<Rightarrow> Inl e
      | Inr server_pub \<Rightarrow>
          (case DeriveSharedSecret pub agree eph server_pub of
             Inl e \<Rightarrow> Inl e
           | Inr (epub, shared) \<Rightarrow>
               (case HkdfSha256 hkdf shared [] kdf_info 32 [] of
                  (_, Inl e) \<Rightarrow> Inl e
                | (aes_key, Inr _) \<Rightarrow>
                    (case AesGcmCipher aes_key rnd of
                       Inl e \<Rightarrow> Inl e
                     | Inr c \<Rightarrow>
                         (case ZlibCompressor level of
                            Inl e \<Rightarrow> Inl e
                          | Inr lvl \<Rightarrow> Inr (c, lvl, epub))))))"

section \<open>Logging and persisting\<close>

text \<open>
  \<open>Log\<close> under \<open>pipeline_mu_\<close>, which makes the calls of all threads one after the other. \<open>store_append\<close> is what
  the call of \<open>MmapStore::Append\<close> does. The result is the cipher and the store's
  side, what went to standard error, and the outcome; \<open>None\<close> when a call does not return.
\<close>

definition SinkLog ::
  "(LogRecord \<Rightarrow> bytes option) \<Rightarrow> nat \<Rightarrow> nat \<Rightarrow> 'z deflate \<Rightarrow> (nat \<Rightarrow> nat) \<Rightarrow> int \<times> 'z \<Rightarrow> gcm_enc \<Rightarrow>
     (bytes \<Rightarrow> 's \<Rightarrow> bool \<times> 's) \<Rightarrow> LogMsg \<Rightarrow> cipher \<times> 's \<Rightarrow> ((cipher \<times> 's) \<times> string \<times> unit res) option" where
  "SinkLog ser pid tid defl bound dinit enc store_append msg cs =
     (case cs of (c, st) \<Rightarrow>
      case EffectiveFormat ser pid tid msg [] of
        (_, Inl e) \<Rightarrow> Some ((c, st), [], Inl e)
      | (buf_proto, Inr _) \<Rightarrow>
          (case Compress defl bound dinit buf_proto [] of
             None \<Rightarrow> None
           | Some (_, Inl e) \<Rightarrow> Some ((c, st), [], Inl e)
           | Some (buf_compressed, Inr _) \<Rightarrow>
               (case Encrypt enc c buf_compressed [] of
                  (c', _, Inl e) \<Rightarrow> Some ((c', st), [], Inl e)
                | (c', buf_encrypted, Inr _) \<Rightarrow>
                    (let len_le = encode_le32 (of_nat (length buf_encrypted));
                         (ok, st') = store_append (len_le @ buf_encrypted) st
                     in Some ((c', st'),
                          if ok then []
                          else snd (InternalLog True LogLevel.error ''EffectiveSink''
                                      ''back-pressure timeout, dropped 1 record'' False),
                          Inr ())))))"

text \<open>A sequence of calls; a caller that catches an exception goes on.\<close>

fun log_msgs ::
  "(LogMsg \<Rightarrow> 'a \<Rightarrow> ('a \<times> string \<times> unit res) option) \<Rightarrow> LogMsg list \<Rightarrow> 'a \<Rightarrow> ('a \<times> unit res list) option" where
  "log_msgs call [] a = Some (a, [])"
| "log_msgs call (m # msgs) a =
     (case call m a of
        None \<Rightarrow> None
      | Some (a', _, r) \<Rightarrow>
          (case log_msgs call msgs a' of None \<Rightarrow> None | Some (a'', rs) \<Rightarrow> Some (a'', r # rs)))"

text \<open>
  \<open>OnPersist_\<close> swallows the exception of a failed write, so that the store counts the frame as
  persisted; the pair is the writer and what went to standard error.
\<close>

definition OnPersist :: "bytes \<Rightarrow> open_reply \<Rightarrow> nat \<Rightarrow> writer \<Rightarrow> writer \<times> string" where
  "OnPersist data o1 wrote w =
     (case WriteFrame data o1 wrote w of
        (Inr _, w') \<Rightarrow> (w', [])
      | (Inl (RuntimeError what), w') \<Rightarrow>
          (w', snd (InternalLog True LogLevel.error ''EffectiveSink'' (''OnPersist write failed: '' @ what) False))
      | (Inl (SystemError n what), w') \<Rightarrow>
          (w', snd (InternalLog True LogLevel.error ''EffectiveSink'' (''OnPersist write failed: '' @ what) False)))"

fun persist_all :: "(bytes \<times> open_reply \<times> nat) list \<Rightarrow> writer \<Rightarrow> writer" where
  "persist_all [] w = w"
| "persist_all ((data, o1, n) # rest) w = persist_all rest (fst (OnPersist data o1 n w))"

lemma OnPersist_writer: "fst (OnPersist data o1 n w) = snd (WriteFrame data o1 n w)"
  by (simp add: OnPersist_def split: prod.splits sum.splits exn.splits)

lemma persist_all_writes: "persist_all cs w = write_frames cs w"
  by (induction cs w rule: persist_all.induct) (simp_all add: OnPersist_writer)

section \<open>The keys of the two sides\<close>

lemma SinkCreate_key:
  assumes "SinkCreate pub agree hkdf eph rnd path f level = Inr (c, lvl, epub)"
    and "kf_content f = pub srv" and "length srv = 32" and "\<And>k. length (pub k) = 32"
    and "agree eph (pub srv) = agree srv (pub eph)"
  shows "epub = pub eph \<and> DeriveAesKey agree hkdf srv epub = Inr (key c)
    \<and> nonce_prefix c = rnd \<and> counter c = 0 \<and> length (key c) = 32"
  using assms
  by (auto simp: SinkCreate_def LoadServerPublicKey_def DeriveSharedSecret_def DeriveAesKey_def
      AesGcmCipher_def kKeyBytes_def ZlibCompressor_def
      split: if_splits option.splits sum.splits prod.splits)

section \<open>From a record to a frame and back\<close>

text \<open>A frame that the audit, holding the key, reads back as the record.\<close>

definition readable :: "(bytes \<Rightarrow> 'r res option) \<Rightarrow> bytes \<Rightarrow> 'r \<Rightarrow> bool" where
  "readable body f r \<longleftrightarrow> (\<exists>e. f = framed e \<and> kFrameMinBytes \<le> length e \<and>
     (length e < 2 ^ 32 \<longrightarrow> body e = Some (Inr r)))"

text \<open>What the two ends of the pipeline promise: the decompressor reads what the compressor wrote, and protobuf what it serialised.\<close>

definition unzips :: "(bytes \<Rightarrow> bytes \<Rightarrow> bool) \<Rightarrow> ('z \<Rightarrow> bytes \<Rightarrow> bytes \<Rightarrow> bool) \<Rightarrow> 'z \<Rightarrow> bool" where
  "unzips zipped R i0 \<longleftrightarrow> (\<forall>x y. zipped x y \<longrightarrow> R i0 y x)"

definition parses :: "(LogRecord \<Rightarrow> bytes option) \<Rightarrow> (bytes \<Rightarrow> LogRecord option) \<Rightarrow> bool" where
  "parses ser parse \<longleftrightarrow> (\<forall>r b. ser r = Some b \<longrightarrow> parse b = Some r)"

text \<open>The store's side as a log of the frames it accepted.\<close>

definition accept :: "bytes \<Rightarrow> bytes list \<Rightarrow> bool \<times> bytes list" where
  "accept f acc = (True, acc @ [f])"

lemma SinkLog_readable:
  assumes call: "SinkLog ser pid tid defl bound (Z_OK, z0) enc accept msg (c, acc) = Some ((c', acc'), err, Inr ())"
    and z: "deflates defl bound zipped D" "D z0 [] []" "inflates infl R" "unzips zipped R i0"
    and a: "aead enc dec" and k: "key c2 = key c" and n: "length (nonce_prefix c) = 8"
    and p: "parses ser parse"
  shows "\<exists>f. acc' = acc @ [f] \<and> readable (decode_body dec infl (Z_OK, i0) parse c2) f (make_record pid tid msg)
    \<and> key c' = key c \<and> nonce_prefix c' = nonce_prefix c"
proof -
  from call obtain b where b: "ser (make_record pid tid msg) = Some b"
    by (auto simp: SinkLog_def EffectiveFormat_def split: option.splits)
  have "\<exists>y. zipped b y \<and> comp_loop defl b (length ([] :: bytes)) (comp_start z0 (bound (length b)) b []) = Some ([] @ y, Inr ())"
    by (rule comp_terminates [OF z(1) comp_start_inv [of D z0, OF z(2)]])
  then obtain y where y: "zipped b y"
    and cmp: "comp_loop defl b (length ([] :: bytes)) (comp_start z0 (bound (length b)) b []) = Some ([] @ y, Inr ())"
    by (elim exE conjE)
  then have comp: "Compress defl bound (Z_OK, z0) b [] = Some (y, Inr ())" by (simp add: Compress_def)
  obtain c1 e r where enc: "Encrypt enc c y [] = (c1, e, r)" by (cases "Encrypt enc c y []") auto
  from call b comp enc have r: "r = Inr ()" and c': "c' = c1" and acc': "acc' = acc @ [framed e]"
    by (auto simp: SinkLog_def EffectiveFormat_def accept_def Let_def framed_def split: sum.splits)
  from Encrypt_cases [OF enc [unfolded r]] obtain body
    where sealed: "enc (key c) (take 8 (nonce_prefix c) @ be32 (counter c)) y = Inr body"
      and e: "e = (take 8 (nonce_prefix c) @ be32 (counter c)) @ body" by auto
  from a sealed have lb: "length body = length y + kTagBytes"
    and d: "dec (key c) (take 8 (nonce_prefix c) @ be32 (counter c)) body = (y, Verified)"
    by (auto simp: aead_def)
  have nl: "length (take 8 (nonce_prefix c) @ be32 (counter c)) = kNonceBytes"
    using n by (simp add: kNonceBytes_def)
  have le: "length e = kNonceBytes + length body" unfolding e length_append nl [unfolded length_append] ..
  have t: "take kNonceBytes e = take 8 (nonce_prefix c) @ be32 (counter c)" and b': "drop kNonceBytes e = body"
    using e nl by (metis append_eq_conv_conj)+
  have dcr: "Decrypt dec c2 e [] = (y, Inr ())"
    using le lb d t b' k by (simp add: Decrypt_def Let_def)
  have "R i0 (y @ []) b" using z(4) y by (simp add: unzips_def)
  from decomp_terminates [OF z(3) decomp_start_inv [of R i0 y "[]", OF this], of "[]"]
  have dcm: "Decompress infl (Z_OK, i0) y [] = Some (b, Inr ())" by (simp add: Decompress_def)
  have pb: "parse b = Some (make_record pid tid msg)" using p b by (simp add: parses_def)
  have "readable (decode_body dec infl (Z_OK, i0) parse c2) (framed e) (make_record pid tid msg)"
    unfolding readable_def
    using dcr dcm pb le lb
    by (intro exI [of _ e]) (simp add: decode_body_def kFrameMinBytes_def kNonceBytes_def kTagBytes_def)
  moreover have "key c1 = key c" "nonce_prefix c1 = nonce_prefix c"
    using Encrypt_state [of enc c y "[]"] enc by simp_all
  ultimately show ?thesis using acc' c' by simp
qed

text \<open>Every call that returns normally has added one readable frame.\<close>

lemma log_msgs_readable:
  assumes z: "deflates defl bound zipped D" "D z0 [] []" "inflates infl R" "unzips zipped R i0"
    and a: "aead enc dec" and p: "parses ser parse"
  shows "log_msgs (SinkLog ser pid tid defl bound (Z_OK, z0) enc accept) msgs (c, acc) = Some ((c', acc'), outs) \<Longrightarrow>
     set outs \<subseteq> {Inr ()} \<Longrightarrow> length (nonce_prefix c) = 8 \<Longrightarrow> key c2 = key c \<Longrightarrow>
     \<exists>fs. acc' = acc @ fs
       \<and> list_all2 (readable (decode_body dec infl (Z_OK, i0) parse c2)) fs (map (make_record pid tid) msgs)"
proof (induction msgs arbitrary: c acc outs)
  case (Cons m msgs)
  let ?log = "SinkLog ser pid tid defl bound (Z_OK, z0) enc accept"
  from Cons.prems(1) obtain a1 err r outs' where m: "?log m (c, acc) = Some (a1, err, r)"
    and rest: "log_msgs ?log msgs a1 = Some ((c', acc'), outs')" and outs: "outs = r # outs'"
    by (auto split: option.splits prod.splits)
  obtain c1 acc1 where a1: "a1 = (c1, acc1)" by (cases a1)
  from outs Cons.prems(2) have "r = Inr ()" and outs': "set outs' \<subseteq> {Inr ()}" by auto
  from SinkLog_readable [OF m [unfolded this(1) a1] z a Cons.prems(4,3) p] obtain f where
    f: "acc1 = acc @ [f]" "readable (decode_body dec infl (Z_OK, i0) parse c2) f (make_record pid tid m)"
    and k: "key c1 = key c" "nonce_prefix c1 = nonce_prefix c" by blast
  from Cons.IH [OF rest [unfolded a1] outs'] Cons.prems(3,4) k obtain fs where
    "acc' = acc1 @ fs"
    "list_all2 (readable (decode_body dec infl (Z_OK, i0) parse c2)) fs (map (make_record pid tid) msgs)"
    by auto
  with f show ?case by (intro exI [of _ "f # fs"]) simp
qed simp

section \<open>From the shards back to the records\<close>

lemma split_groups:
  "list_all2 P (concat gs) rs \<Longrightarrow> \<exists>rss. list_all2 (list_all2 P) gs rss \<and> rs = concat rss"
proof (induction gs arbitrary: rs)
  case (Cons g gs)
  then obtain r1 r2 where "rs = r1 @ r2" "list_all2 P g r1" "list_all2 P (concat gs) r2"
    by (auto simp: list_all2_append1)
  with Cons.IH obtain rss where "list_all2 (list_all2 P) gs rss" "r2 = concat rss" by blast
  with \<open>rs = r1 @ r2\<close> \<open>list_all2 P g r1\<close> show ?case by (intro exI [of _ "r1 # rss"]) simp
qed simp

lemma decode_readable:
  assumes "list_all2 (readable body) fs rs" and "\<forall>f \<in> set fs. length f < 2 ^ 32"
  shows "decode_frames body (concat fs) [] = Some (Inr rs)"
proof -
  from assms obtain es where fs: "fs = map framed es"
    and ok: "list_all2 (\<lambda>e r. kFrameMinBytes \<le> length e \<and> length e < 2 ^ 32 \<and> body e = Some (Inr r)) es rs"
  proof (induction fs rs arbitrary: thesis rule: list_all2_induct)
    case (Cons f fs r rs)
    from Cons.hyps(1) Cons.prems(2) obtain e where "f = framed e" "kFrameMinBytes \<le> length e"
      "length e < 2 ^ 32" "body e = Some (Inr r)" by (auto simp: readable_def framed_def)
    moreover obtain es where "fs = map framed es"
      "list_all2 (\<lambda>e r. kFrameMinBytes \<le> length e \<and> length e < 2 ^ 32 \<and> body e = Some (Inr r)) es rs"
      using Cons.IH Cons.prems(2) by auto
    ultimately show ?case using Cons.prems(1) [of "e # es"] by simp
  qed simp
  from decode_frames_all [OF ok, of "[]" "[]"] fs show ?thesis by simp
qed

lemma shard_decodes:
  assumes "DeriveAesKey agree hkdf srv epub = Inr k" and "length k = 32" and "length epub = 32"
    and "list_all2 (readable (decode_body dec infl i parse \<lparr>key = k, nonce_prefix = rnd, counter = 0\<rparr>)) g rs"
    and "\<forall>f \<in> set g. length f < 2 ^ 32"
  shows "DecodeShardFile agree hkdf dec infl i parse rnd p (Some (header_bytes epub @ concat g)) srv = Some (Inr rs)"
  using assms header_roundtrip [OF assms(3)] decode_readable [OF assms(4,5)]
  by (simp add: DecodeShardFile_def AesGcmCipher_def kKeyBytes_def)

section \<open>The listing and the writer's files\<close>

lemma prefix_le: "(xs :: string) @ a \<le> xs @ b \<longleftrightarrow> a \<le> b"
  by (induction xs) simp_all

lemma path_join_le: "path_join d a \<le> path_join d b \<longleftrightarrow> a \<le> b"
  using prefix_le [of "d @ ''/''" a b] by (simp add: path_join_def prefix_le)

text \<open>A listing that shows the writer's files, read in the order of the names, is the writer's order when that is the names' order.\<close>

lemma listing_in_writing_order:
  assumes m: "mset (map (\<lambda>e. (path_join d (de_name e), de_content e))
        (filter (\<lambda>e. de_regular e \<and> IsShardFilename (de_name e)) es)) = mset (map (\<lambda>(p, b). (p, Some b)) fl)"
    and s: "sorted (map fst fl)" and dist: "distinct (map fst fl)"
  shows "map (\<lambda>e. (path_join d (de_name e), de_content e)) (shard_entries es) = map (\<lambda>(p, b). (p, Some b)) fl"
    (is "?A = ?B")
proof -
  have mset: "mset ?A = mset ?B" using m by (simp add: shard_entries_def)
  have fstB: "map fst ?B = map fst fl" by (induction fl) auto
  have distB: "distinct (map fst ?B)" and sortB: "sorted (map fst ?B)" by (simp_all only: fstB s dist)
  have sets: "set ?A = set ?B" using mset by (rule mset_eq_setD)
  have "sorted (map de_name (shard_entries es))" by (simp add: shard_entries_def)
  then have "sorted (map (\<lambda>e. path_join d (de_name e)) (shard_entries es))"
    unfolding sorted_map path_join_le .
  moreover have "map fst ?A = map (\<lambda>e. path_join d (de_name e)) (shard_entries es)" by simp
  ultimately have sortA: "sorted (map fst ?A)" by (simp only:)
  have "mset (map fst ?A) = mset (map fst ?B)" 
    using arg_cong [OF mset, of "image_mset fst"] by (simp only: mset_map)
  from mset_eq_imp_distinct_iff [OF this] distB have distA: "distinct (map fst ?A)" by (rule iffD2)
  have "inj_on fst (set ?A \<union> set ?B)" using distB unfolding sets by (simp only: distinct_map Un_absorb)
  from map_sorted_distinct_set_unique [OF this sortA distA sortB distB sets] show ?thesis .
qed

lemma read_shards_listing:
  assumes "map (\<lambda>e. (path_join d (de_name e), de_content e)) es = map (\<lambda>(p, b). (p, Some b)) fl"
    and "list_all2 (\<lambda>b rs. \<forall>p. read_shard p (Some b) = Some (Inr rs)) (map snd fl) rss"
  shows "read_shards read_shard d es [] = Some (Inr (concat rss))"
proof -
  have "list_all2 (\<lambda>e rs. read_shard (path_join d (de_name e)) (de_content e) = Some (Inr rs)) es rss"
    using assms
  proof (induction es arbitrary: fl rss)
    case (Cons e es)
    then obtain x fl' where fl: "fl = x # fl'" by (cases fl) auto
    obtain p b where x: "x = (p, b)" by (cases x)
    with Cons.prems fl obtain rs rss' where "rss = rs # rss'" "\<forall>p. read_shard p (Some b) = Some (Inr rs)"
      "list_all2 (\<lambda>b rs. \<forall>p. read_shard p (Some b) = Some (Inr rs)) (map snd fl') rss'"
      by (auto simp: list_all2_Cons1)
    with Cons.IH [of fl' rss'] Cons.prems(1) fl x show ?case by simp
  qed auto
  then show ?thesis by (auto simp: read_shards_all)
qed

lemma shard_name_shape:
  "mid \<noteq> [] \<Longrightarrow> IsShardFilename (''log-'' @ mid @ ''.bin'')"
proof -
  assume "mid \<noteq> []"
  moreover have "drop (length (''log-'' @ mid)) ((''log-'' @ mid) @ ''.bin'') = ''.bin''"
    by (metis append_eq_conv_conj)
  ultimately show ?thesis by (simp add: IsShardFilename_def)
qed

lemma shard_name_recognised: "IsShardFilename (MakeShardName t q)"
proof -
  have "MakeShardName t q = ''log-'' @ (pad_dec 4 (yr t) @ pad_dec 2 (mo t) @ pad_dec 2 (dy t) @ ''-''
       @ pad_dec 2 (hr t) @ pad_dec 2 (mi t) @ pad_dec 2 (sc t) @ ''-''
       @ pad_dec 3 (ms t) @ ''-'' @ pad_dec 4 (int (unat q))) @ ''.bin''"
    by (simp add: MakeShardName_def)
  then show ?thesis by (rule ssubst) (rule shard_name_shape, simp)
qed

section \<open>Properties\<close>

text \<open>
  Both sides hold the same key: when the factory succeeds against the server's public key, the
  audit, with the server's private key and the public key in the shards' header, derives
  exactly the cipher's key, provided that the key agreement is symmetric.
\<close>

theorem audit_derives_sink_key:
  assumes "SinkCreate pub agree hkdf eph rnd path f level = Inr (c, lvl, epub)"
    and "kf_content f = pub srv" and "length srv = 32" and "\<And>k. length (pub k) = 32"
    and "agree eph (pub srv) = agree srv (pub eph)"
  shows "epub = pub eph \<and> DeriveAesKey agree hkdf srv epub = Inr (key c)
    \<and> nonce_prefix c = rnd \<and> counter c = 0 \<and> length (key c) = 32 \<and> 1 \<le> lvl \<and> lvl \<le> 9"
  using SinkCreate_key [OF assms] assms(1)
  by (auto simp: SinkCreate_def ZlibCompressor_def split: if_splits option.splits sum.splits prod.splits)

text \<open>
  The composition, from the factory to the audit: what \<open>Log\<close> accepted, the drain has handed on, in order; the
  writer's shards hold it; and each shard decodes to its records.
\<close>

lemma frames_read_back:
  assumes created: "SinkCreate pub agree hkdf eph rnd path kf level = Inr (c, lvl, epub)"
    and server: "kf_content kf = pub srv" "length srv = 32" "\<And>k. length (pub k) = 32"
      "agree eph (pub srv) = agree srv (pub eph)" "length rnd = 8"
    and codec: "deflates defl bound zipped D" "D z0 [] []" "inflates infl R" "unzips zipped R i0"
      "aead enc dec" "parses ser parse"
    and logged: "log_msgs (SinkLog ser pid tid defl bound (Z_OK, z0) enc accept) msgs (c, [])
        = Some ((c', frames), outs)" "set outs \<subseteq> {Inr ()}" "\<forall>f \<in> set frames. length f < 2 ^ 32"
    and shards: "ShardWriter d limit epub None o1 = Inr w" "good o1" "map fst cs = frames"
      "\<forall>x \<in> set cs. good_call x" "length cs + 1 < 2 ^ 32"
    and listing: "mset (map (\<lambda>e. (path_join d (de_name e), de_content e))
        (filter (\<lambda>e. de_regular e \<and> IsShardFilename (de_name e)) es))
      = mset (map (\<lambda>(p, b). (p, Some b)) (files (persist_all cs w)))"
      "sorted (map fst (files (persist_all cs w)))"
  shows "DecodeShardDir (\<lambda>p b. DecodeShardFile agree hkdf dec infl (Z_OK, i0) parse rnd2 p b srv) d (Some es)
    = Some (Inr (map (make_record pid tid) msgs))"
proof -
  let ?c2 = "\<lparr>key = key c, nonce_prefix = rnd2, counter = 0\<rparr>"
  let ?body = "decode_body dec infl (Z_OK, i0) parse ?c2"
  note keys = SinkCreate_key [OF created server(1-4)]
  have pub: "length epub = 32" using keys server(3) by simp
  obtain fs where "frames = [] @ fs" and r: "list_all2 (readable ?body) fs (map (make_record pid tid) msgs)"
    using log_msgs_readable [OF codec(1-6) logged(1,2), of ?c2] keys server(5) by auto
  then have fs: "fs = frames" by simp
  note init = ShardWriter_good [OF shards(1,2)]
  obtain k' old' g' where wr: "writing k' old' g' (write_frames cs w)"
      "old' @ [g'] = [] @ pack (shard_limit w) [] (map fst cs)" "eph_pub (write_frames cs w) = eph_pub w"
    using write_frames_good [of 1 "[]" "[]" w cs] init shards(4,5) by auto
  let ?gs = "pack limit [] frames"
  have ne: "[] \<notin> set frames"
    using r fs by (auto simp: in_set_conv_nth list_all2_conv_all_nth readable_def framed_def)
  have gs: "map snd (files (persist_all cs w)) = map (\<lambda>g. header_bytes epub @ concat g) ?gs"
    and dist: "distinct (map fst (files (persist_all cs w)))"
    using wr init shards(3) by (auto simp: writing_def persist_all_writes)
  have "concat ?gs = frames"
    using pack_all [of "[]" limit frames] ne by (simp add: filter_id_conv) (metis)
  with r fs have "list_all2 (readable ?body) (concat ?gs) (map (make_record pid tid) msgs)" by simp
  from split_groups [OF this] obtain rss where rss: "list_all2 (list_all2 (readable ?body)) ?gs rss"
    and recs: "map (make_record pid tid) msgs = concat rss" by blast
  have small: "\<forall>g \<in> set ?gs. \<forall>f \<in> set g. length f < 2 ^ 32"
    using logged(3) \<open>concat ?gs = frames\<close> by (metis (no_types) UN_I set_concat)
  let ?read = "\<lambda>p b. DecodeShardFile agree hkdf dec infl (Z_OK, i0) parse rnd2 p b srv"
  have each: "?read p (Some (header_bytes epub @ concat g)) = Some (Inr rs)"
    if "list_all2 (readable ?body) g rs" and "\<forall>f \<in> set g. length f < 2 ^ 32" for p g rs
    using keys by (intro shard_decodes [OF _ _ pub that]) blast+
  have "list_all2 (\<lambda>g rs. \<forall>p. ?read p (Some (header_bytes epub @ concat g)) = Some (Inr rs)) gs rss"
    if "list_all2 (list_all2 (readable ?body)) gs rss" and "\<forall>g \<in> set gs. \<forall>f \<in> set g. length f < 2 ^ 32" for gs rss
    using that by (induction gs rss rule: list_all2_induct) (simp_all add: each)
  from this [OF rss small]
  have "list_all2 (\<lambda>b rs. \<forall>p. ?read p (Some b) = Some (Inr rs)) (map snd (files (persist_all cs w))) rss"
    unfolding gs list_all2_map1 .
  from read_shards_listing [OF listing_in_writing_order [OF listing dist] this] recs
  show ?thesis by (simp add: DecodeShardDir_def)
qed

text \<open>A returned \<open>Flush\<close> that had found every record acknowledged has handed them all to the writer.\<close>

lemma flushed_sent:
  assumes "Mmap_Store.started s0 \<and> files_open s0" "fresh_step\<^sup>*\<^sup>* s0 s" "map snd (acks s) = frames"
    and "length frames \<le> length (sent s)"
  shows "sent s = frames"
proof -
  have "fifo s" using fresh_sys.reachable_inv [OF assms(1,2)] by blast
  then show ?thesis using fifo_cases(1) [of s] assms(3,4) by auto
qed

lemma flush_reaches:
  assumes "Mmap_Store.started s0 \<and> files_open s0" "fresh_step\<^sup>*\<^sup>* s0 s" "spcs s t = FDone n" "\<not> stopped s"
  shows "n \<le> length (sent s)"
proof -
  have "fifo s" using fresh_sys.reachable_inv [OF assms(1,2)] by blast
  then show ?thesis using fifo_cases(4) [of s t] assms(3,4) by (simp add: mark_ok_def)
qed

lemma audit_reads_back:
  assumes created: "SinkCreate pub agree hkdf eph rnd path kf level = Inr (c, lvl, epub)"
    and server: "kf_content kf = pub srv" "length srv = 32" "\<And>k. length (pub k) = 32"
      "agree eph (pub srv) = agree srv (pub eph)" "length rnd = 8"
    and codec: "deflates defl bound zipped D" "D z0 [] []" "inflates infl R" "unzips zipped R i0"
      "aead enc dec" "parses ser parse"
    and logged: "log_msgs (SinkLog ser pid tid defl bound (Z_OK, z0) enc accept) msgs (c, [])
        = Some ((c', frames), outs)" "set outs \<subseteq> {Inr ()}" "\<forall>f \<in> set frames. length f < 2 ^ 32"
    and store: "Mmap_Store.started s0 \<and> files_open s0" "fresh_step\<^sup>*\<^sup>* s0 s" "map snd (acks s) = frames"
      "spcs s t = FDone (length frames)" "\<not> stopped s"
    and shards: "ShardWriter d limit epub None o1 = Inr w" "good o1" "map fst cs = sent s"
      "\<forall>x \<in> set cs. good_call x" "length cs + 1 < 2 ^ 32"
    and listing: "mset (map (\<lambda>e. (path_join d (de_name e), de_content e))
        (filter (\<lambda>e. de_regular e \<and> IsShardFilename (de_name e)) es))
      = mset (map (\<lambda>(p, b). (p, Some b)) (files (persist_all cs w)))"
      "sorted (map fst (files (persist_all cs w)))"
  shows "DecodeShardDir (\<lambda>p b. DecodeShardFile agree hkdf dec infl (Z_OK, i0) parse rnd2 p b srv) d (Some es)
    = Some (Inr (map (make_record pid tid) msgs))"
proof -
  have "length frames \<le> length (sent s)" using flush_reaches [OF store(1,2,4,5)] .
  from flushed_sent [OF store(1-3) this] have cs: "map fst cs = frames" using shards(3) by simp
  show ?thesis by (rule frames_read_back [OF created server codec logged shards(1,2) cs shards(4,5) listing])
qed


section \<open>A concrete session\<close>

text \<open>
  One record, from the factory to the audit, with stand-ins for the libraries: a tag of
  zeros for AES-GCM, constant keys, the flag format of \<open>Zlib\<close> and a serialiser that knows one record.
\<close>

definition demo_msg :: LogMsg where
  "demo_msg = \<lparr>msg_level = LogLevel.info, msg_time = 7, msg_logger = ''app'',
     msg_loc = \<lparr>loc_file = None, loc_line = 0, loc_func = None\<rparr>, msg_text = ''hello''\<rparr>"

definition demo_ser :: "LogRecord \<Rightarrow> bytes option" where
  "demo_ser r = (if r = make_record 1 2 demo_msg then Some [5] else None)"

definition demo_parse :: "bytes \<Rightarrow> LogRecord option" where
  "demo_parse b = Some (make_record 1 2 demo_msg)"

definition demo_enc :: gcm_enc where
  "demo_enc k iv p = Inr (p @ replicate 16 0)"

definition demo_dec :: gcm_dec where
  "demo_dec k iv b = (take (length b - 16) b, Verified)"

definition demo_key :: key_file where
  "demo_key = \<lparr>kf_exists = True, kf_exists_ec = False, kf_size = Some 32, kf_opens = True,
     kf_content = replicate 32 1\<rparr>"

definition demo_cipher :: cipher where
  "demo_cipher = \<lparr>key = replicate 32 4, nonce_prefix = replicate 8 6, counter = 0\<rparr>"

definition demo_frame :: bytes where
  "demo_frame = [31, 0, 0, 0] @ replicate 8 6 @ [0, 0, 0, 0, 1, 5, 0] @ replicate 16 0"

definition demo_store :: store where
  "demo_store = (case MmapStore \<lparr>dir = ''logs'', buffer_bytes = 64, min_buffers = 2, max_buffers = 2\<rparr>
     64 True True (\<lambda>_. Inr []) of Inr s \<Rightarrow> s)"

definition demo_run :: "sact list" where
  "demo_run = [Append 1 demo_frame, LoadMaster 1, TryWrite 1, Mmap_Store.Flush 1, FlushLock 1]
     @ drain_run [True] @ [DrainDec, FlushReturn 1]"

lemma demo_created:
  "SinkCreate (\<lambda>k. replicate 32 1) (\<lambda>a b. Some (replicate 32 3)) (\<lambda>n s salt info. Inr (replicate n 4))
     (replicate 32 5) (replicate 8 6) ''server.pub'' demo_key 6 = Inr (demo_cipher, 6, replicate 32 1)"
  by (simp add: SinkCreate_def LoadServerPublicKey_def demo_key_def DeriveSharedSecret_def HkdfSha256_def
      AesGcmCipher_def kKeyBytes_def ZlibCompressor_def demo_cipher_def del: replicate.simps)

lemma demo_store_val:
  "MmapStore \<lparr>dir = ''logs'', buffer_bytes = 64, min_buffers = 2, max_buffers = 2\<rparr> 64 True True (\<lambda>_. Inr [])
     = Inr demo_store"
  "demo_store = \<lparr>cfg = \<lparr>dir = ''logs'', buffer_bytes = 64, min_buffers = 2, max_buffers = 2\<rparr>,
     page = 64, disk = (\<lambda>_. Inr []),
     pool = [\<lparr>mem = replicate 64 0, offset = 0, writers = 0, sealed = False\<rparr>,
             \<lparr>mem = replicate 64 0, offset = 0, writers = 0, sealed = False\<rparr>],
     free = [1], master = 0, in_flight = 0, persisted_bytes = 0, next_seq = 2, stopped = False,
     destroyed = False, queue = [], running = False, pool_stopped = False, holder = None,
     task = DNone, spcs = (\<lambda>_. SIdle), acks = [], sent = []\<rparr>"
  by (simp_all add: demo_store_def MmapStore_def normalise_def Let_def MmapBuffer_def upt_rec RoundUpToPage_def)

lemma demo_started: "Mmap_Store.started demo_store \<and> files_open demo_store"
proof -
  have "disk demo_store = (\<lambda>_. Inr [])" by (simp add: demo_store_val(2))
  then have "files_zero demo_store" and "files_open demo_store"
    by (simp_all add: files_zero_def files_open_def)
  with demo_store_val(1) show ?thesis unfolding Mmap_Store.started_def by blast
qed

lemma demo_runs:
  "\<exists>s. run_acts fresh_exec demo_run demo_store = Some s \<and> map snd (acks s) = [demo_frame]
     \<and> sent s = [demo_frame] \<and> spcs s 1 = FDone 1 \<and> \<not> stopped s"
  by (simp add: demo_run_def demo_frame_def demo_store_val(2) store_eval stale_def fresh_exec_def
      del: small_store_val)

lemma demo_logs:
  "log_msgs (SinkLog demo_ser 1 2 flag_deflate (\<lambda>n. 2 * n + 1) (Z_OK, []) demo_enc accept) [demo_msg]
     (demo_cipher, []) = Some ((demo_cipher\<lparr>counter := 1\<rparr>, [demo_frame]), [Inr ()])"
proof -
  have "\<exists>y. flag_zip [5] y \<and> comp_loop flag_deflate [5] (length ([] :: bytes))
      (comp_start [] (2 * length ([5] :: bytes) + 1) [5] []) = Some ([] @ y, Inr ())"
    by (rule comp_terminates [OF flag_deflates comp_start_inv]) simp
  then have c: "Compress flag_deflate (\<lambda>n. 2 * n + 1) (Z_OK, []) [5] [] = Some ([1, 5, 0], Inr ())"
    by (auto simp: Compress_def flag_zip_def)
  have e: "Encrypt demo_enc demo_cipher [1, 5, 0] [] =
      (demo_cipher\<lparr>counter := 1\<rparr>, replicate 8 6 @ [0, 0, 0, 0, 1, 5, 0] @ replicate 16 0, Inr ())"
    by (simp add: Encrypt_def BuildNonce_def demo_cipher_def demo_enc_def be32_def)
  show ?thesis
    using c e by (simp add: SinkLog_def EffectiveFormat_def demo_ser_def accept_def encode_le32_def demo_frame_def)
qed

lemma demo_files:
  assumes "ShardWriter ''logs'' 100 (replicate 32 1) None sample_open = Inr w"
  shows "\<exists>b. files (persist_all [(demo_frame, sample_open, 100)] w)
    = [(path_join ''logs'' (MakeShardName (op_time sample_open) 0), b)]"
proof -
  have g: "good sample_open" by (simp add: good_def sample_open_def kHeaderBytes_def)
  let ?p = "path_join ''logs'' (MakeShardName (op_time sample_open) 0)"
  let ?w = "\<lparr>wdir = ''logs'', shard_limit = 100, eph_pub = replicate 32 1, file_open = False,
      current_size = 0, current_path = [], wseq = 0, files = []\<rparr>"
  from OpenNewShard_good [OF g, of ?w] assms
  have w: "files w = [(?p, header_bytes (replicate 32 1))]" "current_path w = ?p" "file_open w"
    "current_size w = kHeaderBytes"
    by (auto simp: ShardWriter_def kHeaderBytes_def split: if_splits)
  then have "snd (WriteFrame demo_frame sample_open 100 w)
      = append_file demo_frame w\<lparr>current_size := kHeaderBytes + 35\<rparr>"
    by (simp add: WriteFrame_def demo_frame_def Let_def append_file_def)
  with w show ?thesis
    by (simp add: persist_all_writes append_file_def)
qed


lemma audit_derives_sink_key_witness:
  "DeriveAesKey (\<lambda>a b. Some (replicate 32 3)) (\<lambda>n s salt info. Inr (replicate n 4))
     (replicate 32 2) (replicate 32 1) = Inr (key demo_cipher)"
  using audit_derives_sink_key [OF demo_created, of "replicate 32 2"]
  by (simp add: demo_key_def del: replicate.simps)

text \<open>
  The three components agree on what a shard is: every name the writer makes is one that the
  evictor counts and the audit reads, and these two accept the same names.
\<close>

theorem shard_names_recognised:
  "LooksLikeShard (MakeShardName t q) \<and> IsShardFilename (MakeShardName t q)
   \<and> (LooksLikeShard name \<longleftrightarrow> IsShardFilename name)"
  using shard_name_recognised [of t q] by (auto simp: IsShardFilename_def LooksLikeShard_def)

end
