(* ===== verification/Sink_System.thy ===== *)
theory Sink_System
  imports Effective_Sink
begin

text \<open>
  The running \<open>EffectiveSink\<close> (sinks/effective_sink.cpp, effective_sink_config.h): its configuration, the
  constructor that assembles writer, evictor and store, and the system the three form afterwards. The
  drain of the store calls \<open>OnPersist_\<close> on the writer while the evictor's thread sweeps the
  same directory, step by step. Shown: the sweep never removes the shard that is being written, the
  shards it leaves are as if there were no eviction, and what \<open>PersistedBytes\<close> counts.
\<close>

section \<open>Configuration and construction\<close>

text \<open>Sizes in bytes, the interval in seconds, the time-out in milliseconds.\<close>

record EffectiveSinkConfig =
  log_dir :: string
  server_pub_key_path :: string
  shard_size_bytes :: nat
  dir_size_cap :: nat
  eviction_interval :: nat
  mmap_buffer_bytes :: nat
  mmap_min_buffers :: nat
  mmap_max_buffers :: nat
  back_pressure_timeout :: nat
  zlib_level :: int

definition default_config :: "string \<Rightarrow> string \<Rightarrow> EffectiveSinkConfig" where
  "default_config d k =
     \<lparr>log_dir = d, server_pub_key_path = k, shard_size_bytes = 64 * 1024 * 1024,
      dir_size_cap = 2 * 1024 * 1024 * 1024, eviction_interval = 30,
      mmap_buffer_bytes = 4 * 1024 * 1024, mmap_min_buffers = 2, mmap_max_buffers = 8,
      back_pressure_timeout = 200, zlib_level = 6\<rparr>"

text \<open>What the constructor forwards to the store; that a wait times out is a step of the store's model, whatever the time.\<close>

definition store_config :: "EffectiveSinkConfig \<Rightarrow> config" where
  "store_config c =
     \<lparr>dir = log_dir c, buffer_bytes = mmap_buffer_bytes c,
      min_buffers = mmap_min_buffers c, max_buffers = mmap_max_buffers c\<rparr>"

text \<open>The parts of a sink; \<open>get_active_shard_\<close> of the evictor is \<open>CurrentShardPath\<close> of the writer.\<close>

record sink =
  sk_cipher :: cipher
  sk_level :: int
  sk_writer :: writer
  sk_evict_dir :: string
  sk_evict_cap :: nat
  sk_evictor :: runner
  sk_store :: store

text \<open>
  The constructor, in its order: a writer whose constructor throws leaves nothing behind, a
  store that throws leaves the first shard file (the evictor's destructor stops its thread).
  \<open>parts\<close> says that no injected component is null, \<open>strand\<close> that the strand is not; \<open>made\<close> and \<open>o1\<close> are the replies
  of the file system to the writer, \<open>dsk\<close> those to the store.
\<close>

definition SinkConstruct ::
  "EffectiveSinkConfig \<Rightarrow> bool \<Rightarrow> bool \<Rightarrow> string option \<Rightarrow> open_reply \<Rightarrow> nat \<Rightarrow> (nat \<Rightarrow> bytes res) \<Rightarrow>
     cipher \<times> int \<times> bytes \<Rightarrow> sink res" where
  "SinkConstruct cf parts strand made o1 pg dsk keys =
     (case keys of (c, lvl, epub) \<Rightarrow>
        if \<not> parts then Inl (RuntimeError ''EffectiveSink: null component injected'')
        else if \<not> strand then Inl (RuntimeError ''EffectiveSink: strand must not be null'')
        else case ShardWriter (log_dir cf) (shard_size_bytes cf) epub made o1 of
               Inl e \<Rightarrow> Inl e
             | Inr w \<Rightarrow>
                 (let ev = Start runner_init
                  in case MmapStore (store_config cf) pg strand True dsk of
                       Inl e \<Rightarrow> Inl e
                     | Inr st \<Rightarrow> Inr \<lparr>sk_cipher = c, sk_level = lvl, sk_writer = w,
                                        sk_evict_dir = log_dir cf, sk_evict_cap = dir_size_cap cf,
                                        sk_evictor = ev, sk_store = st\<rparr>))"

text \<open>The factory: the keys first, then the constructor.\<close>

definition CreateSink ::
  "(bytes \<Rightarrow> bytes) \<Rightarrow> (bytes \<Rightarrow> bytes \<Rightarrow> bytes option) \<Rightarrow> (nat \<Rightarrow> bytes \<Rightarrow> bytes \<Rightarrow> bytes \<Rightarrow> string + bytes) \<Rightarrow>
     bytes \<Rightarrow> bytes \<Rightarrow> key_file \<Rightarrow> bool \<Rightarrow> string option \<Rightarrow> open_reply \<Rightarrow> nat \<Rightarrow> (nat \<Rightarrow> bytes res) \<Rightarrow>
     EffectiveSinkConfig \<Rightarrow> sink res" where
  "CreateSink pub agree hkdf eph rnd kf strand made o1 pg dsk cf =
     (case SinkCreate pub agree hkdf eph rnd (server_pub_key_path cf) kf (zlib_level cf) of
        Inl e \<Rightarrow> Inl e
      | Inr keys \<Rightarrow> SinkConstruct cf True strand made o1 pg dsk keys)"

section \<open>The running sink\<close>

text \<open>
  A sweep in progress: nothing, the sorted entries after the scan, or the loop of removals with the
  canonical path of the shard that was active when it was asked for.
\<close>

datatype sweep = NoSweep | Scanned "entry list" nat | Removing string "entry list" nat

text \<open>
  \<open>lv_calls\<close> (the calls of \<open>OnPersist_\<close> with the replies they got) and \<open>lv_removed\<close> are history no step reads.
\<close>

record live =
  lv_store :: store
  lv_writer :: writer
  lv_sweep :: sweep
  lv_calls :: "(bytes \<times> open_reply \<times> nat) list"
  lv_removed :: "string list"

definition live_init :: "store \<Rightarrow> writer \<Rightarrow> live" where
  "live_init st w = \<lparr>lv_store = st, lv_writer = w, lv_sweep = NoSweep, lv_calls = [], lv_removed = []\<rparr>"

text \<open>
  The file system: canonical paths, paths whose removal fails, and the shards that earlier processes left; and the cap.
\<close>

record sweep_env =
  se_canon :: "string \<Rightarrow> string option"
  se_stuck :: "string \<Rightarrow> bool"
  se_prior :: "string list"
  se_cap :: nat

datatype live_act =
    OnStore sact open_reply nat
  | SweepScan "ev_entry list"
  | SweepActive
  | SweepRemove

text \<open>A step of the store; when it hands a frame on, \<open>OnPersist_\<close> runs, which never throws.\<close>

definition live_store :: "sact \<Rightarrow> open_reply \<Rightarrow> nat \<Rightarrow> live \<Rightarrow> live option" where
  "live_store a o1 n l =
     (case store_exec a (lv_store l) of
        None \<Rightarrow> None
      | Some s' \<Rightarrow>
          (case (a, task (lv_store l)) of
             (DrainFrame ok, DWalk b (d # ds)) \<Rightarrow>
               if ok then Some (l\<lparr>lv_store := s', lv_writer := fst (OnPersist d o1 n (lv_writer l)),
                                  lv_calls := lv_calls l @ [(d, o1, n)]\<rparr>)
               else None
           | _ \<Rightarrow> Some (l\<lparr>lv_store := s'\<rparr>)))"

text \<open>The directory shows, of the shards, only files that exist: those of this writer and those left before.\<close>

definition shown :: "sweep_env \<Rightarrow> writer \<Rightarrow> ev_entry list \<Rightarrow> bool" where
  "shown env w des \<longleftrightarrow>
     list_all (\<lambda>e. LooksLikeShard (ev_name e) \<longrightarrow>
       path_join (wdir w) (ev_name e) \<in> set (map fst (files w)) \<union> set (se_prior env)) des"

fun live_exec :: "sweep_env \<Rightarrow> live_act \<Rightarrow> live \<Rightarrow> live option" where
  "live_exec env (OnStore a o1 n) l = live_store a o1 n l"
| "live_exec env (SweepScan des) l =
     (if lv_sweep l = NoSweep \<and> shown env (lv_writer l) des then
        (case scan des False [] 0 of
           None \<Rightarrow> Some l
         | Some (es, tot) \<Rightarrow>
             if tot \<le> se_cap env then Some l
             else Some (l\<lparr>lv_sweep := Scanned (sort_key filename es) tot\<rparr>))
      else None)"
| "live_exec env SweepActive l =
     (case lv_sweep l of
        Scanned es tot \<Rightarrow>
          Some (l\<lparr>lv_sweep := Removing (active_path (se_canon env) (current_path (lv_writer l))) es tot\<rparr>)
      | _ \<Rightarrow> None)"
| "live_exec env SweepRemove l =
     (case lv_sweep l of
        Removing ac [] tot \<Rightarrow> Some (l\<lparr>lv_sweep := NoSweep\<rparr>)
      | Removing ac (e # es) tot \<Rightarrow>
          (let w = lv_writer l; p = path_join (wdir w) (filename e)
           in if tot \<le> se_cap env then Some (l\<lparr>lv_sweep := NoSweep\<rparr>)
              else if ac \<noteq> [] \<and> se_canon env p = Some ac then Some (l\<lparr>lv_sweep := Removing ac es tot\<rparr>)
              else if se_stuck env p then Some (l\<lparr>lv_sweep := Removing ac es tot\<rparr>)
              else Some (l\<lparr>lv_sweep := Removing ac es (tot - fsize e),
                           lv_writer := w\<lparr>files := AList.delete p (files w)\<rparr>,
                           lv_removed := lv_removed l @ [p]\<rparr>))
      | _ \<Rightarrow> None)"

section \<open>What one frame does to the writer\<close>

definition paths :: "writer \<Rightarrow> string set" where
  "paths w = fst ` set (files w)"

lemma paths_append [simp]: "paths (append_file bs w) = insert (current_path w) (paths w)"
  by (simp add: paths_def append_file_def dom_update)

text \<open>A call of \<open>WriteFrame\<close> stays in the current shard or moves on to one new path.\<close>

definition stays :: "writer \<Rightarrow> writer \<Rightarrow> bool" where
  "stays w w' \<longleftrightarrow> current_path w' = current_path w \<and> wseq w' = wseq w \<and> wdir w' = wdir w
     \<and> paths w' \<subseteq> insert (current_path w) (paths w)"

definition moves :: "stamp \<Rightarrow> writer \<Rightarrow> writer \<Rightarrow> bool" where
  "moves t w w' \<longleftrightarrow> current_path w' = path_join (wdir w) (MakeShardName t (wseq w))
     \<and> wseq w' = wseq w + 1 \<and> wdir w' = wdir w
     \<and> paths w' \<subseteq> insert (current_path w') (paths w)"

lemma open_moves:
  assumes "OpenNewShard o1 w = (r, w')"
  shows "moves (op_time o1) w w' \<and> (r = Inr () \<longrightarrow> current_size w' = kHeaderBytes)"
proof -
  let ?w = "w\<lparr>wseq := wseq w + 1, current_path := path_join (wdir w) (MakeShardName (op_time o1) (wseq w))\<rparr>"
  let ?v = "?w\<lparr>file_open := True, current_size := 0, files := AList.update (current_path ?w) [] (files w)\<rparr>"
  have p: "paths ?v = insert (current_path ?w) (paths w)" by (simp add: paths_def dom_update)
  have "paths (u\<lparr>current_size := n\<rparr>) = paths u" "paths (u\<lparr>file_open := b\<rparr>) = paths u"
    "paths (u\<lparr>wseq := q, current_path := d\<rparr>) = paths u" for u n b q d
    by (simp_all add: paths_def)
  with assms p show ?thesis
    by (auto simp: OpenNewShard_def WriteHeader_def Let_def moves_def split: if_splits)
qed

lemma WriteFrame_cases:
  assumes "WriteFrame data o1 n w = (r, w')"
  shows "stays w w' \<or> moves (op_time o1) w w'"
proof -
  have keep: "paths (u\<lparr>current_size := m\<rparr>) = paths u" "paths (CloseCurrent u) = paths u"
    "wdir (CloseCurrent u) = wdir u" "wseq (CloseCurrent u) = wseq u" for u m
    by (simp_all add: paths_def CloseCurrent_def)
  have mv: "moves t w (append_file bs v)" "moves t w ((append_file bs v)\<lparr>current_size := m\<rparr>)"
    if "moves t w v" for t v bs m
    using that keep by (auto simp: moves_def)
  consider "data = []" | "data \<noteq> []" "\<not> file_open w" | "data \<noteq> []" "file_open w" by blast
  then show ?thesis
  proof cases
    case 1
    with assms show ?thesis by (auto simp: WriteFrame_def stays_def)
  next
    case 2
    obtain q v where o: "OpenNewShard o1 w = (q, v)" by (cases "OpenNewShard o1 w")
    from open_moves [OF o] 2 o assms mv show ?thesis
      by (cases q) (auto simp: WriteFrame_def Let_def split: if_splits)
  next
    case 3
    show ?thesis
    proof (cases "kHeaderBytes < current_size w \<and> shard_limit w < current_size w + length data")
      case True
      obtain q v where o: "OpenNewShard o1 (CloseCurrent w) = (q, v)"
        by (cases "OpenNewShard o1 (CloseCurrent w)")
      from open_moves [OF o] have "moves (op_time o1) w v"
        by (simp add: moves_def keep) metis
      with 3 True o assms mv show ?thesis
        by (cases q) (auto simp: WriteFrame_def Let_def split: if_splits)
    next
      case False
      with 3 assms keep show ?thesis
        by (auto simp: WriteFrame_def Let_def stays_def split: if_splits)
    qed
  qed
qed

section \<open>The writer and the sweep do not meet\<close>

text \<open>The paths that exist or existed: those of earlier processes and those made so far by this one.\<close>

definition known :: "sweep_env \<Rightarrow> writer \<Rightarrow> string set" where
  "known env w = set (se_prior env)
     \<union> {path_join (wdir w) (MakeShardName t q) |t q. unat q < unat (wseq w)}"

definition entry_path :: "writer \<Rightarrow> entry \<Rightarrow> string" where
  "entry_path w e = path_join (wdir w) (filename e)"

fun sweep_entries :: "sweep \<Rightarrow> entry list" where
  "sweep_entries NoSweep = []"
| "sweep_entries (Scanned es tot) = es"
| "sweep_entries (Removing ac es tot) = es"

definition guarded :: "sweep_env \<Rightarrow> live \<Rightarrow> bool" where
  "guarded env l \<longleftrightarrow>
     (\<forall>ac es tot. lv_sweep l = Removing ac es tot \<longrightarrow>
        current_path (lv_writer l) \<in> entry_path (lv_writer l) ` set es \<longrightarrow>
        ac \<noteq> [] \<and> se_canon env (current_path (lv_writer l)) = Some ac)"

definition live_inv :: "sweep_env \<Rightarrow> live \<Rightarrow> bool" where
  "live_inv env l \<longleftrightarrow>
     (let w = lv_writer l in
        (\<exists>t q. current_path w = path_join (wdir w) (MakeShardName t q) \<and> unat q < unat (wseq w))
        \<and> paths w \<subseteq> known env w
        \<and> entry_path w ` set (sweep_entries (lv_sweep l)) \<subseteq> known env w
        \<and> set (lv_removed l) \<subseteq> known env w
        \<and> current_path w \<notin> set (lv_removed l)
        \<and> guarded env l)"

text \<open>
  What is relied on: no name given from now on is that of a shard left by an earlier process (the clock
  does not go back to it), and the shards of the directory have a canonical path.
\<close>

definition new_name :: "sweep_env \<Rightarrow> string \<Rightarrow> open_reply \<Rightarrow> bool" where
  "new_name env d o1 \<longleftrightarrow> (\<forall>q. path_join d (MakeShardName (op_time o1) q) \<notin> set (se_prior env))"

definition canonical :: "sweep_env \<Rightarrow> string \<Rightarrow> bool" where
  "canonical env d \<longleftrightarrow> (\<forall>t q. se_canon env (path_join d (MakeShardName t q)) \<notin> {None, Some []})"

lemma known_mono:
  assumes "wdir w' = wdir w" and "unat (wseq w) \<le> unat (wseq w')"
  shows "known env w \<subseteq> known env w'"
  using assms unfolding known_def by (simp only:) (blast intro: less_le_trans)

lemma new_path_unknown:
  assumes "new_name env (wdir w) o1"
  shows "path_join (wdir w) (MakeShardName (op_time o1) (wseq w)) \<notin> known env w"
  using assms by (auto simp: known_def new_name_def dest: path_join_ne)

lemma stays_inv:
  assumes "live_inv env l" and "stays (lv_writer l) w'"
  shows "live_inv env (l\<lparr>lv_store := s, lv_writer := w', lv_calls := cs\<rparr>)"
  using assms
  by (force simp: live_inv_def Let_def stays_def guarded_def entry_path_def known_def)

lemma moves_inv:
  assumes "live_inv env l" and "moves (op_time o1) (lv_writer l) w'"
    and "new_name env (wdir (lv_writer l)) o1" and "unat (wseq (lv_writer l)) + 1 < 2 ^ 32"
  shows "live_inv env (l\<lparr>lv_store := s, lv_writer := w', lv_calls := cs\<rparr>)"
proof -
  let ?w = "lv_writer l"
  have seq: "unat (wseq w') = unat (wseq ?w) + 1" and dir: "wdir w' = wdir ?w"
    and cur: "current_path w' = path_join (wdir ?w) (MakeShardName (op_time o1) (wseq ?w))"
    using assms(2,4) by (simp_all add: moves_def unat_word_ariths)
  have new: "current_path w' \<notin> known env ?w" using new_path_unknown [OF assms(3)] cur by simp
  have mono: "known env ?w \<subseteq> known env w'" using seq dir by (intro known_mono) simp_all
  have cur': "current_path w' \<in> known env w'" using seq dir cur by (auto simp: known_def)
  have e: "entry_path w' = entry_path ?w" using dir by (simp add: entry_path_def fun_eq_iff)
  have p: "paths w' \<subseteq> insert (current_path w') (paths ?w)"
    using assms(2) unfolding moves_def by (elim conjE)
  note inv = assms(1) [unfolded live_inv_def Let_def]
  have "\<exists>t q. current_path w' = path_join (wdir w') (MakeShardName t q) \<and> unat q < unat (wseq w')"
    using cur dir seq by auto
  moreover have "paths w' \<subseteq> known env w'" using p cur' inv mono by blast
  moreover have "entry_path w' ` set (sweep_entries (lv_sweep l)) \<subseteq> known env w'"
    unfolding e using inv mono by blast
  moreover have "set (lv_removed l) \<subseteq> known env w'" using inv mono by blast
  moreover have "current_path w' \<notin> set (lv_removed l)" using inv new by blast
  moreover have "current_path w' \<notin> entry_path w' ` set (sweep_entries (lv_sweep l))"
    using e inv new by (metis subsetD)
  ultimately show ?thesis by (auto simp: live_inv_def Let_def guarded_def)
qed

lemma OnPersist_inv:
  assumes "live_inv env l" and "new_name env (wdir (lv_writer l)) o1" and "unat (wseq (lv_writer l)) + 1 < 2 ^ 32"
  shows "live_inv env (l\<lparr>lv_store := s, lv_writer := fst (OnPersist d o1 n (lv_writer l)), lv_calls := cs\<rparr>)"
  using WriteFrame_cases [of d o1 n "lv_writer l"] stays_inv [OF assms(1)] moves_inv [OF assms(1) _ assms(2,3)]
  unfolding OnPersist_writer by (metis surjective_pairing)

lemma scan_paths:
  "scan des ec es tot = Some (es', tot') \<Longrightarrow> entry_path w ` set es \<subseteq> K \<Longrightarrow>
     list_all (\<lambda>e. LooksLikeShard (ev_name e) \<longrightarrow> path_join (wdir w) (ev_name e) \<in> K) des \<Longrightarrow>
     entry_path w ` set es' \<subseteq> K"
proof (induction des arbitrary: ec es tot)
  case (Cons de ds)
  from Cons.prems(1) show ?case
  proof (cases rule: scan_Cons)
    case (1 ec')
    from Cons.IH [OF 1(2) Cons.prems(2)] Cons.prems(3) show ?thesis by simp
  next
    case (2 ec' sz)
    show ?thesis
      by (rule Cons.IH [OF 2(4)]) (use Cons.prems 2 in \<open>auto simp: entry_path_def\<close>)
  qed
qed simp

lemma shown_known:
  assumes "live_inv env l" and "shown env (lv_writer l) des" and "scan des False [] 0 = Some (es, tot)"
  shows "entry_path (lv_writer l) ` set es \<subseteq> known env (lv_writer l)"
proof (rule scan_paths [OF assms(3)])
  have "paths (lv_writer l) \<union> set (se_prior env) \<subseteq> known env (lv_writer l)"
    using assms(1) by (auto simp: live_inv_def Let_def known_def)
  with assms(2) show "list_all (\<lambda>e. LooksLikeShard (ev_name e) \<longrightarrow>
      path_join (wdir (lv_writer l)) (ev_name e) \<in> known env (lv_writer l)) des"
    by (auto simp: shown_def paths_def list_all_iff)
qed simp

lemma active_path_canonical:
  assumes "canonical env (wdir w)" and "current_path w = path_join (wdir w) (MakeShardName t q)"
  shows "active_path (se_canon env) (current_path w) \<noteq> []
    \<and> se_canon env (current_path w) = Some (active_path (se_canon env) (current_path w))"
proof -
  have "current_path w \<noteq> []" using assms(2) by (simp add: path_join_def MakeShardName_def)
  moreover have "se_canon env (current_path w) \<notin> {None, Some []}" using assms by (simp add: canonical_def)
  ultimately show ?thesis by (auto simp: active_path_def)
qed

lemma sweep_inv:
  assumes "live_inv env l" and "canonical env (wdir (lv_writer l))"
    and "live_exec env a l = Some l'" and "a \<in> {SweepScan des, SweepActive}"
  shows "live_inv env l'"
  using assms(4)
proof (elim insertE emptyE)
  assume a: "a = SweepScan des"
  show ?thesis
  proof (cases "l' = l")
    case False
    with a assms(3) obtain es tot where sc: "scan des False [] 0 = Some (es, tot)"
      and sh: "shown env (lv_writer l) des" and l': "l' = l\<lparr>lv_sweep := Scanned (sort_key filename es) tot\<rparr>"
      by (auto split: if_splits option.splits)
    from shown_known [OF assms(1) sh sc] assms(1) l' show ?thesis
      by (simp add: live_inv_def Let_def guarded_def)
  qed (use assms(1) in simp)
next
  assume "a = SweepActive"
  with assms(3) obtain es tot where sw: "lv_sweep l = Scanned es tot"
    and l': "l' = l\<lparr>lv_sweep := Removing (active_path (se_canon env) (current_path (lv_writer l))) es tot\<rparr>"
    by (auto split: sweep.splits)
  from assms(1) obtain t q where "current_path (lv_writer l) = path_join (wdir (lv_writer l)) (MakeShardName t q)"
    by (auto simp: live_inv_def Let_def)
  from active_path_canonical [OF assms(2) this] assms(1) sw l' show ?thesis
    by (simp add: live_inv_def Let_def guarded_def)
qed

lemma remove_inv:
  assumes inv: "live_inv env l" and ex: "live_exec env SweepRemove l = Some l'"
  shows "live_inv env l'"
proof -
  let ?w = "lv_writer l"
  have idle: "live_inv env (l\<lparr>lv_sweep := NoSweep\<rparr>)"
    using inv by (simp add: live_inv_def Let_def guarded_def)
  from ex obtain ac es tot where sw: "lv_sweep l = Removing ac es tot" by (auto split: sweep.splits)
  show ?thesis
  proof (cases es)
    case Nil
    with ex sw idle show ?thesis by simp
  next
    case (Cons e es')
    let ?p = "path_join (wdir ?w) (filename e)"
    have skip: "live_inv env (l\<lparr>lv_sweep := Removing ac es' tot'\<rparr>)" for tot'
      using inv sw Cons by (auto simp: live_inv_def Let_def guarded_def)
    have "live_inv env (l\<lparr>lv_sweep := Removing ac es' tot', lv_writer := ?w\<lparr>files := AList.delete ?p (files ?w)\<rparr>,
        lv_removed := lv_removed l @ [?p]\<rparr>)"
      if "\<not> (ac \<noteq> [] \<and> se_canon env ?p = Some ac)" for tot'
    proof -
      have "current_path ?w \<noteq> ?p" using inv sw Cons that
        by (auto simp: live_inv_def Let_def guarded_def entry_path_def)
      moreover have "?p \<in> known env ?w" using inv sw Cons
        by (simp add: live_inv_def Let_def entry_path_def)
      moreover have "paths (?w\<lparr>files := AList.delete ?p (files ?w)\<rparr>) \<subseteq> paths ?w"
        by (simp add: paths_def dom_delete_subset)
      ultimately show ?thesis using skip [of tot']
        by (force simp: live_inv_def Let_def guarded_def entry_path_def known_def)
    qed
    with ex sw Cons idle skip show ?thesis by (auto simp: Let_def split: if_splits)
  qed
qed

section \<open>Runs\<close>

text \<open>Every step: what it may do to the writer, for the inductions over runs.\<close>

fun reply_ok :: "sweep_env \<Rightarrow> string \<Rightarrow> live_act \<Rightarrow> bool" where
  "reply_ok env d (OnStore a o1 n) = new_name env d o1"
| "reply_ok env d _ = True"

definition same_out :: "store \<Rightarrow> store \<Rightarrow> bool" where
  "same_out s s' \<longleftrightarrow> sent s' = sent s \<and> persisted_bytes s' = persisted_bytes s"

lemmas out_defs = same_out_def swap_append_def swap_flush_def SwapMasterLocked_def flush_exit_def set_spc_def

lemma same_outI: "sent s' = sent s \<Longrightarrow> persisted_bytes s' = persisted_bytes s \<Longrightarrow> same_out s s'"
  by (simp add: same_out_def)

lemma out_free: "AcquireFreeBufferLocked s = (r, s1) \<Longrightarrow> same_out s s1"
  by (auto simp: AcquireFreeBufferLocked_def same_out_def split: list.splits if_splits sum.splits)

lemma out_wait: "AcquireAfterWait s = (r, s1) \<Longrightarrow> same_out s s1"
  by (auto simp: AcquireAfterWait_def same_out_def split: list.splits if_splits)

lemma out_swap:
  "same_out s s1 \<Longrightarrow> same_out s (swap_append t d (r, s1)) \<and> same_out s (swap_flush t dt n (r, s1))"
  by (cases r) (simp_all add: out_defs)

lemma out_lock:
  "same_out s (swap_append t d (AcquireFreeBufferLocked s))" "same_out s (swap_append t d (AcquireAfterWait s))"
  "same_out s (swap_flush t dt n (AcquireFreeBufferLocked s))" "same_out s (swap_flush t dt n (AcquireAfterWait s))"
  by (metis out_free out_swap surj_pair, metis out_wait out_swap surj_pair,
      metis out_free out_swap surj_pair, metis out_wait out_swap surj_pair)

lemma quiet_step:
  assumes "sexec a s = Some s'" and "\<And>ok b d ds. a = DrainFrame ok \<Longrightarrow> task s \<noteq> DWalk b (d # ds)"
  shows "same_out s s'"
proof (cases a)
  case (DrainFrame ok)
  with assms show ?thesis by (auto simp: out_defs split: drain.splits list.splits)
qed (use assms(1) in
    \<open>(auto intro: out_lock same_outI simp: flush_exit_def locked_Some Let_def set_spc_def
        split: spc.splits drain.splits list.splits prod.splits if_splits)[1]\<close>)+

lemma live_store_cases:
  assumes "live_store a o1 n l = Some l'"
  obtains s' where "store_exec a (lv_store l) = Some s'" and "l' = l\<lparr>lv_store := s'\<rparr>"
      and "same_out (lv_store l) s'"
  | s' d where "store_exec a (lv_store l) = Some s'" and "sent s' = sent (lv_store l) @ [d]"
      and "persisted_bytes s' = persisted_bytes (lv_store l) + length d"
      and "l' = l\<lparr>lv_store := s', lv_writer := fst (OnPersist d o1 n (lv_writer l)),
             lv_calls := lv_calls l @ [(d, o1, n)]\<rparr>"
proof -
  obtain s' where ex: "store_exec a (lv_store l) = Some s'"
    using assms by (auto simp: live_store_def split: option.splits)
  then have sx: "sexec a (lv_store l) = Some s'" by (simp add: store_exec_def split: if_splits)
  show thesis
  proof (cases "\<exists>ok b d ds. a = DrainFrame ok \<and> task (lv_store l) = DWalk b (d # ds)")
    case True
    then obtain ok b d ds where a: "a = DrainFrame ok" "task (lv_store l) = DWalk b (d # ds)"
      by (elim exE conjE)
    with assms ex have ok: "ok" and l': "l' = l\<lparr>lv_store := s', lv_writer := fst (OnPersist d o1 n (lv_writer l)),
             lv_calls := lv_calls l @ [(d, o1, n)]\<rparr>"
      by (simp_all add: live_store_def split: if_splits)
    with a sx ex show thesis by (intro that(2) [of s' d]) auto
  next
    case False
    then have "l' = l\<lparr>lv_store := s'\<rparr>"
      using assms ex by (cases a; cases "task (lv_store l)") (auto simp: live_store_def split: list.splits)
    moreover have "same_out (lv_store l) s'" using sx False by (intro quiet_step) auto
    ultimately show thesis using ex that(1) by blast
  qed
qed

text \<open>How a step changes the writer: not at all, by \<open>OnPersist_\<close>, or by the removal of a file.\<close>

definition keeps_writer :: "live \<Rightarrow> live \<Rightarrow> bool" where
  "keeps_writer l l' \<longleftrightarrow> lv_writer l' = lv_writer l \<and> lv_removed l' = lv_removed l \<and> lv_calls l' = lv_calls l
     \<and> lv_store l' = lv_store l"

definition removes :: "string \<Rightarrow> live \<Rightarrow> live \<Rightarrow> bool" where
  "removes p l l' \<longleftrightarrow> lv_writer l' = (lv_writer l)\<lparr>files := AList.delete p (files (lv_writer l))\<rparr>
     \<and> lv_removed l' = lv_removed l @ [p] \<and> lv_calls l' = lv_calls l \<and> lv_store l' = lv_store l"

lemma sweep_writer:
  assumes "live_exec env a l = Some l'" and "\<nexists>x o1 n. a = OnStore x o1 n"
  shows "keeps_writer l l' \<or> (\<exists>p. removes p l l')"
proof (cases a)
  case (SweepScan des)
  with assms(1) show ?thesis by (auto simp: keeps_writer_def split: if_splits option.splits)
next
  case SweepActive
  with assms(1) show ?thesis by (auto simp: keeps_writer_def split: sweep.splits)
next
  case SweepRemove
  with assms(1) obtain ac es tot where sw: "lv_sweep l = Removing ac es tot" by (auto split: sweep.splits)
  show ?thesis
  proof (cases es)
    case (Cons e es')
    let ?l = "l\<lparr>lv_sweep := Removing ac es' (tot - fsize e),
      lv_writer := (lv_writer l)\<lparr>files := AList.delete (entry_path (lv_writer l) e) (files (lv_writer l))\<rparr>,
      lv_removed := lv_removed l @ [entry_path (lv_writer l) e]\<rparr>"
    have "removes (entry_path (lv_writer l) e) l ?l" by (simp add: removes_def)
    moreover have "l' = ?l \<or> keeps_writer l l'"
      using SweepRemove assms(1) sw Cons by (auto simp: Let_def keeps_writer_def entry_path_def split: if_splits)
    ultimately show ?thesis by blast
  qed (use SweepRemove assms(1) sw in \<open>auto simp: keeps_writer_def\<close>)
qed (use assms(2) in blast)

lemma live_exec_inv:
  assumes "live_inv env l" and "live_exec env a l = Some l'"
    and "reply_ok env (wdir (lv_writer l)) a" and "canonical env (wdir (lv_writer l))"
    and "unat (wseq (lv_writer l)) + 1 < 2 ^ 32"
  shows "live_inv env l'"
proof (cases a)
  case (OnStore x o1 n)
  with assms(2) have "live_store x o1 n l = Some l'" by simp
  then show ?thesis
  proof (cases rule: live_store_cases)
    case (1 s')
    with assms(1) show ?thesis by (simp add: live_inv_def guarded_def)
  next
    case (2 s' d)
    have "new_name env (wdir (lv_writer l)) o1" using assms(3) OnStore by simp
    from OnPersist_inv [OF assms(1) this assms(5)] 2 show ?thesis by simp
  qed
next
  case (SweepScan des)
  with sweep_inv [OF assms(1,4,2), of des] show ?thesis by simp
next
  case SweepActive
  with sweep_inv [OF assms(1,4,2)] show ?thesis by simp
next
  case SweepRemove
  with remove_inv [OF assms(1)] assms(2) show ?thesis by simp
qed

lemma live_exec_seq:
  assumes "live_exec env a l = Some l'" and "unat (wseq (lv_writer l)) + 1 < 2 ^ 32"
  shows "unat (wseq (lv_writer l')) \<le> unat (wseq (lv_writer l)) + 1 \<and> wdir (lv_writer l') = wdir (lv_writer l)"
proof (cases "\<exists>x o1 n. a = OnStore x o1 n")
  case True
  then obtain x o1 n where "live_store x o1 n l = Some l'" using assms(1) by auto
  then show ?thesis
  proof (cases rule: live_store_cases)
    case (2 s' d)
    have "lv_writer l' = snd (WriteFrame d o1 n (lv_writer l))" using 2 by (simp add: OnPersist_writer)
    with WriteFrame_cases [of d o1 n "lv_writer l"] assms(2) show ?thesis
      by (cases "WriteFrame d o1 n (lv_writer l)") (auto simp: stays_def moves_def unat_word_ariths)
  qed simp
next
  case False
  from sweep_writer [OF assms(1) this] show ?thesis by (auto simp: keeps_writer_def removes_def)
qed

text \<open>Induction over a run that keeps the invariant and does not exhaust the sequence numbers.\<close>

lemma live_run_induct:
  assumes "run_acts (live_exec env) acts l = Some l'" and "live_inv env l"
    and "unat (wseq (lv_writer l)) + length acts < 2 ^ 32"
    and "list_all (reply_ok env (wdir (lv_writer l))) acts" and "canonical env (wdir (lv_writer l))"
    and "P l"
    and step: "\<And>a m m'. live_inv env m \<Longrightarrow> live_exec env a m = Some m' \<Longrightarrow> reply_ok env (wdir (lv_writer m)) a \<Longrightarrow>
        unat (wseq (lv_writer m)) + 1 < 2 ^ 32 \<Longrightarrow> P m \<Longrightarrow> P m'"
  shows "live_inv env l' \<and> P l'"
  using assms(1-6)
proof (induction acts arbitrary: l)
  case (Cons a acts)
  then obtain m where m: "live_exec env a l = Some m" "run_acts (live_exec env) acts m = Some l'"
    by (auto split: option.splits)
  have seq: "unat (wseq (lv_writer l)) + 1 < 2 ^ 32" using Cons.prems(3) by simp
  have rep: "reply_ok env (wdir (lv_writer l)) a" using Cons.prems(4) by simp
  note after = live_exec_seq [OF m(1) seq]
  have "live_inv env m" by (rule live_exec_inv [OF Cons.prems(2) m(1) rep Cons.prems(5) seq])
  moreover have "P m" by (rule step [OF Cons.prems(2) m(1) rep seq Cons.prems(6)])
  ultimately show ?case by (intro Cons.IH [OF m(2)]) (use Cons.prems(3-5) after in simp_all)
qed simp

section \<open>The stepwise sweep is the sweep\<close>

text \<open>
  Run without interruption, the steps remove what \<open>SweepOnce\<close> removes: the model of the
  running evictor and the one of \<open>Eviction\<close> are the same code.
\<close>

lemma removing_steps:
  "lv_sweep l = Removing ac es tot \<Longrightarrow>
     \<exists>k l'. run_acts (live_exec env) (replicate k SweepRemove) l = Some l' \<and> lv_sweep l' = NoSweep
       \<and> lv_removed l' = lv_removed l @ map (entry_path (lv_writer l))
           (fst (remove_oldest (se_canon env) (se_stuck env) (se_cap env) (wdir (lv_writer l)) ac es tot))"
proof (induction es arbitrary: l tot)
  case Nil
  then show ?case by (intro exI [of _ "Suc 0"]) simp
next
  case (Cons e es)
  let ?p = "entry_path (lv_writer l) e"
  let ?keep = "ac \<noteq> [] \<and> se_canon env ?p = Some ac \<or> se_stuck env ?p"
  note p = entry_path_def [of "lv_writer l" e]
  show ?case
  proof (cases "tot \<le> se_cap env")
    case True
    with Cons.prems show ?thesis by (intro exI [of _ "Suc 0"]) simp
  next
    case big: False
    obtain m tot' where m: "live_exec env SweepRemove l = Some m" "lv_sweep m = Removing ac es tot'"
      and w: "wdir (lv_writer m) = wdir (lv_writer l)"
      and rm: "lv_removed m = lv_removed l @ (if ?keep then [] else [?p])"
      and tot: "tot' = (if ?keep then tot else tot - fsize e)"
    proof (cases ?keep)
      case True
      then show thesis using big Cons.prems p
        by (intro that [of "l\<lparr>lv_sweep := Removing ac es tot\<rparr>" tot]) (auto simp: Let_def)
    next
      case False
      then show thesis using big Cons.prems p
        by (intro that [of "l\<lparr>lv_sweep := Removing ac es (tot - fsize e),
              lv_writer := (lv_writer l)\<lparr>files := AList.delete ?p (files (lv_writer l))\<rparr>,
              lv_removed := lv_removed l @ [?p]\<rparr>" "tot - fsize e"]) (auto simp: Let_def)
    qed
    from Cons.IH [OF m(2)] obtain k l' where k: "run_acts (live_exec env) (replicate k SweepRemove) m = Some l'"
      "lv_sweep l' = NoSweep" "lv_removed l' = lv_removed m @ map (entry_path (lv_writer m))
           (fst (remove_oldest (se_canon env) (se_stuck env) (se_cap env) (wdir (lv_writer m)) ac es tot'))"
      by (elim exE conjE)
    have "entry_path (lv_writer m) = entry_path (lv_writer l)" using w by (simp add: entry_path_def fun_eq_iff)
    with k m(1) w rm tot big p show ?thesis
      by (intro exI [of _ "Suc k"] exI [of _ l']) (auto split: prod.split)
  qed
qed

lemma sweep_steps:
  assumes "lv_sweep l = NoSweep" and "shown env (lv_writer l) des"
    and "scan des False [] 0 = Some (es, tot)" and "se_cap env < tot"
  shows "\<exists>k l'. run_acts (live_exec env) ([SweepScan des, SweepActive] @ replicate k SweepRemove) l = Some l'
    \<and> lv_removed l' = lv_removed l @ map (entry_path (lv_writer l))
        (SweepOnce (se_canon env) (se_stuck env) (se_cap env) (wdir (lv_writer l)) (current_path (lv_writer l)) (Some des))"
proof -
  let ?es = "sort_key filename es" and ?ac = "active_path (se_canon env) (current_path (lv_writer l))"
  let ?m = "l\<lparr>lv_sweep := Removing ?ac ?es tot\<rparr>"
  have m: "run_acts (live_exec env) [SweepScan des, SweepActive] l = Some ?m" using assms by simp
  from removing_steps [of ?m ?ac ?es tot env] obtain k l' where
    "run_acts (live_exec env) (replicate k SweepRemove) ?m = Some l'"
    "lv_removed l' = lv_removed l @ map (entry_path (lv_writer l))
       (fst (remove_oldest (se_canon env) (se_stuck env) (se_cap env) (wdir (lv_writer l)) ?ac ?es tot))"
    by auto
  with m assms(3,4) show ?thesis
    by (intro exI [of _ k] exI [of _ l']) (simp only: run_acts_append m bind.simps, simp add: SweepOnce_def)
qed

section \<open>The sink as constructed\<close>

lemma ShardWriter_start:
  assumes "ShardWriter d limit pub made o1 = Inr w"
  shows "wdir w = d \<and> wseq w = 1 \<and> current_path w = path_join d (MakeShardName (op_time o1) 0)
    \<and> paths w = {current_path w}"
  using assms
  by (auto simp: ShardWriter_def OpenNewShard_def WriteHeader_def Let_def paths_def append_file_def dom_update
      split: if_splits option.splits prod.splits)

lemma live_init_inv:
  assumes "ShardWriter d limit pub made o1 = Inr w"
  shows "live_inv env (live_init st w)"
proof -
  have w: "wdir w = d" "wseq w = 1" "current_path w = path_join d (MakeShardName (op_time o1) 0)"
    "paths w = {current_path w}" using ShardWriter_start [OF assms] by simp_all
  moreover have "current_path w \<in> known env w" unfolding known_def w by (rule UnI2) force
  moreover have "\<exists>t q. current_path w = path_join (wdir w) (MakeShardName t q) \<and> unat q < unat (wseq w)"
    unfolding w by (intro exI [of _ "op_time o1"] exI [of _ 0]) simp
  ultimately show ?thesis
    by (simp add: live_inv_def live_init_def guarded_def)
qed

lemma sink_run:
  assumes "ShardWriter d limit pub made o1 = Inr w" and "run_acts (live_exec env) acts (live_init st w) = Some l"
    and "list_all (reply_ok env d) acts" and "canonical env d" and "length acts + 1 < 2 ^ 32"
    and "P (live_init st w)"
    and "\<And>a m m'. live_inv env m \<Longrightarrow> live_exec env a m = Some m' \<Longrightarrow> reply_ok env (wdir (lv_writer m)) a \<Longrightarrow>
        unat (wseq (lv_writer m)) + 1 < 2 ^ 32 \<Longrightarrow> P m \<Longrightarrow> P m'"
  shows "live_inv env l \<and> P l"
proof -
  have "wdir w = d" "wseq w = 1" using ShardWriter_start [OF assms(1)] by simp_all
  then show ?thesis
    by (intro live_run_induct [OF assms(2) live_init_inv [OF assms(1)]])
      (use assms(3-6) assms(7) in \<open>simp_all add: live_init_def\<close>)
qed

section \<open>Eviction and the contents of the shards\<close>

text \<open>The same writer in a directory that has lost the paths \<open>R\<close>; every operation commutes with the loss.\<close>

definition evict :: "string set \<Rightarrow> writer \<Rightarrow> writer" where
  "evict R w = w\<lparr>files := filter (\<lambda>x. fst x \<notin> R) (files w)\<rparr>"

lemma evict_simps [simp]:
  "file_open (evict R w) = file_open w" "current_size (evict R w) = current_size w"
  "shard_limit (evict R w) = shard_limit w" "current_path (evict R w) = current_path w"
  "wdir (evict R w) = wdir w" "wseq (evict R w) = wseq w" "eph_pub (evict R w) = eph_pub w"
  "evict R (w\<lparr>current_size := n\<rparr>) = (evict R w)\<lparr>current_size := n\<rparr>"
  "evict R (w\<lparr>file_open := b\<rparr>) = (evict R w)\<lparr>file_open := b\<rparr>"
  "evict {} w = w"
  by (simp_all add: evict_def)

lemma filter_update:
  "p \<notin> R \<Longrightarrow> filter (\<lambda>x. fst x \<notin> R) (AList.update p v al) = AList.update p v (filter (\<lambda>x. fst x \<notin> R) al)"
  by (induction al) auto

lemma filter_lookup: "p \<notin> R \<Longrightarrow> map_of (filter (\<lambda>x. fst x \<notin> R) al) p = map_of al p"
  by (induction al) auto

lemma evict_append: "current_path w \<notin> R \<Longrightarrow> append_file bs (evict R w) = evict R (append_file bs w)"
  by (simp add: evict_def append_file_def filter_update filter_lookup)

lemma evict_open:
  assumes "path_join (wdir w) (MakeShardName (op_time o1) (wseq w)) \<notin> R"
  shows "OpenNewShard o1 (evict R w) = map_prod id (evict R) (OpenNewShard o1 w)"
proof -
  let ?p = "path_join (wdir w) (MakeShardName (op_time o1) (wseq w))"
  let ?v = "w\<lparr>wseq := wseq w + 1, current_path := ?p, file_open := True, current_size := 0,
    files := AList.update ?p [] (files w)\<rparr>"
  have "evict R ?v = (evict R w)\<lparr>wseq := wseq w + 1, current_path := ?p, file_open := True, current_size := 0,
      files := AList.update ?p [] (files (evict R w))\<rparr>"
    using assms by (simp add: evict_def filter_update)
  moreover have "append_file bs (evict R ?v) = evict R (append_file bs ?v)" for bs
    using assms by (simp add: evict_append)
  ultimately show ?thesis
    by (simp add: OpenNewShard_def WriteHeader_def Let_def) (simp add: evict_def)
qed

lemma evict_close: "CloseCurrent (evict R w) = evict R (CloseCurrent w)"
  by (simp add: CloseCurrent_def)

definition write_here :: "bytes \<Rightarrow> nat \<Rightarrow> unit res \<times> writer \<Rightarrow> unit res \<times> writer" where
  "write_here data n rw =
     (case rw of
        (Inl e, w) \<Rightarrow> (Inl e, w)
      | (Inr u, w) \<Rightarrow>
          (let w' = append_file (take (min n (length data)) data) w
           in if min n (length data) \<noteq> length data then (Inr (), w')
              else (Inr (), w'\<lparr>current_size := current_size w' + length data\<rparr>)))"

text \<open>\<open>WriteFrame\<close> as a choice of the shard followed by the write.\<close>

lemma WriteFrame_choice:
  assumes "data \<noteq> []"
  shows "WriteFrame data o1 n w = write_here data n
    (if \<not> file_open w then OpenNewShard o1 w
     else if kHeaderBytes < current_size w \<and> shard_limit w < current_size w + length data
       then OpenNewShard o1 (CloseCurrent w) else (Inr (), w))"
proof (cases "file_open w")
  case False
  obtain r v where o: "OpenNewShard o1 w = (r, v)" by (cases "OpenNewShard o1 w")
  with open_moves [OF o] False assms show ?thesis
    by (cases r) (simp_all add: WriteFrame_def write_here_def Let_def)
next
  case True
  with assms show ?thesis by (auto simp: WriteFrame_def write_here_def Let_def split: prod.split sum.split)
qed

lemma evict_write_here:
  "(\<And>u. r = Inr u \<Longrightarrow> current_path w \<notin> R) \<Longrightarrow>
     write_here data n (r, evict R w) = map_prod id (evict R) (write_here data n (r, w))"
  by (cases r) (simp_all add: write_here_def Let_def evict_append)

lemma evict_write:
  assumes cur: "current_path w \<notin> R" and new: "path_join (wdir w) (MakeShardName (op_time o1) (wseq w)) \<notin> R"
  shows "WriteFrame data o1 n (evict R w) = map_prod id (evict R) (WriteFrame data o1 n w)"
proof (cases "data = []")
  case False
  have opened: "write_here data n (OpenNewShard o1 (evict R v)) = map_prod id (evict R) (write_here data n (OpenNewShard o1 v))"
    if "wdir v = wdir w" "wseq v = wseq w" for v
  proof -
    obtain r u where o: "OpenNewShard o1 v = (r, u)" by (cases "OpenNewShard o1 v")
    have "current_path u \<notin> R" using open_moves [OF o] that new by (simp add: moves_def)
    then show ?thesis using evict_open [of v o1 R] that new o by (simp add: evict_write_here)
  qed
  have "write_here data n (OpenNewShard o1 (CloseCurrent (evict R w)))
      = map_prod id (evict R) (write_here data n (OpenNewShard o1 (CloseCurrent w)))"
    unfolding evict_close by (rule opened) (simp_all add: CloseCurrent_def)
  with opened [of w] cur show ?thesis
    by (simp add: WriteFrame_choice [OF False] evict_write_here)
qed (simp add: WriteFrame_def)

lemma evict_delete:
  "(evict R w)\<lparr>files := AList.delete p (files (evict R w))\<rparr> = evict (insert p R) w"
proof -
  have "(\<lambda>x :: string \<times> bytes. fst x \<notin> R \<and> p \<noteq> fst x) = (\<lambda>x. fst x \<notin> insert p R)" by auto
  then show ?thesis by (simp add: evict_def AList.delete_eq case_prod_unfold conj_commute)
qed

lemma persist_all_snoc:
  "persist_all (cs @ [(d, o1, n)]) w = fst (OnPersist d o1 n (persist_all cs w))"
  by (induction cs w rule: persist_all.induct) simp_all

text \<open>The writer of the running sink, and the writer that had the same calls and no evictor beside it.\<close>

definition as_without_eviction :: "writer \<Rightarrow> live \<Rightarrow> bool" where
  "as_without_eviction w l \<longleftrightarrow>
     lv_writer l = evict (set (lv_removed l)) (persist_all (lv_calls l) w) \<and> map fst (lv_calls l) = sent (lv_store l)"

lemma as_without_eviction_step:
  assumes inv: "live_inv env m" and ex: "live_exec env a m = Some m'"
    and rep: "reply_ok env (wdir (lv_writer m)) a" and P: "as_without_eviction w m"
  shows "as_without_eviction w m'"
proof (cases "\<exists>x o1 n. a = OnStore x o1 n")
  case False
  from sweep_writer [OF ex this] P show ?thesis
    by (auto simp: as_without_eviction_def keeps_writer_def removes_def evict_delete)
next
  case True
  then obtain x o1 n where a: "a = OnStore x o1 n" by blast
  with ex have "live_store x o1 n m = Some m'" by simp
  then show ?thesis
  proof (cases rule: live_store_cases)
    case (1 s')
    with P show ?thesis by (simp add: as_without_eviction_def same_out_def)
  next
    case (2 s' d)
    let ?R = "set (lv_removed m)" and ?W = "persist_all (lv_calls m) w"
    have w: "lv_writer m = evict ?R ?W" using P by (simp add: as_without_eviction_def)
    have "new_name env (wdir (lv_writer m)) o1" using rep a by simp
    then have "path_join (wdir ?W) (MakeShardName (op_time o1) (wseq ?W)) \<notin> ?R"
      using new_path_unknown [of env "lv_writer m" o1] inv w by (auto simp: live_inv_def Let_def)
    moreover have "current_path ?W \<notin> ?R" using inv w by (simp add: live_inv_def Let_def)
    ultimately have "WriteFrame d o1 n (evict ?R ?W) = map_prod id (evict ?R) (WriteFrame d o1 n ?W)"
      by (intro evict_write)
    then show ?thesis using 2 P w
      by (simp add: as_without_eviction_def persist_all_snoc OnPersist_writer)
  qed
qed

section \<open>Properties\<close>

text \<open>
  C22. The evictor never removes the shard that is being written. The sweep runs while the drain writes and
  rotates: between its scan and its question for the active shard, and between any two removals, the
  writer may open new shards. Still no removed path is ever the current one, because the active shard is asked for
  after the scan and names are not reused: provided the shards have canonical paths, the clock does not
  go back to the names of an earlier process, and the sequence number does not wrap.
\<close>

theorem active_shard_never_removed:
  assumes "ShardWriter d limit pub made o1 = Inr w" and "run_acts (live_exec env) acts (live_init st w) = Some l"
    and "list_all (reply_ok env d) acts" and "canonical env d" and "length acts + 1 < 2 ^ 32"
  shows "current_path (lv_writer l) \<notin> set (lv_removed l)"
  using sink_run [OF assms, of "\<lambda>_. True"] by (simp add: live_inv_def Let_def)

text \<open>
  A run used as a concrete instance: the first record goes to shard 0, the sweep scans, the second record
  rotates to shard 1, the sweep asks for the active shard and removes shard 0.
\<close>

definition demo_env :: sweep_env where
  "demo_env = \<lparr>se_canon = Some, se_stuck = (\<lambda>_. False), se_prior = [], se_cap = 10\<rparr>"

definition demo_writer :: writer where
  "demo_writer = (case ShardWriter ''logs'' 50 (replicate 32 7) None sample_open of Inr w \<Rightarrow> w)"

definition on_store :: "nat \<Rightarrow> sact \<Rightarrow> live_act" where
  "on_store n a = OnStore a sample_open n"

definition live_run :: "nat \<Rightarrow> live_act list" where
  "live_run n = map (on_store n) (take 17 client_run)
     @ [SweepScan [shard_reply (MakeShardName (op_time sample_open) 0) 50], on_store n (DrainFrame True),
        SweepActive, SweepRemove]"

lemma demo_writer_eq: "ShardWriter ''logs'' 50 (replicate 32 7) None sample_open = Inr demo_writer"
  by (simp add: demo_writer_def ShardWriter_def kHeaderBytes_def OpenNewShard_def WriteHeader_def Let_def sample_open_def)

definition shard0 :: string where "shard0 = ''log-20260522-222942-434-0000.bin''"
definition shard1 :: string where "shard1 = ''log-20260522-222942-434-0001.bin''"

lemma demo_names: "MakeShardName (op_time sample_open) 0 = shard0" "MakeShardName (op_time sample_open) 1 = shard1"
  by code_simp+

definition demo_header :: bytes where "demo_header = header_bytes (replicate 32 7)"

lemma demo_header_simps [simp]: "length demo_header = 48" "take 48 demo_header = demo_header"
  by (simp_all add: demo_header_def length_header kHeaderBytes_def)

lemma demo_writer_val:
  "demo_writer = \<lparr>wdir = ''logs'', shard_limit = 50, eph_pub = replicate 32 7, file_open = True,
     current_size = 48, current_path = path_join ''logs'' shard0, wseq = 1,
     files = [(path_join ''logs'' shard0, demo_header)]\<rparr>"
  by (simp add: demo_writer_def ShardWriter_def OpenNewShard_def WriteHeader_def Let_def
      sample_open_def demo_names [unfolded sample_open_def open_reply.simps] append_file_def kHeaderBytes_def
      flip: demo_header_def)

lemma shards_differ: "path_join ''logs'' shard0 \<noteq> path_join ''logs'' shard1"
  by (simp add: path_join_inj shard0_def shard1_def)

lemma quiet_run:
  assumes "\<And>ok. DrainFrame ok \<notin> set as"
  shows "run_acts (live_exec env) (map (on_store n) as) l
    = map_option (\<lambda>s. l\<lparr>lv_store := s\<rparr>) (run_acts store_exec as (lv_store l))"
  using assms
proof (induction as arbitrary: l)
  case (Cons a as)
  then have na: "\<nexists>ok. a = DrainFrame ok" by auto
  have "live_exec env (on_store n a) l = map_option (\<lambda>s. l\<lparr>lv_store := s\<rparr>) (store_exec a (lv_store l))"
    using na by (cases a) (auto simp: on_store_def live_store_def split: option.split)
  with Cons show ?case by (auto split: option.split)
qed simp

lemma walking:
  "\<exists>s. run_acts store_exec (take 16 client_run) small_store = Some s \<and> task s = DWalk 0 [[1, 2], [3]]
     \<and> \<not> destroyed s \<and> sent s = [] \<and> persisted_bytes s = 0"
  by (simp add: store_eval client_run_def)

lemmas live_eval = live_store_def OnPersist_def WriteFrame_def OpenNewShard_def WriteHeader_def
  CloseCurrent_def append_file_def store_exec_def Let_def kHeaderBytes_def

lemma one_frame:
  assumes "task s = DWalk 0 [[1, 2], [3]]" and "\<not> destroyed s"
  shows "live_exec demo_env (on_store 100 (DrainFrame True)) (live_init s demo_writer)
    = Some \<lparr>lv_store = s\<lparr>sent := sent s @ [[1, 2]], persisted_bytes := persisted_bytes s + 2, task := DWalk 0 [[3]]\<rparr>,
       lv_writer = demo_writer\<lparr>current_size := 50,
         files := [(path_join ''logs'' shard0, demo_header @ [1, 2])]\<rparr>,
       lv_sweep = NoSweep, lv_calls = [([1, 2], sample_open, 100)], lv_removed = []\<rparr>"
  using assms by (simp add: live_init_def on_store_def live_eval demo_writer_val)

text \<open>The second half of the run: the sweep scans shard 0, the writer rotates, the sweep asks and removes.\<close>

lemma rotate_and_sweep:
  assumes "task s = DWalk 0 [[3]]" and "\<not> destroyed s"
  shows "\<exists>l. run_acts (live_exec demo_env)
      [SweepScan [shard_reply shard0 50], on_store 100 (DrainFrame True), SweepActive, SweepRemove]
      \<lparr>lv_store = s, lv_writer = demo_writer\<lparr>current_size := 50,
         files := [(path_join ''logs'' shard0, demo_header @ [1, 2])]\<rparr>,
       lv_sweep = NoSweep, lv_calls = cs, lv_removed = []\<rparr> = Some l
    \<and> lv_removed l = [path_join ''logs'' shard0] \<and> current_path (lv_writer l) = path_join ''logs'' shard1
    \<and> files (lv_writer l) = [(path_join ''logs'' shard1, demo_header @ [3])]"
proof -
  have looks: "LooksLikeShard shard0" by (simp add: LooksLikeShard_def shard0_def)
  have rep: "op_time sample_open = op_time sample_open" "op_fopen sample_open" "op_header sample_open = 48"
    by (simp_all add: sample_open_def)
  have dir: "path_join ''logs'' shard1 \<noteq> []" by (simp add: path_join_def)
  show ?thesis
    using assms shards_differ looks rep dir
    by (simp add: on_store_def live_eval demo_writer_val shown_def shard_reply_def demo_env_def active_path_def
        demo_names flip: demo_header_def)
qed

lemma demo_canonical: "canonical demo_env ''logs''"
  by (simp add: canonical_def demo_env_def path_join_def)

lemma demo_replies: "list_all (reply_ok demo_env ''logs'') (live_run n)"
  by (simp add: live_run_def on_store_def list_all_iff new_name_def demo_env_def)

lemma live_run_val:
  "\<exists>l. run_acts (live_exec demo_env) (live_run 100) (live_init small_store demo_writer) = Some l
     \<and> lv_removed l = [path_join ''logs'' shard0] \<and> current_path (lv_writer l) = path_join ''logs'' shard1
     \<and> files (lv_writer l) = [(path_join ''logs'' shard1, demo_header @ [3])]"
proof -
  obtain s where s: "run_acts store_exec (take 16 client_run) small_store = Some s"
    "task s = DWalk 0 [[1, 2], [3]]" "\<not> destroyed s" using walking by (elim exE conjE)
  have q: "DrainFrame ok \<notin> set (take 16 client_run)" for ok by (simp add: client_run_def drain_run_def)
  have split: "live_run 100 = map (on_store 100) (take 16 client_run) @ [on_store 100 (DrainFrame True)]
      @ [SweepScan [shard_reply shard0 50], on_store 100 (DrainFrame True), SweepActive, SweepRemove]"
    by (simp add: live_run_def client_run_def drain_run_def demo_names)
  have "run_acts (live_exec demo_env) (map (on_store 100) (take 16 client_run)) (live_init small_store demo_writer)
      = Some (live_init s demo_writer)"
    using quiet_run [OF q] s(1) by (simp add: live_init_def)
  then show ?thesis
    using one_frame [OF s(2,3)] s(3) rotate_and_sweep
    by (simp only: split run_acts_append) simp
qed

theorem active_shard_never_removed_witness:
  "\<exists>l. run_acts (live_exec demo_env) (live_run 100) (live_init small_store demo_writer) = Some l
     \<and> lv_removed l = [path_join ''logs'' shard0] \<and> current_path (lv_writer l) \<notin> set (lv_removed l)"
proof -
  have "length (live_run 100) + 1 < 2 ^ 32" by (simp add: live_run_def client_run_def drain_run_def)
  note never = active_shard_never_removed [OF demo_writer_eq _ demo_replies demo_canonical this]
  from live_run_val show ?thesis using never by (elim exE conjE) blast
qed



definition counts_sent :: "live \<Rightarrow> bool" where
  "counts_sent l \<longleftrightarrow> persisted_bytes (lv_store l) = sum_list (map length (sent (lv_store l)))"

lemma started_persisted: "Mmap_Store.started s \<Longrightarrow> persisted_bytes s = 0 \<and> sent s = []"
  by (auto simp: Mmap_Store.started_def MmapStore_def Let_def split: if_splits sum.splits)

lemma counts_sent_step:
  assumes "live_exec env a l = Some l'" and "counts_sent l"
  shows "counts_sent l'"
proof (cases "\<exists>x o1 n. a = OnStore x o1 n")
  case True
  then obtain x o1 n where "live_store x o1 n l = Some l'" using assms(1) by auto
  then show ?thesis
    by (cases rule: live_store_cases) (use assms(2) in \<open>simp_all add: counts_sent_def same_out_def\<close>)
next
  case False
  from sweep_writer [OF assms(1) this] assms(2) show ?thesis
    by (auto simp: counts_sent_def keeps_writer_def removes_def)
qed

interpretation live_sys: invariant_system "\<lambda>l. \<exists>st w. Mmap_Store.started st \<and> l = live_init st w"
  "acts_step (live_exec env)" counts_sent for env
proof unfold_locales
  show "counts_sent l" if "\<exists>st w. Mmap_Store.started st \<and> l = live_init st w" for l
    using that by (auto simp: counts_sent_def live_init_def started_persisted)
  show "counts_sent l'" if "acts_step (live_exec env) l l'" "counts_sent l" for l l'
    using that counts_sent_step by (auto simp: acts_step_def simp del: live_exec.simps)
qed

text \<open>
  \<open>PersistedBytes\<close> counts what was handed on, not what was written: \<open>OnPersist_\<close> swallows every failure, so in every
  reachable state of the running sink, whatever \<open>fopen\<close> and \<open>fwrite\<close> answered, the counter is the sum of the lengths of all frames
  that left the store.
\<close>

theorem persisted_counts_lost_frames:
  assumes "Mmap_Store.started st" and "run_acts (live_exec env) acts (live_init st w) = Some l"
  shows "persisted_bytes (lv_store l) = sum_list (map length (sent (lv_store l)))"
  using live_sys.reachable_inv [of "live_init st w" env l] run_acts_steps [OF assms(2)] assms(1)
  by (auto simp: counts_sent_def)

text \<open>The disk is full: the second record takes no byte, the counter takes it nevertheless.\<close>

theorem persisted_counts_lost_frames_witness:
  "\<exists>l. run_acts (live_exec demo_env) (map (on_store 0) (take 17 client_run)) (live_init small_store demo_writer) = Some l
     \<and> files (lv_writer l) = [(path_join ''logs'' shard0, demo_header)] \<and> sent (lv_store l) = [[1, 2]]
     \<and> persisted_bytes (lv_store l) = 2"
proof -
  obtain s where s: "run_acts store_exec (take 16 client_run) small_store = Some s"
    "task s = DWalk 0 [[1, 2], [3]]" "\<not> destroyed s" "sent s = []" using walking by (elim exE conjE)
  have q: "DrainFrame ok \<notin> set (take 16 client_run)" for ok by (simp add: client_run_def drain_run_def)
  have split: "map (on_store 0) (take 17 client_run)
      = map (on_store 0) (take 16 client_run) @ [on_store 0 (DrainFrame True)]"
    by (simp add: client_run_def drain_run_def)
  have "run_acts (live_exec demo_env) (map (on_store 0) (take 16 client_run)) (live_init small_store demo_writer)
      = Some (live_init s demo_writer)"
    using quiet_run [OF q] s(1) by (simp add: live_init_def)
  then have "\<exists>l. run_acts (live_exec demo_env) (map (on_store 0) (take 17 client_run)) (live_init small_store demo_writer) = Some l
     \<and> files (lv_writer l) = [(path_join ''logs'' shard0, demo_header)] \<and> sent (lv_store l) = [[1, 2]]"
    using s(2-4) by (simp only: split run_acts_append) (simp add: live_init_def on_store_def live_eval demo_writer_val)
  then show ?thesis
    using persisted_counts_lost_frames [OF conjunct1 [OF small_started]] by (elim exE conjE) fastforce
qed

end
