(* ===== verification/Store_Tests.thy ===== *)
theory Store_Tests
  imports Mmap_Store_Flush Smoke_Tests
begin

text \<open>
  \<open>examples/mmap_smoke.cpp\<close>: the tests of the mapped region, the buffer and the store, run on the model. The first two are
  sequential programs; the three store tests are clients of the interleaving model of \<open>Mmap_Store\<close>, with
  one list of calls per producer thread and a \<open>Flush\<close> after all have been joined. The properties say
  in which environments and schedules their checks hold.
\<close>

section \<open>What a client thread does\<close>

text \<open>
  The path of a thread through \<open>Append\<close>, \<open>Flush\<close> and the destructor, with the number of acknowledged
  records \<open>n\<close> that a \<open>Flush\<close> finds when it takes the lock.
\<close>

inductive flow :: "nat \<Rightarrow> spc \<Rightarrow> spc \<Rightarrow> bool" for n where
  "at_rest p \<Longrightarrow> flow n p (ALoad d)"
| "at_rest p \<Longrightarrow> flow n p (ADone [] False)"
| "at_rest p \<Longrightarrow> flow n p (FLock dt)"
| "flow n (ALoad d) (AWrite d k)"
| "flow n (AWrite d k) (ADone d True)"
| "flow n (AWrite d k) (ALock d k)"
| "p = ALock d k \<or> p = AWait d \<Longrightarrow> flow n p (ADone d False)"
| "p = ALock d k \<or> p = AWait d \<or> p = APost d \<Longrightarrow> flow n p (ALoad d)"
| "p = ALock d k \<or> p = AWait d \<Longrightarrow> flow n p (APost d)"
| "p = ALock d k \<or> p = AWait d \<Longrightarrow> flow n p (AWait d)"
| "flow n (FLock dt) (FWaitFree dt n)"
| "p = FLock dt \<and> m = n \<or> p = FWaitFree dt m \<Longrightarrow> flow n p (FPost dt m)"
| "p = FLock dt \<and> m = n \<or> p = FWaitFree dt m \<or> p = FPost dt m \<Longrightarrow> flow n p (FWait dt m)"
| "p = FWaitFree dt m \<Longrightarrow> flow n p (FWaitFree dt m)"
| "p = FLock False \<and> m = n \<or> p = FWait False m \<Longrightarrow> flow n p (FDone m)"
| "p = FLock True \<or> p = FWait True m \<Longrightarrow> flow n p DtorLock"
| "flow n DtorLock DtorEnd"
| "flow n DtorEnd SIdle"

inductive_cases flowE: "flow n p q"

lemma swap_flow:
  "\<exists>p \<in> {APost d, ALoad d, ADone d False, AWait d}. spcs (swap_append t d r) = (spcs (snd r))(t := p) \<and> acks (swap_append t d r) = acks (snd r)"
  "\<exists>p \<in> {FPost dt n, FWait dt n, FWaitFree dt n}. spcs (swap_flush t dt n r) = (spcs (snd r))(t := p) \<and> acks (swap_flush t dt n r) = acks (snd r)"
  by (cases r; cases "fst r"; simp add: swap_append_def swap_flush_def SwapMasterLocked_def set_spc_def)+

lemma acquire_acks: "acks (snd (AcquireFreeBufferLocked s)) = acks s" "acks (snd (AcquireAfterWait s)) = acks s"
  by (simp_all add: AcquireFreeBufferLocked_def AcquireAfterWait_def split: list.split sum.split)

lemma fun_upd_inj [simp]: "f(t := a) = f(t := b) \<longleftrightarrow> a = b"
  by (metis fun_upd_same)

fun acknowledged :: "nat \<Rightarrow> spc \<Rightarrow> spc \<Rightarrow> (nat \<times> bytes) list" where
  "acknowledged t (AWrite d k) (ADone e True) = [(t, d)]"
| "acknowledged t p q = []"

lemma acknowledged_rest [simp]: "at_rest p \<Longrightarrow> acknowledged t p q = []"
  by (cases p) (simp_all add: at_rest_def)

lemma acknowledged_not [simp]: "(\<And>e. q \<noteq> ADone e True) \<Longrightarrow> acknowledged t p q = []"
  by (cases "(t, p, q)" rule: acknowledged.cases) auto

text \<open>Every step of the store moves at most its actor, along \<open>flow\<close>, and acknowledges a record only when \<open>Append\<close> returns true.\<close>

lemma client_step:
  assumes "sexec a s = Some s'" and "actor a = Some t"
  shows "\<exists>p. spcs s' = (spcs s)(t := p) \<and> flow (length (acks s)) (spcs s t) p
    \<and> acks s' = acks s @ acknowledged t (spcs s t) p"
proof -
  note sw = swap_flow(1) [of _ t "AcquireFreeBufferLocked s"] swap_flow(1) [of _ t "AcquireAfterWait s"]
    swap_flow(2) [of _ _ t "AcquireFreeBufferLocked s"] swap_flow(2) [of _ _ t "AcquireAfterWait s"]
  show ?thesis
  proof (cases a)
    case (LockSwap u)
    with assms obtain d k where pc: "spcs s t = ALock d k" by (auto split: spc.splits)
    with LockSwap assms sw(1) [of d] show ?thesis
      by (auto simp: locked_Some acquire_spcs acquire_acks split: if_splits intro: flow.intros)
  next
    case (WakeSwap u)
    with assms obtain d where pc: "spcs s t = AWait d" by (auto split: spc.splits)
    with WakeSwap assms sw(2) [of d] show ?thesis
      by (auto simp: locked_Some acquire_spcs acquire_acks split: if_splits intro: flow.intros)
  next
    case (FlushLock u)
    with assms obtain dt where pc: "spcs s t = FLock dt" by (auto split: spc.splits)
    with FlushLock assms sw(3) [of dt "length (acks s)"] show ?thesis
      by (cases dt) (auto simp: locked_Some acquire_spcs acquire_acks Let_def flush_exit_def split: if_splits intro: flow.intros)
  next
    case (FlushWake u)
    with assms obtain dt n where pc: "spcs s t = FWaitFree dt n" by (auto split: spc.splits)
    with FlushWake assms sw(4) [of dt n] show ?thesis
      by (auto simp: locked_Some acquire_spcs acquire_acks split: if_splits intro: flow.intros)
  next
    case (TryWrite u)
    with assms obtain d k where "spcs s t = AWrite d k" by (auto split: spc.splits)
    with TryWrite assms show ?thesis
      by (auto simp: Let_def split: prod.splits if_splits intro: flow.intros)
  next
    case (TimeOut u)
    with assms obtain d where "spcs s t = AWait d" by (auto split: spc.splits)
    with TimeOut assms show ?thesis by (auto simp: locked_Some split: if_splits intro: flow.intros)
  next
    case (FlushReturn u)
    with assms obtain dt n where pc: "spcs s t = FWait dt n" by (auto split: spc.splits)
    with FlushReturn assms show ?thesis
      by (cases dt) (auto simp: locked_Some flush_exit_def split: if_splits intro: flow.intros)
  next
    case (Append u d)
    with assms have "at_rest (spcs s t)" by (auto split: if_splits)
    then show ?thesis using Append assms by (auto split: if_splits intro: flow.intros)
  next
    case (Flush u)
    with assms have "at_rest (spcs s t)" by (auto split: if_splits)
    then show ?thesis using Flush assms by (auto split: if_splits intro: flow.intros)
  next
    case (Destroy u)
    with assms have "at_rest (spcs s t)" by (auto split: if_splits)
    then show ?thesis using Destroy assms by (auto split: if_splits intro: flow.intros)
  qed (use assms in \<open>(auto simp: locked_Some split: spc.splits if_splits intro: flow.intros)[1]\<close>)+
qed

section \<open>Producers that are joined before a Flush\<close>

text \<open>
  A store test: the threads of \<open>crew\<close> append the payloads of their lists, one by one; when all have
  finished, thread 0 flushes. \<open>on_persist\<close> of these tests does not throw. The store is neither
  destroyed nor is the pool shut down before the checks.
\<close>

record trial =
  hs :: store
  todo :: "nat \<Rightarrow> bytes list"
  crew :: "nat list"
  flushing :: bool

definition trial_start :: "store \<Rightarrow> (nat \<Rightarrow> bytes list) \<Rightarrow> nat list \<Rightarrow> trial" where
  "trial_start s ds ts = \<lparr>hs = s, todo = ds, crew = ts, flushing = False\<rparr>"

fun permitted :: "sact \<Rightarrow> trial \<Rightarrow> bool" where
  "permitted (Append t d) h \<longleftrightarrow>
     \<not> flushing h \<and> t \<in> set (crew h) \<and> (case todo h t of [] \<Rightarrow> False | e # es \<Rightarrow> d = e)"
| "permitted (Flush t) h \<longleftrightarrow>
     t = 0 \<and> \<not> flushing h \<and> list_all (\<lambda>u. todo h u = [] \<and> at_rest (spcs (hs h) u)) (crew h)"
| "permitted (Destroy t) h \<longleftrightarrow> False"
| "permitted PoolShutdown h \<longleftrightarrow> False"
| "permitted (DrainFrame ok) h \<longleftrightarrow> ok"
| "permitted a h \<longleftrightarrow> True"

fun trial_next :: "sact \<Rightarrow> trial \<Rightarrow> trial" where
  "trial_next (Append t d) h = h\<lparr>todo := (todo h)(t := tl (todo h t))\<rparr>"
| "trial_next (Flush t) h = h\<lparr>flushing := True\<rparr>"
| "trial_next a h = h"

definition trial_exec :: "(sact \<Rightarrow> store \<Rightarrow> store option) \<Rightarrow> sact \<Rightarrow> trial \<Rightarrow> trial option" where
  "trial_exec ex a h =
     (if permitted a h then map_option (\<lambda>s. (trial_next a h)\<lparr>hs := s\<rparr>) (ex a (hs h)) else None)"

text \<open>The record a thread is working on.\<close>

fun carried :: "spc \<Rightarrow> bytes option" where
  "carried (ALoad d) = Some d"
| "carried (AWrite d k) = Some d"
| "carried (ALock d k) = Some d"
| "carried (AWait d) = Some d"
| "carried (APost d) = Some d"
| "carried p = None"

definition flush_phase :: "nat \<Rightarrow> spc \<Rightarrow> bool" where
  "flush_phase n p \<longleftrightarrow> p = FLock False \<or> p \<in> {FWaitFree False n, FPost False n, FWait False n, FDone n}"

text \<open>
  What holds throughout, for a set \<open>P\<close> of payloads the producers draw from: every record on its way or acknowledged is in \<open>P\<close>, only the crew appends, and
  once the flush has begun nobody else moves, so the number it found is the number there is.
\<close>

definition trial_ok :: "bytes set \<Rightarrow> trial \<Rightarrow> bool" where
  "trial_ok P h \<longleftrightarrow>
     (\<forall>t\<in>set (crew h). set (todo h t) \<subseteq> P)
     \<and> (\<forall>t d. carried (spcs (hs h) t) = Some d \<longrightarrow> d \<in> P)
     \<and> snd ` set (acks (hs h)) \<subseteq> P
     \<and> persisted_bytes (hs h) = sum_list (map length (sent (hs h)))
     \<and> \<not> stopped (hs h) \<and> \<not> destroyed (hs h)
     \<and> (if flushing h
        then flush_phase (length (acks (hs h))) (spcs (hs h) 0) \<and> (\<forall>t. t \<noteq> 0 \<longrightarrow> at_rest (spcs (hs h) t))
        else \<forall>t. (at_rest (spcs (hs h) t) \<or> t \<in> set (crew h) \<and> carried (spcs (hs h) t) \<noteq> None))"

lemma swap_keeps:
  "persisted_bytes (swap_append t d r) = persisted_bytes (snd r) \<and> sent (swap_append t d r) = sent (snd r)
     \<and> stopped (swap_append t d r) = stopped (snd r) \<and> destroyed (swap_append t d r) = destroyed (snd r)"
  "persisted_bytes (swap_flush t dt n r) = persisted_bytes (snd r) \<and> sent (swap_flush t dt n r) = sent (snd r)
     \<and> stopped (swap_flush t dt n r) = stopped (snd r) \<and> destroyed (swap_flush t dt n r) = destroyed (snd r)"
  by (cases r; cases "fst r"; simp add: swap_append_def swap_flush_def SwapMasterLocked_def)+

lemma acquire_keeps:
  "persisted_bytes (snd (AcquireFreeBufferLocked s)) = persisted_bytes s \<and> sent (snd (AcquireFreeBufferLocked s)) = sent s
     \<and> stopped (snd (AcquireFreeBufferLocked s)) = stopped s \<and> destroyed (snd (AcquireFreeBufferLocked s)) = destroyed s"
  "persisted_bytes (snd (AcquireAfterWait s)) = persisted_bytes s \<and> sent (snd (AcquireAfterWait s)) = sent s
     \<and> stopped (snd (AcquireAfterWait s)) = stopped s \<and> destroyed (snd (AcquireAfterWait s)) = destroyed s"
  by (simp_all add: AcquireFreeBufferLocked_def AcquireAfterWait_def split: list.split sum.split)

text \<open>Only the drain hands records on, and only the destructor stops the store.\<close>

lemma client_keeps:
  assumes "sexec a s = Some s'" and "actor a = Some t" and "a \<noteq> DestroyLock t" and "a \<noteq> DestroyEnd t"
  shows "persisted_bytes s' = persisted_bytes s \<and> sent s' = sent s \<and> stopped s' = stopped s \<and> destroyed s' = destroyed s"
  using assms
  by (cases a) (auto simp: locked_Some Let_def flush_exit_def swap_keeps acquire_keeps
      split: spc.splits if_splits prod.splits)

lemma strand_keeps:
  assumes "sexec a s = Some s'" and "actor a = None" and "a \<noteq> PoolShutdown" and "\<And>ok. a = DrainFrame ok \<Longrightarrow> ok"
  shows "spcs s' = spcs s \<and> acks s' = acks s \<and> stopped s' = stopped s \<and> destroyed s' = destroyed s
    \<and> (persisted_bytes s = sum_list (map length (sent s)) \<longrightarrow> persisted_bytes s' = sum_list (map length (sent s')))"
  using assms
  by (cases a) (auto simp: locked_Some split: drain.splits list.splits if_splits)

lemma moving_thread:
  "sexec a s = Some s' \<Longrightarrow> actor a = Some t \<Longrightarrow> (\<And>d. a \<noteq> Append t d) \<Longrightarrow> a \<noteq> Flush t \<Longrightarrow> a \<noteq> Destroy t \<Longrightarrow>
     \<not> at_rest (spcs s t)"
  by (cases a) (auto simp: at_rest_def split: spc.splits if_splits)

lemma flow_carried:
  "flow n p q \<Longrightarrow> carried p = Some d \<Longrightarrow> carried q = Some d \<or> carried q = None \<and> at_rest q"
  by (elim flowE) (auto simp: at_rest_def split: spc.splits)

lemma flow_flush:
  "flow n p q \<Longrightarrow> flush_phase n p \<Longrightarrow> \<not> at_rest p \<Longrightarrow> flush_phase n q \<and> carried q = None"
  by (elim flowE) (auto simp: flush_phase_def at_rest_def)

lemma carried_rest [simp]: "at_rest p \<Longrightarrow> carried p = None"
  by (cases p) (simp_all add: at_rest_def)

lemma flush_phase_carried: "flush_phase n p \<Longrightarrow> carried p = None"
  by (auto simp: flush_phase_def)

lemma acknowledged_carried: "x \<in> set (acknowledged t p q) \<Longrightarrow> carried p = Some (snd x)"
  by (cases "(t, p, q)" rule: acknowledged.cases) auto

lemma acknowledged_flush: "carried p = None \<Longrightarrow> acknowledged t p q = []"
  by (cases "(t, p, q)" rule: acknowledged.cases) auto

lemma trial_call:
  assumes ok: "trial_ok P h" and ex: "sexec (Append t d) (hs h) = Some s" and pm: "permitted (Append t d) h"
  shows "trial_ok P ((trial_next (Append t d) h)\<lparr>hs := s\<rparr>)"
proof -
  have "set (todo h t) \<subseteq> P" using ok pm by (simp add: trial_ok_def)
  then have d: "d \<in> P" and tl: "set (tl (todo h t)) \<subseteq> P"
    using pm by (auto split: list.splits)
  have "at_rest (spcs (hs h) t)" "s = set_spc t (if d = [] then ADone d False else ALoad d) (hs h)"
    using ex by (auto split: if_splits)
  then show ?thesis
    using ok pm d tl by (auto simp: trial_ok_def at_rest_def)
qed

lemma trial_flush:
  assumes ok: "trial_ok P h" and ex: "sexec (Flush t) (hs h) = Some s" and pm: "permitted (Flush t) h"
  shows "trial_ok P ((trial_next (Flush t) h)\<lparr>hs := s\<rparr>)"
proof -
  have "s = set_spc 0 (FLock False) (hs h)" "t = 0" using ex pm by (auto split: if_splits)
  moreover have "at_rest (spcs (hs h) u)" for u
    using ok pm by (auto simp: trial_ok_def list_all_iff)
  ultimately show ?thesis
    using ok pm by (auto simp: trial_ok_def flush_phase_def)
qed

lemma trial_move:
  assumes ok: "trial_ok P h" and ex: "sexec a (hs h) = Some s" and pm: "permitted a h"
    and t: "actor a = Some t" and a: "\<And>d. a \<noteq> Append t d" "a \<noteq> Flush t"
  shows "trial_ok P (h\<lparr>hs := s\<rparr>)"
proof -
  have nd: "a \<noteq> Destroy t" using pm by auto
  note mv = moving_thread [OF ex t a nd]
  obtain p where p: "spcs s = (spcs (hs h))(t := p)" "flow (length (acks (hs h))) (spcs (hs h) t) p"
      "acks s = acks (hs h) @ acknowledged t (spcs (hs h) t) p"
    using client_step [OF ex t] by blast
  have st: "at_rest (spcs (hs h) t) \<or> carried (spcs (hs h) t) \<noteq> None \<or> flush_phase (length (acks (hs h))) (spcs (hs h) t)"
    using ok by (cases "t = 0") (auto simp: trial_ok_def split: if_splits)
  then have "spcs (hs h) t \<noteq> DtorLock" "spcs (hs h) t \<noteq> DtorEnd"
    by (auto simp: at_rest_def flush_phase_def)
  then have "a \<noteq> DestroyLock t" "a \<noteq> DestroyEnd t" using ex by (auto split: if_splits)
  note keep = client_keeps [OF ex t this]
  show ?thesis
  proof (cases "flushing h")
    case True
    then have t0: "t = 0" and ph: "flush_phase (length (acks (hs h))) (spcs (hs h) 0)"
      using ok mv by (auto simp: trial_ok_def)
    have "acks s = acks (hs h)" using p(3) flush_phase_carried [OF ph] t0 by (simp add: acknowledged_flush)
    moreover have "flush_phase (length (acks (hs h))) p \<and> carried p = None"
      using flow_flush p(2) ph mv t0 by blast
    ultimately show ?thesis
      using ok True keep p(1) t0 by (auto simp: trial_ok_def)
  next
    case False
    then obtain d where c: "t \<in> set (crew h)" "carried (spcs (hs h) t) = Some d" "d \<in> P"
      using ok mv by (auto simp: trial_ok_def)
    have "snd ` set (acks (hs h)) \<subseteq> P" using ok by (simp add: trial_ok_def)
    moreover have "snd x = d" if "x \<in> set (acknowledged t (spcs (hs h) t) p)" for x
      using acknowledged_carried [OF that] c(2) by simp
    ultimately have "snd ` set (acks s) \<subseteq> P" using p(3) c(3) by auto
    then show ?thesis
      using ok False keep p(1) c flow_carried [OF p(2) c(2)] by (auto simp: trial_ok_def)
  qed
qed

lemma trial_strand:
  assumes ok: "trial_ok P h" and ex: "sexec a (hs h) = Some s" and pm: "permitted a h" and t: "actor a = None"
  shows "trial_ok P (h\<lparr>hs := s\<rparr>)"
proof -
  have "a \<noteq> PoolShutdown" using pm by auto
  note keep = strand_keeps [OF ex t this]
  have "b" if "a = DrainFrame b" for b using pm that by simp
  from keep [OF this] ok show ?thesis by (auto simp: trial_ok_def split: if_splits)
qed

lemma trial_step:
  assumes "trial_ok P h" and "trial_exec sexec a h = Some h'"
  shows "trial_ok P h'"
proof -
  obtain s where s: "sexec a (hs h) = Some s" "permitted a h" "h' = (trial_next a h)\<lparr>hs := s\<rparr>"
    using assms(2) by (auto simp: trial_exec_def split: if_splits)
  consider (call) t d where "a = Append t d" | (flush) t where "a = Flush t"
    | (move) t where "actor a = Some t" "\<And>d. a \<noteq> Append t d" "a \<noteq> Flush t" "trial_next a h = h"
    | (strand) "actor a = None" "trial_next a h = h"
    by (cases a) auto
  then show ?thesis
  proof cases
    case call
    with assms(1) s trial_call show ?thesis by blast
  next
    case flush
    with assms(1) s trial_flush show ?thesis by blast
  next
    case move
    from trial_move [OF assms(1) s(1,2) move(1,2,3)] s(3) move(4) show ?thesis by simp
  next
    case strand
    from trial_strand [OF assms(1) s(1,2) strand(1)] s(3) strand(2) show ?thesis by simp
  qed
qed

text \<open>A trial is a run of the store.\<close>

lemma trial_run:
  assumes "run_acts (trial_exec ex) as h = Some h'"
  shows "run_acts ex as (hs h) = Some (hs h')"
  using assms
proof (induction as arbitrary: h)
  case (Cons a as)
  then obtain h1 where h1: "trial_exec ex a h = Some h1" "run_acts (trial_exec ex) as h1 = Some h'"
    by (auto split: option.splits)
  then have "ex a (hs h) = Some (hs h1)" by (auto simp: trial_exec_def split: if_splits)
  with Cons.IH [OF h1(2)] show ?case by simp
qed simp

lemma trial_runs_ok:
  assumes "run_acts (trial_exec ex) as h = Some h'" and "trial_ok P h"
    and ex: "\<And>a s s'. ex a s = Some s' \<Longrightarrow> sexec a s = Some s'"
  shows "trial_ok P h'"
  using assms(1,2)
proof (induction as arbitrary: h)
  case (Cons a as)
  then obtain h1 where h1: "trial_exec ex a h = Some h1" "run_acts (trial_exec ex) as h1 = Some h'"
    by (auto split: option.splits)
  then have "trial_exec sexec a h = Some h1" using ex by (auto simp: trial_exec_def split: if_splits)
  from Cons.IH [OF h1(2) trial_step [OF Cons.prems(2) this]] show ?case .
qed simp

lemma started_more: "started s \<Longrightarrow> persisted_bytes s = 0 \<and> \<not> stopped s"
  by (auto simp: started_def MmapStore_def Let_def split: if_splits sum.splits)

lemma trial_start_ok:
  assumes "started s0" and "\<forall>t\<in>set ts. set (ds t) \<subseteq> P"
  shows "trial_ok P (trial_start s0 ds ts)"
  using started_facts [OF assms(1)] started_more [OF assms(1)] assms(2)
  by (simp add: trial_ok_def trial_start_def at_rest_def)

lemma store_execD: "store_exec a s = Some s' \<Longrightarrow> sexec a s = Some s'"
  and fresh_execD: "fresh_exec a s = Some s' \<Longrightarrow> sexec a s = Some s'"
  by (auto simp: fresh_exec_def store_exec_def split: if_splits)

text \<open>
  The bookkeeping all three store tests check after their \<open>Flush\<close>: when it returns in a run without stale writes, everything that was
  acknowledged has been handed on, in order, and \<open>PersistedBytes\<close> counts it.
\<close>

lemma joined_flush_accounts:
  assumes "started s0" and "files_open s0" and "\<forall>t\<in>set ts. set (ds t) \<subseteq> P"
    and run: "run_acts (trial_exec fresh_exec) as (trial_start s0 ds ts) = Some h"
    and fin: "flushing h" "spcs (hs h) 0 = FDone n"
  shows "sent (hs h) = map snd (acks (hs h)) \<and> set (sent (hs h)) \<subseteq> P
    \<and> persisted_bytes (hs h) = sum_list (map length (sent (hs h)))"
proof -
  have ok: "trial_ok P h"
    using trial_runs_ok [OF run trial_start_ok [OF assms(1,3)] fresh_execD] .
  have "run_acts fresh_exec as s0 = Some (hs h)"
    using trial_run [OF run] by (simp add: trial_start_def)
  then have "fresh_step\<^sup>*\<^sup>* s0 (hs h)" by (rule fresh_run_steps)
  then have "fifo (hs h)" using fresh_sys.reachable_inv assms(1,2) by blast
  then have "n \<le> length (sent (hs h))" "\<exists>rest. map snd (acks (hs h)) = sent (hs h) @ rest"
    using fifo_cases(1) [of "hs h"] fifo_cases(4) [of "hs h" 0] fin(2) ok by (auto simp: mark_ok_def trial_ok_def)
  moreover have "n = length (acks (hs h))" using ok fin by (auto simp: trial_ok_def flush_phase_def)
  ultimately obtain rest where "map snd (acks (hs h)) = sent (hs h) @ rest" "length (acks (hs h)) \<le> length (sent (hs h))"
    by blast
  moreover from this have "length (acks (hs h)) = length (sent (hs h)) + length rest"
    by (metis length_append length_map)
  ultimately have "sent (hs h) = map snd (acks (hs h))" by simp
  moreover from this have "set (sent (hs h)) \<subseteq> P" using ok by (auto simp: trial_ok_def)
  ultimately show ?thesis using ok by (simp add: trial_ok_def)
qed

section \<open>One producer, one buffer\<close>

text \<open>
  When the records of a single producer fit into one buffer, its appends meet no obstacle: until the
  flush the first buffer stays the master and the strand has nothing to do.
\<close>

definition appending :: "bytes list \<Rightarrow> trial \<Rightarrow> bool" where
  "appending ps h \<longleftrightarrow>
     (let s = hs h; b = pool s ! 0 in
      crew h = [0] \<and> master s = 0 \<and> pool s \<noteq> [] \<and> holds b (map snd (acks s)) \<and> offset b = frames_size (map snd (acks s))
      \<and> \<not> sealed b \<and> frames_size ps \<le> Capacity b \<and> task s = DNone \<and> \<not> running s
      \<and> map snd (acks s) @ (case carried (spcs s 0) of None \<Rightarrow> [] | Some d \<Rightarrow> [d]) @ todo h 0 = ps
      \<and> (spcs s 0 = SIdle \<or> (\<exists>d. spcs s 0 \<in> {ADone d True, ALoad d, AWrite d 0}))
      \<and> (\<forall>t. t \<noteq> 0 \<longrightarrow> spcs s t = SIdle))"

definition smooth :: "bytes list \<Rightarrow> trial \<Rightarrow> bool" where
  "smooth ps h \<longleftrightarrow> (if flushing h then map snd (acks (hs h)) = ps else appending ps h)"

lemma appending_idle:
  assumes "appending ps h" and "sexec a (hs h) = Some s" and "permitted a h"
  shows "(\<exists>d. a = Append 0 d) \<or> a = LoadMaster 0 \<or> a = TryWrite 0 \<or> a = Flush 0"
proof -
  have idle: "task (hs h) = DNone" "\<not> running (hs h)" "crew h = [0]"
    and pc0: "spcs (hs h) 0 = SIdle \<or> (\<exists>d. spcs (hs h) 0 \<in> {ADone d True, ALoad d, AWrite d 0})"
    and pc: "\<And>t. t \<noteq> 0 \<Longrightarrow> spcs (hs h) t = SIdle"
    using assms(1) by (simp_all add: appending_def Let_def)
  show ?thesis
  proof (cases "actor a")
    case None
    with assms(2,3) idle show ?thesis by (cases a) simp_all
  next
    case (Some t)
    show ?thesis
    proof (cases "(\<exists>d. a = Append t d) \<or> a = Flush t \<or> a = Destroy t")
      case True
      with assms(3) idle(3) show ?thesis by auto
    next
      case False
      then have "\<not> at_rest (spcs (hs h) t)" using moving_thread [OF assms(2) Some] by blast
      moreover from this have t: "t = 0" using pc [of t] by (cases "t = 0") (simp_all add: at_rest_def)
      ultimately have "\<exists>d. spcs (hs h) 0 = ALoad d \<or> spcs (hs h) 0 = AWrite d 0"
        using pc0 by (auto simp: at_rest_def)
      with assms(2) Some False t show ?thesis by (cases a) (auto split: if_splits)
    qed
  qed
qed

lemma appending_step:
  assumes ap: "appending ps h" and fr: "list_all frame_ok ps" and nf: "\<not> flushing h"
    and ex: "sexec a (hs h) = Some s" and pm: "permitted a h"
  shows "smooth ps ((trial_next a h)\<lparr>hs := s\<rparr>)"
proof -
  consider (app) d where "a = Append 0 d" | (load) "a = LoadMaster 0" | (put) "a = TryWrite 0" | (flush) "a = Flush 0"
    using appending_idle [OF ap ex pm] by blast
  then show ?thesis
  proof cases
    case app
    then obtain ds where ds: "todo h 0 = d # ds" "\<not> flushing h" using pm by (auto split: list.splits)
    have "d \<noteq> []" using ap fr ds by (auto simp: appending_def Let_def frame_ok_def)
    moreover have "at_rest (spcs (hs h) 0)" using app ex by (auto split: if_splits)
    ultimately have "s = set_spc 0 (ALoad d) (hs h)" "carried (spcs (hs h) 0) = None" using app ex by auto
    then show ?thesis using ap app ds by (auto simp: smooth_def appending_def Let_def)
  next
    case load
    then obtain d where "spcs (hs h) 0 = ALoad d" "s = set_spc 0 (AWrite d (master (hs h))) (hs h)"
      using ex by (auto split: spc.splits)
    then show ?thesis
      using ap load nf by (auto simp: smooth_def appending_def Let_def)
  next
    case put
    then obtain d k where pc: "spcs (hs h) 0 = AWrite d k" using ex by (auto split: spc.splits)
    let ?b = "pool (hs h) ! 0" and ?acc = "map snd (acks (hs h))"
    have b: "holds ?b ?acc" "offset ?b = frames_size ?acc" "\<not> sealed ?b" "frames_size ps \<le> Capacity ?b" "k = 0"
        "?acc @ d # todo h 0 = ps" "pool (hs h) \<noteq> []"
      using ap pc by (auto simp: appending_def Let_def)
    then have d: "frame_ok d" "frames_size ?acc + 4 + length d \<le> Capacity ?b"
      using fr by (auto simp: list_all_iff)
    note w = Write_cases [OF b(1), of d]
    have ok: "fst (Write d ?b)" using w(1) d b(2,3) by simp
    have off: "offset (snd (Write d ?b)) = frames_size (?acc @ [d])"
      using d(1) b(2,3) by (auto simp: Write_def Let_def frame_ok_def)
    have "s = set_spc 0 (ADone d True) ((hs h)\<lparr>pool := (pool (hs h))[0 := snd (Write d ?b)], acks := acks (hs h) @ [(0, d)]\<rparr>)"
      using put ex pc ok b(5) by (auto simp: Let_def split: prod.splits)
    then show ?thesis
      using ap put nf w(2) ok off pc b by (auto simp: smooth_def appending_def Let_def)
  next
    case flush
    then have "s = set_spc 0 (FLock False) (hs h)" "todo h 0 = []" "at_rest (spcs (hs h) 0)"
      using ex pm ap by (auto simp: appending_def Let_def split: if_splits)
    then show ?thesis using ap flush by (auto simp: smooth_def appending_def Let_def)
  qed
qed

lemma flushing_acks:
  assumes ok: "trial_ok P h" and fl: "flushing h" and ex: "trial_exec sexec a h = Some h'"
  shows "flushing h' \<and> acks (hs h') = acks (hs h)"
proof -
  obtain s where s: "sexec a (hs h) = Some s" "permitted a h" "h' = (trial_next a h)\<lparr>hs := s\<rparr>"
    using ex by (auto simp: trial_exec_def split: if_splits)
  have "flushing (trial_next a h)" using fl by (cases a) simp_all
  moreover have "acks s = acks (hs h)"
  proof (cases "actor a")
    case None
    have "a \<noteq> PoolShutdown" using s(2) by auto
    moreover have "b" if "a = DrainFrame b" for b using s(2) that by simp
    ultimately show ?thesis using strand_keeps [OF s(1) None] by blast
  next
    case (Some t)
    then obtain p where p: "acks s = acks (hs h) @ acknowledged t (spcs (hs h) t) p"
      using client_step [OF s(1)] by blast
    have "at_rest (spcs (hs h) t) \<or> carried (spcs (hs h) t) = None"
      using ok fl flush_phase_carried by (cases "t = 0") (auto simp: trial_ok_def)
    with p show ?thesis by (auto simp: acknowledged_flush)
  qed
  ultimately show ?thesis using s(3) by simp
qed

lemma smooth_step:
  assumes "trial_ok P h" and "smooth ps h" and "list_all frame_ok ps" and "trial_exec sexec a h = Some h'"
  shows "smooth ps h'"
proof (cases "flushing h")
  case True
  with flushing_acks [OF assms(1) True assms(4)] assms(2) show ?thesis by (simp add: smooth_def)
next
  case False
  obtain s where s: "sexec a (hs h) = Some s" "permitted a h" "h' = (trial_next a h)\<lparr>hs := s\<rparr>"
    using assms(4) by (auto simp: trial_exec_def split: if_splits)
  with False assms(2,3) appending_step [of ps h a s] show ?thesis by (simp add: smooth_def)
qed

lemma smooth_runs:
  assumes "run_acts (trial_exec store_exec) as h = Some h'" and "trial_ok P h" and "smooth ps h" and "list_all frame_ok ps"
  shows "trial_ok P h' \<and> smooth ps h'"
  using assms(1-3)
proof (induction as arbitrary: h)
  case (Cons a as)
  then obtain h1 where h1: "trial_exec store_exec a h = Some h1" "run_acts (trial_exec store_exec) as h1 = Some h'"
    by (auto split: option.splits)
  then have "trial_exec sexec a h = Some h1" using store_execD by (auto simp: trial_exec_def split: if_splits)
  with Cons.IH [OF h1(2)] trial_step [OF Cons.prems(2) this] smooth_step [OF Cons.prems(2,3) assms(4) this]
  show ?case by blast
qed simp

lemma smooth_no_refusal: "trial_ok P h \<Longrightarrow> smooth ps h \<Longrightarrow> spcs (hs h) 0 \<noteq> ADone d False"
  by (auto simp: smooth_def appending_def trial_ok_def flush_phase_def Let_def split: if_splits)

lemma smooth_start:
  assumes st: "MmapStore c pg True True dsk = Inr s0" and z: "\<forall>k. \<exists>z. dsk k = Inr z \<and> list_all (\<lambda>x. x = 0) z"
    and fit: "frames_size ps \<le> RoundUpToPage pg (buffer_bytes (normalise c))"
  shows "started s0 \<and> files_open s0 \<and> smooth ps (trial_start s0 (\<lambda>_. ps) [0])"
proof -
  obtain bs where bs: "prealloc dsk (RoundUpToPage pg (buffer_bytes (normalise c))) 0 (min_buffers (normalise c)) = Inr bs"
    and s0: "disk s0 = dsk" "pool s0 = bs" "master s0 = 0" "task s0 = DNone" "\<not> running s0" "acks s0 = []" "spcs s0 = (\<lambda>_. SIdle)"
    using st by (auto simp: MmapStore_def Let_def split: sum.splits)
  have fz: "files_zero s0" using z by (auto simp: files_zero_def s0) (metis Inr_inject)
  then have std: "started s0" unfolding started_def using st by blast
  obtain n where "min_buffers (normalise c) = Suc n" using normalise_bounds [of c] by (cases "min_buffers (normalise c)") auto
  then obtain y bs' where y: "dsk 0 = Inr y" "bs = MmapBuffer (RoundUpToPage pg (buffer_bytes (normalise c))) y # bs'"
    using bs by (auto split: sum.splits)
  have "list_all (\<lambda>x. x = 0) y" using fz y(1) by (auto simp: files_zero_def s0)
  then have "holds (hd bs) []" using holds_new y(2) by simp
  then show ?thesis
    using std z fit y by (auto simp: smooth_def appending_def trial_start_def s0 files_open_def MmapBuffer_def Capacity_def)
qed

section \<open>A schedule to the end\<close>

definition stocked :: "bytes list \<Rightarrow> nat \<Rightarrow> trial \<Rightarrow> bool" where
  "stocked acc cap h \<longleftrightarrow>
     (let s = hs h; b = pool s ! 0 in
      master s = 0 \<and> pool s \<noteq> [] \<and> holds b acc \<and> offset b = frames_size acc \<and> \<not> sealed b \<and> Capacity b = cap
      \<and> (\<forall>t. at_rest (spcs s t)) \<and> free s \<noteq> [] \<and> \<not> flushing h \<and> holder s = None
      \<and> \<not> stopped s \<and> \<not> destroyed s \<and> \<not> pool_stopped s)"

lemma append_runs:
  assumes f: "stocked acc cap h" and t: "t \<in> set (crew h)" and td: "todo h t = d # ds"
    and d: "frame_ok d" and room: "frames_size (acc @ [d]) \<le> cap"
  shows "\<exists>h'. run_acts (trial_exec fresh_exec) [Append t d, LoadMaster t, TryWrite t] h = Some h'
    \<and> stocked (acc @ [d]) cap h' \<and> crew h' = crew h \<and> todo h' = (todo h)(t := ds)"
proof -
  let ?b = "pool (hs h) ! 0"
  have r: "at_rest (spcs (hs h) t)" "\<not> flushing h" "\<not> destroyed (hs h)" "master (hs h) = 0" "pool (hs h) \<noteq> []"
    and b: "holds ?b acc" "offset ?b = frames_size acc" "\<not> sealed ?b" "Capacity ?b = cap"
    using f by (simp_all add: stocked_def Let_def)
  have "d \<noteq> []" using d by (auto simp: frame_ok_def)
  define h1 where "h1 = h\<lparr>hs := set_spc t (ALoad d) (hs h), todo := (todo h)(t := ds)\<rparr>"
  have h1: "trial_exec fresh_exec (Append t d) h = Some h1"
    using r t td \<open>d \<noteq> []\<close> by (simp add: trial_exec_def fresh_exec_def stale_def store_exec_def h1_def)
  define h2 where "h2 = h1\<lparr>hs := set_spc t (AWrite d 0) (hs h1)\<rparr>"
  have h2: "trial_exec fresh_exec (LoadMaster t) h1 = Some h2"
    using r by (simp add: trial_exec_def fresh_exec_def stale_def store_exec_def h1_def h2_def)
  have ok: "fst (Write d ?b)" using Write_cases(1) [OF b(1), of d] b room d by simp
  have off: "offset (snd (Write d ?b)) = frames_size (acc @ [d])"
    using d b room by (auto simp: Write_def Let_def frame_ok_def)
  define h3 where "h3 = h2\<lparr>hs := set_spc t (ADone d True)
    ((hs h2)\<lparr>pool := (pool (hs h2))[0 := snd (Write d ?b)], acks := acks (hs h2) @ [(t, d)]\<rparr>)\<rparr>"
  have h3: "trial_exec fresh_exec (TryWrite t) h2 = Some h3"
    using r ok by (auto simp: trial_exec_def fresh_exec_def stale_def store_exec_def h1_def h2_def h3_def Let_def split: prod.splits)
  have "stocked (acc @ [d]) cap h3"
    using f Write_cases(2) [OF b(1), of d] ok off b
    by (simp add: stocked_def Let_def h1_def h2_def h3_def at_rest_def)
  moreover have "crew h3 = crew h \<and> todo h3 = (todo h)(t := ds)" by (simp add: h1_def h2_def h3_def)
  ultimately show ?thesis using h1 h2 h3 by simp
qed

lemma appends_run:
  assumes "stocked acc cap h" and "t \<in> set (crew h)" and "list_all frame_ok (todo h t)"
    and "frames_size (acc @ todo h t) \<le> cap"
  shows "\<exists>as h'. run_acts (trial_exec fresh_exec) as h = Some h' \<and> stocked (acc @ todo h t) cap h' \<and> crew h' = crew h
    \<and> todo h' = (todo h)(t := [])"
  using assms
proof (induction "todo h t" arbitrary: h acc)
  case Nil
  then show ?case by (intro exI [of _ "[]"] exI [of _ h]) (simp add: fun_upd_idem)
next
  case (Cons d ds)
  have td: "todo h t = d # ds" using Cons.hyps(2) ..
  then have "frame_ok d" "frames_size (acc @ [d]) \<le> cap" using Cons.prems(3,4) by simp_all
  from append_runs [OF Cons.prems(1,2) td this] obtain h1 where
    h1: "run_acts (trial_exec fresh_exec) [Append t d, LoadMaster t, TryWrite t] h = Some h1"
      "stocked (acc @ [d]) cap h1" "crew h1 = crew h" "todo h1 = (todo h)(t := ds)" by blast
  then have td1: "ds = todo h1 t" by simp
  have "t \<in> set (crew h1)" "list_all frame_ok (todo h1 t)" "frames_size ((acc @ [d]) @ todo h1 t) \<le> cap"
    using Cons.prems(2-4) h1(3) td td1 [symmetric] by simp_all
  from Cons.hyps(1) [OF td1 h1(2) this] obtain as h' where
    as: "run_acts (trial_exec fresh_exec) as h1 = Some h'" "stocked ((acc @ [d]) @ todo h1 t) cap h'"
      "crew h' = crew h1" "todo h' = (todo h1)(t := [])" by blast
  have "run_acts (trial_exec fresh_exec) ([Append t d, LoadMaster t, TryWrite t] @ as) h = Some h'"
    using h1(1) as(1) by (simp only: run_acts_append, simp)
  moreover have "stocked (acc @ todo h t) cap h' \<and> crew h' = crew h \<and> todo h' = (todo h)(t := [])"
    using as(2-4) h1(3,4) td by simp
  ultimately show ?case by blast
qed

text \<open>All threads of the crew, one after the other.\<close>

lemma crew_appends:
  assumes "stocked acc cap h" and "distinct ts" and "set ts \<subseteq> set (crew h)" and "\<forall>t\<in>set ts. list_all frame_ok (todo h t)"
    and "frames_size (acc @ concat (map (todo h) ts)) \<le> cap"
  shows "\<exists>as h' acc'. run_acts (trial_exec fresh_exec) as h = Some h' \<and> stocked acc' cap h' \<and> crew h' = crew h
    \<and> todo h' = (\<lambda>t. if t \<in> set ts then [] else todo h t)"
  using assms
proof (induction ts arbitrary: h acc)
  case Nil
  then show ?case by (intro exI [of _ "[]"] exI [of _ h] exI [of _ acc]) simp
next
  case (Cons t ts)
  have "t \<in> set (crew h)" "list_all frame_ok (todo h t)" "frames_size (acc @ todo h t) \<le> cap"
    using Cons.prems(3-5) by simp_all
  from appends_run [OF Cons.prems(1) this] obtain as h1 where
    h1: "run_acts (trial_exec fresh_exec) as h = Some h1" "stocked (acc @ todo h t) cap h1" "crew h1 = crew h"
      "todo h1 = (todo h)(t := [])" by blast
  have eq: "map (todo h1) ts = map (todo h) ts" using Cons.prems(2) h1(4) by simp
  have "distinct ts" "set ts \<subseteq> set (crew h1)" "\<forall>u\<in>set ts. list_all frame_ok (todo h1 u)"
      "frames_size ((acc @ todo h t) @ concat (map (todo h1) ts)) \<le> cap"
    using Cons.prems(2-5) h1(3,4) unfolding eq by simp_all
  from Cons.IH [OF h1(2) this] obtain bs h2 acc' where
    h2: "run_acts (trial_exec fresh_exec) bs h1 = Some h2" "stocked acc' cap h2" "crew h2 = crew h1"
      "todo h2 = (\<lambda>t. if t \<in> set ts then [] else todo h1 t)" by blast
  have "todo h2 = (\<lambda>u. if u \<in> set (t # ts) then [] else todo h u)" using h2(4) h1(4) by auto
  with h1 h2 show ?case
    by (intro exI [of _ "as @ bs"] exI [of _ h2] exI [of _ acc']) (simp add: run_acts_append)
qed

lemma quiet_trial: "quiet a \<Longrightarrow> permitted a h \<and> trial_next a h = h \<and> fresh_exec a s = store_exec a s"
  by (cases a) (auto simp: quiet_def fresh_exec_def stale_def)

lemma quiet_strand_run:
  "run_acts store_exec as (hs h) = Some s \<Longrightarrow> \<forall>a\<in>set as. quiet a \<Longrightarrow>
     run_acts (trial_exec fresh_exec) as h = Some (h\<lparr>hs := s\<rparr>)"
proof (induction as arbitrary: h)
  case (Cons a as)
  then obtain s1 where s1: "store_exec a (hs h) = Some s1" "run_acts store_exec as s1 = Some s"
    by (auto split: option.splits)
  have "trial_exec fresh_exec a h = Some (h\<lparr>hs := s1\<rparr>)"
    using s1(1) quiet_trial [of a h "hs h"] Cons.prems(2) by (simp add: trial_exec_def)
  moreover have "run_acts (trial_exec fresh_exec) as (h\<lparr>hs := s1\<rparr>) = Some (h\<lparr>hs := s1\<rparr>\<lparr>hs := s\<rparr>)"
    by (rule Cons.IH) (use s1(2) Cons.prems(2) in simp_all)
  ultimately show ?case by simp
qed simp

text \<open>Once the appends are done, the flush and the strand come to an end.\<close>

lemma flush_runs:
  assumes "stocked acc cap h" and td: "\<forall>t\<in>set (crew h). todo h t = []" and inv: "sinv (hs h)"
  shows "\<exists>as h'. run_acts (trial_exec fresh_exec) as h = Some h' \<and> flushing h' \<and> (\<exists>n. spcs (hs h') 0 = FDone n)"
proof -
  let ?n = "length (acks (hs h))"
  have r: "at_rest (spcs (hs h) 0)" "free (hs h) \<noteq> []" "\<not> flushing h" "holder (hs h) = None" "\<not> stopped (hs h)"
      "\<not> destroyed (hs h)" "\<not> pool_stopped (hs h)" "\<And>t. at_rest (spcs (hs h) t)"
    using assms(1) by (simp_all add: stocked_def Let_def)
  obtain b bs where fr: "free (hs h) = b # bs" using r(2) by (cases "free (hs h)") auto
  define h1 where "h1 = h\<lparr>hs := set_spc 0 (FLock False) (hs h), flushing := True\<rparr>"
  have h1: "trial_exec fresh_exec (Flush 0) h = Some h1"
    using r td by (simp add: trial_exec_def fresh_exec_def stale_def store_exec_def h1_def list_all_iff)
  define s2 where "s2 = (if 0 < Used (pool (hs h) ! master (hs h))
    then set_spc 0 (FWait False ?n) (SwapMasterLocked 0 b ((hs h1)\<lparr>free := bs\<rparr>))
    else set_spc 0 (FWait False ?n) (hs h1))"
  have s2: "store_exec (FlushLock 0) (hs h1) = Some s2"
    using r fr by (simp add: store_exec_def h1_def s2_def locked_def AcquireFreeBufferLocked_def swap_flush_def posts_inline_def
        set_spc_def Let_def)
  have pc2: "spcs s2 0 = FWait False ?n" "\<not> destroyed s2" "holder s2 = None"
    using r by (simp_all add: s2_def h1_def SwapMasterLocked_def posts_inline_def)
  have "sexec (Flush 0) (hs h) = Some (hs h1)" using r(1) by (simp add: h1_def)
  then have "sinv (hs h1)" using sinv_step inv by blast
  then have "sinv s2" using sinv_step [OF store_execD [OF s2]] by blast
  then have "calm s2 s2" using pc2 by (simp add: calm_def)
  from strand_finishes [OF this] obtain as s3 where
    as: "\<forall>a\<in>set as. quiet a" "run_acts store_exec as s2 = Some s3" "calm s2 s3" "work s3 = 0" by blast
  then have "queue s3 = []" "task s3 = DNone"
    by (auto simp: work_def stage_work_def split: drain.splits)
  with as(3) have "in_flight s3 = 0" by (simp add: calm_def sinv_def pool_ok_def counted_def)
  then have s4: "store_exec (FlushReturn 0) s3 = Some (flush_exit 0 False ?n s3)"
    using as(3) pc2(1) by (simp add: calm_def store_exec_def locked_def)
  define h2 where "h2 = h1\<lparr>hs := s2\<rparr>"
  have h2: "trial_exec fresh_exec (FlushLock 0) h1 = Some h2" using s2 by (simp add: trial_exec_def fresh_exec_def stale_def h2_def)
  have h3: "run_acts (trial_exec fresh_exec) as h2 = Some (h2\<lparr>hs := s3\<rparr>)"
    by (rule quiet_strand_run) (use as(1,2) in \<open>simp_all add: h2_def\<close>)
  have s4': "trial_exec fresh_exec (FlushReturn 0) (h2\<lparr>hs := s3\<rparr>) = Some (h2\<lparr>hs := flush_exit 0 False ?n s3\<rparr>)"
    using s4 by (simp add: trial_exec_def fresh_exec_def stale_def)
  have "run_acts (trial_exec fresh_exec) ([Flush 0, FlushLock 0] @ as @ [FlushReturn 0]) h
      = Some (h2\<lparr>hs := flush_exit 0 False ?n s3\<rparr>)"
    using h1 h2 h3 s4' by (simp add: run_acts_append)
  moreover have "flushing (h2\<lparr>hs := flush_exit 0 False ?n s3\<rparr>)" by (simp add: h2_def h1_def)
  moreover have "spcs (flush_exit 0 False ?n s3) 0 = FDone ?n" by (simp add: flush_exit_def)
  ultimately show ?thesis by (metis trial.select_convs(1) trial.surjective trial.update_convs(1))
qed

lemma trial_inv:
  assumes "run_acts (trial_exec fresh_exec) as h = Some h'" and "sinv (hs h)"
  shows "sinv (hs h')"
  using trial_run [OF assms(1)] assms(2)
proof (induction as arbitrary: h)
  case (Cons a as)
  then obtain s1 where s1: "fresh_exec a (hs h) = Some s1" "run_acts fresh_exec as s1 = Some (hs h')"
    by (auto split: option.splits)
  from Cons.IH [of "h\<lparr>hs := s1\<rparr>"] s1 sinv_step [OF fresh_execD [OF s1(1)] Cons.prems(2)] show ?case by simp
qed simp

lemma start_zero:
  assumes "MmapStore c pg True True dsk = Inr s0" and "\<forall>k. \<exists>z. dsk k = Inr z \<and> list_all (\<lambda>x. x = 0) z"
  shows "started s0 \<and> files_open s0"
proof -
  have d: "disk s0 = dsk" using assms(1) by (auto simp: MmapStore_def Let_def split: sum.splits)
  have "files_zero s0" using assms(2) by (auto simp: files_zero_def d) (metis Inr_inject)
  then have "started s0" unfolding started_def using assms(1) by blast
  moreover have "files_open s0" using assms(2) by (auto simp: files_open_def d)
  ultimately show ?thesis ..
qed

lemma trial_completes:
  assumes st: "MmapStore c pg True True dsk = Inr s0" and z: "\<forall>k. \<exists>z. dsk k = Inr z \<and> list_all (\<lambda>x. x = 0) z"
    and two: "min_buffers c = 2" and ts: "distinct ts" and fr: "\<forall>t\<in>set ts. list_all frame_ok (ds t)"
    and fit: "frames_size (concat (map ds ts)) \<le> RoundUpToPage pg (buffer_bytes (normalise c))"
  shows "\<exists>as h n. run_acts (trial_exec fresh_exec) as (trial_start s0 ds ts) = Some h \<and> flushing h \<and> spcs (hs h) 0 = FDone n"
proof -
  let ?h = "trial_start s0 ds ts" and ?cap = "RoundUpToPage pg (buffer_bytes (normalise c))"
  have std: "started s0" using start_zero [OF st z] ..
  have m: "min_buffers (normalise c) = 2" using two by (simp add: normalise_def Let_def)
  obtain bs where bs: "prealloc dsk ?cap 0 2 = Inr bs"
    and s0: "disk s0 = dsk" "pool s0 = bs" "master s0 = 0" "free s0 = [1..<2]" "holder s0 = None" "spcs s0 = (\<lambda>_. SIdle)"
      "\<not> pool_stopped s0"
    using st by (auto simp: MmapStore_def Let_def m split: sum.splits)
  obtain y bs' where y: "dsk 0 = Inr y" "bs = MmapBuffer ?cap y # bs'"
    using bs by (auto simp: numeral_2_eq_2 split: sum.splits)
  have "list_all (\<lambda>x. x = 0) y" using z y(1) by (metis Inr_inject)
  then have "holds (hd bs) []" using holds_new y(2) by simp
  then have "stocked [] ?cap ?h"
    using y started_more [OF std] started_facts [OF std]
    by (simp add: stocked_def Let_def trial_start_def s0 MmapBuffer_def Capacity_def at_rest_def)
  moreover have "frames_size ([] @ concat (map (todo ?h) ts)) \<le> ?cap" using fit by (simp add: trial_start_def)
  ultimately obtain as h acc where
    a: "run_acts (trial_exec fresh_exec) as ?h = Some h" "stocked acc ?cap h" "crew h = crew ?h"
      "todo h = (\<lambda>t. if t \<in> set ts then [] else todo ?h t)"
    using crew_appends [of "[]" ?cap ?h ts] ts fr by (auto simp: trial_start_def)
  have "sinv (hs h)"
    by (rule trial_inv [OF a(1)]) (use started_facts [OF std] in \<open>simp add: trial_start_def\<close>)
  moreover have "\<forall>t\<in>set (crew h). todo h t = []" using a(3,4) by (simp add: trial_start_def)
  ultimately obtain bs h' where
    "run_acts (trial_exec fresh_exec) bs h = Some h'" "flushing h'" "\<exists>n. spcs (hs h') 0 = FDone n"
    using flush_runs [OF a(2)] by blast
  with a(1) show ?thesis by (intro exI [of _ "as @ bs"] exI [of _ h']) (simp add: run_acts_append)
qed

section \<open>The tests\<close>

definition PersistedBytes :: "store \<Rightarrow> nat" where
  "PersistedBytes s = persisted_bytes s"

definition PoolSize :: "store \<Rightarrow> nat" where
  "PoolSize s = length (pool s)"

definition happy_cfg :: "string \<Rightarrow> config" where
  "happy_cfg d = \<lparr>dir = d, buffer_bytes = 64 * 1024, min_buffers = 2, max_buffers = 4\<rparr>"

definition happy_payload :: "nat \<Rightarrow> bytes" where
  "happy_payload i = of_string (''payload-'' @ pad_dec 4 (int i))"

definition happy_trial :: "nat \<Rightarrow> store \<Rightarrow> trial" where
  "happy_trial N s = trial_start s (\<lambda>_. map happy_payload [0..<N]) [0]"

definition happy_checks :: "nat \<Rightarrow> trial \<Rightarrow> unit checked" where
  "happy_checks N h =
     bindc (require (PersistedBytes (hs h) = sum_list (map (length \<circ> happy_payload) [0..<N])) ''persisted bytes mismatch'') (\<lambda>_.
     bindc (require (length (sent (hs h)) = N) ''persisted frame count mismatch'') (\<lambda>_.
     require (list_all (\<lambda>i. sent (hs h) ! i = happy_payload i) [0..<N]) ''frame order mismatch''))"

text \<open>\<open>ok_count\<close> counts the calls of \<open>Append\<close> that returned true, \<open>bytes_seen\<close> and \<open>frames_seen\<close> those of \<open>on_persist\<close>.\<close>

definition scaling_cfg :: "string \<Rightarrow> config" where
  "scaling_cfg d = \<lparr>dir = d, buffer_bytes = 4 * 1024, min_buffers = 2, max_buffers = 4\<rparr>"

definition scaling_trial :: "nat \<Rightarrow> store \<Rightarrow> trial" where
  "scaling_trial per_thread s = trial_start s (\<lambda>_. replicate per_thread (replicate 64 0x78)) [1..<17]"

definition totals_checks :: "bytes \<Rightarrow> string \<Rightarrow> string \<Rightarrow> trial \<Rightarrow> unit checked" where
  "totals_checks payload bytes_msg frames_msg h =
     bindc (require (sum_list (map length (sent (hs h))) = length (acks (hs h)) * length payload) bytes_msg) (\<lambda>_.
     require (length (sent (hs h)) = length (acks (hs h))) frames_msg)"

definition scaling_checks :: "trial \<Rightarrow> unit checked" where
  "scaling_checks h =
     totals_checks (replicate 64 0x78) ''scaling: total bytes mismatch'' ''scaling: frame count mismatch'' h"

definition scaled_past_max :: "trial \<Rightarrow> unit checked" where
  "scaled_past_max h = require (PoolSize (hs h) \<le> 4) ''store scaled past max_buffers''"

definition backpressure_cfg :: "string \<Rightarrow> config" where
  "backpressure_cfg d = \<lparr>dir = d, buffer_bytes = 4 * 1024, min_buffers = 2, max_buffers = 2\<rparr>"

definition backpressure_trial :: "nat \<Rightarrow> store \<Rightarrow> trial" where
  "backpressure_trial per_thread s = trial_start s (\<lambda>_. replicate per_thread (replicate 256 0x79)) [1..<9]"

definition backpressure_checks :: "trial \<Rightarrow> unit checked" where
  "backpressure_checks h =
     totals_checks (replicate 256 0x79) ''back-pressure: total bytes mismatch'' ''back-pressure: frame count mismatch'' h"

lemma happy_payload_size:
  assumes "i < 10000"
  shows "length (happy_payload i) = 12"
proof -
  have "pad_dec 4 (int i) = fixed_digits 4 i" using assms by (intro pad_dec_fixed) simp_all
  then show ?thesis by (simp add: happy_payload_def of_string_def)
qed

lemma happy_frames:
  assumes "N \<le> 4096"
  shows "frames_size (map happy_payload [0..<N]) = 16 * N" and "list_all frame_ok (map happy_payload [0..<N])"
proof -
  have l: "length (happy_payload i) = 12" if "i < N" for i using assms that by (intro happy_payload_size) simp
  then have "map (\<lambda>d. 4 + length d) (map happy_payload [0..<N]) = replicate N 16"
    by (intro nth_equalityI) simp_all
  then show "frames_size (map happy_payload [0..<N]) = 16 * N"
    by (simp add: frames_size_def sum_list_replicate)
  show "list_all frame_ok (map happy_payload [0..<N])"
    using l by (force simp: list_all_iff frame_ok_def)
qed

lemma totals_pass:
  assumes "sent (hs h) = map snd (acks (hs h))" and "set (sent (hs h)) \<subseteq> {p}"
  shows "totals_checks p m1 m2 h = Some (Inr ())"
proof -
  have "sent (hs h) = replicate (length (acks (hs h))) p"
    using assms by (intro replicate_eqI) auto
  then show ?thesis by (simp add: totals_checks_def sum_list_replicate bindc_if)
qed

lemma only_crew_acts:
  assumes ok: "trial_ok P h" and c: "crew h = [0]" and ex: "trial_exec sexec a h = Some h'"
  shows "(actor a = None \<or> actor a = Some 0) \<and> crew h' = [0]"
proof
  obtain s where s: "sexec a (hs h) = Some s" "permitted a h" "h' = (trial_next a h)\<lparr>hs := s\<rparr>"
    using ex by (auto simp: trial_exec_def split: if_splits)
  show "crew h' = [0]" using s(3) c by (cases a) simp_all
  show "actor a = None \<or> actor a = Some 0"
  proof (cases "actor a")
    case (Some t)
    show ?thesis
    proof (cases "(\<exists>d. a = Append t d) \<or> a = Flush t \<or> a = Destroy t")
      case True
      then show ?thesis using s(2) c by auto
    next
      case False
      then have "\<not> at_rest (spcs (hs h) t)" using moving_thread [OF s(1) Some] by blast
      then have "t = 0" using ok c by (auto simp: trial_ok_def split: if_splits)
      with Some show ?thesis by simp
    qed
  qed simp
qed

lemma crew_run:
  assumes "run_acts (trial_exec store_exec) as h = Some h'" and "trial_ok P h" and "crew h = [0]"
  shows "\<forall>a\<in>set as. actor a = None \<or> actor a = Some 0"
  using assms
proof (induction as arbitrary: h)
  case (Cons a as)
  then obtain h1 where h1: "trial_exec store_exec a h = Some h1" "run_acts (trial_exec store_exec) as h1 = Some h'"
    by (auto split: option.splits)
  then have e: "trial_exec sexec a h = Some h1" using store_execD by (auto simp: trial_exec_def split: if_splits)
  from Cons.IH [OF h1(2) trial_step [OF Cons.prems(2) e]] only_crew_acts [OF Cons.prems(2,3) e]
  show ?case by simp
qed simp

lemma trial_as_fresh:
  "run_acts (trial_exec store_exec) as h = Some h' \<Longrightarrow> run_acts fresh_exec as (hs h) = Some (hs h') \<Longrightarrow>
     run_acts (trial_exec fresh_exec) as h = Some h'"
proof (induction as arbitrary: h)
  case (Cons a as)
  then obtain h1 where h1: "trial_exec store_exec a h = Some h1" "run_acts (trial_exec store_exec) as h1 = Some h'"
    by (auto split: option.splits)
  then have st: "permitted a h" "store_exec a (hs h) = Some (hs h1)" by (auto simp: trial_exec_def split: if_splits)
  have "fresh_exec a (hs h) = Some (hs h1)" using Cons.prems(2) st(2) by (auto simp: fresh_exec_def)
  with Cons h1 st show ?case by (auto simp: trial_exec_def)
qed simp

lemma happy_start:
  assumes "MmapStore (happy_cfg d) pg True True dsk = Inr s0" and "0 < pg" and "pg \<le> 2 ^ 32" and "N \<le> 4096"
    and "\<forall>k. \<exists>z. dsk k = Inr z \<and> list_all (\<lambda>x. x = 0) z"
  shows "started s0 \<and> files_open s0 \<and> smooth (map happy_payload [0..<N]) (happy_trial N s0)"
proof -
  have "64 * 1024 \<le> RoundUpToPage pg (64 * 1024)" using assms(2,3) by (intro round_up_bounds) simp_all
  then have "frames_size (map happy_payload [0..<N]) \<le> RoundUpToPage pg (buffer_bytes (normalise (happy_cfg d)))"
    using happy_frames(1) [OF assms(4)] assms(4) by (simp add: happy_cfg_def normalise_def)
  from smooth_start [OF assms(1,5) this] show ?thesis by (simp add: happy_trial_def)
qed

lemma fresh_is_store: "run_acts (trial_exec fresh_exec) as h = Some h' \<Longrightarrow> run_acts (trial_exec store_exec) as h = Some h'"
proof (induction as arbitrary: h)
  case (Cons a as)
  then obtain h1 where h1: "trial_exec fresh_exec a h = Some h1" "run_acts (trial_exec fresh_exec) as h1 = Some h'"
    by (auto split: option.splits)
  then have "trial_exec store_exec a h = Some h1" by (auto simp: trial_exec_def fresh_exec_def split: if_splits)
  with Cons.IH [OF h1(2)] show ?case by simp
qed simp

lemma happy_completes:
  assumes "MmapStore (happy_cfg d) pg True True dsk = Inr s0" and "0 < pg" and "pg \<le> 2 ^ 32" and "N \<le> 4096"
    and "\<forall>k. \<exists>z. dsk k = Inr z \<and> list_all (\<lambda>x. x = 0) z"
  shows "\<exists>as h n. run_acts (trial_exec store_exec) as (happy_trial N s0) = Some h \<and> flushing h \<and> spcs (hs h) 0 = FDone n"
proof -
  have "64 * 1024 \<le> RoundUpToPage pg (64 * 1024)" using assms(2,3) by (intro round_up_bounds) simp_all
  then have "frames_size (concat (map (\<lambda>_. map happy_payload [0..<N]) [0])) \<le> RoundUpToPage pg (buffer_bytes (normalise (happy_cfg d)))"
    using happy_frames(1) [OF assms(4)] assms(4) by (simp add: happy_cfg_def normalise_def)
  then obtain as h n where "run_acts (trial_exec fresh_exec) as (happy_trial N s0) = Some h" "flushing h" "spcs (hs h) 0 = FDone n"
    using trial_completes [OF assms(1,5), of "[0]" "\<lambda>_. map happy_payload [0..<N]"] happy_frames(2) [OF assms(4)]
    by (auto simp: happy_cfg_def happy_trial_def)
  then show ?thesis using fresh_is_store by blast
qed

text \<open>
  The happy-path test of the store passes in every schedule. For up to 4096 records (the test appends 1000) of a single thread on empty buffer files, whatever the
  page size and however the strand interleaves: no \<open>Append\<close> is ever refused, and when \<open>Flush\<close> has returned all three
  checks hold: \<open>PersistedBytes\<close> is the sum of the sizes, every record was handed on, and in order. And
  there are schedules in which \<open>Flush\<close> returns.
\<close>

theorem store_happy_passes:
  assumes "MmapStore (happy_cfg d) pg True True dsk = Inr s0" and "0 < pg" and "pg \<le> 2 ^ 32" and "N \<le> 4096"
    and "\<forall>k. \<exists>z. dsk k = Inr z \<and> list_all (\<lambda>x. x = 0) z"
  shows "(\<exists>as h n. run_acts (trial_exec store_exec) as (happy_trial N s0) = Some h \<and> flushing h \<and> spcs (hs h) 0 = FDone n)
    \<and> (\<forall>as h. run_acts (trial_exec store_exec) as (happy_trial N s0) = Some h \<longrightarrow>
         (\<forall>e. spcs (hs h) 0 \<noteq> ADone e False)
         \<and> (\<forall>n. flushing h \<and> spcs (hs h) 0 = FDone n \<longrightarrow> happy_checks N h = Some (Inr ())))"
proof (intro conjI allI impI)
  show "\<exists>as h n. run_acts (trial_exec store_exec) as (happy_trial N s0) = Some h \<and> flushing h \<and> spcs (hs h) 0 = FDone n"
    using happy_completes [OF assms] by blast
next
  fix as h assume run: "run_acts (trial_exec store_exec) as (happy_trial N s0) = Some h"
  let ?ps = "map happy_payload [0..<N]"
  note run' = run [unfolded happy_trial_def]
  have st: "started s0" "files_open s0" "smooth ?ps (trial_start s0 (\<lambda>_. ?ps) [0])"
    using happy_start [OF assms] by (simp_all add: happy_trial_def)
  have ok: "trial_ok UNIV (trial_start s0 (\<lambda>_. ?ps) [0])" by (rule trial_start_ok [OF st(1)]) simp
  have r: "trial_ok UNIV h" "smooth ?ps h"
    using smooth_runs [OF run' ok st(3) happy_frames(2) [OF assms(4)]] by blast+
  show "spcs (hs h) 0 \<noteq> ADone e False" for e using smooth_no_refusal [OF r] .
  have "\<forall>a\<in>set as. actor a = None \<or> actor a = Some 0"
    by (rule crew_run [OF run' ok]) (simp add: trial_start_def)
  then have "run_acts fresh_exec as s0 = Some (hs h)"
    using single_client_is_fresh [OF st(1)] trial_run [OF run'] by (simp add: trial_start_def)
  then have fresh: "run_acts (trial_exec fresh_exec) as (trial_start s0 (\<lambda>_. ?ps) [0]) = Some h"
    using trial_as_fresh [OF run'] by (simp add: trial_start_def)
  fix n assume fin: "flushing h \<and> spcs (hs h) 0 = FDone n"
  have "sent (hs h) = ?ps" "persisted_bytes (hs h) = sum_list (map length (sent (hs h)))"
    using joined_flush_accounts [OF st(1,2) _ fresh, of UNIV n] r(2) fin by (auto simp: smooth_def)
  then show "happy_checks N h = Some (Inr ())"
    by (simp add: happy_checks_def PersistedBytes_def bindc_if comp_def list_all_iff)
qed

lemma happy_store_exists:
  "\<exists>s0. MmapStore (happy_cfg d) pg True True (\<lambda>_. Inr []) = Inr s0"
  by (simp add: MmapStore_def happy_cfg_def normalise_def numeral_2_eq_2)

theorem store_happy_passes_witness:
  "\<exists>s0 as h n. MmapStore (happy_cfg ''store_happy'') 4096 True True (\<lambda>_. Inr []) = Inr s0
     \<and> run_acts (trial_exec store_exec) as (happy_trial 1000 s0) = Some h \<and> flushing h \<and> spcs (hs h) 0 = FDone n
     \<and> happy_checks 1000 h = Some (Inr ())"
proof -
  obtain s0 where s0: "MmapStore (happy_cfg ''store_happy'') 4096 True True (\<lambda>_. Inr []) = Inr s0"
    using happy_store_exists by blast
  have "(\<exists>as h n. run_acts (trial_exec store_exec) as (happy_trial 1000 s0) = Some h \<and> flushing h \<and> spcs (hs h) 0 = FDone n)
    \<and> (\<forall>as h. run_acts (trial_exec store_exec) as (happy_trial 1000 s0) = Some h \<longrightarrow>
         (\<forall>e. spcs (hs h) 0 \<noteq> ADone e False)
         \<and> (\<forall>n. flushing h \<and> spcs (hs h) 0 = FDone n \<longrightarrow> happy_checks 1000 h = Some (Inr ())))"
    by (rule store_happy_passes [OF s0]) simp_all
  with s0 show ?thesis by blast
qed

section \<open>The totals of the scaling and the back-pressure test\<close>

lemma started_pool_bound:
  assumes "started s0" and "store_step\<^sup>*\<^sup>* s0 s"
  shows "length (pool s) \<le> max_buffers (cfg s)"
  using store_sys.reachable_inv [OF assms] by (simp add: sinv_def pool_ok_def)

lemma cfg_run: "run_acts store_exec as s = Some s' \<Longrightarrow> cfg s' = cfg s"
proof (induction as arbitrary: s)
  case (Cons a as)
  then obtain s1 where s1: "store_exec a s = Some s1" "run_acts store_exec as s1 = Some s'"
    by (auto split: option.splits)
  then show ?case using Cons.IH [OF s1(2)] cfg_step [OF store_execD [OF s1(1)]] by simp
qed simp

lemma cfg_started: "MmapStore c pg True True dsk = Inr s0 \<Longrightarrow> cfg s0 = normalise c"
  by (auto simp: MmapStore_def Let_def split: sum.splits)

text \<open>What the two tests with several producers have in common.\<close>

lemma totals_run:
  assumes st: "MmapStore c pg True True dsk = Inr s0" and z: "\<forall>k. \<exists>z. dsk k = Inr z \<and> list_all (\<lambda>x. x = 0) z"
    and run: "run_acts (trial_exec fresh_exec) as (trial_start s0 (\<lambda>_. replicate k p) ts) = Some h"
  shows "PoolSize (hs h) \<le> max_buffers (normalise c)
    \<and> (flushing h \<and> spcs (hs h) 0 = FDone n \<longrightarrow> totals_checks p m1 m2 h = Some (Inr ()))"
proof -
  note s = start_zero [OF st z, THEN conjunct1] start_zero [OF st z, THEN conjunct2]
  have r: "run_acts store_exec as s0 = Some (hs h)"
    using trial_run [OF fresh_is_store [OF run]] by (simp add: trial_start_def)
  have "length (pool (hs h)) \<le> max_buffers (cfg (hs h))"
    using started_pool_bound [OF s(1) store_run_steps [OF r]] .
  then have "PoolSize (hs h) \<le> max_buffers (normalise c)"
    using cfg_run [OF r] cfg_started [OF st] by (simp add: PoolSize_def)
  moreover have "totals_checks p m1 m2 h = Some (Inr ())" if fin: "flushing h" "spcs (hs h) 0 = FDone n"
  proof -
    have "\<forall>t\<in>set ts. set (replicate k p) \<subseteq> {p}" by auto
    from joined_flush_accounts [OF s this run fin] show ?thesis by (intro totals_pass) blast+
  qed
  ultimately show ?thesis by blast
qed

text \<open>
  The totals the scaling test (16 producers of \<open>k = 500\<close> records) and the back-pressure test (8 producers of \<open>l = 200\<close>)
  check, for any \<open>k\<close> and \<open>l\<close> and in every schedule without a stale write: the pool of the scaling test never exceeds \<open>max_buffers\<close>, and
  when the \<open>Flush\<close> after the join has returned, as many bytes and frames have reached \<open>on_persist\<close> as were acknowledged,
  whatever was refused. That the pool has grown past two buffers and that some record was refused
  depends on the schedule.
\<close>

theorem store_totals_pass:
  assumes "\<forall>k. \<exists>z. dsk k = Inr z \<and> list_all (\<lambda>x. x = 0) z"
    and "MmapStore (scaling_cfg d) pg True True dsk = Inr s1"
    and "run_acts (trial_exec fresh_exec) as (scaling_trial k s1) = Some h1"
    and "MmapStore (backpressure_cfg e) pg True True dsk = Inr s2"
    and "run_acts (trial_exec fresh_exec) bs (backpressure_trial l s2) = Some h2"
  shows "scaled_past_max h1 = Some (Inr ())
    \<and> (flushing h1 \<and> spcs (hs h1) 0 = FDone n \<longrightarrow> scaling_checks h1 = Some (Inr ()))
    \<and> PoolSize (hs h2) \<le> 2
    \<and> (flushing h2 \<and> spcs (hs h2) 0 = FDone m \<longrightarrow> backpressure_checks h2 = Some (Inr ()))"
proof -
  have b: "max_buffers (normalise (scaling_cfg d)) = 4" "max_buffers (normalise (backpressure_cfg e)) = 2"
    by (simp_all add: scaling_cfg_def backpressure_cfg_def normalise_def)
  note sc = totals_run [OF assms(2,1) assms(3) [unfolded scaling_trial_def], of n
      "''scaling: total bytes mismatch''" "''scaling: frame count mismatch''"]
  note bp = totals_run [OF assms(4,1) assms(5) [unfolded backpressure_trial_def], of m
      "''back-pressure: total bytes mismatch''" "''back-pressure: frame count mismatch''"]
  show ?thesis
    using sc bp unfolding b scaling_checks_def backpressure_checks_def scaled_past_max_def by simp
qed

lemma totals_complete:
  assumes st: "MmapStore c pg True True dsk = Inr s0" and z: "\<forall>k. \<exists>z. dsk k = Inr z \<and> list_all (\<lambda>x. x = 0) z"
    and two: "min_buffers c = 2" and ts: "distinct ts" and p: "frame_ok p"
    and pg: "0 < pg" "pg \<le> 2 ^ 32" "buffer_bytes c \<noteq> 0" "buffer_bytes c \<le> 2 ^ 32"
    and fit: "length ts * (k * (4 + length p)) \<le> buffer_bytes c"
  shows "\<exists>as h n. run_acts (trial_exec fresh_exec) as (trial_start s0 (\<lambda>_. replicate k p) ts) = Some h \<and> flushing h
    \<and> spcs (hs h) 0 = FDone n"
proof (rule trial_completes [OF st z two ts])
  show "\<forall>t\<in>set ts. list_all frame_ok (replicate k p)" using p by (simp add: list_all_iff)
  have "buffer_bytes (normalise c) = buffer_bytes c" using pg by (simp add: normalise_def Let_def)
  moreover have "buffer_bytes c \<le> RoundUpToPage pg (buffer_bytes c)" using pg by (intro round_up_bounds) simp_all
  moreover have "frames_size (concat (map (\<lambda>_. replicate k p) ts)) = length ts * (k * (4 + length p))"
    by (induction ts) (simp_all add: frames_size_def sum_list_replicate algebra_simps)
  ultimately show "frames_size (concat (map (\<lambda>_. replicate k p) ts)) \<le> RoundUpToPage pg (buffer_bytes (normalise c))"
    using fit by simp
qed

theorem store_totals_pass_witness:
  "\<exists>s1 s2 as bs h1 h2. MmapStore (scaling_cfg ''store_scaling'') 4096 True True (\<lambda>_. Inr []) = Inr s1
     \<and> MmapStore (backpressure_cfg ''store_bp'') 4096 True True (\<lambda>_. Inr []) = Inr s2
     \<and> run_acts (trial_exec fresh_exec) as (scaling_trial 3 s1) = Some h1
     \<and> run_acts (trial_exec fresh_exec) bs (backpressure_trial 1 s2) = Some h2
     \<and> scaled_past_max h1 = Some (Inr ()) \<and> scaling_checks h1 = Some (Inr ()) \<and> backpressure_checks h2 = Some (Inr ())"
proof -
  have z: "\<forall>k::nat. \<exists>z::bytes. (Inr [] :: bytes res) = Inr z \<and> list_all (\<lambda>x. x = 0) z" by simp
  obtain s1 where s1: "MmapStore (scaling_cfg ''store_scaling'') 4096 True True (\<lambda>_. Inr []) = Inr s1"
    by (simp add: MmapStore_def scaling_cfg_def normalise_def numeral_2_eq_2)
  obtain s2 where s2: "MmapStore (backpressure_cfg ''store_bp'') 4096 True True (\<lambda>_. Inr []) = Inr s2"
    by (simp add: MmapStore_def backpressure_cfg_def normalise_def numeral_2_eq_2)
  obtain as h1 n where h1: "run_acts (trial_exec fresh_exec) as (scaling_trial 3 s1) = Some h1"
      "flushing h1" "spcs (hs h1) 0 = FDone n"
    using totals_complete [OF s1 z, of "[1..<17]" "replicate 64 0x78" 3]
    by (auto simp: scaling_trial_def scaling_cfg_def frame_ok_def)
  obtain bs h2 m where h2: "run_acts (trial_exec fresh_exec) bs (backpressure_trial 1 s2) = Some h2"
      "flushing h2" "spcs (hs h2) 0 = FDone m"
    using totals_complete [OF s2 z, of "[1..<9]" "replicate 256 0x79" 1]
    by (auto simp: backpressure_trial_def backpressure_cfg_def frame_ok_def)
  from store_totals_pass [OF z s1 h1(1) s2 h2(1), of n m] h1 h2 s1 s2 show ?thesis by blast
qed

section \<open>The sequential tests\<close>

text \<open>
  \<open>ifs\<close> is what the operating system lets a reader of the file see of the shared mapping, \<open>None\<close> when the file cannot
  be opened; \<open>old\<close> the bytes the file had before \<open>Create\<close> (none in the test's fresh directory).
\<close>

definition kRegionPayload :: bytes where
  "kRegionPayload = of_string ''hello-mmap-region-0123456789''"

definition test_region_basic ::
    "nat \<Rightarrow> string \<Rightarrow> bytes \<Rightarrow> replies \<Rightarrow> int \<Rightarrow> nat \<Rightarrow> (bytes \<Rightarrow> bytes option) \<Rightarrow> os \<Rightarrow> unit checked \<times> os" where
  "test_region_basic pg path old rp rc err ifs w =
     (case Create pg path 4096 rp w of
        (Inl e, w1) \<Rightarrow> (Some (Inl (Thrown e)), w1)
      | (Inr r, w1) \<Rightarrow>
          (let plen = length kRegionPayload;
               mapped = mem_write (take (rg_size r) (old @ replicate (rg_size r - length old) 0)) 0 kRegionPayload
           in (bindc (require (4096 \<le> rg_size r) ''region size < requested'') (\<lambda>_.
               bindc (require (rg_data r \<noteq> None) ''region data is null'') (\<lambda>_.
               bindc (returned (snd (Sync pg r 0 plen rc err))) (\<lambda>_.
               case ifs mapped of
                 None \<Rightarrow> Some (Inl (Exit ''reopen region file failed''))
               | Some c \<Rightarrow>
                   bindc (require (length (take plen c) = plen) ''short read on region file'') (\<lambda>_.
                   require (take plen c = kRegionPayload) ''region content mismatch'')))),
               snd (Close r w1))))"

fun write_small :: "bytes list \<Rightarrow> buffer \<Rightarrow> bytes list \<Rightarrow> (buffer \<times> bytes list) checked" where
  "write_small [] b expected = Some (Inr (b, expected))"
| "write_small (p # ps) b expected =
     (let (ok, b1) = Write p b
      in if p = [] then bindc (require (\<not> ok) ''empty Write should be rejected'') (\<lambda>_. write_small ps b1 expected)
         else bindc (require ok ''small Write rejected unexpectedly'') (\<lambda>_. write_small ps b1 (expected @ [p])))"

definition framing_payloads :: "bytes list" where
  "framing_payloads = [replicate 10 0x61, replicate 20 0x62, [], replicate 50 0x63, replicate 1 0x64, replicate 100 0x65]"

text \<open>\<open>dsk\<close> is what opening \<open>b.mmap\<close> answers: an exception of the constructor, or the bytes of the file.\<close>

definition test_buffer_framing :: "nat \<Rightarrow> bytes res \<Rightarrow> unit checked" where
  "test_buffer_framing pg dsk =
     bindc (returned dsk) (\<lambda>z.
     bindc (write_small framing_payloads (MmapBuffer (RoundUpToPage pg 1024) z) []) (\<lambda>(buf, expected).
     let (ok, buf) = Write (replicate 4000 0x7A) buf in
     bindc (require (\<not> ok) ''oversize Write should be rejected'') (\<lambda>_.
     let got = ForEachFrame (Seal buf) in
     bindc (require (length got = length expected) ''frame count mismatch'') (\<lambda>_.
     require (list_all (\<lambda>i. got ! i = expected ! i) [0..<length got]) ''frame content mismatch''))))"

lemma Write_keeps: "sealed (snd (Write d b)) = sealed b"
  by (simp add: Write_def Let_def)

lemma write_small_pass:
  assumes "holds b acc" and "offset b = frames_size acc" and "\<not> sealed b" and "\<forall>p\<in>set ps. length p < 2 ^ 32"
    and "frames_size (acc @ filter (\<lambda>p. p \<noteq> []) ps) \<le> Capacity b"
  shows "\<exists>b'. write_small ps b acc = Some (Inr (b', acc @ filter (\<lambda>p. p \<noteq> []) ps))
    \<and> holds b' (acc @ filter (\<lambda>p. p \<noteq> []) ps) \<and> offset b' = frames_size (acc @ filter (\<lambda>p. p \<noteq> []) ps)
    \<and> \<not> sealed b' \<and> Capacity b' = Capacity b"
  using assms
proof (induction ps arbitrary: b acc)
  case (Cons p ps)
  show ?case
  proof (cases "p = []")
    case True
    then have "Write p b = (False, b)" by (intro Write_invalid) (simp add: frame_ok_def)
    then show ?thesis using Cons.IH [OF Cons.prems(1-3)] Cons.prems(4,5) True by simp
  next
    case False
    then have p: "frame_ok p" using Cons.prems(4) by (simp add: frame_ok_def)
    have room: "frames_size acc + 4 + length p \<le> Capacity b" using Cons.prems(5) False by simp
    have ok: "fst (Write p b)" "holds (snd (Write p b)) (acc @ [p])"
      using Write_cases [OF Cons.prems(1), of p] p room Cons.prems(2,3) by simp_all
    have "offset (snd (Write p b)) = frames_size (acc @ [p])"
      using p room Cons.prems(2,3) by (auto simp: Write_def Let_def frame_ok_def)
    moreover have "\<not> sealed (snd (Write p b))" "Capacity (snd (Write p b)) = Capacity b"
      using Cons.prems(3) by (simp_all add: Write_keeps)
    ultimately show ?thesis
      using Cons.IH [OF ok(2)] Cons.prems(4,5) ok(1) False by (auto simp: case_prod_beta Let_def)
  qed
qed simp

lemma framing_expected: "filter (\<lambda>p. p \<noteq> []) framing_payloads
    = [replicate 10 0x61, replicate 20 0x62, replicate 50 0x63, replicate 1 0x64, replicate 100 0x65]"
  "frames_size (filter (\<lambda>p. p \<noteq> []) framing_payloads) = 201" "\<forall>p\<in>set framing_payloads. length p < 2 ^ 32"
  by (simp_all add: framing_payloads_def frames_size_def)

text \<open>
  The two sequential tests. The region test passes whenever the system calls succeed and a reader of the file sees what was
  copied into the shared mapping, and it leaves no descriptor and no mapping behind. The framing test passes exactly where the
  capacity, 1024 rounded up to a page, is below the 4205 bytes that its small frames and the oversize one take together: on
  4 KiB pages it does, on 16 KiB pages the oversize record fits and the test stops.
\<close>

theorem region_and_framing_tests:
  assumes "0 < pg" and "pg \<le> 2 ^ 32" and "0 \<le> rp_open rp" and "rp_ftruncate rp = 0" and "rp_mmap rp \<noteq> None" and "rc = 0"
    and "\<And>m. ifs m = Some m" and "list_all (\<lambda>x. x = 0) z"
  shows "test_region_basic pg path old rp rc err ifs w = (Some (Inr ()), w)
    \<and> test_buffer_framing pg (Inr z)
        = Some (if RoundUpToPage pg 1024 < 4205 then Inr () else Inl (Exit ''oversize Write should be rejected''))"
proof
  have len: "length kRegionPayload = 28" by (simp add: kRegionPayload_def of_string_def)
  obtain addr where addr: "rp_mmap rp = Some addr" using assms(5) by blast
  obtain r w1 where c: "Create pg path 4096 rp w = (Inr r, w1)" and r: "rg_data r = Some addr"
    using assms(3,4) addr by (auto simp: Create_def Let_def)
  have sz: "4096 \<le> rg_size r"
    using round_up_bounds(2) [of pg 4096] assms(1,2) Create_ok(3) [OF c] by simp
  have "snd (Close r w1) = w" using create_close [OF c] by (metis prod.collapse)
  moreover have "snd (Sync pg r 0 28 rc err) = Inr ()" using assms(6) by (simp add: Sync_def Let_def)
  moreover have "take 28 (mem_write (take (rg_size r) (old @ replicate (rg_size r - length old) 0)) 0 kRegionPayload)
      = kRegionPayload"
    using len by (simp add: mem_write_def)
  ultimately show "test_region_basic pg path old rp rc err ifs w = (Some (Inr ()), w)"
    using c r sz len assms(7) by (simp add: test_region_basic_def Let_def bindc_if)
next
  let ?cap = "RoundUpToPage pg 1024" and ?ex = "filter (\<lambda>p. p \<noteq> []) framing_payloads"
  let ?b = "MmapBuffer ?cap z"
  have "1024 \<le> ?cap" using round_up_bounds(2) [of pg 1024] assms(1,2) by simp
  moreover have cap: "Capacity ?b = ?cap" by (simp add: MmapBuffer_def Capacity_def)
  ultimately obtain b where b: "write_small framing_payloads ?b [] = Some (Inr (b, ?ex))" "holds b ?ex" "offset b = 201"
      "\<not> sealed b" "Capacity b = ?cap"
    using write_small_pass [OF holds_new [OF assms(8)], of ?cap framing_payloads] framing_expected
    by (auto simp: MmapBuffer_def)
  let ?h = "replicate 4000 0x7A :: bytes"
  have ok: "fst (Write ?h b) \<longleftrightarrow> \<not> ?cap < 4205"
    using Write_cases(1) [OF b(2), of ?h] b(3-5) by (auto simp: frame_ok_def)
  have "ForEachFrame (Seal (snd (Write ?h b))) = ?ex" if "\<not> fst (Write ?h b)"
    using Write_cases(2) [OF b(2), of ?h] that holds_walk Seal_holds by auto
  then show "test_buffer_framing pg (Inr z)
      = Some (if ?cap < 4205 then Inr () else Inl (Exit ''oversize Write should be rejected''))"
    using ok b(1)
    by (auto simp: test_buffer_framing_def bindc_if Let_def case_prod_beta list_all_iff)
qed

theorem region_and_framing_tests_witness:
  "test_region_basic 4096 ''r.bin'' [] \<lparr>rp_open = 3, rp_ftruncate = 0, rp_mmap = Some 7, rp_errno = 0\<rparr> 0 0 Some \<lparr>os_fds = [0, 1, 2], os_maps = []\<rparr>
      = (Some (Inr ()), \<lparr>os_fds = [0, 1, 2], os_maps = []\<rparr>)
    \<and> test_buffer_framing 4096 (Inr []) = Some (Inr ())
    \<and> test_buffer_framing 16384 (Inr []) = Some (Inl (Exit ''oversize Write should be rejected''))"
proof -
  have "RoundUpToPage 4096 1024 = 4096" "RoundUpToPage 16384 1024 = 16384" by (simp_all add: RoundUpToPage_def)
  then show ?thesis
    using region_and_framing_tests [where pg = 4096 and rp = "\<lparr>rp_open = 3, rp_ftruncate = 0, rp_mmap = Some 7, rp_errno = 0\<rparr>" and rc = 0 and ifs = Some and z = "[]" and path = "''r.bin''"
        and old = "[]" and err = 0 and w = "\<lparr>os_fds = [0, 1, 2], os_maps = []\<rparr>"]
      region_and_framing_tests [where pg = 16384 and rp = "\<lparr>rp_open = 3, rp_ftruncate = 0, rp_mmap = Some 7, rp_errno = 0\<rparr>" and rc = 0 and ifs = Some and z = "[]" and path = "''r.bin''"
        and old = "[]" and err = 0 and w = "\<lparr>os_fds = [0, 1, 2], os_maps = []\<rparr>"]
    by simp
qed

end
