(* ===== verification/Sink_Tests.thy ===== *)
theory Sink_Tests
  imports Sink_System Smoke_Decoder Store_Tests
begin

text \<open>
  \<open>examples/effective_sink_smoke.cpp\<close> and \<open>examples/encrypted_logging_demo.cpp\<close>: the end-to-end tests of the sink,
  run on the model. A session is what a test does between creating its sink and looking at the directory; the checks of
  each case are definitions over the records that its decoder finds. The properties say that the checks hold for every
  session, under the documented behaviour of zlib, protobuf and Crypto++.
\<close>

section \<open>Sessions\<close>

text \<open>The libraries, with the process and thread number that the records carry.\<close>

record ('z, 'i) libs =
  l_pub :: "bytes \<Rightarrow> bytes"
  l_agree :: "bytes \<Rightarrow> bytes \<Rightarrow> bytes option"
  l_hkdf :: "nat \<Rightarrow> bytes \<Rightarrow> bytes \<Rightarrow> bytes \<Rightarrow> string + bytes"
  l_ser :: "LogRecord \<Rightarrow> bytes option"
  l_parse :: "bytes \<Rightarrow> LogRecord option"
  l_pid :: nat
  l_tid :: nat
  l_defl :: "'z deflate"
  l_bound :: "nat \<Rightarrow> nat"
  l_z0 :: 'z
  l_enc :: gcm_enc
  l_dec :: gcm_dec
  l_infl :: "'i inflate"
  l_i0 :: 'i

definition documented :: "('z, 'i) libs \<Rightarrow> bool" where
  "documented L \<longleftrightarrow>
     (\<exists>zipped D R. deflates (l_defl L) (l_bound L) zipped D \<and> D (l_z0 L) [] [] \<and> inflates (l_infl L) R
        \<and> unzips zipped R (l_i0 L))
     \<and> aead (l_enc L) (l_dec L) \<and> parses (l_ser L) (l_parse L)
     \<and> (\<forall>k. length (l_pub L k) = 32) \<and> (\<forall>a b. l_agree L a (l_pub L b) = l_agree L b (l_pub L a))"

record AuditKeypair =
  kp_priv :: bytes
  kp_pub :: bytes

text \<open>\<open>rnd\<close> is what the generator of the private key draws.\<close>

definition MakeAuditKeypair :: "('z, 'i) libs \<Rightarrow> bytes \<Rightarrow> AuditKeypair" where
  "MakeAuditKeypair L rnd = \<lparr>kp_priv = rnd, kp_pub = l_pub L rnd\<rparr>"

definition WriteServerPubFile :: "AuditKeypair \<Rightarrow> key_file" where
  "WriteServerPubFile kp =
     \<lparr>kf_exists = True, kf_exists_ec = False, kf_size = Some (length (kp_pub kp)), kf_opens = True, kf_content = kp_pub kp\<rparr>"

definition MakeSmokeMsg :: "int \<Rightarrow> string \<Rightarrow> LogMsg" where
  "MakeSmokeMsg now body =
     \<lparr>msg_level = LogLevel.info, msg_time = now, msg_logger = ''smoke'',
      msg_loc = \<lparr>loc_file = None, loc_line = 0, loc_func = None\<rparr>, msg_text = body\<rparr>"

definition sink_log ::
  "('z, 'i) libs \<Rightarrow> (bytes \<Rightarrow> 's \<Rightarrow> bool \<times> 's) \<Rightarrow> LogMsg \<Rightarrow> cipher \<times> 's \<Rightarrow> ((cipher \<times> 's) \<times> string \<times> unit res) option" where
  "sink_log L = SinkLog (l_ser L) (l_pid L) (l_tid L) (l_defl L) (l_bound L) (Z_OK, l_z0 L) (l_enc L)"

text \<open>
  The block in which a test has a sink: the factory succeeds, every \<open>Log\<close> returns normally and the store acknowledges its frame,
  \<open>Flush\<close> finds them all acknowledged and returns, the writer's file operations succeed. The directory then shows the
  shards, by names that are in the order of their creation.
\<close>

definition session :: "('z, 'i) libs \<Rightarrow> EffectiveSinkConfig \<Rightarrow> AuditKeypair \<Rightarrow> bytes \<Rightarrow> LogMsg list \<Rightarrow> dir_entry list \<Rightarrow> bool" where
  "session L cf kp eph msgs es \<longleftrightarrow>
     (\<exists>rnd made o1 pg dsk k c' frames outs s t cs.
        length rnd = 8 \<and> made = None
        \<and> CreateSink (l_pub L) (l_agree L) (l_hkdf L) eph rnd (WriteServerPubFile kp) True made o1 pg dsk cf = Inr k
        \<and> log_msgs (sink_log L accept) msgs (sk_cipher k, []) = Some ((c', frames), outs)
        \<and> set outs \<subseteq> {Inr ()} \<and> (\<forall>f\<in>set frames. length f < 2 ^ 32)
        \<and> Mmap_Store.started (sk_store k) \<and> files_open (sk_store k)
        \<and> fresh_step\<^sup>*\<^sup>* (sk_store k) s \<and> map snd (acks s) = frames \<and> spcs s t = FDone (length frames) \<and> \<not> stopped s
        \<and> good o1 \<and> map fst cs = sent s \<and> (\<forall>x\<in>set cs. good_call x) \<and> length cs + 1 < 2 ^ 32
        \<and> mset (map (\<lambda>e. (path_join (log_dir cf) (de_name e), de_content e))
              (filter (\<lambda>e. de_regular e \<and> IsShardFilename (de_name e)) es))
            = mset (map (\<lambda>(p, b). (p, Some b)) (files (persist_all cs (sk_writer k))))
        \<and> sorted (map fst (files (persist_all cs (sk_writer k)))))"

lemma CreateSink_parts:
  assumes "CreateSink pub agree hkdf eph rnd kf True made o1 pg dsk cf = Inr k"
  shows "\<exists>lvl epub. SinkCreate pub agree hkdf eph rnd (server_pub_key_path cf) kf (zlib_level cf) = Inr (sk_cipher k, lvl, epub)
    \<and> ShardWriter (log_dir cf) (shard_size_bytes cf) epub made o1 = Inr (sk_writer k)
    \<and> MmapStore (store_config cf) pg True True dsk = Inr (sk_store k)"
  using assms by (auto simp: CreateSink_def SinkConstruct_def Let_def split: sum.splits prod.splits)

definition decode_all :: "('z, 'i) libs \<Rightarrow> AuditKeypair \<Rightarrow> bytes \<Rightarrow> dir_entry list \<Rightarrow> LogRecord list checked" where
  "decode_all L kp rnd es =
     DecodeAllShards (\<lambda>b. RefDecodeShard (l_agree L) (l_hkdf L) (l_dec L) (l_infl L) (Z_OK, l_i0 L) (l_parse L) rnd b (kp_priv kp)) es"

text \<open>What both decoders find after a session.\<close>

lemma session_decodes:
  assumes s: "session L cf (MakeAuditKeypair L srv) eph msgs es" and doc: "documented L" and srv: "length srv = 32"
  shows "DecodeShardDir (\<lambda>p b. DecodeShardFile (l_agree L) (l_hkdf L) (l_dec L) (l_infl L) (Z_OK, l_i0 L) (l_parse L) rnd2 p b srv)
      (log_dir cf) (Some es) = Some (Inr (map (make_record (l_pid L) (l_tid L)) msgs))"
    and "decode_all L (MakeAuditKeypair L srv) rnd2 es = Some (Inr (map (make_record (l_pid L) (l_tid L)) msgs))"
proof -
  let ?kp = "MakeAuditKeypair L srv"
  obtain rnd o1 pg dsk k c' frames outs s t cs where
    rnd: "length rnd = 8"
    and k: "CreateSink (l_pub L) (l_agree L) (l_hkdf L) eph rnd (WriteServerPubFile ?kp) True None o1 pg dsk cf = Inr k"
    and lg: "log_msgs (sink_log L accept) msgs (sk_cipher k, []) = Some ((c', frames), outs)" "set outs \<subseteq> {Inr ()}"
      "\<forall>f\<in>set frames. length f < 2 ^ 32"
    and st: "Mmap_Store.started (sk_store k) \<and> files_open (sk_store k)" "fresh_step\<^sup>*\<^sup>* (sk_store k) s"
      "map snd (acks s) = frames" "spcs s t = FDone (length frames)" "\<not> stopped s"
    and sh: "good o1" "map fst cs = sent s" "\<forall>x\<in>set cs. good_call x" "length cs + 1 < 2 ^ 32"
    and ls: "mset (map (\<lambda>e. (path_join (log_dir cf) (de_name e), de_content e))
              (filter (\<lambda>e. de_regular e \<and> IsShardFilename (de_name e)) es))
            = mset (map (\<lambda>(p, b). (p, Some b)) (files (persist_all cs (sk_writer k))))"
      "sorted (map fst (files (persist_all cs (sk_writer k))))"
    using s unfolding session_def by blast
  obtain lvl epub where pr: "SinkCreate (l_pub L) (l_agree L) (l_hkdf L) eph rnd (server_pub_key_path cf) (WriteServerPubFile ?kp)
        (zlib_level cf) = Inr (sk_cipher k, lvl, epub)"
      "ShardWriter (log_dir cf) (shard_size_bytes cf) epub None o1 = Inr (sk_writer k)"
    using CreateSink_parts [OF k] by blast
  obtain zipped D R where z: "deflates (l_defl L) (l_bound L) zipped D" "D (l_z0 L) [] []" "inflates (l_infl L) R"
      "unzips zipped R (l_i0 L)"
    and a: "aead (l_enc L) (l_dec L)" "parses (l_ser L) (l_parse L)"
    and p: "\<And>k. length (l_pub L k) = 32" "\<And>a b. l_agree L a (l_pub L b) = l_agree L b (l_pub L a)"
    using doc unfolding documented_def by blast
  have kf: "kf_content (WriteServerPubFile ?kp) = l_pub L srv" by (simp add: WriteServerPubFile_def MakeAuditKeypair_def)
  show dir: "DecodeShardDir (\<lambda>p b. DecodeShardFile (l_agree L) (l_hkdf L) (l_dec L) (l_infl L) (Z_OK, l_i0 L) (l_parse L) rnd2 p b srv)
      (log_dir cf) (Some es) = Some (Inr (map (make_record (l_pid L) (l_tid L)) msgs))"
    by (rule audit_reads_back [OF pr(1) kf srv p(1,2) rnd z a lg(1) [unfolded sink_log_def] lg(2,3) st pr(2) sh(1,2,3,4) ls])
  show "decode_all L ?kp rnd2 es = Some (Inr (map (make_record (l_pid L) (l_tid L)) msgs))"
    using dir_agrees [OF srv, of "l_agree L" "l_hkdf L" "l_dec L" "l_infl L" "(Z_OK, l_i0 L)" "l_parse L" rnd2 es "log_dir cf"]
    unfolding dir by (cases "decode_all L ?kp rnd2 es" rule: option.exhaust; auto simp: decode_all_def MakeAuditKeypair_def elim: agrees.elims)
qed

section \<open>The cases\<close>

text \<open>Times in seconds and milliseconds, as in \<open>Sink_System\<close>.\<close>

definition BaseConfig :: "string \<Rightarrow> string \<Rightarrow> EffectiveSinkConfig" where
  "BaseConfig d pub_path =
     (default_config d pub_path)\<lparr>shard_size_bytes := 64 * 1024 * 1024, dir_size_cap := 2 * 1024 * 1024 * 1024,
        eviction_interval := 30, mmap_buffer_bytes := 4 * 1024 * 1024, mmap_min_buffers := 2, mmap_max_buffers := 8,
        back_pressure_timeout := 500, zlib_level := 6\<rparr>"

text \<open>The messages of a loop over \<open>MakeMsg\<close>, each with the time at which it was made.\<close>

definition made_of :: "string list \<Rightarrow> LogMsg list \<Rightarrow> bool" where
  "made_of bodies msgs \<longleftrightarrow> list_all2 (\<lambda>b m. m = MakeSmokeMsg (msg_time m) b) bodies msgs"

fun each_ok :: "(nat \<Rightarrow> unit checked) \<Rightarrow> nat list \<Rightarrow> unit checked" where
  "each_ok chk [] = Some (Inr ())"
| "each_ok chk (i # is) = bindc (chk i) (\<lambda>_. each_ok chk is)"

definition case1_body :: "nat \<Rightarrow> string" where
  "case1_body i = ''case1 record '' @ dec_digits i"

definition case1_checks :: "nat \<Rightarrow> LogRecord list \<Rightarrow> unit checked" where
  "case1_checks N recs =
     bindc (require (length recs = N) ''case1 record count mismatch'') (\<lambda>_.
     each_ok (\<lambda>i.
       bindc (require (rec_message (recs ! i) = case1_body i) ''case1 message mismatch'') (\<lambda>_.
       bindc (require (rec_logger (recs ! i) = ''smoke'') ''case1 logger_name mismatch'') (\<lambda>_.
       require (rec_level (recs ! i) = of_nat (level_value LogLevel.info)) ''case1 level mismatch''))) [0..<N])"

definition case2_cfg :: "string \<Rightarrow> string \<Rightarrow> EffectiveSinkConfig" where
  "case2_cfg d k = (BaseConfig d k)\<lparr>shard_size_bytes := 256 * 1024, mmap_buffer_bytes := 64 * 1024\<rparr>"

definition case2_body :: "nat \<Rightarrow> string" where
  "case2_body i = ''c2 '' @ dec_digits i"

definition case2_checks :: "nat \<Rightarrow> dir_entry list \<Rightarrow> (dir_entry list \<Rightarrow> LogRecord list checked) \<Rightarrow> unit checked" where
  "case2_checks N es decode =
     bindc (require (2 \<le> length (ListShards es)) ''case2 expected multiple shards'') (\<lambda>_.
     bindc (decode es) (\<lambda>recs.
     require (length recs = N) ''case2 total frame count mismatch''))"

definition case4_cfg :: "string \<Rightarrow> string \<Rightarrow> EffectiveSinkConfig" where
  "case4_cfg d k = (BaseConfig d k)\<lparr>shard_size_bytes := 512 * 1024, mmap_buffer_bytes := 64 * 1024, mmap_max_buffers := 16,
     back_pressure_timeout := 2000\<rparr>"

definition case4_body :: "nat \<Rightarrow> nat \<Rightarrow> string" where
  "case4_body t i = ''t'' @ dec_digits t @ '':s'' @ dec_digits i"

definition case4_bodies :: "nat \<Rightarrow> nat \<Rightarrow> string list" where
  "case4_bodies threads per_thread = concat (map (\<lambda>t. map (case4_body t) [0..<per_thread]) [0..<threads])"

definition case4_checks :: "nat \<Rightarrow> nat \<Rightarrow> LogRecord list \<Rightarrow> unit checked" where
  "case4_checks threads per_thread recs =
     (let seen = set (map rec_message recs) in
      bindc (require (length recs = threads * per_thread) ''case4 record count mismatch'') (\<lambda>_.
      bindc (require (card seen = threads * per_thread) ''case4 seen unique count mismatch'') (\<lambda>_.
      each_ok (\<lambda>t. each_ok (\<lambda>i. require (case4_body t i \<in> seen) ''case4 missing entry'') [0..<per_thread]) [0..<threads])))"

definition case6_cfg :: "string \<Rightarrow> string \<Rightarrow> EffectiveSinkConfig" where
  "case6_cfg d k = (BaseConfig d k)\<lparr>shard_size_bytes := 64 * 1024, mmap_buffer_bytes := 16 * 1024\<rparr>"

definition case6_checks :: "dir_entry list \<Rightarrow> unit checked" where
  "case6_checks es =
     (case ListShards es of
        [] \<Rightarrow> Some (Inl (Exit ''case6 no shards produced''))
      | e # _ \<Rightarrow>
          (case de_content e of
             None \<Rightarrow> Some (Inl (Exit ''case6 cannot open shard''))
           | Some inp \<Rightarrow>
               (let hdr = take kHeaderBytes inp in
                bindc (require (length hdr = kHeaderBytes) ''case6 short header read'') (\<lambda>_.
                bindc (require (take 8 hdr = [0x4C, 0x47, 0x52, 0x48, 1, 0, 0, 0]) ''case6 magic mismatch'') (\<lambda>_.
                bindc (require (RefDecodeLEU32 (drop 8 hdr) = 1) ''case6 algo_id mismatch'') (\<lambda>_.
                bindc (require (list_ex (\<lambda>i. hdr ! i \<noteq> 0) [12..<44]) ''case6 client_eph_pub all zero'') (\<lambda>_.
                each_ok (\<lambda>i. require (hdr ! i = 0) ''case6 reserved byte non-zero'') [44..<48])))))))"

section \<open>The records of a session\<close>

lemma each_ok_all: "(\<And>i. i \<in> set is \<Longrightarrow> chk i = Some (Inr ())) \<Longrightarrow> each_ok chk is = Some (Inr ())"
  by (induction "is") simp_all

lemma made_record:
  "rec_message (make_record pid tid (MakeSmokeMsg t b)) = b" "rec_logger (make_record pid tid (MakeSmokeMsg t b)) = ''smoke''"
  "rec_level (make_record pid tid (MakeSmokeMsg t b)) = of_nat (level_value LogLevel.info)"
  by (simp_all add: make_record_def MakeSmokeMsg_def Let_def)

lemma made_of_nth:
  assumes "made_of bodies msgs" and "i < length bodies"
  shows "length msgs = length bodies \<and> msgs ! i = MakeSmokeMsg (msg_time (msgs ! i)) (bodies ! i)"
  using assms by (simp add: made_of_def list_all2_conv_all_nth)

lemma made_of_messages: "made_of bodies msgs \<Longrightarrow> map (rec_message \<circ> make_record pid tid) msgs = bodies"
  unfolding made_of_def
proof (induction bodies msgs rule: list_all2_induct)
  case (Cons b bs m ms)
  then have "rec_message (make_record pid tid m) = b" using made_record(1) [of pid tid "msg_time m" b] by metis
  with Cons show ?case by simp
qed simp

lemma digits_no_colon: "CHR '':'' \<notin> set (dec_digits n)"
  using digit_codes [of "CHR '':''" n] by auto

lemma case4_body_inj: "case4_body t i = case4_body u j \<longleftrightarrow> t = u \<and> i = j"
proof
  assume eq: "case4_body t i = case4_body u j"
  have tw: "takeWhile (\<lambda>c. c \<noteq> CHR '':'') (dec_digits n @ '':s'' @ r) = dec_digits n" for n r
    using digits_no_colon [of n] by (subst takeWhile_append2) auto
  have "dec_digits t @ '':s'' @ dec_digits i = dec_digits u @ '':s'' @ dec_digits j"
    using eq by (simp add: case4_body_def)
  moreover from this have d: "dec_digits t = dec_digits u" using tw by metis
  ultimately have "dec_digits i = dec_digits j" by simp
  with d show "t = u \<and> i = j" by (metis dec_value_digits)
qed simp

lemma case4_bodies_all:
  "distinct (case4_bodies K P) \<and> length (case4_bodies K P) = K * P
    \<and> set (case4_bodies K P) = {case4_body t i | t i. t < K \<and> i < P}"
proof (induction K)
  case (Suc K)
  have eq: "case4_bodies (Suc K) P = case4_bodies K P @ map (case4_body K) [0..<P]" by (simp add: case4_bodies_def)
  have "distinct (map (case4_body K) [0..<P])" by (simp add: distinct_map inj_on_def case4_body_inj)
  with Suc show ?case unfolding eq by (auto simp: case4_body_inj less_Suc_eq)
qed (simp add: case4_bodies_def)

lemma case1_result:
  assumes "made_of (map case1_body [0..<N]) msgs"
  shows "case1_checks N (map (make_record pid tid) msgs) = Some (Inr ())"
proof -
  have n: "length msgs = N" using assms by (simp add: made_of_def list_all2_lengthD [symmetric])
  have "msgs ! i = MakeSmokeMsg (msg_time (msgs ! i)) (case1_body i)" if "i < N" for i
    using made_of_nth [OF assms, of i] that by simp
  then have "rec_message (map (make_record pid tid) msgs ! i) = case1_body i
      \<and> rec_logger (map (make_record pid tid) msgs ! i) = ''smoke''
      \<and> rec_level (map (make_record pid tid) msgs ! i) = of_nat (level_value LogLevel.info)" if "i < N" for i
    using that n made_record [of pid tid "msg_time (msgs ! i)" "case1_body i"] by simp
  then show ?thesis
    using n by (simp add: case1_checks_def bindc_if) (rule each_ok_all, simp)
qed

lemma case4_result:
  assumes "made_of bodies msgs" and "mset bodies = mset (case4_bodies K P)"
  shows "case4_checks K P (map (make_record pid tid) msgs) = Some (Inr ())"
proof -
  let ?recs = "map (make_record pid tid) msgs"
  note all = case4_bodies_all [of K P]
  have m: "map rec_message ?recs = bodies" using made_of_messages [OF assms(1)] by simp
  have len: "length bodies = K * P" using assms(2) all by (metis size_mset)
  moreover have "length ?recs = length bodies" using m by (metis length_map)
  moreover have seen: "set (map rec_message ?recs) = {case4_body t i | t i. t < K \<and> i < P}"
    unfolding m using mset_eq_setD [OF assms(2)] all by simp
  moreover have "distinct bodies" using mset_eq_imp_distinct_iff [OF assms(2)] all by simp
  then have "card (set (map rec_message ?recs)) = K * P" unfolding m using len by (simp add: distinct_card)
  ultimately show ?thesis
    unfolding case4_checks_def Let_def by (simp add: bindc_if) (intro each_ok_all, auto simp: case4_body_inj)
qed

section \<open>The shards of a session\<close>

lemma entries_eq: "ListShards es = shard_entries es"
  by (simp add: ListShards_def shard_entries_def IsShardFile_def IsShardFilename_def)

lemma session_shards:
  assumes s: "session L cf (MakeAuditKeypair L srv) eph msgs es" and doc: "documented L" and srv: "length srv = 32"
  shows "ListShards es \<noteq> []
    \<and> (\<forall>e\<in>set (ListShards es). \<exists>body. de_content e = Some (header_bytes (l_pub L eph) @ body))"
proof -
  let ?kp = "MakeAuditKeypair L srv"
  obtain rnd o1 pg dsk k c' frames outs s t cs where
    k: "CreateSink (l_pub L) (l_agree L) (l_hkdf L) eph rnd (WriteServerPubFile ?kp) True None o1 pg dsk cf = Inr k"
    and sh: "good o1" "\<forall>x\<in>set cs. good_call x" "length cs + 1 < 2 ^ 32"
    and ls: "mset (map (\<lambda>e. (path_join (log_dir cf) (de_name e), de_content e))
              (filter (\<lambda>e. de_regular e \<and> IsShardFilename (de_name e)) es))
            = mset (map (\<lambda>(p, b). (p, Some b)) (files (persist_all cs (sk_writer k))))"
    using s unfolding session_def by blast
  obtain lvl epub where pr: "SinkCreate (l_pub L) (l_agree L) (l_hkdf L) eph rnd (server_pub_key_path cf) (WriteServerPubFile ?kp)
        (zlib_level cf) = Inr (sk_cipher k, lvl, epub)"
      "ShardWriter (log_dir cf) (shard_size_bytes cf) epub None o1 = Inr (sk_writer k)"
    using CreateSink_parts [OF k] by blast
  have p: "\<And>k. length (l_pub L k) = 32" "\<And>a b. l_agree L a (l_pub L b) = l_agree L b (l_pub L a)"
    using doc unfolding documented_def by blast+
  have kf: "kf_content (WriteServerPubFile ?kp) = l_pub L srv" by (simp add: WriteServerPubFile_def MakeAuditKeypair_def)
  have epub: "epub = l_pub L eph" using SinkCreate_key [OF pr(1) kf srv p(1,2)] by blast
  note init = ShardWriter_good [OF pr(2) sh(1)]
  have "1 + length cs < 2 ^ 32" using sh(3) by simp
  from write_frames_good [OF init [THEN conjunct1] sh(2) this] init obtain k' old g where
    w: "writing k' old g (persist_all cs (sk_writer k))" "eph_pub (persist_all cs (sk_writer k)) = epub"
    by (auto simp: persist_all_writes)
  then have gs: "map snd (files (persist_all cs (sk_writer k))) = map (\<lambda>g. header_bytes epub @ concat g) (old @ [g])"
    by (simp add: writing_def)
  let ?A = "map (\<lambda>e. (path_join (log_dir cf) (de_name e), de_content e)) (shard_entries es)"
    and ?B = "map (\<lambda>(p, b). (p, Some b)) (files (persist_all cs (sk_writer k)))"
  have m: "mset ?A = mset ?B" using ls by (simp add: shard_entries_def)
  have "?B \<noteq> []" using gs by (cases "files (persist_all cs (sk_writer k))") auto
  with m have ne: "shard_entries es \<noteq> []" by auto
  have "\<exists>body. de_content e = Some (header_bytes epub @ body)" if "e \<in> set (shard_entries es)" for e
  proof -
    have "(path_join (log_dir cf) (de_name e), de_content e) \<in> set ?B"
      using that unfolding mset_eq_setD [OF m, symmetric] by auto
    then obtain b where b: "de_content e = Some b" "b \<in> set (map snd (files (persist_all cs (sk_writer k))))" by force
    with gs show ?thesis by auto
  qed
  with ne epub show ?thesis by (simp add: entries_eq)
qed

lemma case6_result:
  assumes "ListShards es \<noteq> []" and "\<forall>e\<in>set (ListShards es). \<exists>body. de_content e = Some (header_bytes pub @ body)"
    and "length pub = 32" and "pub \<noteq> replicate 32 0"
  shows "case6_checks es = Some (Inr ())"
proof -
  obtain e rest body where e: "ListShards es = e # rest" "de_content e = Some (header_bytes pub @ body)"
    using assms(1,2) by (cases "ListShards es") auto
  have h: "header_bytes pub = kMagic @ encode_le32 kAlgoId @ pub @ replicate 4 0" by (rule header_layout [OF assms(3)])
  have lm: "length kMagic = 8" "length (encode_le32 kAlgoId) = 4" by (simp_all add: kMagic_def encode_le32_def)
  have len: "length (header_bytes pub) = 48" using h lm assms(3) by simp
  have hdr: "take kHeaderBytes (header_bytes pub @ body) = header_bytes pub" using len by (simp add: kHeaderBytes_def)
  have magic: "take 8 (header_bytes pub) = [0x4C, 0x47, 0x52, 0x48, 1, 0, 0, 0]" by (simp add: h kMagic_def)
  have algo: "RefDecodeLEU32 (drop 8 (header_bytes pub)) = 1"
    by (simp add: h lm ref_le32 DecodeLEU32_def encode_le32_def kAlgoId_def nth_append)
  have key: "header_bytes pub ! (12 + i) = pub ! i" if "i < 32" for i
    using that assms(3) lm by (simp add: h nth_append)
  obtain i where i: "i < 32" "pub ! i \<noteq> 0"
    using assms(3,4) by (metis nth_equalityI length_replicate nth_replicate)
  have "list_ex (\<lambda>i. header_bytes pub ! i \<noteq> 0) [12..<44]"
    unfolding list_ex_iff
  proof (rule bexI)
    show "header_bytes pub ! (12 + i) \<noteq> 0" using key [OF i(1)] i(2) by simp
    show "12 + i \<in> set [12..<44]" unfolding set_upt using i(1) by (simp only: atLeastLessThan_iff) simp
  qed
  note lx = this
  have zero: "header_bytes pub ! j = 0" if "44 \<le> j" "j < 48" for j
  proof -
    define i where "i = j - 44"
    then have "j = 44 + i" "i < 4" using that by simp_all
    then show ?thesis using assms(3) lm by (simp add: h nth_append)
  qed
  have rest: "each_ok (\<lambda>i. require (header_bytes pub ! i = 0) ''case6 reserved byte non-zero'') [44..<48] = Some (Inr ())"
  proof (rule each_ok_all)
    fix j :: nat assume "j \<in> set [44..<48]"
    then have "44 \<le> j \<and> j < 48" unfolding set_upt atLeastLessThan_iff .
    then have "header_bytes pub ! j = 0" using zero by blast
    then show "require (header_bytes pub ! j = 0) ''case6 reserved byte non-zero'' = Some (Inr ())" by (simp only: require_simps simp_thms)
  qed
  have "length (header_bytes pub) = kHeaderBytes" using len by (simp add: kHeaderBytes_def)
  then show ?thesis
    unfolding case6_checks_def e list.case option.case Let_def hdr
    by (simp only: bindc_if magic algo lx rest if_True simp_thms)
qed

text \<open>
  The end-to-end cases of the sink's test pass for every session: the messages that \<open>N\<close> calls logged come back, in number, order
  and content (case 1); in number from however many shards there are (case 2); as a set, each once, whatever the order in
  which the threads' calls took the pipeline's lock (case 4); and the first shard starts with a well-formed header (case 6). The key pair is any
  32-byte private key with its public key; the ephemeral public key must not be zero.
\<close>

theorem sink_cases_pass:
  assumes doc: "documented L" and srv: "length srv = 32" and eph: "l_pub L eph \<noteq> replicate 32 0"
    and one: "session L (BaseConfig d1 k1) (MakeAuditKeypair L srv) eph msgs1 es1" "made_of (map case1_body [0..<N]) msgs1"
    and two: "session L (case2_cfg d2 k2) (MakeAuditKeypair L srv) eph msgs2 es2" "made_of (map case2_body [0..<M]) msgs2"
    and four: "session L (case4_cfg d4 k4) (MakeAuditKeypair L srv) eph msgs4 es4" "made_of bodies msgs4"
      "mset bodies = mset (case4_bodies K P)"
    and six: "session L (case6_cfg d6 k6) (MakeAuditKeypair L srv) eph msgs6 es6" "made_of (replicate 100 ''header check'') msgs6"
  shows "bindc (decode_all L (MakeAuditKeypair L srv) rnd es1) (case1_checks N) = Some (Inr ())
    \<and> case2_checks M es2 (decode_all L (MakeAuditKeypair L srv) rnd)
        = Some (if 2 \<le> length (ListShards es2) then Inr () else Inl (Exit ''case2 expected multiple shards''))
    \<and> bindc (decode_all L (MakeAuditKeypair L srv) rnd es4) (case4_checks K P) = Some (Inr ())
    \<and> case6_checks es6 = Some (Inr ())"
proof (intro conjI)
  note dec = session_decodes(2) [OF _ doc srv, of _ _ _ _ rnd]
  show "bindc (decode_all L (MakeAuditKeypair L srv) rnd es1) (case1_checks N) = Some (Inr ())"
    using dec [OF one(1)] case1_result [OF one(2)] by simp
  have "length msgs2 = M" using two(2) by (simp add: made_of_def list_all2_lengthD [symmetric])
  then show "case2_checks M es2 (decode_all L (MakeAuditKeypair L srv) rnd)
      = Some (if 2 \<le> length (ListShards es2) then Inr () else Inl (Exit ''case2 expected multiple shards''))"
    using dec [OF two(1)] by (simp add: case2_checks_def bindc_if)
  show "bindc (decode_all L (MakeAuditKeypair L srv) rnd es4) (case4_checks K P) = Some (Inr ())"
    using dec [OF four(1)] case4_result [OF four(2,3)] by simp
  have "length (l_pub L eph) = 32" using doc by (simp add: documented_def)
  then show "case6_checks es6 = Some (Inr ())"
    using session_shards [OF six(1) doc srv] eph by (intro case6_result [of es6 "l_pub L eph"]) simp_all
qed

section \<open>Back-pressure\<close>

definition case5_cfg :: "string \<Rightarrow> string \<Rightarrow> EffectiveSinkConfig" where
  "case5_cfg d k = (BaseConfig d k)\<lparr>mmap_buffer_bytes := 16 * 1024, mmap_min_buffers := 2, mmap_max_buffers := 2,
     back_pressure_timeout := 10, shard_size_bytes := 256 * 1024\<rparr>"

text \<open>\<open>died\<close> is set when a \<open>Log\<close> throws; \<open>outs\<close> are the outcomes of the calls of all threads, in the order of the pipeline's lock.\<close>

definition case5_checks :: "unit res list \<Rightarrow> unit checked" where
  "case5_checks outs = require (\<not> list_ex (\<lambda>r. r \<noteq> Inr ()) outs) ''case5: Log() threw under back-pressure''"

text \<open>Nothing in the pipeline fails: protobuf serialises the messages, GCM encrypts.\<close>

definition unfailing :: "('z, 'i) libs \<Rightarrow> LogMsg list \<Rightarrow> bool" where
  "unfailing L msgs \<longleftrightarrow> (\<forall>m\<in>set msgs. \<exists>b. l_ser L (make_record (l_pid L) (l_tid L) m) = Some b) \<and> (\<forall>k iv p. \<exists>b. l_enc L k iv p = Inr b)"

lemma sink_log_returns:
  assumes doc: "documented L" and un: "unfailing L [m]" and c: "counter c \<noteq> - 1"
  shows "\<exists>st' err. sink_log L app m (c, st) = Some ((c\<lparr>counter := counter c + 1\<rparr>, st'), err, Inr ())"
proof -
  obtain zipped D R where z: "deflates (l_defl L) (l_bound L) zipped D" "D (l_z0 L) [] []"
    using doc unfolding documented_def by blast
  obtain b where b: "l_ser L (make_record (l_pid L) (l_tid L) m) = Some b" using un unfolding unfailing_def by auto
  obtain y where y: "comp_loop (l_defl L) b (length ([] :: bytes)) (comp_start (l_z0 L) (l_bound L (length b)) b []) = Some ([] @ y, Inr ())"
    using comp_terminates [OF z(1) comp_start_inv [of D "l_z0 L", OF z(2)]] by blast
  then have cmp: "Compress (l_defl L) (l_bound L) (Z_OK, l_z0 L) b [] = Some (y, Inr ())" by (simp add: Compress_def)
  obtain body where body: "l_enc L (key c) (take 8 (nonce_prefix c) @ be32 (counter c)) y = Inr body"
    using un unfolding unfailing_def by blast
  have "snd (snd (Encrypt (l_enc L) c y [])) = Inr ()"
    using body c by (auto simp: Encrypt_def BuildNonce_def Let_def)
  then obtain e where "Encrypt (l_enc L) c y [] = (c\<lparr>counter := counter c + 1\<rparr>, e, Inr ())"
    using Encrypt_state [of "l_enc L" c y "[]"] by (metis prod.collapse)
  then show ?thesis
    using b cmp by (simp add: sink_log_def SinkLog_def EffectiveFormat_def Let_def case_prod_beta)
qed

lemma counter_left: "unat (c :: u32) + 1 < 2 ^ 32 \<Longrightarrow> c \<noteq> - 1"
proof
  assume "unat c + 1 < 2 ^ 32" and "c = - 1"
  moreover have "unat (- 1 :: 32 word) = 2 ^ 32 - 1" by (simp add: unsigned_minus_1_eq_mask mask_eq_exp_minus_1)
  ultimately show False by simp
qed

lemma log_msgs_return:
  assumes doc: "documented L"
  shows "unfailing L msgs \<Longrightarrow> unat (counter c) + length msgs < 2 ^ 32 \<Longrightarrow>
    \<exists>c' st' outs. log_msgs (sink_log L app) msgs (c, st) = Some ((c', st'), outs) \<and> set outs \<subseteq> {Inr ()} \<and> length outs = length msgs
      \<and> unat (counter c') = unat (counter c) + length msgs"
proof (induction msgs arbitrary: c st)
  case (Cons m msgs)
  have n: "unat (counter c) + 1 < 2 ^ 32" using Cons.prems by simp
  have un: "unfailing L [m]" "unfailing L msgs" using Cons.prems(1) by (simp_all add: unfailing_def)
  from sink_log_returns [OF doc un(1) counter_left [OF n], of app st] obtain st' err where
    m: "sink_log L app m (c, st) = Some ((c\<lparr>counter := counter c + 1\<rparr>, st'), err, Inr ())" by blast
  have u: "unat (counter c + 1) = unat (counter c) + 1" using n by (simp add: unat_word_ariths)
  then have "unat (counter (c\<lparr>counter := counter c + 1\<rparr>)) + length msgs < 2 ^ 32" using Cons.prems by simp
  from Cons.IH [OF un(2) this, of st'] m u show ?case by auto
qed simp

text \<open>
  The sink survives back-pressure: as long as the cipher's counter lasts, whatever the store answers to each \<open>Append\<close>, every call
  of \<open>Log\<close> returns and none throws, so that case 5 passes; a refused record is reported and dropped.
\<close>

theorem log_survives_backpressure:
  assumes "documented L" and "unfailing L msgs" and "unat (counter c) + length msgs < 2 ^ 32"
  shows "\<exists>c' st' outs. log_msgs (sink_log L app) msgs (c, st) = Some ((c', st'), outs)
    \<and> length outs = length msgs \<and> case5_checks outs = Some (Inr ())"
proof -
  from log_msgs_return [OF assms, of app st] obtain c' st' outs where
    "log_msgs (sink_log L app) msgs (c, st) = Some ((c', st'), outs)" "set outs \<subseteq> {Inr ()}" "length outs = length msgs" by blast
  moreover from this(2) have "\<forall>r\<in>set outs. r = Inr ()" by blast
  then have "case5_checks outs = Some (Inr ())" unfolding case5_checks_def list_ex_iff by simp
  ultimately show ?thesis by blast
qed

section \<open>Sessions exist\<close>

text \<open>
  Stand-ins for the libraries: those of the demonstration in \<open>Effective_Sink\<close>, with a serialiser that knows the records of a table
  and writes the place of a record in it.
\<close>

definition place :: "LogRecord list \<Rightarrow> LogRecord \<Rightarrow> nat" where
  "place T r = length (takeWhile (\<lambda>x. x \<noteq> r) T)"

definition demo_libs :: "LogRecord list \<Rightarrow> (bytes, bool) libs" where
  "demo_libs T = \<lparr>l_pub = (\<lambda>k. replicate 32 1), l_agree = (\<lambda>a b. Some (replicate 32 3)), l_hkdf = (\<lambda>n s salt info. Inr (replicate n 4)),
     l_ser = (\<lambda>r. if r \<in> set T then Some (replicate (place T r) 1) else None),
     l_parse = (\<lambda>b. if length b < length T then Some (T ! length b) else None), l_pid = 1, l_tid = 2,
     l_defl = flag_deflate, l_bound = (\<lambda>n. 2 * n + 1), l_z0 = [], l_enc = demo_enc, l_dec = demo_dec,
     l_infl = flag_inflate, l_i0 = False\<rparr>"

lemma place_found: "r \<in> set T \<Longrightarrow> place T r < length T \<and> T ! place T r = r"
  by (induction T) (auto simp: place_def)

lemma demo_documented: "documented (demo_libs T)"
proof -
  have "parses (l_ser (demo_libs T)) (l_parse (demo_libs T))"
    unfolding parses_def demo_libs_def libs.simps by (auto simp: place_found split: if_splits)
  moreover have "aead demo_enc demo_dec" by (simp add: aead_def demo_enc_def demo_dec_def kTagBytes_def)
  moreover have "unzips flag_zip flag_rest False" by (auto simp: unzips_def flag_zip_def)
  moreover have "deflates (l_defl (demo_libs T)) (l_bound (demo_libs T)) flag_zip (\<lambda>pend fed made. made @ pend = flagged fed)"
    using flag_deflates unfolding demo_libs_def libs.simps .
  moreover have "l_z0 (demo_libs T) = []" "l_i0 (demo_libs T) = False" "l_infl (demo_libs T) = flag_inflate"
    "l_enc (demo_libs T) = demo_enc" "l_dec (demo_libs T) = demo_dec" "\<And>k. l_pub (demo_libs T) k = replicate 32 1"
    "\<And>a b. l_agree (demo_libs T) a b = Some (replicate 32 3)"
    by (simp_all add: demo_libs_def del: replicate.simps)
  ultimately show ?thesis
    unfolding documented_def using flag_inflates
    by (intro conjI exI [of _ flag_zip] exI [of _ "\<lambda>pend fed made. made @ pend = flagged fed"] exI [of _ flag_rest])
      (simp_all del: replicate.simps)
qed

lemma demo_sink_log:
  assumes "counter c \<noteq> - 1" and "length (nonce_prefix c) = 8" and m: "make_record 1 2 m \<in> set T"
  shows "\<exists>f. sink_log (demo_libs T) accept m (c, acc) = Some ((c\<lparr>counter := counter c + 1\<rparr>, acc @ [f]), [], Inr ())
    \<and> 33 \<le> length f \<and> length f \<le> 33 + 2 * length T"
proof -
  define p :: bytes where "p = replicate (place T (make_record 1 2 m)) 1"
  have "\<exists>y. flag_zip p y \<and> comp_loop flag_deflate p (length ([] :: bytes))
      (comp_start [] (2 * length p + 1) p []) = Some ([] @ y, Inr ())"
    by (rule comp_terminates [OF flag_deflates comp_start_inv]) simp
  then have cmp: "Compress flag_deflate (\<lambda>n. 2 * n + 1) (Z_OK, []) p [] = Some (flagged p @ [0], Inr ())"
    by (auto simp: Compress_def flag_zip_def)
  define e where "e = nonce_prefix c @ be32 (counter c) @ (flagged p @ [0]) @ replicate 16 0"
  have e: "Encrypt demo_enc c (flagged p @ [0]) [] = (c\<lparr>counter := counter c + 1\<rparr>, e, Inr ())"
    using assms by (simp add: Encrypt_def BuildNonce_def demo_enc_def e_def be32_def Let_def)
  have le: "length e = 8 + 4 + (2 * length p + 1 + 16)"
    using assms(2) by (simp add: e_def be32_def length_flagged)
  have lp: "length p < length T" using place_found [OF m] by (simp add: p_def)
  have "l_ser (demo_libs T) (make_record 1 2 m) = Some p"
    using m by (simp add: demo_libs_def p_def)
  then have "sink_log (demo_libs T) accept m (c, acc)
      = Some ((c\<lparr>counter := counter c + 1\<rparr>, acc @ [encode_le32 (of_nat (length e)) @ e]), [], Inr ())"
    using cmp e by (simp add: sink_log_def SinkLog_def EffectiveFormat_def accept_def demo_libs_def Let_def)
  then show ?thesis
    using le lp by (intro exI [of _ "encode_le32 (of_nat (length e)) @ e"]) (simp add: encode_le32_def)
qed

lemma demo_log_msgs:
  "unat (counter c) + length msgs < 2 ^ 32 \<Longrightarrow> length (nonce_prefix c) = 8 \<Longrightarrow> make_record 1 2 ` set msgs \<subseteq> set T \<Longrightarrow>
    \<exists>c' fs outs. log_msgs (sink_log (demo_libs T) accept) msgs (c, acc) = Some ((c', acc @ fs), outs)
      \<and> set outs \<subseteq> {Inr ()} \<and> length fs = length msgs \<and> (\<forall>f\<in>set fs. 33 \<le> length f \<and> length f \<le> 33 + 2 * length T)"
proof (induction msgs arbitrary: c acc)
  case (Cons m msgs)
  have n: "unat (counter c) + 1 < 2 ^ 32" using Cons.prems by simp
  have "make_record 1 2 m \<in> set T" using Cons.prems(3) by simp
  from demo_sink_log [OF counter_left [OF n] Cons.prems(2) this, of acc] obtain f where
    f: "sink_log (demo_libs T) accept m (c, acc) = Some ((c\<lparr>counter := counter c + 1\<rparr>, acc @ [f]), [], Inr ())"
      "33 \<le> length f" "length f \<le> 33 + 2 * length T" by blast
  have "unat (counter c + 1) = unat (counter c) + 1" using n by (simp add: unat_word_ariths)
  then have "unat (counter (c\<lparr>counter := counter c + 1\<rparr>)) + length msgs < 2 ^ 32" using Cons.prems by simp
  from Cons.IH [OF this, of "acc @ [f]"] Cons.prems(2,3) obtain c' fs outs where
    "log_msgs (sink_log (demo_libs T) accept) msgs (c\<lparr>counter := counter c + 1\<rparr>, acc @ [f])
      = Some ((c', (acc @ [f]) @ fs), outs)" "set outs \<subseteq> {Inr ()}" "length fs = length msgs"
      "\<forall>f\<in>set fs. 33 \<le> length f \<and> length f \<le> 33 + 2 * length T" by auto
  with f show ?case by (intro exI [of _ c'] exI [of _ "f # fs"] exI [of _ "Inr () # outs"]) simp
qed simp

lemma made_of_demo: "made_of bodies (map (MakeSmokeMsg 0) bodies)"
  by (simp add: made_of_def list_all2_conv_all_nth MakeSmokeMsg_def)

lemma WriteFrame_wdir: "wdir (snd (WriteFrame data o1 n w)) = wdir w"
  by (simp add: WriteFrame_def OpenNewShard_def WriteHeader_def CloseCurrent_def append_file_def Let_def
      split: prod.split sum.split)

lemma persist_all_wdir: "wdir (persist_all cs w) = wdir w"
  by (induction cs w rule: persist_all.induct) (simp_all add: OnPersist_writer WriteFrame_wdir)

lemma pack_one: "kHeaderBytes + length (concat (g @ fs)) \<le> lim \<Longrightarrow> \<exists>h. pack lim g fs = [h]"
  by (induction fs arbitrary: g) auto

text \<open>As long as everything fits into one shard, the directory shows that shard.\<close>

lemma one_shard:
  assumes w: "ShardWriter d limit pub None o1 = Inr w" "good o1" and cs: "\<forall>x\<in>set cs. good_call x" "length cs + 1 < 2 ^ 32"
    and fit: "kHeaderBytes + length (concat (map fst cs)) \<le> limit"
  shows "\<exists>n b. files (persist_all cs w) = [(path_join d n, b)] \<and> IsShardFilename n"
proof -
  note init = ShardWriter_good [OF w]
  have "1 + length cs < 2 ^ 32" using cs(2) by simp
  from write_frames_good [OF init [THEN conjunct1] cs(1) this] init obtain k' old g where
    wr: "writing k' old g (persist_all cs w)" "old @ [g] = pack limit [] (map fst cs)"
    by (auto simp: persist_all_writes)
  obtain h where "pack limit [] (map fst cs) = [h]" using pack_one [of "[]" "map fst cs" limit] fit by auto
  then have "old = []" using wr(2) by (cases old) auto
  then have "length (map snd (files (persist_all cs w))) = 1" using wr(1) by (simp add: writing_def)
  then obtain p b where f: "files (persist_all cs w) = [(p, b)]" by (cases "files (persist_all cs w)") auto
  then obtain t s where "p = path_join (wdir (persist_all cs w)) (MakeShardName t s)"
    using wr(1) by (auto simp: writing_def)
  then have "p = path_join d (MakeShardName t s)" using persist_all_wdir [of cs w] init by simp
  with f show ?thesis using shard_name_recognised by blast
qed

lemma length_sum: "\<forall>f\<in>set fs. length f \<le> n \<Longrightarrow> length (concat fs) \<le> length fs * n"
  by (induction fs) (auto simp: add_mono)

lemma store_takes:
  assumes st: "MmapStore c pg True True (\<lambda>_. Inr []) = Inr s0" and two: "min_buffers c = 2"
    and bb: "0 < pg" "pg \<le> 2 ^ 32 \<and> buffer_bytes c \<noteq> 0 \<and> buffer_bytes c \<le> 2 ^ 32"
    and len: "\<forall>f\<in>set fs. 33 \<le> length f \<and> length f \<le> n" and n: "n < 2 ^ 32" and fit: "length fs * (4 + n) \<le> buffer_bytes c"
  shows "\<exists>s. fresh_step\<^sup>*\<^sup>* s0 s \<and> map snd (acks s) = fs \<and> spcs s 0 = FDone (length fs) \<and> \<not> stopped s \<and> sent s = fs
    \<and> Mmap_Store.started s0 \<and> files_open s0"
proof -
  have z: "\<forall>k::nat. \<exists>z::bytes. (Inr [] :: bytes res) = Inr z \<and> list_all (\<lambda>x. x = 0) z" by simp
  have "frames_size fs = 4 * length fs + length (concat fs)" by (induction fs) simp_all
  then have size: "frames_size fs \<le> length fs * (4 + n)" using length_sum [of fs n] len by (simp add: algebra_simps)
  have "buffer_bytes (normalise c) = buffer_bytes c" using bb by (simp add: normalise_def Let_def)
  moreover have "buffer_bytes c \<le> RoundUpToPage pg (buffer_bytes c)" using bb by (intro round_up_bounds) simp_all
  ultimately have room: "frames_size fs \<le> RoundUpToPage pg (buffer_bytes (normalise c))" using fit size by simp
  have ok: "list_all frame_ok fs" using len n by (force simp: list_all_iff frame_ok_def)
  from smooth_start [OF st z room] have sm: "Mmap_Store.started s0" "files_open s0" "smooth fs (trial_start s0 (\<lambda>_. fs) [0])" by blast+
  obtain as h m where run: "run_acts (trial_exec fresh_exec) as (trial_start s0 (\<lambda>_. fs) [0]) = Some h"
    and fin: "flushing h" "spcs (hs h) 0 = FDone m"
    using trial_completes [OF st z two, of "[0]" "\<lambda>_. fs"] ok room by auto
  have "trial_ok UNIV (trial_start s0 (\<lambda>_. fs) [0])" by (rule trial_start_ok [OF sm(1)]) simp
  from smooth_runs [OF fresh_is_store [OF run] this sm(3) ok] have t: "trial_ok UNIV h" "smooth fs h" by blast+
  then have acks: "map snd (acks (hs h)) = fs" using fin(1) by (simp add: smooth_def)
  have "m = length (acks (hs h))" using t(1) fin by (auto simp: trial_ok_def flush_phase_def)
  then have m: "m = length fs" using acks by (metis length_map)
  have "sent (hs h) = fs" using joined_flush_accounts [OF sm(1,2) _ run fin, of UNIV] acks by simp
  moreover have "fresh_step\<^sup>*\<^sup>* s0 (hs h)" using trial_run [OF run] by (intro fresh_run_steps) (simp add: trial_start_def)
  moreover have "\<not> stopped (hs h)" using t(1) by (simp add: trial_ok_def)
  ultimately show ?thesis using acks fin(2) m sm(1,2) by (intro exI [of _ "hs h"]) blast
qed

lemma store_opens: "\<exists>s. MmapStore c pg True True (\<lambda>_. Inr []) = Inr s"
proof -
  have "\<exists>bs. prealloc (\<lambda>_. Inr []) cap i n = Inr bs" for cap i n
    by (induction n arbitrary: i) (simp, metis prealloc.simps(2) sum.case(2))
  then obtain bs where "prealloc (\<lambda>_. Inr []) (RoundUpToPage pg (buffer_bytes (normalise c))) 0 (min_buffers (normalise c)) = Inr bs"
    by blast
  then show ?thesis by (simp add: MmapStore_def Let_def)
qed

lemma demo_session:
  assumes cf: "mmap_min_buffers cf = 2" "16 * 1024 \<le> mmap_buffer_bytes cf" "mmap_buffer_bytes cf \<le> 2 ^ 32" "zlib_level cf = 6"
      "64 * 1024 \<le> shard_size_bytes cf"
    and n: "length msgs \<le> 100" "length T \<le> 20" and T: "make_record 1 2 ` set msgs \<subseteq> set T"
  shows "\<exists>es. session (demo_libs T) cf (MakeAuditKeypair (demo_libs T) srv) eph msgs es"
proof -
  let ?L = "demo_libs T" and ?kp = "MakeAuditKeypair (demo_libs T) srv" and ?pg = 4096 and ?dsk = "\<lambda>_. Inr [] :: bytes res"
  have g: "good sample_open" by (simp add: good_def sample_open_def kHeaderBytes_def)
  have "\<exists>k. SinkCreate (l_pub ?L) (l_agree ?L) (l_hkdf ?L) eph (replicate 8 6) (server_pub_key_path cf)
      (WriteServerPubFile ?kp) 6 = Inr (k, 6, replicate 32 1) \<and> counter k = 0 \<and> length (nonce_prefix k) = 8"
    by (simp add: SinkCreate_def LoadServerPublicKey_def WriteServerPubFile_def MakeAuditKeypair_def demo_libs_def
        DeriveSharedSecret_def HkdfSha256_def AesGcmCipher_def kKeyBytes_def ZlibCompressor_def del: replicate.simps)
  then obtain c where c: "SinkCreate (l_pub ?L) (l_agree ?L) (l_hkdf ?L) eph (replicate 8 6)
      (server_pub_key_path cf) (WriteServerPubFile ?kp) 6 = Inr (c, 6, replicate 32 1)" "counter c = 0" "length (nonce_prefix c) = 8"
    by blast
  have "kHeaderBytes < shard_size_bytes cf" using cf(5) by (simp add: kHeaderBytes_def)
  then obtain w where w: "ShardWriter (log_dir cf) (shard_size_bytes cf) (replicate 32 1) None sample_open = Inr w"
    using ShardWriter_ok [OF g, of "replicate 32 1"] by (auto simp del: replicate.simps)
  obtain s0 where s0: "MmapStore (store_config cf) ?pg True True ?dsk = Inr s0"
    using store_opens by blast
  obtain k where k: "CreateSink (l_pub ?L) (l_agree ?L) (l_hkdf ?L) eph (replicate 8 6) (WriteServerPubFile ?kp)
      True None sample_open ?pg ?dsk cf = Inr k" "sk_cipher k = c" "sk_writer k = w" "sk_store k = s0"
    using c(1) w s0 cf(4) by (auto simp: CreateSink_def SinkConstruct_def Let_def simp del: replicate.simps)
  have "unat (counter c) + length msgs < 2 ^ 32" using n(1) c(2) by simp
  from demo_log_msgs [OF this c(3) T, of "[]"] obtain c' fs outs where
    lg: "log_msgs (sink_log ?L accept) msgs (c, []) = Some ((c', fs), outs)" "set outs \<subseteq> {Inr ()}"
      "length fs = length msgs" "\<forall>f\<in>set fs. 33 \<le> length f \<and> length f \<le> 33 + 2 * length T" by auto
  then have short: "\<forall>f\<in>set fs. 33 \<le> length f \<and> length f \<le> 73" using n(2) by fastforce
  have "length fs * (4 + 73) \<le> buffer_bytes (store_config cf)" using lg(3) n(1) cf(2) by (simp add: store_config_def)
  then obtain s where s: "fresh_step\<^sup>*\<^sup>* s0 s" "map snd (acks s) = fs" "spcs s 0 = FDone (length fs)" "\<not> stopped s" "sent s = fs"
    and st: "Mmap_Store.started s0 \<and> files_open s0"
    using store_takes [OF s0 _ _ _ short] cf by (auto simp: store_config_def)
  have small: "\<forall>f\<in>set fs. length f < 2 ^ 32" using short by fastforce
  define cs where "cs = map (\<lambda>f. (f, sample_open, length f)) fs"
  have cs: "map fst cs = fs" "\<forall>x\<in>set cs. good_call x" "length cs + 1 < 2 ^ 32"
    using g n(1) lg(3) by (auto simp: cs_def good_call_def comp_def)
  have "length (concat fs) \<le> length fs * 73" using length_sum [of fs 73] short by blast
  also have "\<dots> \<le> 7300" using lg(3) n(1) by simp
  finally have "length (concat fs) \<le> 7300" .
  then have "kHeaderBytes + length (concat (map fst cs)) \<le> shard_size_bytes cf"
    using cs(1) cf(5) by (simp add: kHeaderBytes_def)
  from one_shard [OF w g cs(2,3) this] obtain nm b where
    fl: "files (persist_all cs w) = [(path_join (log_dir cf) nm, b)]" "IsShardFilename nm" by blast
  let ?es = "[\<lparr>de_name = nm, de_regular = True, de_content = Some b\<rparr>]"
  have "session ?L cf ?kp eph msgs ?es"
    unfolding session_def
    by (rule exI [of _ "replicate 8 6"], rule exI [of _ None], rule exI [of _ sample_open], rule exI [of _ ?pg], rule exI [of _ ?dsk],
      rule exI [of _ k], rule exI [of _ c'], rule exI [of _ fs], rule exI [of _ outs], rule exI [of _ s], rule exI [of _ 0],
      rule exI [of _ cs])
      (use k lg(1,2) s st small cs g fl in \<open>simp del: replicate.simps\<close>)
  then show ?thesis by blast
qed

lemma demo_pub: "l_pub (demo_libs T) eph = replicate 32 1"
  by (simp add: demo_libs_def del: replicate.simps)

lemma demo_key_nonzero: "l_pub (demo_libs T) eph \<noteq> replicate 32 0"
proof
  assume "l_pub (demo_libs T) eph = replicate 32 0"
  then have "replicate 32 (1 :: byte) ! 0 = replicate 32 0 ! 0" unfolding demo_pub by simp
  then show False by simp
qed

definition smoke_bodies :: "string list" where
  "smoke_bodies = map case1_body [0..<2] @ map case2_body [0..<2] @ case4_bodies 2 2 @ [''header check'']"

definition smoke_libs :: "(bytes, bool) libs" where
  "smoke_libs = demo_libs (map (make_record 1 2 \<circ> MakeSmokeMsg 0) smoke_bodies)"

lemma smoke_session:
  assumes "mmap_min_buffers cf = 2" "16 * 1024 \<le> mmap_buffer_bytes cf" "mmap_buffer_bytes cf \<le> 2 ^ 32" "zlib_level cf = 6"
    "64 * 1024 \<le> shard_size_bytes cf" and "length bodies \<le> 100" and "set bodies \<subseteq> set smoke_bodies"
  shows "\<exists>es. session smoke_libs cf (MakeAuditKeypair smoke_libs srv) eph (map (MakeSmokeMsg 0) bodies) es"
  unfolding smoke_libs_def
proof (rule demo_session [OF assms(1-5)])
  show "length (map (MakeSmokeMsg 0) bodies) \<le> 100" using assms(6) by simp
  show "length (map (make_record 1 2 \<circ> MakeSmokeMsg 0) smoke_bodies) \<le> 20"
    by (simp add: smoke_bodies_def case4_bodies_all)
  show "make_record 1 2 ` set (map (MakeSmokeMsg 0) bodies) \<subseteq> set (map (make_record 1 2 \<circ> MakeSmokeMsg 0) smoke_bodies)"
    using assms(7) by auto
qed

theorem sink_cases_pass_witness:
  "\<exists>es1 es2 es4 es6.
     session smoke_libs (BaseConfig ''c1'' ''pub'') (MakeAuditKeypair smoke_libs (replicate 32 2)) [] (map (MakeSmokeMsg 0) (map case1_body [0..<2])) es1
     \<and> session smoke_libs (case4_cfg ''c4'' ''pub'') (MakeAuditKeypair smoke_libs (replicate 32 2)) [] (map (MakeSmokeMsg 0) (rev (case4_bodies 2 2))) es4
     \<and> bindc (decode_all smoke_libs (MakeAuditKeypair smoke_libs (replicate 32 2)) [] es1) (case1_checks 2) = Some (Inr ())
     \<and> case2_checks 2 es2 (decode_all smoke_libs (MakeAuditKeypair smoke_libs (replicate 32 2)) [])
        = Some (if 2 \<le> length (ListShards es2) then Inr () else Inl (Exit ''case2 expected multiple shards''))
     \<and> bindc (decode_all smoke_libs (MakeAuditKeypair smoke_libs (replicate 32 2)) [] es4) (case4_checks 2 2) = Some (Inr ())
     \<and> case6_checks es6 = Some (Inr ())"
proof -
  let ?kp = "MakeAuditKeypair smoke_libs (replicate 32 2)"
  note cfgs = BaseConfig_def default_config_def case2_cfg_def case4_cfg_def case6_cfg_def
  note ex = smoke_session [of _ _ "replicate 32 2" "[]"]
  have doc: "documented smoke_libs" "l_pub smoke_libs [] \<noteq> replicate 32 0"
    unfolding smoke_libs_def by (rule demo_documented, rule demo_key_nonzero)
  obtain es1 where es1: "session smoke_libs (BaseConfig ''c1'' ''pub'') ?kp [] (map (MakeSmokeMsg 0) (map case1_body [0..<2])) es1"
    using ex [of "BaseConfig ''c1'' ''pub''" "map case1_body [0..<2]"] by (auto simp: cfgs smoke_bodies_def)
  obtain es2 where es2: "session smoke_libs (case2_cfg ''c2'' ''pub'') ?kp [] (map (MakeSmokeMsg 0) (map case2_body [0..<2])) es2"
    using ex [of "case2_cfg ''c2'' ''pub''" "map case2_body [0..<2]"] by (auto simp: cfgs smoke_bodies_def)
  obtain es4 where es4: "session smoke_libs (case4_cfg ''c4'' ''pub'') ?kp [] (map (MakeSmokeMsg 0) (rev (case4_bodies 2 2))) es4"
    using ex [of "case4_cfg ''c4'' ''pub''" "rev (case4_bodies 2 2)"] by (auto simp: cfgs smoke_bodies_def case4_bodies_all)
  have "set (replicate 100 ''header check'') \<subseteq> set smoke_bodies" by (simp add: set_replicate_conv_if smoke_bodies_def)
  then obtain es6 where es6: "session smoke_libs (case6_cfg ''c6'' ''pub'') ?kp [] (map (MakeSmokeMsg 0) (replicate 100 ''header check'')) es6"
    using ex [of "case6_cfg ''c6'' ''pub''" "replicate 100 ''header check''"]
    by (auto simp: cfgs simp del: replicate.simps replicate_Suc map_replicate)
  show ?thesis
    using sink_cases_pass [OF doc(1) _ doc(2) es1 made_of_demo es2 made_of_demo es4 made_of_demo _ es6 made_of_demo,
        where rnd = "[]" and K = 2 and P = 2] es1 es4
    by (intro exI [of _ es1] exI [of _ es2] exI [of _ es4] exI [of _ es6]) (simp del: replicate.simps upt_rec_numeral)
qed

theorem log_survives_backpressure_witness:
  "\<exists>c' st' outs. log_msgs (sink_log smoke_libs (\<lambda>f (n::nat). (False, n + 1))) (replicate 3 (MakeSmokeMsg 0 ''header check'')) (demo_cipher, 0)
       = Some ((c', st'), outs)
     \<and> length outs = 3 \<and> case5_checks outs = Some (Inr ())"
proof -
  have doc: "documented smoke_libs" unfolding smoke_libs_def by (rule demo_documented)
  have "unfailing smoke_libs (replicate 3 (MakeSmokeMsg 0 ''header check''))"
    unfolding unfailing_def smoke_libs_def by (auto simp: demo_libs_def demo_enc_def smoke_bodies_def)
  from log_survives_backpressure [OF doc this, of demo_cipher "\<lambda>f (n::nat). (False, n + 1)" 0]
  show ?thesis by (simp add: demo_cipher_def)
qed

end
