(* ===== verification/Sink_Durable.thy ===== *)
theory Sink_Durable
  imports Sink_Tests Shard_Durable
begin

text \<open>
  \<open>EffectiveSink::Flush\<close> and \<open>~EffectiveSink\<close> (sinks/effective_sink.cpp) over the store, the strand's drain and
  the writer down to the kernel: threads that are inside \<open>Flush\<close> or the destructor, with the order in which
  these call their parts, in any interleaving with \<open>Append\<close> and the drain. Shown: when \<open>Flush\<close> has returned, or the
  destructor, a kill of the process loses nothing of what was logged, and the audit reads it all.
\<close>

section \<open>Inside Flush and the destructor\<close>

text \<open>
  Where a thread is: in the store's \<open>Flush\<close> (the flag: called by the destructor), back from \<open>Flush\<close>, in the
  destructor before \<open>Stop\<close> of the evictor, destroying the members, and done. The number is history: the
  records that were acknowledged when the store's \<open>Flush\<close> took its lock.
\<close>

datatype sink_pc = Outside | Storing bool | Flushed nat | Closing nat | Dropping nat | Gone nat

text \<open>
  \<open>rs_inside\<close>: the threads in \<open>Flush\<close>; \<open>rs_dying\<close>: the one in the destructor (no call starts or is
  running then: the owner's duty). \<open>rs_calls\<close> is history, the calls of \<open>OnPersist_\<close> with their replies.
\<close>

record running_sink =
  rs_store :: store
  rs_shards :: durable
  rs_evictor :: runner
  rs_pc :: "nat \<Rightarrow> sink_pc"
  rs_inside :: "nat list"
  rs_dying :: "nat option"
  rs_calls :: "(bytes \<times> open_reply \<times> nat) list"

definition running_init :: "sink \<Rightarrow> nat \<Rightarrow> running_sink" where
  "running_init k j =
     \<lparr>rs_store = sk_store k, rs_shards = opened (sk_writer k) j, rs_evictor = sk_evictor k, rs_pc = (\<lambda>_. Outside),
      rs_inside = [], rs_dying = None, rs_calls = []\<rparr>"

datatype sink_act =
    Work sact open_reply nat nat
  | SinkFlush nat
  | FlushWriter nat
  | DestroySink nat
  | StopEvictor nat
  | DropStore nat
  | DropLock nat
  | DropEnd nat
  | DropParts nat

text \<open>\<open>OnPersist_\<close>, which catches whatever \<open>WriteFrame\<close> throws.\<close>

definition on_persist :: "bytes \<Rightarrow> open_reply \<Rightarrow> nat \<Rightarrow> nat \<Rightarrow> running_sink \<Rightarrow> running_sink" where
  "on_persist d o1 n j r =
     r\<lparr>rs_shards := snd (write_frame d o1 n j (rs_shards r)), rs_calls := rs_calls r @ [(d, o1, n)]\<rparr>"

text \<open>The steps of the store that are not the beginning of \<open>Flush\<close> or part of the destructor; \<open>Log\<close> is the owner's.\<close>

definition free_act :: "running_sink \<Rightarrow> sact \<Rightarrow> bool" where
  "free_act r a = (case a of
       Mmap_Store.Flush t \<Rightarrow> False | Destroy t \<Rightarrow> False | DestroyLock t \<Rightarrow> False | DestroyEnd t \<Rightarrow> False
     | Append t d \<Rightarrow> rs_dying r = None | _ \<Rightarrow> True)"

definition work :: "sact \<Rightarrow> open_reply \<Rightarrow> nat \<Rightarrow> nat \<Rightarrow> running_sink \<Rightarrow> running_sink option" where
  "work a o1 n j r =
     (case fresh_exec a (rs_store r) of
        None \<Rightarrow> None
      | Some s' \<Rightarrow>
          (case (a, task (rs_store r)) of
             (DrainFrame ok, DWalk b (d # ds)) \<Rightarrow> if ok then Some ((on_persist d o1 n j r)\<lparr>rs_store := s'\<rparr>) else None
           | _ \<Rightarrow> Some (r\<lparr>rs_store := s'\<rparr>)))"

definition call_store :: "sact \<Rightarrow> nat \<Rightarrow> sink_pc \<Rightarrow> running_sink \<Rightarrow> running_sink option" where
  "call_store a t p r =
     (case fresh_exec a (rs_store r) of
        None \<Rightarrow> None
      | Some s' \<Rightarrow> Some (r\<lparr>rs_store := s', rs_pc := (rs_pc r)(t := p)\<rparr>))"

fun rexec :: "sink_act \<Rightarrow> running_sink \<Rightarrow> running_sink option" where
  "rexec (Work a o1 n j) r = (if free_act r a then work a o1 n j r else None)"
| "rexec (SinkFlush t) r =
     (if rs_dying r = None \<and> t \<notin> set (rs_inside r)
      then call_store (Mmap_Store.Flush t) t (Storing False) (r\<lparr>rs_inside := t # rs_inside r\<rparr>) else None)"
| "rexec (DestroySink t) r =
     (if rs_dying r = None \<and> rs_inside r = []
      then call_store (Mmap_Store.Flush t) t (Storing True) (r\<lparr>rs_dying := Some t\<rparr>) else None)"
| "rexec (FlushWriter t) r =
     (case (rs_pc r t, spcs (rs_store r) t) of
        (Storing dt, FDone m) \<Rightarrow>
          Some (r\<lparr>rs_shards := Shard_Durable.Flush (rs_shards r), rs_inside := removeAll t (rs_inside r),
                  rs_pc := (rs_pc r)(t := if dt then Closing m else Flushed m)\<rparr>)
      | _ \<Rightarrow> None)"
| "rexec (StopEvictor t) r =
     (case rs_pc r t of
        Closing m \<Rightarrow> Some (r\<lparr>rs_evictor := Stop (rs_evictor r), rs_pc := (rs_pc r)(t := Dropping m)\<rparr>)
      | _ \<Rightarrow> None)"
| "rexec (DropStore t) r = (case rs_pc r t of Dropping m \<Rightarrow> call_store (Destroy t) t (Dropping m) r | _ \<Rightarrow> None)"
| "rexec (DropLock t) r = (case rs_pc r t of Dropping m \<Rightarrow> call_store (DestroyLock t) t (Dropping m) r | _ \<Rightarrow> None)"
| "rexec (DropEnd t) r = (case rs_pc r t of Dropping m \<Rightarrow> call_store (DestroyEnd t) t (Dropping m) r | _ \<Rightarrow> None)"
| "rexec (DropParts t) r =
     (case rs_pc r t of
        Dropping m \<Rightarrow>
          if destroyed (rs_store r)
          then Some (r\<lparr>rs_evictor := Stop (rs_evictor r), rs_shards := DestroyWriter (rs_shards r),
                       rs_pc := (rs_pc r)(t := Gone m)\<rparr>)
          else None
      | _ \<Rightarrow> None)"

section \<open>What the steps keep\<close>

definition same_life :: "store \<Rightarrow> store \<Rightarrow> bool" where
  "same_life s s' \<longleftrightarrow> stopped s' = stopped s \<and> destroyed s' = destroyed s"

lemma same_lifeI: "stopped s' = stopped s \<Longrightarrow> destroyed s' = destroyed s \<Longrightarrow> same_life s s'"
  by (simp add: same_life_def)

lemma life_free: "AcquireFreeBufferLocked s = (r, s1) \<Longrightarrow> same_life s s1"
  by (auto simp: AcquireFreeBufferLocked_def same_life_def split: list.splits if_splits sum.splits)

lemma life_wait: "AcquireAfterWait s = (r, s1) \<Longrightarrow> same_life s s1"
  by (auto simp: AcquireAfterWait_def same_life_def split: list.splits if_splits)

lemma life_swap:
  "same_life s s1 \<Longrightarrow> same_life s (swap_append t d (r, s1)) \<and> same_life s (swap_flush t dt n (r, s1))"
  by (cases r) (simp_all add: same_life_def swap_append_def swap_flush_def SwapMasterLocked_def set_spc_def)

lemma life_lock:
  "same_life s (swap_append t d (AcquireFreeBufferLocked s))" "same_life s (swap_append t d (AcquireAfterWait s))"
  "same_life s (swap_flush t dt n (AcquireFreeBufferLocked s))" "same_life s (swap_flush t dt n (AcquireAfterWait s))"
  by (metis life_free life_swap surj_pair, metis life_wait life_swap surj_pair,
      metis life_free life_swap surj_pair, metis life_wait life_swap surj_pair)

lemma life_step:
  assumes "sexec a s = Some s'" and "\<And>t. a \<noteq> DestroyLock t" and "\<And>t. a \<noteq> DestroyEnd t"
  shows "same_life s s'"
proof (cases a)
  case (DestroyLock t) with assms(2) show ?thesis by blast
next
  case (DestroyEnd t) with assms(3) show ?thesis by blast
qed (use assms(1) in
    \<open>(auto intro: life_lock same_lifeI simp: flush_exit_def locked_Some Let_def set_spc_def
        split: spc.splits drain.splits list.splits prod.splits if_splits)[1]\<close>)+

text \<open>All bytes that \<open>fwrite\<close> took have left stdio.\<close>

definition handed_on :: "durable \<Rightarrow> bool" where
  "handed_on d \<longleftrightarrow> (\<forall>p. handed d p = file_len (wr d) p)"

lemma Flush_hands_on: "levels_ok d \<Longrightarrow> handed_on (Shard_Durable.Flush d)"
  using flush_open [of d] by (cases "file_open (wr d)")
    (auto simp: handed_on_def levels_ok_def Flush_def fflush_def fsync_def)

lemma destroy_hands_on: "levels_ok d \<Longrightarrow> handed_on (DestroyWriter d)"
  using close_ok [of d] by (auto simp: handed_on_def levels_ok_def DestroyWriter_def)

lemma handed_on_kill:
  assumes "handed_on d" and "distinct (map fst (files (wr d)))"
  shows "after_kill d = files (wr d)"
  unfolding after_kill_def
  by (rule map_idI) (use assms in \<open>auto simp: handed_on_def file_len_def dest: map_of_is_SomeI\<close>)

text \<open>The writer against its calls, and what a thread that is past the store's \<open>Flush\<close> knows.\<close>

fun past :: "sink_pc \<Rightarrow> nat option" where
  "past (Flushed m) = Some m"
| "past (Closing m) = Some m"
| "past (Dropping m) = Some m"
| "past (Gone m) = Some m"
| "past _ = None"

definition shards_ok :: "writer \<Rightarrow> running_sink \<Rightarrow> bool" where
  "shards_ok w r \<longleftrightarrow>
     levels_ok (rs_shards r) \<and> files (wr (rs_shards r)) = files (persist_all (rs_calls r) w)
     \<and> (\<not> destroyed (rs_store r) \<longrightarrow> wr (rs_shards r) = persist_all (rs_calls r) w)
     \<and> map fst (rs_calls r) = sent (rs_store r)"

definition flushed_ok :: "running_sink \<Rightarrow> bool" where
  "flushed_ok r \<longleftrightarrow> (\<forall>t m. past (rs_pc r t) = Some m \<longrightarrow>
     m \<le> length (sent (rs_store r)) \<and> (length (sent (rs_store r)) \<le> m \<longrightarrow> handed_on (rs_shards r)))"

fun ending :: "sink_pc \<Rightarrow> bool" where
  "ending Outside = False"
| "ending (Storing dt) = dt"
| "ending (Flushed m) = False"
| "ending (Closing m) = True"
| "ending (Dropping m) = True"
| "ending (Gone m) = True"

fun dropping :: "sink_pc \<Rightarrow> bool" where
  "dropping (Dropping m) = True"
| "dropping (Gone m) = True"
| "dropping _ = False"

definition callers_ok :: "running_sink \<Rightarrow> bool" where
  "callers_ok r \<longleftrightarrow>
     (\<forall>t. rs_pc r t = Storing False \<longrightarrow> t \<in> set (rs_inside r))
     \<and> (\<forall>t. ending (rs_pc r t) \<longrightarrow> rs_dying r = Some t \<and> rs_inside r = [])
     \<and> (stopped (rs_store r) \<longrightarrow> (\<exists>t. dropping (rs_pc r t)))"

definition sink_ok :: "store \<Rightarrow> writer \<Rightarrow> running_sink \<Rightarrow> bool" where
  "sink_ok s0 w r \<longleftrightarrow> shards_ok w r \<and> flushed_ok r \<and> callers_ok r \<and> fresh_step\<^sup>*\<^sup>* s0 (rs_store r)"

lemma dropping_ending: "dropping p \<Longrightarrow> ending p"
  by (cases p) simp_all

lemma no_flush_when_stopped:
  assumes "callers_ok r" and "rs_pc r t = Storing dt"
  shows "\<not> stopped (rs_store r)"
proof
  assume "stopped (rs_store r)"
  with assms(1) obtain u where u: "dropping (rs_pc r u)" "rs_dying r = Some u" "rs_inside r = []"
    unfolding callers_ok_def using dropping_ending by blast
  then have "u \<noteq> t" using assms(2) by auto
  with u assms show False by (cases dt) (auto simp: callers_ok_def)
qed

text \<open>A step of the store that hands no frame on, with what the destructor's steps may change.\<close>

lemma fresh_exec_Some: "fresh_exec a s = Some s' \<Longrightarrow> sexec a s = Some s' \<and> \<not> destroyed s \<and> fresh_step s s'"
  by (auto simp: fresh_exec_def fresh_step_def acts_step_def store_exec_def split: if_splits)

lemma work_cases:
  assumes "work a o1 n j r = Some r'"
  obtains s' where "fresh_exec a (rs_store r) = Some s'" and "r' = r\<lparr>rs_store := s'\<rparr>" and "same_out (rs_store r) s'"
  | s' d where "fresh_exec a (rs_store r) = Some s'" and "r' = (on_persist d o1 n j r)\<lparr>rs_store := s'\<rparr>"
      and "sent s' = sent (rs_store r) @ [d]"
proof -
  obtain s' where ex: "fresh_exec a (rs_store r) = Some s'"
    using assms by (auto simp: work_def split: option.splits)
  note sx = fresh_exec_Some [OF ex]
  show thesis
  proof (cases "\<exists>ok b d ds. a = DrainFrame ok \<and> task (rs_store r) = DWalk b (d # ds)")
    case True
    then obtain ok b d ds where a: "a = DrainFrame ok" "task (rs_store r) = DWalk b (d # ds)"
      by (elim exE conjE)
    with assms ex have "r' = (on_persist d o1 n j r)\<lparr>rs_store := s'\<rparr>"
      by (simp add: work_def split: if_splits)
    with a sx ex show thesis by (intro that(2) [of s' d]) auto
  next
    case False
    then have "r' = r\<lparr>rs_store := s'\<rparr>"
      using assms ex by (cases a; cases "task (rs_store r)") (auto simp: work_def split: list.splits)
    moreover have "same_out (rs_store r) s'" using sx False by (intro quiet_step [of a]) auto
    ultimately show thesis using ex that(1) by blast
  qed
qed

lemma call_store_Some:
  assumes "call_store a t p r = Some r'" and "\<nexists>ok. a = DrainFrame ok"
  obtains s' where "fresh_exec a (rs_store r) = Some s'" and "r' = r\<lparr>rs_store := s', rs_pc := (rs_pc r)(t := p)\<rparr>"
    and "same_out (rs_store r) s'"
proof -
  obtain s' where ex: "fresh_exec a (rs_store r) = Some s'"
    using assms(1) by (auto simp: call_store_def split: option.splits)
  have "same_out (rs_store r) s'" using fresh_exec_Some [OF ex] assms(2) by (intro quiet_step [of a]) auto
  with ex assms(1) show thesis by (intro that [of s']) (simp_all add: call_store_def)
qed

lemma wr_frame: "wr (snd (write_frame d o1 n j s)) = snd (WriteFrame d o1 n (wr s))"
  using write_frame_refines [of d o1 n j s] by (simp add: above_def) (metis snd_conv)


text \<open>A frame handed on.\<close>

lemma persist_ok:
  assumes ok: "shards_ok w r" "flushed_ok r" and live: "\<not> destroyed (rs_store r)" and snt: "sent s' = sent (rs_store r) @ [d]"
    and r': "r' = (on_persist d o1 n j r)\<lparr>rs_store := s'\<rparr>"
  shows "shards_ok w r' \<and> flushed_ok r'"
proof
  have "wr (rs_shards r) = persist_all (rs_calls r) w" using ok(1) live by (simp add: shards_ok_def)
  then have "wr (rs_shards r') = persist_all (rs_calls r') w"
    by (simp add: r' on_persist_def wr_frame persist_all_snoc OnPersist_writer)
  moreover have "levels_ok (rs_shards r')" using ok(1) write_ok by (simp add: r' on_persist_def shards_ok_def)
  ultimately show "shards_ok w r'" using ok(1) snt by (simp add: r' on_persist_def shards_ok_def)
  show "flushed_ok r'" using ok(2) snt by (fastforce simp: r' on_persist_def flushed_ok_def)
qed

text \<open>A step of the store that hands none on, made by the thread \<open>t\<close> (or nobody).\<close>

lemma store_ok:
  assumes ok: "shards_ok w r" "flushed_ok r" and live: "\<not> destroyed (rs_store r)" and out: "same_out (rs_store r) s'"
    and past: "\<And>u. past (pc u) = None \<or> past (pc u) = past (rs_pc r u)"
  shows "shards_ok w (r\<lparr>rs_store := s', rs_pc := pc\<rparr>) \<and> flushed_ok (r\<lparr>rs_store := s', rs_pc := pc\<rparr>)"
proof
  show "shards_ok w (r\<lparr>rs_store := s', rs_pc := pc\<rparr>)" using ok(1) live out by (simp add: shards_ok_def same_out_def)
  have "past (rs_pc r u) = Some m" if "past (pc u) = Some m" for u m using past [of u] that by auto
  then show "flushed_ok (r\<lparr>rs_store := s', rs_pc := pc\<rparr>)" using ok(2) out by (auto simp: flushed_ok_def same_out_def)
qed

lemma ok_fields:
  "shards_ok w (r\<lparr>rs_inside := l, rs_dying := x\<rparr>) = shards_ok w r" "flushed_ok (r\<lparr>rs_inside := l, rs_dying := x\<rparr>) = flushed_ok r"
  by (simp_all add: shards_ok_def flushed_ok_def)


text \<open>The callers, step by step.\<close>

lemma callers_store:
  assumes "callers_ok r" and "rs_pc r' = rs_pc r" and "rs_inside r' = rs_inside r" and "rs_dying r' = rs_dying r"
    and "stopped (rs_store r') = stopped (rs_store r)"
  shows "callers_ok r'"
  using assms by (simp add: callers_ok_def)

lemma callers_flush:
  assumes "callers_ok r" and "rs_dying r = None" and "stopped s' = stopped (rs_store r)"
  shows "callers_ok (r\<lparr>rs_inside := t # rs_inside r, rs_store := s', rs_pc := (rs_pc r)(t := Storing False)\<rparr>)"
  using assms dropping_ending by (auto simp: callers_ok_def)

lemma callers_destroy:
  assumes "callers_ok r" and "rs_dying r = None" and "rs_inside r = []" and "stopped s' = stopped (rs_store r)"
  shows "callers_ok (r\<lparr>rs_dying := Some t, rs_store := s', rs_pc := (rs_pc r)(t := Storing True)\<rparr>)"
  using assms dropping_ending by (auto simp: callers_ok_def)

lemma callers_back:
  assumes "callers_ok r" and "rs_pc r t = Storing dt"
  shows "callers_ok (r\<lparr>rs_shards := d, rs_inside := removeAll t (rs_inside r),
    rs_pc := (rs_pc r)(t := if dt then Closing m else Flushed m)\<rparr>)"
proof -
  have "rs_dying r = Some t \<and> rs_inside r = []" if "dt"
    using assms that unfolding callers_ok_def by (metis ending.simps(2))
  then show ?thesis
    using assms(1) no_flush_when_stopped [OF assms] by (auto simp: callers_ok_def)
qed

lemma callers_dying:
  assumes "callers_ok r" and "ending (rs_pc r t)" and "dropping p"
    and r': "rs_pc r' = (rs_pc r)(t := p)" "rs_inside r' = rs_inside r" "rs_dying r' = rs_dying r"
  shows "callers_ok r'"
proof -
  have t: "rs_dying r = Some t" "rs_inside r = []" "\<And>u. ending (rs_pc r u) \<Longrightarrow> u = t"
    using assms(1,2) unfolding callers_ok_def by (blast, blast, metis option.inject)
  have "p \<noteq> Storing False" "ending p" using assms(3) by (cases p; simp)+
  then show ?thesis using assms(1,3) t by (auto simp: callers_ok_def r')
qed

lemma flush_step_stopped: "sexec (Mmap_Store.Flush t) s = Some s' \<Longrightarrow> stopped s' = stopped s"
  by (auto simp: set_spc_def split: if_splits)

lemma sink_ok_step:
  assumes ok: "sink_ok s0 w r" and s0: "Mmap_Store.started s0 \<and> files_open s0" and ex: "rexec a r = Some r'"
  shows "sink_ok s0 w r'"
proof -
  have inv: "shards_ok w r" "flushed_ok r" "callers_ok r" "fresh_step\<^sup>*\<^sup>* s0 (rs_store r)"
    using ok by (simp_all add: sink_ok_def)
  have steps: "fresh_step\<^sup>*\<^sup>* s0 s'" if "fresh_exec b (rs_store r) = Some s'" for b s'
    using rtranclp.rtrancl_into_rtrancl [OF inv(4)] fresh_exec_Some [OF that] by blast
  have drop: "sink_ok s0 w r'"
    if c: "call_store b t (Dropping m) r = Some r'" and m: "rs_pc r t = Dropping m" and b: "\<nexists>ok. b = DrainFrame ok" for b t m
    using c b
  proof (rule call_store_Some)
    fix s' assume s': "fresh_exec b (rs_store r) = Some s'" "same_out (rs_store r) s'"
      and r': "r' = r\<lparr>rs_store := s', rs_pc := (rs_pc r)(t := Dropping m)\<rparr>"
    have "\<not> destroyed (rs_store r)" using fresh_exec_Some [OF s'(1)] by blast
    from store_ok [OF inv(1,2) this s'(2), of "(rs_pc r)(t := Dropping m)"] m steps [OF s'(1)]
      callers_dying [OF inv(3), of t "Dropping m" r']
    show ?thesis by (simp add: r' sink_ok_def)
  qed
  show ?thesis
  proof (cases a)
    case (Work b o1 n j)
    then have wk: "work b o1 n j r = Some r'" and fr: "free_act r b" using ex by (simp_all split: if_splits)
    have life: "same_life (rs_store r) s'" if "fresh_exec b (rs_store r) = Some s'" for s'
      using fresh_exec_Some [OF that] fr by (intro life_step [of b]) (auto simp: free_act_def)
    from wk show ?thesis
    proof (cases rule: work_cases)
      case (1 s')
      have "\<not> destroyed (rs_store r)" using fresh_exec_Some [OF 1(1)] by blast
      from store_ok [OF inv(1,2) this 1(3), of "rs_pc r"] callers_store [OF inv(3), of r'] life [OF 1(1)] steps [OF 1(1)]
      show ?thesis by (simp add: 1(2) sink_ok_def same_life_def)
    next
      case (2 s' d)
      have "\<not> destroyed (rs_store r)" using fresh_exec_Some [OF 2(1)] by blast
      from persist_ok [OF inv(1,2) this 2(3,2)] callers_store [OF inv(3), of r'] life [OF 2(1)] steps [OF 2(1)]
      show ?thesis by (simp add: 2(2) sink_ok_def same_life_def on_persist_def)
    qed
  next
    case (SinkFlush t)
    then have c: "call_store (Mmap_Store.Flush t) t (Storing False) (r\<lparr>rs_inside := t # rs_inside r\<rparr>) = Some r'"
      and d: "rs_dying r = None" using ex by (simp_all split: if_splits)
    from c obtain s' where s': "fresh_exec (Mmap_Store.Flush t) (rs_store r) = Some s'"
        "r' = r\<lparr>rs_inside := t # rs_inside r, rs_store := s', rs_pc := (rs_pc r)(t := Storing False)\<rparr>" "same_out (rs_store r) s'"
      by (rule call_store_Some) simp_all
    note f = fresh_exec_Some [OF s'(1)]
    have "stopped s' = stopped (rs_store r)" using f flush_step_stopped by blast
    from callers_flush [OF inv(3) d this] store_ok [OF inv(1,2) _ s'(3), of "(rs_pc r)(t := Storing False)"] f steps [OF s'(1)]
    show ?thesis by (simp add: s'(2) sink_ok_def shards_ok_def flushed_ok_def)
  next
    case (DestroySink t)
    then have c: "call_store (Mmap_Store.Flush t) t (Storing True) (r\<lparr>rs_dying := Some t\<rparr>) = Some r'"
      and d: "rs_dying r = None" "rs_inside r = []" using ex by (simp_all split: if_splits)
    from c obtain s' where s': "fresh_exec (Mmap_Store.Flush t) (rs_store r) = Some s'"
        "r' = r\<lparr>rs_dying := Some t, rs_store := s', rs_pc := (rs_pc r)(t := Storing True)\<rparr>" "same_out (rs_store r) s'"
      by (rule call_store_Some) simp_all
    note f = fresh_exec_Some [OF s'(1)]
    have "stopped s' = stopped (rs_store r)" using f flush_step_stopped by blast
    from callers_destroy [OF inv(3) d this] store_ok [OF inv(1,2) _ s'(3), of "(rs_pc r)(t := Storing True)"] f steps [OF s'(1)]
    show ?thesis by (simp add: s'(2) sink_ok_def shards_ok_def flushed_ok_def)
  next
    case (FlushWriter t)
    then obtain dt m where m: "rs_pc r t = Storing dt" "spcs (rs_store r) t = FDone m"
      and r': "r' = r\<lparr>rs_shards := Shard_Durable.Flush (rs_shards r), rs_inside := removeAll t (rs_inside r),
                  rs_pc := (rs_pc r)(t := if dt then Closing m else Flushed m)\<rparr>"
      using ex by (auto split: sink_pc.splits spc.splits)
    have "m \<le> length (sent (rs_store r))"
      by (rule flush_reaches [OF s0 inv(4) m(2) no_flush_when_stopped [OF inv(3) m(1)]])
    moreover have "handed_on (Shard_Durable.Flush (rs_shards r))" using inv(1) Flush_hands_on by (simp add: shards_ok_def)
    ultimately show ?thesis
      using inv callers_back [OF inv(3) m(1)] Flush_ok
      by (auto simp: r' sink_ok_def shards_ok_def flushed_ok_def)
  next
    case (StopEvictor t)
    then obtain m where m: "rs_pc r t = Closing m"
      and r': "r' = r\<lparr>rs_evictor := Stop (rs_evictor r), rs_pc := (rs_pc r)(t := Dropping m)\<rparr>"
      using ex by (auto split: sink_pc.splits)
    have "m \<le> length (sent (rs_store r)) \<and> (length (sent (rs_store r)) \<le> m \<longrightarrow> handed_on (rs_shards r))"
      using inv(2) m unfolding flushed_ok_def by (metis past.simps(2))
    with m inv callers_dying [OF inv(3), of t "Dropping m" r'] show ?thesis
      by (auto simp: r' sink_ok_def shards_ok_def flushed_ok_def)
  next
    case (DropParts t)
    then obtain m where m: "rs_pc r t = Dropping m" "destroyed (rs_store r)"
      and r': "r' = r\<lparr>rs_evictor := Stop (rs_evictor r), rs_shards := DestroyWriter (rs_shards r), rs_pc := (rs_pc r)(t := Gone m)\<rparr>"
      using ex by (auto split: sink_pc.splits if_splits)
    have d: "levels_ok (DestroyWriter (rs_shards r))" "files (wr (DestroyWriter (rs_shards r))) = files (wr (rs_shards r))"
        "handed_on (DestroyWriter (rs_shards r))"
      using inv(1) close_ok destroy_hands_on by (simp_all add: shards_ok_def DestroyWriter_def wr_close)
    have "m \<le> length (sent (rs_store r))"
      using inv(2) m(1) unfolding flushed_ok_def by (metis past.simps(3))
    with d inv m callers_dying [OF inv(3), of t "Gone m" r'] show ?thesis
      by (auto simp: r' sink_ok_def shards_ok_def flushed_ok_def)
  next
    case (DropStore t)
    then show ?thesis using drop [of "Destroy t" t] ex by (auto split: sink_pc.splits)
  next
    case (DropLock t)
    then show ?thesis using drop [of "DestroyLock t" t] ex by (auto split: sink_pc.splits)
  next
    case (DropEnd t)
    then show ?thesis using drop [of "DestroyEnd t" t] ex by (auto split: sink_pc.splits)
  qed
qed


section \<open>Runs\<close>

lemma persist_keys:
  assumes "distinct (map fst (files w))"
  shows "distinct (map fst (files (persist_all cs w)))"
  using assms by (induction cs w rule: persist_all.induct) (simp_all add: OnPersist_writer WriteFrame_keys)

lemma started_not_stopped: "Mmap_Store.started s \<Longrightarrow> \<not> stopped s"
  by (auto simp: Mmap_Store.started_def MmapStore_def Let_def split: if_splits sum.splits)

lemma sink_ok_init:
  assumes "ShardWriter d limit pub made o1 = Inr (sk_writer k)" and "Mmap_Store.started (sk_store k)"
  shows "sink_ok (sk_store k) (sk_writer k) (running_init k j)"
  using opened_ok [OF assms(1), of j] started_facts [OF assms(2)] started_not_stopped [OF assms(2)]
  by (auto simp: sink_ok_def running_init_def shards_ok_def flushed_ok_def callers_ok_def opened_def)

lemma sink_ok_run:
  "run_acts rexec as r = Some r' \<Longrightarrow> sink_ok s0 w r \<Longrightarrow> Mmap_Store.started s0 \<and> files_open s0 \<Longrightarrow> sink_ok s0 w r'"
  by (induction "as" arbitrary: r) (auto split: option.splits intro: sink_ok_step)

lemma flushed_kill:
  assumes made: "ShardWriter d limit pub made o1 = Inr (sk_writer k)" "Mmap_Store.started (sk_store k) \<and> files_open (sk_store k)"
    and run: "run_acts rexec as (running_init k j) = Some r" "map snd (acks (rs_store r)) = frames"
      "past (rs_pc r t) = Some (length frames)"
  shows "map fst (rs_calls r) = frames \<and> after_kill (rs_shards r) = files (persist_all (rs_calls r) (sk_writer k))"
proof -
  have "sink_ok (sk_store k) (sk_writer k) r"
    using sink_ok_run [OF run(1) sink_ok_init [OF made(1)]] made(2) by blast
  then have inv: "shards_ok (sk_writer k) r" "flushed_ok r" "fresh_step\<^sup>*\<^sup>* (sk_store k) (rs_store r)"
    by (simp_all add: sink_ok_def)
  have reach: "length frames \<le> length (sent (rs_store r))" using inv(2) run(3) by (simp add: flushed_ok_def)
  have snt: "sent (rs_store r) = frames" by (rule flushed_sent [OF made(2) inv(3) run(2) reach])
  have fl: "files (wr (rs_shards r)) = files (persist_all (rs_calls r) (sk_writer k))" "map fst (rs_calls r) = frames"
    using inv(1) snt by (simp_all add: shards_ok_def)
  have "handed_on (rs_shards r)" using inv(2) run(3) snt by (simp add: flushed_ok_def)
  moreover have "distinct (map fst (files (wr (rs_shards r))))"
    using persist_keys [of "sk_writer k" "rs_calls r"] ShardWriter_one_file [OF made(1)] fl(1) by simp
  ultimately show ?thesis using handed_on_kill fl by simp
qed



text \<open>One record, \<open>Flush\<close>, then the destructor to its end, with the libraries and the store of the demonstration.\<close>

definition one_libs :: "(bytes, bool) libs" where
  "one_libs = \<lparr>l_pub = (\<lambda>k. replicate 32 1), l_agree = (\<lambda>a b. Some (replicate 32 3)),
     l_hkdf = (\<lambda>n s salt info. Inr (replicate n 4)), l_ser = demo_ser, l_parse = demo_parse, l_pid = 1, l_tid = 2,
     l_defl = flag_deflate, l_bound = (\<lambda>n. 2 * n + 1), l_z0 = [], l_enc = demo_enc, l_dec = demo_dec,
     l_infl = flag_inflate, l_i0 = False\<rparr>"

definition one_config :: EffectiveSinkConfig where
  "one_config = (default_config ''logs'' ''server.pub'')\<lparr>shard_size_bytes := 100, mmap_buffer_bytes := 64, mmap_max_buffers := 2\<rparr>"

definition one_run :: "sink_act list" where
  "one_run =
     (let w = \<lambda>a. Work a sample_open 100 20
      in map w [Append 1 demo_frame, LoadMaster 1, TryWrite 1] @ [SinkFlush 1] @ map w (FlushLock 1 # drain_run [True])
         @ [w DrainDec, w (FlushReturn 1), FlushWriter 1]
         @ [DestroySink 1, w (FlushLock 1), w (FlushReturn 1), FlushWriter 1, StopEvictor 1]
         @ [DropStore 1, w (FlushLock 1), w (FlushReturn 1), DropLock 1, DropEnd 1, DropParts 1])"

lemma one_runs:
  assumes "sk_store k = demo_store"
  shows "\<exists>r. run_acts rexec one_run (running_init k j) = Some r \<and> map snd (acks (rs_store r)) = [demo_frame]
    \<and> rs_pc r 1 = Gone 1 \<and> rs_calls r = [(demo_frame, sample_open, 100)]"
  by (simp add: one_run_def running_init_def assms demo_frame_def demo_store_val(2) store_eval stale_def fresh_exec_def
      work_def call_store_def on_persist_def free_act_def del: small_store_val)



end
