(* ===== verification/Eviction_Test.thy ===== *)
theory Eviction_Test
  imports Sink_Tests
begin

text \<open>
  Case 3 of \<open>examples/effective_sink_smoke.cpp\<close>: the directory over which the evictor's thread sweeps while the test sleeps.
  The test looks at the total size of the shards; here, what a sweep leaves of a directory whose entries answer, and that the
  total is then within the limit of the test.
\<close>

text \<open>\<open>file_size\<close> answers the largest value when it fails; a total is of 64 bits.\<close>

definition file_size :: "dir_entry \<Rightarrow> nat" where
  "file_size e = (case de_content e of None \<Rightarrow> 2 ^ 64 - 1 | Some b \<Rightarrow> length b)"

definition subtotal :: "dir_entry list \<Rightarrow> nat" where
  "subtotal es = fold (\<lambda>e t. (t + file_size e) mod 2 ^ 64) es 0"

definition DirShardTotalSize :: "dir_entry list \<Rightarrow> nat" where
  "DirShardTotalSize es = subtotal (ListShards es)"

definition case3_cfg :: "string \<Rightarrow> string \<Rightarrow> EffectiveSinkConfig" where
  "case3_cfg d k = (BaseConfig d k)\<lparr>shard_size_bytes := 64 * 1024, dir_size_cap := 256 * 1024, eviction_interval := 1,
     mmap_buffer_bytes := 32 * 1024\<rparr>"

definition case3_body :: string where
  "case3_body = replicate 64 CHR ''x''"

definition slack_limit :: "EffectiveSinkConfig \<Rightarrow> nat" where
  "slack_limit cf = dir_size_cap cf + shard_size_bytes cf * 2"

definition case3_checks :: "EffectiveSinkConfig \<Rightarrow> dir_entry list \<Rightarrow> unit checked" where
  "case3_checks cf es = require (DirShardTotalSize es \<le> slack_limit cf) ''case3: directory grew past slack''"

text \<open>What the sweep sees of an entry, and the directory when it has removed files.\<close>

definition swept_view :: "dir_entry list \<Rightarrow> ev_entry list" where
  "swept_view es = map (\<lambda>e. \<lparr>ev_name = de_name e, ev_regular = (de_regular e, False), ev_size = map_option length (de_content e)\<rparr>) es"

definition without :: "entry list \<Rightarrow> dir_entry list \<Rightarrow> dir_entry list" where
  "without removed es = filter (\<lambda>e. de_name e \<notin> filename ` set removed) es"

section \<open>What is left\<close>

definition answers :: "dir_entry list \<Rightarrow> bool" where
  "answers es \<longleftrightarrow> (\<forall>e\<in>set es. de_regular e \<and> IsShardFile (de_name e) \<longrightarrow> de_content e \<noteq> None)"

abbreviation shards_of :: "dir_entry list \<Rightarrow> dir_entry list" where
  "shards_of es \<equiv> filter (\<lambda>e. de_regular e \<and> IsShardFile (de_name e)) es"

lemma looks_same: "LooksLikeShard n \<longleftrightarrow> IsShardFile n"
  by (simp add: LooksLikeShard_def IsShardFile_def)

lemma subtotal_sum: "subtotal es = sum_list (map file_size es) mod 2 ^ 64"
proof -
  have "fold (\<lambda>e t. (t + file_size e) mod 2 ^ 64) es (t mod 2 ^ 64) = (t + sum_list (map file_size es)) mod 2 ^ 64" for t
  proof (induction es arbitrary: t)
    case (Cons e es)
    have "(t mod 2 ^ 64 + file_size e) mod 2 ^ 64 = (t + file_size e) mod 2 ^ 64" by (rule mod_add_left_eq)
    with Cons [of "t + file_size e"] show ?case by (simp add: add.assoc)
  qed simp
  from this [of 0] show ?thesis by (simp add: subtotal_def)
qed

lemma total_size: "DirShardTotalSize es = sum_list (map file_size (shards_of es)) mod 2 ^ 64"
proof -
  have "mset (map file_size (ListShards es)) = mset (map file_size (shards_of es))" by (simp add: ListShards_def)
  then have "sum_list (map file_size (ListShards es)) = sum_list (map file_size (shards_of es))" by (metis sum_mset_sum_list)
  then show ?thesis by (simp only: DirShardTotalSize_def subtotal_sum)
qed

lemma scan_view:
  assumes "answers es"
  shows "scan (swept_view es) False acc tot
    = Some (acc @ map (\<lambda>e. \<lparr>filename = de_name e, fsize = file_size e\<rparr>) (shards_of es), tot + sum_list (map file_size (shards_of es)))"
  using assms
proof (induction es arbitrary: acc tot)
  case (Cons e es)
  then have "answers es" by (simp add: answers_def)
  with Cons show ?case by (auto simp: swept_view_def looks_same answers_def file_size_def del: One_nat_def)
qed (simp add: swept_view_def)


lemma sum_split:
  assumes "distinct xs" and "R \<subseteq> set xs"
  shows "sum_list (map f (filter (\<lambda>x. x \<notin> R) xs)) + sum f R = (sum_list (map f xs) :: nat)"
proof -
  have "sum_list (map f (filter (\<lambda>x. x \<notin> R) xs)) = sum f (set xs - R)"
    using assms(1) by (subst sum_list_distinct_conv_sum_set) (simp_all add: set_diff_eq)
  moreover have "sum_list (map f xs) = sum f (set xs)" using assms(1) by (simp add: sum_list_distinct_conv_sum_set)
  ultimately show ?thesis using assms(2) by (simp add: sum.subset_diff [OF assms(2)])
qed

text \<open>What a sweep that reads every entry and removes without error leaves: no more than the cap, or the active shard alone.\<close>

lemma sweep_leaves:
  assumes es: "answers es" "distinct (map de_name (shards_of es))"
    and canon: "inj_on (\<lambda>e. canon (path_join d (de_name e))) (set (shards_of es))"
    and active: "\<forall>e\<in>set (shards_of es). canon (path_join d (de_name e)) = canon active \<longrightarrow> file_size e \<le> limit"
  shows "sum_list (map file_size (shards_of (without (SweepOnce canon (\<lambda>_. False) cap d active (Some (swept_view es))) es)))
    \<le> max cap limit"
proof -
  let ?E = "\<lambda>e. \<lparr>filename = de_name e, fsize = file_size e\<rparr>" and ?S = "shards_of es" and ?ac = "active_path canon active"
  let ?en = "map ?E ?S" and ?tot = "sum_list (map file_size ?S)"
  define removed where "removed = SweepOnce canon (\<lambda>_. False) cap d active (Some (swept_view es))"
  have sc: "scan (swept_view es) False [] 0 = Some (?en, ?tot)" using scan_view [OF es(1), of "[]" 0] by simp
  define gone where "gone = {e \<in> set ?S. ?E e \<in> set removed}"
  have left: "shards_of (without removed es) = filter (\<lambda>e. de_name e \<notin> filename ` set removed) ?S"
    by (auto simp: without_def intro!: filter_cong)
  have dist: "distinct ?S" using es(2) by (simp add: distinct_map)
  have inj: "inj_on de_name (set ?S)" using es(2) by (simp add: distinct_map)
  show ?thesis
  proof (cases "?tot \<le> cap")
    case True
    then have "removed = []" by (simp add: removed_def SweepOnce_def sc)
    with True show ?thesis unfolding removed_def [symmetric] left by simp
  next
    case False
    obtain t where r: "remove_oldest canon (\<lambda>_. False) cap d ?ac (sort_key filename ?en) ?tot = (removed, t)"
      using False by (cases "remove_oldest canon (\<lambda>_. False) cap d ?ac (sort_key filename ?en) ?tot")
        (simp add: removed_def SweepOnce_def sc)
    have "sizes (sort_key filename ?en) = sizes ?en" by (rule sizes_mset) simp
    also have "\<dots> = ?tot" by (simp add: sizes_def comp_def)
    finally have "sizes (sort_key filename ?en) \<le> ?tot" by simp
    from remove_oldest_prefix [OF r this] obtain pre post where p: "sort_key filename ?en = pre @ post"
        "removed = filter (\<lambda>e. \<not> keepable canon (\<lambda>_. False) d ?ac e) pre" "t + sizes removed = ?tot" "post = [] \<or> t \<le> cap"
      by blast
    have "set (pre @ post) = set ?en" unfolding p(1) [symmetric] set_sort ..
    then have all: "set pre \<union> set post = ?E ` set ?S" by simp
    then have sub: "set removed \<subseteq> ?E ` set ?S" using p(2) by auto
    have mem: "de_name e \<in> filename ` set removed \<longleftrightarrow> e \<in> gone" if "e \<in> set ?S" for e
    proof -
      have "?E e \<in> set removed" if n: "de_name e = filename x" and x: "x \<in> set removed" for x
      proof -
        obtain e' where "e' \<in> set ?S" "x = ?E e'" using sub x by auto
        then have "e' = e" using n inj \<open>e \<in> set ?S\<close> by (auto dest: inj_onD)
        with x \<open>x = ?E e'\<close> show ?thesis by simp
      qed
      then show ?thesis using that by (force simp: gone_def)
    qed
    have eq: "shards_of (without removed es) = filter (\<lambda>e. e \<notin> gone) ?S" unfolding left by (rule filter_cong) (simp_all add: mem)
    have img: "?E ` gone = set removed" using sub by (auto simp: gone_def)
    have "inj_on ?E (set ?S)" using inj by (auto simp: inj_on_def)
    have "distinct ?en" using dist \<open>inj_on ?E (set ?S)\<close> by (simp add: distinct_map)
    then have "distinct (pre @ post)" using p(1) by (metis distinct_sort)
    then have "distinct removed" using p(2) by simp
    then have "sizes removed = sum fsize (set removed)" by (simp add: sizes_def sum_list_distinct_conv_sum_set)
    also have "\<dots> = sum (\<lambda>e. fsize (?E e)) gone"
      unfolding img [symmetric] by (rule sum.reindex_cong) (use \<open>inj_on ?E (set ?S)\<close> in \<open>auto simp: gone_def intro: inj_on_subset\<close>)
    finally have "sizes removed = sum file_size gone" by simp
    moreover have "gone \<subseteq> set ?S" by (auto simp: gone_def)
    ultimately have rest: "sum_list (map file_size (filter (\<lambda>e. e \<notin> gone) ?S)) = t"
      using sum_split [OF dist, of gone file_size] p(3) by simp
    show ?thesis
    proof (cases "t \<le> cap")
      case True
      then show ?thesis unfolding removed_def [symmetric] eq rest by simp
    next
      case big: False
      then have "post = []" using p(4) by blast
      have "canon (path_join d (de_name e)) = canon active" if "e \<in> set ?S" "e \<notin> gone" for e
      proof -
        have "?E e \<in> set pre" using all \<open>post = []\<close> that(1) by auto
        with p(2) that have "keepable canon (\<lambda>_. False) d ?ac (?E e)" by (auto simp: gone_def)
        then show ?thesis by (auto simp: keepable_def active_path_def split: if_splits option.splits)
      qed
      note kept = this
      let ?K = "filter (\<lambda>e. e \<notin> gone) ?S"
      have kd: "distinct ?K" by (rule distinct_filter [OF dist])
      have ki: "e = f" if "e \<in> set ?K" "f \<in> set ?K" for e f
        using inj_onD [OF canon, of e f] kept [of e] kept [of f] that by simp
      have kl: "file_size e \<le> limit" if "e \<in> set ?K" for e using active kept [of e] that by simp
      have "sum_list (map file_size ?K) \<le> limit"
      proof (cases ?K)
        case (Cons a K)
        then have "K = []" using ki [of a] kd by (cases K) auto
        then show ?thesis using Cons kl [of a] by simp
      qed simp
      then show ?thesis unfolding removed_def [symmetric] eq by simp
    qed
  qed
qed


text \<open>
  The directory stays within its cap. After a sweep over a directory whose shards answer and can be removed, with one canonical
  path each, the total size of what is left is at most the cap, or that of the active shard alone. The active shard is
  at most as large as the limit of a shard, so the check of the eviction test, which grants twice that on top of the cap, passes.
\<close>

theorem sweep_keeps_cap:
  assumes es: "answers es" "distinct (map de_name (shards_of es))"
    and canon: "inj_on (\<lambda>e. canon (path_join d (de_name e))) (set (shards_of es))"
    and active: "\<forall>e\<in>set (shards_of es). canon (path_join d (de_name e)) = canon active \<longrightarrow> file_size e \<le> limit"
  shows "DirShardTotalSize (without (SweepOnce canon (\<lambda>_. False) cap d active (Some (swept_view es))) es) \<le> max cap limit
    \<and> (cap = dir_size_cap (case3_cfg d k) \<and> limit = shard_size_bytes (case3_cfg d k) \<longrightarrow>
        case3_checks (case3_cfg d k) (without (SweepOnce canon (\<lambda>_. False) cap d active (Some (swept_view es))) es) = Some (Inr ()))"
proof -
  let ?es = "without (SweepOnce canon (\<lambda>_. False) cap d active (Some (swept_view es))) es"
  have "sum_list (map file_size (shards_of ?es)) \<le> max cap limit" by (rule sweep_leaves [OF es canon active])
  then have tot: "DirShardTotalSize ?es \<le> max cap limit" unfolding total_size using mod_less_eq_dividend le_trans by blast
  moreover have "case3_checks (case3_cfg d k) ?es = Some (Inr ())"
    if "cap = dir_size_cap (case3_cfg d k)" "limit = shard_size_bytes (case3_cfg d k)"
  proof -
    have "max cap limit \<le> slack_limit (case3_cfg d k)" using that by (simp add: slack_limit_def)
    then have "DirShardTotalSize ?es \<le> slack_limit (case3_cfg d k)" using tot le_trans by blast
    then show ?thesis unfolding case3_checks_def by (simp only: require_simps simp_thms)
  qed
  ultimately show ?thesis by blast
qed

text \<open>Three shards over the cap, the last one active.\<close>

definition three_shards :: "dir_entry list" where
  "three_shards = map (\<lambda>(n, k). \<lparr>de_name = n, de_regular = True, de_content = Some (replicate k 0)\<rparr>)
     [(''log-b.bin'', 6), (''log-a.bin'', 5), (''log-c.bin'', 4)]"

theorem sweep_keeps_cap_witness:
  "DirShardTotalSize (without (SweepOnce Some (\<lambda>_. False) 10 ''d'' ''d/log-c.bin'' (Some (swept_view three_shards))) three_shards) \<le> 10
   \<and> DirShardTotalSize three_shards = 15"
proof -
  have "DirShardTotalSize (without (SweepOnce Some (\<lambda>_. False) 10 ''d'' ''d/log-c.bin'' (Some (swept_view three_shards))) three_shards)
      \<le> max 10 10"
    by (rule sweep_keeps_cap [THEN conjunct1])
      (auto simp: three_shards_def answers_def file_size_def IsShardFile_def path_join_def inj_on_def)
  then show ?thesis by (simp add: total_size three_shards_def file_size_def IsShardFile_def)
qed

end
