(* ===== verification/Log_Decoder.thy ===== *)
theory Log_Decoder
  imports Shard_Reader Log_Handle
begin

text \<open>
  The offline audit tool, examples/log_decoder.cpp: argument handling, the key file, and the text and JSON
  renderings of a record. \<open>gmtime_r\<close> and the file system's answers are arguments, the decoding
  itself is that of \<open>Shard_Reader\<close>. A character is a byte of a \<open>std::string\<close>.
\<close>

section \<open>Key and fields\<close>

definition ReadPrivKey :: "string \<Rightarrow> bytes option \<Rightarrow> bytes res" where
  "ReadPrivKey path content =
     (case content of
        None \<Rightarrow> Inl (RuntimeError (''cannot open private key file: '' @ path))
      | Some raw \<Rightarrow>
          if length raw \<noteq> 32
          then Inl (RuntimeError (''server private key must be exactly 32 bytes (got '' @ dec_digits (length raw) @ '')''))
          else Inr raw)"

text \<open>The cast to an enumeration over 8 bits keeps the low byte; a value without an enumerator is printed as unknown.\<close>

definition LevelName :: "u32 \<Rightarrow> string" where
  "LevelName v =
     (case find (\<lambda>l. level_value l = unat v mod 256) [trace, debug, info, warn, error, critical, off] of
        None \<Rightarrow> ''unknown''
      | Some l \<Rightarrow> ToString l)"

definition iso_date :: "tm \<Rightarrow> string" where
  "iso_date t =
     dec_int (tm_year t + 1900) @ ''-'' @ pad_dec 2 (tm_mon t + 1) @ ''-'' @ pad_dec 2 (tm_mday t)
       @ ''T'' @ pad_dec 2 (tm_hour t) @ '':'' @ pad_dec 2 (tm_min t) @ '':'' @ pad_dec 2 (tm_sec t)"

definition FormatTimeIso :: "(int \<Rightarrow> tm) \<Rightarrow> int \<Rightarrow> string" where
  "FormatTimeIso gmtime time_ns =
     (let secs = trunc_div time_ns (10 ^ 9); sub_ns = trunc_mod time_ns (10 ^ 9)
      in iso_date (gmtime secs) @ ''.'' @ pad_dec 9 sub_ns @ ''Z'')"

section \<open>JSON\<close>

definition hex_digit :: "nat \<Rightarrow> char" where
  "hex_digit d = char_of (if d < 10 then 48 + d else 87 + d)"

text \<open>\<open>\u%04x\<close> of a byte below 32.\<close>

definition escape_char :: "char \<Rightarrow> string" where
  "escape_char c =
     (if c = CHR 0x22 then [CHR 0x5C, CHR 0x22]
      else if c = CHR 0x5C then [CHR 0x5C, CHR 0x5C]
      else if c = CHR 0x08 then CHR 0x5C # ''b''
      else if c = CHR 0x0C then CHR 0x5C # ''f''
      else if c = CHR 0x0A then CHR 0x5C # ''n''
      else if c = CHR 0x0D then CHR 0x5C # ''r''
      else if c = CHR 0x09 then CHR 0x5C # ''t''
      else if (of_char c :: nat) < 0x20
      then CHR 0x5C # ''u00'' @ [hex_digit (of_char c div 16), hex_digit (of_char c mod 16)]
      else [c])"

definition JsonEscapeAppend :: "string \<Rightarrow> string \<Rightarrow> string" where
  "JsonEscapeAppend dst s = dst @ [CHR 0x22] @ concat (map escape_char s) @ [CHR 0x22]"

section \<open>Records\<close>

definition PrintRecordText :: "(int \<Rightarrow> tm) \<Rightarrow> LogRecord \<Rightarrow> string" where
  "PrintRecordText gmtime r =
     ''['' @ FormatTimeIso gmtime (rec_time_ns r) @ ''] ['' @ LevelName (rec_level r) @ ''] [''
       @ rec_logger r @ ''] ('' @ dec_digits (rec_pid r) @ '':'' @ dec_digits (rec_tid r) @ '') ''
       @ (if rec_file r \<noteq> []
          then ''('' @ rec_file r @ '':'' @ dec_digits (unat (rec_line r))
                 @ (if rec_func r \<noteq> [] then '' '' @ rec_func r else []) @ '') ''
          else [])
       @ rec_message r @ [CHR 0x0A]"

definition json_key :: "string \<Rightarrow> string" where
  "json_key k = CHR 0x22 # k @ [CHR 0x22, CHR '':'']"

definition PrintRecordJson :: "(int \<Rightarrow> tm) \<Rightarrow> LogRecord \<Rightarrow> string" where
  "PrintRecordJson gmtime r =
     (let out = ''{'' @ json_key ''time'';
          out = JsonEscapeAppend out (FormatTimeIso gmtime (rec_time_ns r));
          out = out @ '','' @ json_key ''time_ns'' @ dec_int (rec_time_ns r) @ '','' @ json_key ''level'';
          out = JsonEscapeAppend out (LevelName (rec_level r));
          out = JsonEscapeAppend (out @ '','' @ json_key ''logger'') (rec_logger r);
          out = out @ '','' @ json_key ''pid'' @ dec_digits (rec_pid r) @ '','' @ json_key ''tid''
                    @ dec_digits (rec_tid r);
          out = JsonEscapeAppend (out @ '','' @ json_key ''file'') (rec_file r);
          out = out @ '','' @ json_key ''line'' @ dec_digits (unat (rec_line r));
          out = JsonEscapeAppend (out @ '','' @ json_key ''func'') (rec_func r);
          out = JsonEscapeAppend (out @ '','' @ json_key ''message'') (rec_message r)
      in out @ ''}'' @ [CHR 0x0A])"

section \<open>The program\<close>

text \<open>\<open>argv\<close> includes the program's name; the target is absent, a directory, a regular file or something else.\<close>

datatype target_kind = Absent | Directory | RegularFile | Other

text \<open>Exit code, standard output, and whether the usage text was printed; \<open>None\<close> when it does not return.\<close>

definition decoder_main ::
  "(int \<Rightarrow> tm) \<Rightarrow> (string \<Rightarrow> target_kind) \<Rightarrow> (string \<Rightarrow> bytes option) \<Rightarrow>
     (bytes \<Rightarrow> string \<Rightarrow> LogRecord list res option) \<Rightarrow> (bytes \<Rightarrow> string \<Rightarrow> LogRecord list res option) \<Rightarrow>
     string list \<Rightarrow> (nat \<times> string \<times> bool) option" where
  "decoder_main gmtime kind key_content decode_dir decode_file argv =
     (if length argv < 3 \<or> length argv > 4 then Some (1, [], True)
      else if length argv = 4 \<and> argv ! 3 \<noteq> ''--json'' then Some (1, [], True)
      else
        (let json_mode = (length argv = 4); target = argv ! 1; key_path = argv ! 2;
             out = (\<lambda>rs. concat (map (if json_mode then PrintRecordJson gmtime else PrintRecordText gmtime) rs))
         in if kind target = Absent then Some (1, [], False)
            else case ReadPrivKey key_path (key_content key_path) of
                   Inl e \<Rightarrow> Some (1, [], False)
                 | Inr priv \<Rightarrow>
                     (case (case kind target of
                              Directory \<Rightarrow> decode_dir priv target
                            | RegularFile \<Rightarrow> decode_file priv target
                            | _ \<Rightarrow> Some (Inl (RuntimeError (''target is neither file nor directory: '' @ target)))) of
                        None \<Rightarrow> None
                      | Some (Inl e) \<Rightarrow> Some (1, [], False)
                      | Some (Inr rs) \<Rightarrow> Some (0, out rs, False))))"

section \<open>Reading the JSON back\<close>

text \<open>The reference: a JSON string's closing quote and escapes, as RFC 8259 defines those the tool uses.\<close>

definition hex_value :: "char \<Rightarrow> nat" where
  "hex_value c = (if (of_char c :: nat) < 58 then of_char c - 48 else of_char c - 87)"

fun json_string :: "string \<Rightarrow> (string \<times> string) option" where
  "json_string [] = None"
| "json_string (c # cs) =
     (if c = CHR 0x22 then Some ([], cs)
      else if c \<noteq> CHR 0x5C
      then (if (of_char c :: nat) < 0x20 then None else map_option (apfst ((#) c)) (json_string cs))
      else case cs of
        e # ds \<Rightarrow>
          if e = CHR 0x22 \<or> e = CHR 0x5C then map_option (apfst ((#) e)) (json_string ds)
          else if e = CHR ''b'' then map_option (apfst ((#) (CHR 0x08))) (json_string ds)
          else if e = CHR ''f'' then map_option (apfst ((#) (CHR 0x0C))) (json_string ds)
          else if e = CHR ''n'' then map_option (apfst ((#) (CHR 0x0A))) (json_string ds)
          else if e = CHR ''r'' then map_option (apfst ((#) (CHR 0x0D))) (json_string ds)
          else if e = CHR ''t'' then map_option (apfst ((#) (CHR 0x09))) (json_string ds)
          else if e = CHR ''u''
          then (case ds of
                  a # b # x # y # es \<Rightarrow>
                    map_option (apfst ((#) (char_of (4096 * hex_value a + 256 * hex_value b
                       + 16 * hex_value x + hex_value y)))) (json_string es)
                | _ \<Rightarrow> None)
          else None
      | [] \<Rightarrow> None)"

declare json_string.simps(2) [simp del]

lemma hex_roundtrip: "d < 16 \<Longrightarrow> hex_value (hex_digit d) = d"
  by (auto simp: hex_value_def hex_digit_def)

lemma json_escape_step:
  "json_string (escape_char c @ rest) = map_option (apfst ((#) c)) (json_string rest)"
proof -
  consider "c \<in> {CHR 0x22, CHR 0x5C, CHR 0x08, CHR 0x0C, CHR 0x0A, CHR 0x0D, CHR 0x09}"
    | "c \<notin> {CHR 0x22, CHR 0x5C, CHR 0x08, CHR 0x0C, CHR 0x0A, CHR 0x0D, CHR 0x09}" "(of_char c :: nat) < 0x20"
    | "c \<notin> {CHR 0x22, CHR 0x5C}" "\<not> (of_char c :: nat) < 0x20" by blast
  then show ?thesis
  proof cases
    case 1
    then show ?thesis by (auto simp: escape_char_def json_string.simps(2))
  next
    case 2
    have "hex_value (CHR ''0'') = 0" by (simp add: hex_value_def)
    moreover have "hex_value (hex_digit (of_char c div 16)) = of_char c div 16"
      and "hex_value (hex_digit (of_char c mod 16)) = of_char c mod 16"
      using 2 by (auto intro: hex_roundtrip)
    moreover have "(of_char c div 16) * 16 + of_char c mod 16 = (of_char c :: nat)" by simp
    ultimately show ?thesis
      using 2 by (simp add: escape_char_def json_string.simps(2) mult.commute)
  next
    case 3
    then have "escape_char c = [c]" by (auto simp: escape_char_def)
    with 3 show ?thesis by (simp add: json_string.simps(2))
  qed
qed

section \<open>Printable output\<close>

definition printable :: "string \<Rightarrow> bool" where
  "printable s \<longleftrightarrow> list_all (\<lambda>c. 0x20 \<le> (of_char c :: nat)) s"

lemma printable_simps [simp]:
  "printable []" "printable (c # s) \<longleftrightarrow> 0x20 \<le> (of_char c :: nat) \<and> printable s"
  "printable (s @ t) \<longleftrightarrow> printable s \<and> printable t"
  by (auto simp: printable_def)

lemma printable_digit [simp]: "32 \<le> (of_char (digit_char n) :: nat)"
  by (simp add: of_digit_char)

lemma printable_digits [simp]: "printable (dec_digits n)"
  by (induction n rule: dec_digits.induct) (subst dec_digits.simps, simp)

lemma printable_int [simp]: "printable (dec_int i)"
  by (simp add: dec_int_def)

lemma printable_hex: "d < 16 \<Longrightarrow> 32 \<le> (of_char (hex_digit d) :: nat)"
  by (simp add: hex_digit_def)

lemma printable_escape: "printable (concat (map escape_char s))"
proof (induction s)
  case (Cons c s)
  have "printable (escape_char c)"
    by (auto simp: escape_char_def intro!: printable_hex)
  with Cons show ?case by simp
qed simp

lemma printable_json [simp]: "printable (JsonEscapeAppend dst s) \<longleftrightarrow> printable dst"
  by (simp add: JsonEscapeAppend_def printable_escape)

lemma printable_key [simp]: "printable (json_key k) \<longleftrightarrow> printable k"
  by (simp add: json_key_def)

lemma json_string_escaped:
  "json_string (concat (map escape_char s) @ CHR 0x22 # rest) = Some (s, rest)"
  by (induction s) (simp_all add: json_escape_step json_string.simps(2))

section \<open>Properties\<close>

text \<open>
  JSON strings read back: what \<open>JsonEscapeAppend\<close> adds is a quoted string that a reader of RFC 8259
  strings ends at its closing quote and decodes to exactly the bytes given, whatever follows
  and whatever control characters, quotes or backslashes they contain.
\<close>

theorem json_escape_roundtrip:
  "\<exists>quoted. JsonEscapeAppend dst s @ rest = dst @ CHR 0x22 # quoted \<and> json_string quoted = Some (s, rest)"
  by (simp add: JsonEscapeAppend_def json_string_escaped)

text \<open>
  One record, one line: the JSON rendering of any record, also one whose message, names or paths
  contain newlines, consists of characters from 32 upwards followed by a single newline.
\<close>

theorem json_record_is_one_line:
  "\<exists>line. PrintRecordJson gmtime r = line @ [CHR 0x0A] \<and> printable line \<and> CHR 0x0A \<notin> set line"
proof -
  have p: "printable s \<Longrightarrow> CHR 0x0A \<notin> set s" for s
    by (induction s) auto
  define line where "line = butlast (PrintRecordJson gmtime r)"
  have "PrintRecordJson gmtime r = line @ [CHR 0x0A]"
    unfolding line_def by (simp add: PrintRecordJson_def Let_def butlast_append)
  moreover have "printable line"
    unfolding line_def by (simp add: PrintRecordJson_def Let_def butlast_append)
  ultimately show ?thesis using p by blast
qed

text \<open>
  The ISO time is right from the epoch on and malformed before it: for a time not before the
  epoch the fraction has nine digits and belongs to the second printed; for one before it that is
  not a whole second, the remainder is negative and a minus sign is printed behind the
  decimal point.
\<close>

theorem iso_time_fraction:
  "if 0 \<le> t
   then FormatTimeIso gmtime t
     = iso_date (gmtime (t div 10 ^ 9)) @ ''.'' @ fixed_digits 9 (nat (t mod 10 ^ 9)) @ ''Z''
   else t mod 10 ^ 9 = 0
     \<or> (\<exists>ds. FormatTimeIso gmtime t = iso_date (gmtime (t div 10 ^ 9 + 1)) @ ''.-'' @ ds @ ''Z'')"
proof (cases "0 \<le> t")
  case True
  then have "trunc_div t (10 ^ 9) = t div 10 ^ 9" by (cases "t = 0") (simp_all add: trunc_div_def)
  moreover have "t - t div 10 ^ 9 * 10 ^ 9 = t mod 10 ^ 9" by (simp add: minus_div_mult_eq_mod)
  moreover have "pad_dec 9 (t mod 10 ^ 9) = fixed_digits 9 (nat (t mod 10 ^ 9))"
    using pad_dec_fixed [of "nat (t mod 10 ^ 9)" 9] by (simp add: nat_less_iff)
  ultimately show ?thesis using True by (simp add: FormatTimeIso_def trunc_mod_def)
next
  case False
  show ?thesis
  proof (cases "t mod 10 ^ 9 = 0")
    case nz: False
    have q: "trunc_div t (10 ^ 9) = t div 10 ^ 9 + 1"
      using False nz by (simp add: trunc_div_def zdiv_zminus1_eq_if)
    have "trunc_mod t (10 ^ 9) = t mod 10 ^ 9 - 10 ^ 9"
      unfolding trunc_mod_def q using div_mult_mod_eq [of t "10 ^ 9"] by (simp add: algebra_simps)
    moreover have "t mod 10 ^ 9 < (10 ^ 9 :: int)" by simp
    ultimately have "trunc_mod t (10 ^ 9) < 0" by linarith
    then show ?thesis
      using False q by (auto simp: FormatTimeIso_def pad_dec_def Let_def)
  qed (use False in simp)
qed

text \<open>
  Exit codes: the tool exits with 0 exactly when its arguments are well-formed, the key file holds 32 bytes
  and the target decodes, and then it has printed one rendering per record, in order;
  in every other case in which it returns it exits with 1 and prints nothing on standard
  output.
\<close>

theorem decoder_exit_codes:
  "case decoder_main gmtime kind key_content decode_dir decode_file argv of
     None \<Rightarrow> kind (argv ! 1) = Directory \<or> kind (argv ! 1) = RegularFile
   | Some (code, out, usage) \<Rightarrow>
       (if code = 0
        then \<not> usage \<and> (length argv = 3 \<or> length argv = 4 \<and> argv ! 3 = ''--json'')
          \<and> (\<exists>priv rs. key_content (argv ! 2) = Some priv \<and> length priv = 32
              \<and> (kind (argv ! 1) = Directory \<and> decode_dir priv (argv ! 1) = Some (Inr rs)
                 \<or> kind (argv ! 1) = RegularFile \<and> decode_file priv (argv ! 1) = Some (Inr rs))
              \<and> out = concat (map (if length argv = 4 then PrintRecordJson gmtime else PrintRecordText gmtime) rs))
        else code = 1 \<and> out = [])"
  by (auto simp: decoder_main_def ReadPrivKey_def Let_def
      split: if_splits option.splits sum.splits target_kind.splits)

end
