(* ===== verification/Demo_Program.thy ===== *)
theory Demo_Program
  imports Eviction_Test Log_Decoder Context
begin

text \<open>
  \<open>examples/encrypted_logging_demo.cpp\<close>: what the demonstration logs through the macros and the handle, how it
  configures the context and the sink, which files it lists and what it prints of them and of the records it decodes. The clock, the
  calendar and the file system's replies are arguments; the fixed explanations it prints are left out. Shown: it
  recovers every record, and what its sample shows.
\<close>

section \<open>The run directory and the keys\<close>

definition kDemoRoot :: string where
  "kDemoRoot = ''D:/logger_high/demo_logs''"

definition kNumRecords :: nat where
  "kNumRecords = 200000"

definition MakeRunDir :: "stamp \<Rightarrow> string" where
  "MakeRunDir t =
     path_join kDemoRoot (''run-'' @ pad_dec 4 (yr t) @ pad_dec 2 (mo t) @ pad_dec 2 (dy t) @ ''-''
       @ pad_dec 2 (hr t) @ pad_dec 2 (mi t) @ pad_dec 2 (sc t) @ ''-'' @ pad_dec 3 (ms t))"

text \<open>The bytes of the new file; \<open>created\<close> says whether it could be created.\<close>

definition WriteFileBytes :: "bool \<Rightarrow> string \<Rightarrow> bytes \<Rightarrow> bytes res" where
  "WriteFileBytes created p bs = (if \<not> created then Inl (RuntimeError (''cannot create '' @ p)) else Inr bs)"

section \<open>The pipeline\<close>

definition demo_pool_cfg :: pool_cfg where
  "demo_pool_cfg = \<lparr>min_threads = 2, max_threads = 4, scale_factor = 2\<rparr>"

definition demo_cfg :: "string \<Rightarrow> EffectiveSinkConfig" where
  "demo_cfg d =
     (default_config d (path_join d ''server.pub''))\<lparr>shard_size_bytes := 4 * 1024 * 1024, dir_size_cap := 512 * 1024 * 1024,
        eviction_interval := 60, mmap_buffer_bytes := 1024 * 1024, mmap_min_buffers := 2, mmap_max_buffers := 8,
        back_pressure_timeout := 1000, zlib_level := 6\<rparr>"

definition SetLevel :: "LogLevel \<Rightarrow> 's handle \<Rightarrow> 's handle" where
  "SetLevel l h = h\<lparr>hlevel := l\<rparr>"

text \<open>The dash of the message, in UTF-8.\<close>

definition demo_body :: "nat \<Rightarrow> string" where
  "demo_body i = ''demo record #'' @ dec_digits i @ '' '' @ [CHR 0xE2, CHR 0x80, CHR 0x94]
     @ '' payload bytes get proto-serialized, zlib-compressed, AES-GCM-encrypted''"

definition demo_level :: "nat \<Rightarrow> LogLevel" where
  "demo_level i = (if i mod 3 = 0 then LogLevel.info else if i mod 3 = 1 then LogLevel.warn else LogLevel.error)"

text \<open>The loop over the macros: the clock at each call, and the place of the macro that the level selects.\<close>

definition demo_calls :: "(nat \<Rightarrow> int) \<Rightarrow> (LogLevel \<Rightarrow> SourceLocation) \<Rightarrow> nat \<Rightarrow> log_call list" where
  "demo_calls now at n = map (\<lambda>i. (now i, demo_level i, at (demo_level i), demo_body i)) [0..<n]"

definition demo_handle :: "'s \<Rightarrow> 's handle" where
  "demo_handle sink = SetLevel LogLevel.trace (LogHandle1 ''demo'' (Some sink))"

text \<open>The sink as the handle sees it: the messages it has been given. Its \<open>Log\<close> and \<open>Flush\<close> return normally.\<close>

definition record_log :: "LogMsg list \<Rightarrow> LogMsg \<Rightarrow> LogMsg list \<times> unit res" where
  "record_log s m = (s @ [m], Inr ())"

definition record_flush :: "LogMsg list \<Rightarrow> LogMsg list \<times> unit res" where
  "record_flush s = (s, Inr ())"

definition demo_msgs :: "(nat \<Rightarrow> int) \<Rightarrow> (LogLevel \<Rightarrow> SourceLocation) \<Rightarrow> nat \<Rightarrow> LogMsg list" where
  "demo_msgs now at n = concat (hsinks (handle_calls record_log record_flush (demo_calls now at n) (demo_handle [])))"

interpretation recorder: log_sink record_log record_flush "\<lambda>s. s" "\<lambda>m. [m]"
  by unfold_locales (simp_all add: record_log_def record_flush_def)

lemma demo_msgs_eq:
  "demo_msgs now at n = map (\<lambda>i. \<lparr>msg_level = demo_level i, msg_time = now i, msg_logger = ''demo'',
     msg_loc = at (demo_level i), msg_text = demo_body i\<rparr>) [0..<n]"
proof -
  have all: "filter (\<lambda>(now, level, loc, body). LogLevel.trace \<le> level) (demo_calls now at n) = demo_calls now at n"
    by (simp add: demo_calls_def filter_id_conv less_eq_LogLevel_def)
  have "hsinks (handle_calls record_log record_flush (demo_calls now at n) (demo_handle []))
      = [concat (map (\<lambda>m. [m]) (passing LogLevel.trace ''demo'' (demo_calls now at n)))]"
    using recorder.calls_reach_all [of "demo_calls now at n" "demo_handle []"]
    by (simp add: demo_handle_def SetLevel_def LogHandle1_def LogHandle_def)
  then show ?thesis
    by (simp add: demo_msgs_def passing_def all) (simp add: demo_calls_def comp_def)
qed

section \<open>What is printed\<close>

text \<open>Shards are listed as the end-to-end test lists them; of the other names those of the buffers are kept.\<close>

definition LooksLikeCache :: "string \<Rightarrow> bool" where
  "LooksLikeCache name \<longleftrightarrow> 12 < length name \<and> take 7 name = ''buffer-'' \<and> drop (length name - 5) name = ''.mmap''"

definition demo_caches :: "dir_entry list \<Rightarrow> dir_entry list" where
  "demo_caches es = sort_key de_name (filter (\<lambda>e. de_regular e \<and> \<not> IsShardFile (de_name e) \<and> LooksLikeCache (de_name e)) es)"

definition file_lines :: "string \<Rightarrow> string \<Rightarrow> dir_entry list \<Rightarrow> string" where
  "file_lines d what es =
     concat (map (\<lambda>e. ''        '' @ path_join d (de_name e) @ ''   ('' @ dec_digits (file_size e) @ '' bytes)'' @ [CHR 0x0A]) es)
     @ ''        ---- subtotal: '' @ dec_digits (subtotal es) @ '' bytes across '' @ dec_digits (length es) @ '' '' @ what @ [CHR 0x0A]"

definition demo_files :: "string \<Rightarrow> dir_entry list \<Rightarrow> string \<times> string" where
  "demo_files d es = (file_lines d ''shard(s)'' (ListShards es), file_lines d ''cache buffer(s)'' (demo_caches es))"

text \<open>\<open>c_str\<close>: \<open>printf\<close> stops at the first zero byte.\<close>

definition c_str :: "string \<Rightarrow> string" where
  "c_str s = takeWhile (\<lambda>c. c \<noteq> CHR 0x00) s"

definition sample_lines :: "LogRecord list \<Rightarrow> string" where
  "sample_lines recs =
     ''[4/4] in-process decode round-trip: '' @ dec_digits (length recs) @ '' records recovered.'' @ [CHR 0x0A]
     @ ''        sample (first 3 lines):'' @ [CHR 0x0A]
     @ concat (map (\<lambda>r. ''          ['' @ c_str (LevelName (rec_level r)) @ ''] '' @ c_str (rec_message r) @ [CHR 0x0A]) (take 3 recs))"

section \<open>The round trip\<close>

lemma level_name: "LevelName (of_nat (level_value l)) = ToString l"
  by (cases l) (simp_all add: LevelName_def)

lemma digits_no_zero: "CHR 0x00 \<notin> set (dec_digits n)"
  using digit_codes [of "CHR 0x00" n] by auto

lemma c_str_same: "CHR 0x00 \<notin> set s \<Longrightarrow> c_str s = s"
  by (auto simp: c_str_def takeWhile_eq_all_conv)

lemma c_str_demo: "c_str (ToString l) = ToString l" "c_str (demo_body i) = demo_body i"
  by (cases l; simp add: c_str_def) (rule c_str_same, use digits_no_zero in \<open>auto simp: demo_body_def\<close>)

lemma demo_record:
  assumes "i < n"
  shows "rec_level (map (make_record pid tid) (demo_msgs now at n) ! i) = of_nat (level_value (demo_level i))
    \<and> rec_message (map (make_record pid tid) (demo_msgs now at n) ! i) = demo_body i
    \<and> rec_logger (map (make_record pid tid) (demo_msgs now at n) ! i) = ''demo''"
  using assms by (simp add: demo_msgs_eq make_record_def Let_def)

text \<open>The names the store gives its buffer files.\<close>

lemma cache_names:
  "\<exists>nm. BuildBufferPath d seq = path_join d nm \<and> LooksLikeCache nm \<and> \<not> IsShardFile nm"
proof (intro exI conjI)
  let ?nm = "''buffer-'' @ pad_dec 6 (int seq) @ ''.mmap''"
  show "BuildBufferPath d seq = path_join d ?nm" by (simp add: BuildBufferPath_def)
  have "6 \<le> length (pad_dec 6 (int seq))" by (simp add: pad_dec_def Let_def)
  moreover have "drop (length (''buffer-'' @ pad_dec 6 (int seq))) ((''buffer-'' @ pad_dec 6 (int seq)) @ ''.mmap'') = ''.mmap''"
    by (metis append_eq_conv_conj)
  ultimately show "LooksLikeCache ?nm" by (auto simp: LooksLikeCache_def)
  show "\<not> IsShardFile ?nm" by (simp add: IsShardFile_def)
qed

text \<open>
  The demonstration shows what it logged. Whatever the clock and the places of the macros are, when its session is over the
  directory decodes, with the private key, to its \<open>n\<close> records: level, logger and text of each are those of the call, in the order
  of the calls, so the sample it prints is that of the first three calls. The shards it lists are those that are decoded, their
  subtotal is the sum of their sizes, no file is listed both as a shard and as a cache, and the store's buffer files are caches.
\<close>

theorem demo_shows_its_records:
  assumes doc: "documented L" and srv: "length srv = 32"
    and run: "session L (demo_cfg d) (MakeAuditKeypair L srv) eph (demo_msgs now at n) es"
  shows "\<exists>recs. DecodeShardDir (\<lambda>p b. DecodeShardFile (l_agree L) (l_hkdf L) (l_dec L) (l_infl L) (Z_OK, l_i0 L) (l_parse L) rnd p b srv)
        d (Some es) = Some (Inr recs)
      \<and> length recs = n
      \<and> (\<forall>i<n. rec_level (recs ! i) = of_nat (level_value (demo_level i)) \<and> rec_message (recs ! i) = demo_body i
            \<and> rec_logger (recs ! i) = ''demo'')
      \<and> sample_lines recs =
          ''[4/4] in-process decode round-trip: '' @ dec_digits n @ '' records recovered.'' @ [CHR 0x0A]
          @ ''        sample (first 3 lines):'' @ [CHR 0x0A]
          @ concat (map (\<lambda>i. ''          ['' @ ToString (demo_level i) @ ''] '' @ demo_body i @ [CHR 0x0A]) [0..<min 3 n])
    \<and> ListShards es = shard_entries es \<and> subtotal (ListShards es) = sum_list (map file_size (ListShards es)) mod 2 ^ 64
    \<and> set (ListShards es) \<inter> set (demo_caches es) = {}
    \<and> (\<exists>nm. BuildBufferPath d seq = path_join d nm \<and> LooksLikeCache nm \<and> \<not> IsShardFile nm)"
proof -
  let ?recs = "map (make_record (l_pid L) (l_tid L)) (demo_msgs now at n)"
  have dir: "log_dir (demo_cfg d) = d" by (simp add: demo_cfg_def default_config_def)
  have len: "length ?recs = n" by (simp add: demo_msgs_eq)
  have "take 3 ?recs = map (\<lambda>i. ?recs ! i) [0..<min 3 n]"
    using len by (intro nth_equalityI) auto
  then have "map (\<lambda>r. ''          ['' @ c_str (LevelName (rec_level r)) @ ''] '' @ c_str (rec_message r) @ [CHR 0x0A]) (take 3 ?recs)
      = map (\<lambda>i. ''          ['' @ ToString (demo_level i) @ ''] '' @ demo_body i @ [CHR 0x0A]) [0..<min 3 n]"
    by (simp only: map_map) (rule map_cong [OF refl], simp add: demo_record level_name c_str_demo)
  then have "sample_lines ?recs =
          ''[4/4] in-process decode round-trip: '' @ dec_digits n @ '' records recovered.'' @ [CHR 0x0A]
          @ ''        sample (first 3 lines):'' @ [CHR 0x0A]
          @ concat (map (\<lambda>i. ''          ['' @ ToString (demo_level i) @ ''] '' @ demo_body i @ [CHR 0x0A]) [0..<min 3 n])"
    unfolding sample_lines_def len by (simp only:)
  moreover have "set (ListShards es) \<inter> set (demo_caches es) = {}" by (auto simp: ListShards_def demo_caches_def)
  ultimately show ?thesis
    using session_decodes(1) [OF run doc srv, of rnd] len demo_record [of _ n "l_pid L" "l_tid L" now at]
    cache_names [of d seq] subtotal_sum [of "ListShards es"]
    unfolding dir by (intro conjI exI [of _ ?recs]) (simp_all add: entries_eq)
qed


text \<open>Four records, through the stand-ins for the libraries.\<close>

definition four_msgs :: "LogMsg list" where
  "four_msgs = demo_msgs int (\<lambda>l. \<lparr>loc_file = Some ''demo.cpp'', loc_line = int (150 + level_value l), loc_func = None\<rparr>) 4"

theorem demo_shows_its_records_witness:
  "\<exists>es recs. session (demo_libs (map (make_record 1 2) four_msgs)) (demo_cfg ''d'')
        (MakeAuditKeypair (demo_libs (map (make_record 1 2) four_msgs)) (replicate 32 2)) [] four_msgs es
     \<and> length recs = 4 \<and> sample_lines recs =
          ''[4/4] in-process decode round-trip: '' @ dec_digits 4 @ '' records recovered.'' @ [CHR 0x0A]
          @ ''        sample (first 3 lines):'' @ [CHR 0x0A]
          @ concat (map (\<lambda>i. ''          ['' @ ToString (demo_level i) @ ''] '' @ demo_body i @ [CHR 0x0A]) [0..<min 3 4])"
proof -
  let ?L = "demo_libs (map (make_record 1 2) four_msgs)" and ?at = "\<lambda>l. \<lparr>loc_file = Some ''demo.cpp'', loc_line = int (150 + level_value l), loc_func = None\<rparr>"
  have n: "length four_msgs = 4" by (simp add: four_msgs_def demo_msgs_eq)
  have cf: "mmap_min_buffers (demo_cfg ''d'') = 2" "16 * 1024 \<le> mmap_buffer_bytes (demo_cfg ''d'')"
    "mmap_buffer_bytes (demo_cfg ''d'') \<le> 2 ^ 32" "zlib_level (demo_cfg ''d'') = 6" "64 * 1024 \<le> shard_size_bytes (demo_cfg ''d'')"
    by (simp_all add: demo_cfg_def)
  have "length four_msgs \<le> 100" "length (map (make_record 1 2) four_msgs) \<le> 20"
      "make_record 1 2 ` set four_msgs \<subseteq> set (map (make_record 1 2) four_msgs)" using n by simp_all
  from demo_session [OF cf this, of "replicate 32 2" "[]"] obtain es where
    es: "session ?L (demo_cfg ''d'') (MakeAuditKeypair ?L (replicate 32 2)) [] four_msgs es" by blast
  from demo_shows_its_records [OF demo_documented _ es [unfolded four_msgs_def], of "[]" 0]
  show ?thesis using es by auto
qed


section \<open>The greeting\<close>

text \<open>\<open>examples/hello.cpp\<close>: one line per level on the console; the two last calls flush, and so does the program.\<close>

definition SetFlushLevel :: "LogLevel \<Rightarrow> 's handle \<Rightarrow> 's handle" where
  "SetFlushLevel l h = h\<lparr>hflush_level := l\<rparr>"

definition hello_handle :: "console handle" where
  "hello_handle = SetFlushLevel LogLevel.error (SetLevel LogLevel.trace (LogHandle1 ''hello'' (Some \<lparr>written = [], flushed = 0\<rparr>)))"

definition hello_calls :: "(LogLevel \<Rightarrow> int) \<Rightarrow> (LogLevel \<Rightarrow> SourceLocation) \<Rightarrow> log_call list" where
  "hello_calls now at = map (\<lambda>(l, body). (now l, l, at l, body))
     [(LogLevel.trace, ''trace line''), (LogLevel.debug, ''debug line''), (LogLevel.info, ''info line''), (LogLevel.warn, ''warn line''),
      (LogLevel.error, ''error line''), (LogLevel.critical, ''critical line'')]"

definition hello_main :: "(LogMsg \<Rightarrow> string \<Rightarrow> string) \<Rightarrow> (LogLevel \<Rightarrow> int) \<Rightarrow> (LogLevel \<Rightarrow> SourceLocation) \<Rightarrow> console handle \<times> unit res" where
  "hello_main format now at = HandleFlush ConsoleFlush (handle_calls (ConsoleLog format) ConsoleFlush (hello_calls now at) hello_handle)"

text \<open>All six lines are written, in order, and flushed.\<close>

lemma hello_prints:
  "\<exists>h. hello_main format now at = (h, Inr ())
    \<and> hsinks h = [(let out = concat (map (\<lambda>m. format m [] @ [CHR 0x0A]) (passing LogLevel.trace ''hello'' (hello_calls now at)))
                    in \<lparr>written = out, flushed = length out\<rparr>)]
    \<and> length (passing LogLevel.trace ''hello'' (hello_calls now at)) = 6"
proof -
  let ?h = "handle_calls (ConsoleLog format) ConsoleFlush (hello_calls now at) hello_handle"
  have "map written (hsinks ?h) = [concat (map (\<lambda>m. format m [] @ [CHR 0x0A]) (passing LogLevel.trace ''hello'' (hello_calls now at)))]"
    using console_sink.calls_reach_all [of format "hello_calls now at" hello_handle]
    by (simp add: hello_handle_def SetLevel_def SetFlushLevel_def LogHandle1_def LogHandle_def)
  then obtain c where "hsinks ?h = [c]"
      "written c = concat (map (\<lambda>m. format m [] @ [CHR 0x0A]) (passing LogLevel.trace ''hello'' (hello_calls now at)))"
    by (auto simp: map_eq_Cons_conv)
  then show ?thesis
    by (simp add: hello_main_def HandleFlush_def ConsoleFlush_def Let_def) (simp add: hello_calls_def less_eq_LogLevel_def)
qed

end
